(* ===== verification/Prelude.thy ===== *)
theory Prelude
  imports Main "HOL-Library.Word"
begin

unbundle bit_operations_syntax

text \<open>
  Shared vocabulary of the development: the machine integer types of the C sources, the
  outcome of a C fragment that may block on input or run outside its buffer, byte-buffer
  writes (the model of \<open>memcpy\<close> and of indexed stores), and the generic list and word
  lemmas the components use. The collections \<open>outcome_simps\<close> and \<open>buffer_simps\<close> carry
  the automation of the component theories.
\<close>

named_theorems outcome_simps \<open>unfolding of sequenced outcomes\<close>
named_theorems buffer_simps \<open>facts on writes into byte buffers\<close>

type_synonym u8 = "8 word"
type_synonym u16 = "16 word"
type_synonym u32 = "32 word"
type_synonym bytes = "u8 list"

section \<open>Outcomes of C fragments\<close>

text \<open>
  \<open>Ok\<close> is a normal return, \<open>Blocked\<close> a system call that waits for input that never
  comes, \<open>Fault\<close> an access outside an array (undefined behaviour in C).
\<close>

datatype 'a outcome = Ok 'a | Blocked | Fault

primrec obind :: "'a outcome \<Rightarrow> ('a \<Rightarrow> 'b outcome) \<Rightarrow> 'b outcome" where
  "obind (Ok x) f = f x"
| "obind Blocked f = Blocked"
| "obind Fault f = Fault"

declare obind.simps [outcome_simps]

lemma obind_eq_Ok [outcome_simps]:
  "obind m f = Ok y \<longleftrightarrow> (\<exists>x. m = Ok x \<and> f x = Ok y)"
  by (cases m) auto

lemma obind_assoc: "obind (obind m f) g = obind m (\<lambda>x. obind (f x) g)"
  by (cases m) auto

section \<open>Byte buffers\<close>

text \<open>\<open>blit buf off src\<close> is \<open>memcpy(buf + off, src, length src)\<close> inside the buffer.\<close>

definition blit :: "'a list \<Rightarrow> nat \<Rightarrow> 'a list \<Rightarrow> 'a list" where
  "blit buf off src = take off buf @ src @ drop (off + length src) buf"

lemma length_blit [simp, buffer_simps]:
  "off + length src \<le> length buf \<Longrightarrow> length (blit buf off src) = length buf"
  by (simp add: blit_def)

lemma blit_Nil [simp]: "blit buf off [] = buf"
  by (simp add: blit_def)

lemma take_blit [buffer_simps]:
  "off + length src \<le> length buf \<Longrightarrow> n \<le> off \<Longrightarrow> take n (blit buf off src) = take n buf"
  by (simp add: blit_def min_def)

lemma take_blit_through [buffer_simps]:
  "off + length src \<le> length buf \<Longrightarrow>
   take (off + length src) (blit buf off src) = take off buf @ src"
  by (simp add: blit_def)

lemma drop_blit [buffer_simps]:
  "off + length src \<le> length buf \<Longrightarrow> off + length src \<le> n \<Longrightarrow>
   drop n (blit buf off src) = drop n buf"
  by (simp add: blit_def)

lemma blit_read_back:
  "off + length src \<le> length buf \<Longrightarrow> take (length src) (drop off (blit buf off src)) = src"
  by (simp add: blit_def)

lemma blit_0_full: "length src = length buf \<Longrightarrow> blit buf 0 src = src"
  by (simp add: blit_def)

lemma nth_blit:
  assumes "off + length src \<le> length buf" and "i < length buf"
  shows "blit buf off src ! i =
    (if off \<le> i \<and> i < off + length src then src ! (i - off) else buf ! i)"
  using assms by (auto simp: blit_def nth_append)

lemma blit_snoc:
  assumes "off + length src < length buf"
  shows "(blit buf off src)[off + length src := c] = blit buf off (src @ [c])"
proof -
  have "drop (off + length src) buf =
      buf ! (off + length src) # drop (Suc (off + length src)) buf"
    using assms by (rule Cons_nth_drop_Suc [symmetric])
  then show ?thesis
    using assms by (simp add: blit_def list_update_append)
qed

lemma blit_blit:
  "m = off + length xs \<Longrightarrow> m \<le> length buf \<Longrightarrow> blit (blit buf off xs) m ys = blit buf off (xs @ ys)"
  by (simp add: blit_def ac_simps)

lemma blit_append:
  "off = length a \<Longrightarrow> length src = length b \<Longrightarrow> blit (a @ b @ c) off src = a @ src @ c"
  by (simp add: blit_def)

lemma blit_single: "i < length buf \<Longrightarrow> blit buf i [c] = buf[i := c]"
  by (simp add: blit_def upd_conv_take_nth_drop)

text \<open>An indexed store that faults outside the array, and an indexed load.\<close>

definition store :: "'a list \<Rightarrow> nat \<Rightarrow> 'a \<Rightarrow> 'a list outcome" where
  "store buf i v = (if i < length buf then Ok (buf[i := v]) else Fault)"

definition load :: "'a list \<Rightarrow> nat \<Rightarrow> 'a outcome" where
  "load buf i = (if i < length buf then Ok (buf ! i) else Fault)"

lemma store_eq_Ok [outcome_simps]:
  "store buf i v = Ok buf' \<longleftrightarrow> i < length buf \<and> buf' = buf[i := v]"
  by (auto simp: store_def)

lemma load_eq_Ok [outcome_simps]:
  "load buf i = Ok v \<longleftrightarrow> i < length buf \<and> v = buf ! i"
  by (auto simp: load_def)

lemma store_in [simp]: "i < length buf \<Longrightarrow> store buf i v = Ok (buf[i := v])"
  by (simp add: store_def)

lemma load_in [simp]: "i < length buf \<Longrightarrow> load buf i = Ok (buf ! i)"
  by (simp add: load_def)

section \<open>Lists and words\<close>

lemma take_Suc_nth: "n < length xs \<Longrightarrow> take (Suc n) xs = take n xs @ [xs ! n]"
  by (rule take_Suc_conv_app_nth)

lemma take_take_append [simp]: "take n (take n xs @ ys) = take n (xs @ ys)"
  by (cases "length xs \<le> n") auto

lemma take_drop_split:
  "k \<le> n \<Longrightarrow> take k (drop m xs) @ take (n - k) (drop (m + k) xs) = take n (drop m xs)"
  using take_add [of k "n - k" "drop m xs"] by (simp add: add.commute)

lemma sum_list_map_take_Suc:
  "n < length xs \<Longrightarrow> sum_list (map f (take (Suc n) xs)) = sum_list (map f (take n xs)) + f (xs ! n)"
  for f :: "'a \<Rightarrow> 'b :: comm_monoid_add"
  by (simp add: take_Suc_nth)

lemma unat_u8_less [simp]: "unat (x :: u8) < 256"
  using unsigned_less [of x] by simp

lemma unat_u16_less [simp]: "unat (x :: u16) < 65536"
  using unsigned_less [of x] by simp

lemma unat_u32_less [simp]: "unat (x :: u32) < 4294967296"
  using unsigned_less [of x] by simp

lemma sum_list_unat_le: "sum_list (map unat (xs :: bytes)) \<le> 255 * length xs"
proof (induction xs)
  case (Cons x xs)
  have "unat x \<le> 255" using unat_u8_less [of x] by linarith
  with Cons.IH show ?case by simp
qed simp

end
