(* ===== verification/Slip.thy ===== *)
theory Slip
  imports Prelude
begin

text \<open>
  \<^verbatim>\<open>slip.c\<close>: RFC 1055 framing (\<open>send_packet\<close>, \<open>recv_packet\<close>). The three copies of the
  file in the repository (firmware, TAP bridge, lwIP host) have the same two functions, so
  they are modelled once, over the character device they are linked with: \<open>send_char\<close>,
  \<open>send_char_do\<close> and \<open>recv_char\<close> are arguments acting on the state of that device. The
  locales \<open>char_sink\<close> and \<open>char_source\<close> are the contract between the framing and the
  device; the UART theories interpret them.
\<close>

section \<open>Special characters\<close>

definition END :: u8 where "END = 0xC0"
definition ESC :: u8 where "ESC = 0xDB"
definition ESC_END :: u8 where "ESC_END = 0xDC"
definition ESC_ESC :: u8 where "ESC_ESC = 0xDD"

lemmas slip_chars = END_def ESC_def ESC_END_def ESC_ESC_def

lemma slip_chars_distinct [simp]:
  "END \<noteq> ESC" "ESC \<noteq> END" "END \<noteq> ESC_END" "ESC_END \<noteq> END" "END \<noteq> ESC_ESC" "ESC_ESC \<noteq> END"
  "ESC \<noteq> ESC_END" "ESC_END \<noteq> ESC" "ESC \<noteq> ESC_ESC" "ESC_ESC \<noteq> ESC" "ESC_END \<noteq> ESC_ESC"
  "ESC_ESC \<noteq> ESC_END"
  by (simp_all add: slip_chars)

section \<open>Sending\<close>

text \<open>
  \<open>send_byte\<close> is the \<open>switch\<close> of the loop body. The loop \<open>while(len--)\<close> stops when
  \<open>len\<close> is 0; it faults when the pointer leaves the buffer, which is what a negative
  \<open>len\<close> leads to.
\<close>

definition send_byte :: "(u8 \<Rightarrow> 's \<Rightarrow> 's) \<Rightarrow> u8 \<Rightarrow> 's \<Rightarrow> 's" where
  "send_byte send_char c s =
     (if c = END then send_char ESC_END (send_char ESC s)
      else if c = ESC then send_char ESC_ESC (send_char ESC s)
      else send_char c s)"

fun send_loop :: "(u8 \<Rightarrow> 's \<Rightarrow> 's) \<Rightarrow> bytes \<Rightarrow> int \<Rightarrow> 's \<Rightarrow> 's outcome" where
  "send_loop send_char [] len s = (if len = 0 then Ok s else Fault)"
| "send_loop send_char (c # p) len s =
     (if len = 0 then Ok s else send_loop send_char p (len - 1) (send_byte send_char c s))"

definition send_packet ::
  "(u8 \<Rightarrow> 's \<Rightarrow> 's) \<Rightarrow> ('s \<Rightarrow> 's) \<Rightarrow> bytes \<Rightarrow> int \<Rightarrow> 's \<Rightarrow> 's outcome" where
  "send_packet send_char send_char_do p len s =
     obind (send_loop send_char p len (send_char END s))
       (\<lambda>s. Ok (send_char_do (send_char END s)))"

section \<open>Receiving\<close>

text \<open>
  The \<open>while(1)\<close> loop. The outer \<open>option\<close> is \<open>None\<close> when the loop never returns (the
  device keeps delivering characters and no packet ends); \<open>Blocked\<close> and \<open>Fault\<close> come
  from \<open>recv_char\<close> or from the store. \<open>unstuff\<close> is the inner \<open>switch\<close> after an ESC.
\<close>

definition unstuff :: "u8 \<Rightarrow> u8" where
  "unstuff c = (if c = ESC_END then END else if c = ESC_ESC then ESC else c)"

definition put_char :: "int \<Rightarrow> u8 \<Rightarrow> bytes \<Rightarrow> nat \<Rightarrow> (bytes \<times> nat) outcome" where
  "put_char len c p received =
     (if int received < len
      then obind (store p received c) (\<lambda>p. Ok (p, Suc received)) else Ok (p, received))"

partial_function (option) recv_loop ::
  "('s \<Rightarrow> (u8 \<times> 's) outcome) \<Rightarrow> int \<Rightarrow> bytes \<Rightarrow> nat \<Rightarrow> 's \<Rightarrow> (nat \<times> bytes \<times> 's) outcome option" where
  "recv_loop recv_char len p received s =
     (case recv_char s of Blocked \<Rightarrow> Some Blocked | Fault \<Rightarrow> Some Fault
      | Ok (c, s) \<Rightarrow>
        if c = END then
          (if received \<noteq> 0 then Some (Ok (received, p, s))
           else recv_loop recv_char len p received s)
        else if c = ESC then
          (case recv_char s of Blocked \<Rightarrow> Some Blocked | Fault \<Rightarrow> Some Fault
           | Ok (c, s) \<Rightarrow>
             (case put_char len (unstuff c) p received of
                Blocked \<Rightarrow> Some Blocked | Fault \<Rightarrow> Some Fault
              | Ok (p, received) \<Rightarrow> recv_loop recv_char len p received s))
        else
          (case put_char len c p received of
             Blocked \<Rightarrow> Some Blocked | Fault \<Rightarrow> Some Fault
           | Ok (p, received) \<Rightarrow> recv_loop recv_char len p received s))"

definition recv_packet ::
  "('s \<Rightarrow> (u8 \<times> 's) outcome) \<Rightarrow> bytes \<Rightarrow> int \<Rightarrow> 's \<Rightarrow> (nat \<times> bytes \<times> 's) outcome option" where
  "recv_packet recv_char p len s = recv_loop recv_char len p 0 s"

section \<open>The framing as a function on byte strings\<close>

text \<open>The encoding RFC 1055 asks for, and the line contents of one packet.\<close>

definition stuff :: "u8 \<Rightarrow> bytes" where
  "stuff c = (if c = END then [ESC, ESC_END] else if c = ESC then [ESC, ESC_ESC] else [c])"

definition slip_encode :: "bytes \<Rightarrow> bytes" where
  "slip_encode bs = concat (map stuff bs)"

definition slip_frame :: "bytes \<Rightarrow> bytes" where
  "slip_frame bs = END # slip_encode bs @ [END]"

lemma slip_encode_simps [simp]:
  "slip_encode [] = []" "slip_encode (c # bs) = stuff c @ slip_encode bs"
  "slip_encode (as @ bs) = slip_encode as @ slip_encode bs"
  by (simp_all add: slip_encode_def)

lemma END_notin_slip_encode: "END \<notin> set (slip_encode bs)"
  by (induction bs) (auto simp: stuff_def)

lemma length_slip_encode: "length bs \<le> length (slip_encode bs) \<and> length (slip_encode bs) \<le> 2 * length bs"
  by (induction bs) (auto simp: stuff_def)

text \<open>
  \<open>segment g\<close> is what the receiver stores for the line characters \<open>g\<close> when they hold no
  unescaped END and do not stop after an ESC; it is defined on any such noise, not only
  on encoded packets.
\<close>

fun segment :: "bytes \<Rightarrow> bytes option" where
  "segment [] = Some []"
| "segment (c # g) =
     (if c = END then None
      else if c = ESC then
        (case g of [] \<Rightarrow> None | d # g \<Rightarrow> map_option ((#) (unstuff d)) (segment g))
      else map_option ((#) c) (segment g))"

lemma segment_slip_encode: "segment (slip_encode bs) = Some bs"
  by (induction bs) (auto simp: stuff_def unstuff_def)

lemma blit_step:
  "r < n \<Longrightarrow> n \<le> length p \<Longrightarrow>
   blit (p[r := b]) (Suc r) (take (n - Suc r) bs) = blit p r (take (n - r) (b # bs))"
proof -
  assume r: "r < n" and n: "n \<le> length p"
  then have m: "n - r = Suc (n - Suc r)" by simp
  show ?thesis unfolding m using r n by (auto simp: blit_def take_Suc_nth min_def)
qed

section \<open>Memory safety of the receiver\<close>

text \<open>
  Facts that hold whatever the device delivers: the loop writes only below \<open>len\<close>, returns a
  packet of at least one and at most \<open>len\<close> bytes, and adds no fault of its own.
\<close>

definition recv_safe :: "int \<Rightarrow> bytes \<Rightarrow> nat \<Rightarrow> (nat \<times> bytes \<times> 's) outcome \<Rightarrow> bool" where
  "recv_safe len p received r \<longleftrightarrow>
     (int received \<le> len \<longrightarrow> len \<le> int (length p) \<longrightarrow>
       (case r of Blocked \<Rightarrow> True | Fault \<Rightarrow> False
        | Ok (n, p', s') \<Rightarrow> 0 < n \<and> int n \<le> len \<and> length p' = length p
            \<and> drop (nat len) p' = drop (nat len) p))"

lemma put_char_safe:
  assumes "int received \<le> len" and "len \<le> int (length p)"
  shows "\<exists>p' n. put_char len c p received = Ok (p', n) \<and> int n \<le> len
    \<and> length p' = length p \<and> drop (nat len) p' = drop (nat len) p"
  using assms by (auto simp: put_char_def)

lemma recv_safe_put:
  assumes "\<And>p received r. f len p received = Some r \<Longrightarrow> recv_safe len p received r"
    and "(case put_char len c p received of
            Blocked \<Rightarrow> Some Blocked | Fault \<Rightarrow> Some Fault
          | Ok (p, received) \<Rightarrow> f len p received) = Some r"
  shows "recv_safe len p received r"
proof (cases "int received \<le> len \<and> len \<le> int (length p)")
  case True
  then obtain p' n where put: "put_char len c p received = Ok (p', n)" "int n \<le> len"
    "length p' = length p" "drop (nat len) p' = drop (nat len) p"
    using put_char_safe by blast
  with assms(2) have "f len p' n = Some r" by simp
  from assms(1) [OF this] put True show ?thesis
    by (auto simp: recv_safe_def split: outcome.splits)
next
  case False
  then show ?thesis by (auto simp: recv_safe_def)
qed

lemma recv_loop_safe:
  fixes recv_char :: "'s \<Rightarrow> (u8 \<times> 's) outcome"
  assumes nofault: "\<And>s. recv_char s \<noteq> Fault"
    and ret: "recv_loop recv_char len p received s = Some r"
  shows "recv_safe len p received r"
proof -
  have "(\<forall>s. rc s \<noteq> Fault) \<longrightarrow> recv_safe len p received r"
    if "recv_loop rc len p received s = Some r" for rc :: "'s \<Rightarrow> (u8 \<times> 's) outcome" and len p received s r
  proof (rule recv_loop.raw_induct [where P = "\<lambda>rc len p received s r.
      (\<forall>s. rc s \<noteq> Fault) \<longrightarrow> recv_safe len p received r", OF _ that], rule impI, goal_cases)
    case (1 f rc len p received s r)
    note IH = 1(1) [rule_format, OF _ 1(3) [rule_format]]
    note put = recv_safe_put [where f = "\<lambda>len p received. f rc len p received _", OF IH]
    from 1(3) have nf: "rc s \<noteq> Fault" for s by blast
    show ?case
    proof (cases "rc s")
      case (Ok cs)
      obtain c s1 where cs: "cs = (c, s1)" by (cases cs)
      show ?thesis
      proof (cases "c = END")
        case True
        with 1(2) Ok cs IH show ?thesis
          by (auto simp: recv_safe_def split: if_splits)
      next
        case nEND: False
        show ?thesis
        proof (cases "c = ESC")
          case True
          with 1(2) Ok cs nEND nf [of s1] show ?thesis
            by (cases "rc s1") (auto simp: recv_safe_def [of _ _ _ Blocked] intro: put)
        next
          case False
          with 1(2) Ok cs nEND show ?thesis by (auto intro: put)
        qed
      qed
    qed (use 1(2) nf in \<open>auto simp: recv_safe_def\<close>)
  qed
  with assms show ?thesis by blast
qed

section \<open>The contract of the device\<close>

text \<open>
  A sink: \<open>wire s\<close> is what has been handed to it so far, \<open>room s n\<close> says that it can take
  \<open>n\<close> more characters before the next flush without losing any.
\<close>

locale char_sink =
  fixes send_char :: "u8 \<Rightarrow> 's \<Rightarrow> 's"
    and send_char_do :: "'s \<Rightarrow> 's"
    and wire :: "'s \<Rightarrow> bytes"
    and room :: "'s \<Rightarrow> nat \<Rightarrow> bool"
  assumes wire_send: "room s (Suc n) \<Longrightarrow> wire (send_char c s) = wire s @ [c]"
    and room_send: "room s (Suc n) \<Longrightarrow> room (send_char c s) n"
    and wire_flush: "room s 0 \<Longrightarrow> wire (send_char_do s) = wire s"
    and room_mono: "room s m \<Longrightarrow> n \<le> m \<Longrightarrow> room s n"
begin

lemma send_byte_wire:
  assumes "room s (length (stuff c) + n)"
  shows "wire (send_byte send_char c s) = wire s @ stuff c" and "room (send_byte send_char c s) n"
proof -
  have two: "wire (send_char d (send_char ESC s)) = wire s @ [ESC, d]
      \<and> room (send_char d (send_char ESC s)) n" if "room s (Suc (Suc n))" for d
    using wire_send [OF that, of ESC] room_send [OF that, of ESC]
      wire_send [of "send_char ESC s" n d] room_send [of "send_char ESC s" n d] by simp
  have "wire (send_byte send_char c s) = wire s @ stuff c \<and> room (send_byte send_char c s) n"
    using assms two wire_send [of s n] room_send [of s n]
    by (cases "c = END"; cases "c = ESC") (simp_all add: send_byte_def stuff_def)
  then show "wire (send_byte send_char c s) = wire s @ stuff c"
    and "room (send_byte send_char c s) n" by auto
qed

lemma send_loop_wire:
  assumes "room s (length (slip_encode bs) + n)"
  shows "\<exists>s'. send_loop send_char (bs @ tail) (int (length bs)) s = Ok s'
    \<and> wire s' = wire s @ slip_encode bs \<and> room s' n"
  using assms
proof (induction bs arbitrary: s)
  case Nil
  then show ?case by (cases tail) auto
next
  case (Cons c bs)
  then have "room s (length (stuff c) + (length (slip_encode bs) + n))" by (simp add: add.assoc)
  note sent = send_byte_wire [OF this]
  from Cons.IH [OF sent(2)] sent(1) show ?case by auto
qed

theorem send_packet_wire:
  assumes "room s (length (slip_frame bs))"
  shows "\<exists>s'. send_packet send_char send_char_do (bs @ tail) (int (length bs)) s = Ok s'
    \<and> wire s' = wire s @ slip_frame bs"
proof -
  from assms have first: "room s (Suc (length (slip_encode bs) + 1))"
    by (simp add: slip_frame_def)
  from send_loop_wire [OF room_send [OF first, of END], where tail = tail]
  obtain s1 where s1: "send_loop send_char (bs @ tail) (int (length bs)) (send_char END s) = Ok s1"
    "wire s1 = wire (send_char END s) @ slip_encode bs" "room s1 (Suc 0)"
    by auto
  moreover have "wire (send_char END s) = wire s @ [END]"
    using first by (rule wire_send)
  ultimately show ?thesis
    using wire_send [OF s1(3)] wire_flush [OF room_send [OF s1(3)]]
    by (simp add: send_packet_def slip_frame_def)
qed

end

text \<open>
  \<open>takes \<dots> b s rest\<close>: the loop's next store is the byte \<open>b\<close>, and \<open>rest\<close> is left on the
  line; \<open>delivers \<dots>\<close>: the loop returns the packet \<open>bs\<close>, cut to the buffer size \<open>n\<close>.
  A source: \<open>avail s\<close> is the string of characters the device will deliver; \<open>recv_char\<close>
  takes its head while there is one, in every state the device can be in (\<open>good s\<close>).
\<close>

definition takes :: "('s \<Rightarrow> (u8 \<times> 's) outcome) \<Rightarrow> ('s \<Rightarrow> bytes) \<Rightarrow> ('s \<Rightarrow> bool) \<Rightarrow> u8 \<Rightarrow> 's \<Rightarrow> bytes \<Rightarrow> bool" where
  "takes recv_char avail good b s rest \<longleftrightarrow>
     (\<exists>s'. avail s' = rest \<and> good s' \<and>
       (\<forall>len p received. recv_loop recv_char len p received s =
         (case put_char len b p received of
            Blocked \<Rightarrow> Some Blocked | Fault \<Rightarrow> Some Fault
          | Ok (p, received) \<Rightarrow> recv_loop recv_char len p received s')))"

definition delivers ::
  "('s \<Rightarrow> (u8 \<times> 's) outcome) \<Rightarrow> ('s \<Rightarrow> bytes) \<Rightarrow> ('s \<Rightarrow> bool) \<Rightarrow> nat \<Rightarrow> bytes \<Rightarrow> nat \<Rightarrow> 's \<Rightarrow> bytes \<Rightarrow> bytes \<Rightarrow> bool" where
  "delivers recv_char avail good n p received s bs rest \<longleftrightarrow>
     (\<exists>s'. recv_loop recv_char (int n) p received s =
        Some (Ok (min n (received + length bs), blit p received (take (n - received) bs), s'))
      \<and> avail s' = rest \<and> good s')"

locale char_source =
  fixes recv_char :: "'s \<Rightarrow> (u8 \<times> 's) outcome"
    and avail :: "'s \<Rightarrow> bytes"
    and good :: "'s \<Rightarrow> bool"
  assumes recv_head: "good s \<Longrightarrow> avail s = c # cs \<Longrightarrow>
      \<exists>s'. recv_char s = Ok (c, s') \<and> avail s' = cs \<and> good s'"
begin

lemma recv_loop_skip_END:
  assumes "good s" and "avail s = replicate n END @ cs"
  shows "\<exists>s'. recv_loop recv_char len p 0 s = recv_loop recv_char len p 0 s'
    \<and> avail s' = cs \<and> good s'"
  using assms
proof (induction n arbitrary: s)
  case 0
  then show ?case by auto
next
  case (Suc n)
  from recv_head [OF Suc.prems(1)] Suc.prems(2)
  obtain s1 where s1: "recv_char s = Ok (END, s1)" "avail s1 = replicate n END @ cs" "good s1"
    by auto
  then have "recv_loop recv_char len p 0 s = recv_loop recv_char len p 0 s1"
    by (subst recv_loop.simps) simp
  with Suc.IH [OF s1(3) s1(2)] show ?case by auto
qed

lemma takes_plain:
  assumes "good s" and "avail s = c # cs" and "c \<noteq> END" and "c \<noteq> ESC"
  shows "takes recv_char avail good c s cs"
proof -
  from recv_head [OF assms(1,2)]
  obtain s1 where "recv_char s = Ok (c, s1)" "avail s1 = cs" "good s1" by auto
  with assms(3,4) show ?thesis
    unfolding takes_def by (intro exI [of _ s1]) (subst recv_loop.simps, simp)
qed

lemma takes_escaped:
  assumes "good s" and "avail s = ESC # d # cs"
  shows "takes recv_char avail good (unstuff d) s cs"
proof -
  from recv_head [OF assms]
  obtain s1 where s1: "recv_char s = Ok (ESC, s1)" "avail s1 = d # cs" "good s1" by auto
  from recv_head [OF s1(3,2)] obtain s2
    where "recv_char s1 = Ok (d, s2)" "avail s2 = cs" "good s2" by auto
  with s1 show ?thesis
    unfolding takes_def by (intro exI [of _ s2]) (subst recv_loop.simps, simp)
qed

lemma recv_loop_END:
  assumes "good s" and "avail s = END # cs" and "received \<noteq> 0"
  shows "\<exists>s'. recv_loop recv_char len p received s = Some (Ok (received, p, s'))
    \<and> avail s' = cs \<and> good s'"
proof -
  from recv_head [OF assms(1,2)]
  obtain s1 where "recv_char s = Ok (END, s1)" "avail s1 = cs" "good s1" by auto
  with assms(3) show ?thesis
    by (intro exI [of _ s1]) (subst recv_loop.simps, simp)
qed

lemma recv_loop_stores:
  assumes tok: "takes recv_char avail good b s (g @ END # cs)"
    and rest: "\<And>s p received. good s \<Longrightarrow> avail s = g @ END # cs \<Longrightarrow> received \<le> n \<Longrightarrow>
      n \<le> length p \<Longrightarrow> 0 < received + length bs \<Longrightarrow>
      delivers recv_char avail good n p received s bs cs"
    and "received \<le> n" and "n \<le> length p" and "0 < n"
  shows "delivers recv_char avail good n p received s (b # bs) cs"
proof -
  obtain s1 where s1: "avail s1 = g @ END # cs" "good s1"
    and run: "\<And>len p received. recv_loop recv_char len p received s =
    (case put_char len b p received of
       Blocked \<Rightarrow> Some Blocked | Fault \<Rightarrow> Some Fault
     | Ok (p, received) \<Rightarrow> recv_loop recv_char len p received s1)"
    using tok unfolding takes_def by blast
  show ?thesis
  proof (cases "received < n")
    case True
    with rest [OF s1(2,1), of "Suc received" "p[received := b]"] assms(4) show ?thesis
      by (simp add: run put_char_def delivers_def blit_step min_def)
  next
    case False
    with rest [OF s1(2,1), of n p] assms(3-5) show ?thesis
      by (simp add: run put_char_def delivers_def)
  qed
qed

lemma recv_loop_segment:
  assumes "good s" and "avail s = g @ END # cs" and "segment g = Some bs"
    and "received \<le> n" and "n \<le> length p" and "0 < n" and "0 < received + length bs"
  shows "delivers recv_char avail good n p received s bs cs"
  using assms
proof (induction g arbitrary: s p received bs rule: segment.induct)
  case 1
  then show ?case
    using recv_loop_END [of s cs received "int n" p] by (auto simp: delivers_def min_def)
next
  case (2 c g)
  show ?case
  proof (cases "c = ESC")
    case True
    with 2(5) obtain d ds bs' where g: "g = d # ds" and bs: "segment ds = Some bs'"
        "bs = unstuff d # bs'"
      by (auto split: list.splits if_splits)
    have tok: "takes recv_char avail good (unstuff d) s (ds @ END # cs)"
      using takes_escaped [of s d "ds @ END # cs"] 2(3,4) True g by simp
    show ?thesis unfolding bs(2)
      by (rule recv_loop_stores [OF tok]) (use 2(1,6,7,8) True g bs(1) in auto)
  next
    case False
    with 2(5) obtain bs' where c: "c \<noteq> END" and bs: "segment g = Some bs'" "bs = c # bs'"
      by (auto split: if_splits)
    have tok: "takes recv_char avail good c s (g @ END # cs)"
      using takes_plain [of s c "g @ END # cs"] 2(3,4) False c by simp
    show ?thesis unfolding bs(2)
      by (rule recv_loop_stores [OF tok]) (use 2(2,6,7,8) False c bs(1) in auto)
  qed
qed

theorem recv_packet_segment:
  assumes "good s" and "avail s = replicate k END @ g @ END # cs" and "segment g = Some bs"
    and "bs \<noteq> []" and "0 < n" and "n \<le> length p"
  shows "\<exists>s'. recv_packet recv_char p (int n) s =
      Some (Ok (min n (length bs), blit p 0 (take n bs), s')) \<and> avail s' = cs \<and> good s'"
proof -
  from recv_loop_skip_END [OF assms(1,2)] obtain s1 where s1:
    "recv_loop recv_char (int n) p 0 s = recv_loop recv_char (int n) p 0 s1"
    "avail s1 = g @ END # cs" "good s1" by blast
  from recv_loop_segment [OF s1(3,2) assms(3), of 0 n p] assms(4-6) s1(1)
  show ?thesis by (simp add: recv_packet_def delivers_def)
qed

theorem recv_packet_frame:
  assumes "good s" and "avail s = replicate k END @ slip_frame bs @ cs"
    and "bs \<noteq> []" and "0 < n" and "n \<le> length p"
  shows "\<exists>s'. recv_packet recv_char p (int n) s =
      Some (Ok (min n (length bs), blit p 0 (take n bs), s')) \<and> avail s' = cs \<and> good s'"
proof -
  have "avail s = replicate (Suc k) END @ slip_encode bs @ END # cs"
    using assms(2) by (simp add: slip_frame_def replicate_app_Cons_same)
  then show ?thesis
    using recv_packet_segment [OF assms(1) _ segment_slip_encode assms(3-5)] by blast
qed

end

end
