(* ===== verification/Host_Uart.thy ===== *)
theory Host_Uart
  imports Slip
begin

text \<open>
  \<^verbatim>\<open>uart2.c\<close> of the host programs (\<^verbatim>\<open>tools/ethoslip_lwip/src\<close>, identical in
  \<^verbatim>\<open>tools/ethoslip_tun\<close>): the buffered character device under the SLIP framing, and the rate
  table of \<open>uart2_init\<close>. The serial line is part of the state: \<open>line_out\<close> is what the line
  has taken, \<open>line_in\<close> the results the coming \<open>read\<close> calls will return. What \<open>write\<close>
  does with the bytes is a parameter (\<open>tty_write\<close>, the bytes it accepts).
  The theory discharges the contracts of \<open>char_sink\<close> and \<open>char_source\<close> for this device.
\<close>

section \<open>State\<close>

definition QUEUE_MAX_NUM :: nat where "QUEUE_MAX_NUM = 4000"

datatype read_result = Data bytes | ReadError

record uart =
  gs_tx_buff :: bytes
  gs_tx_ptr :: nat
  gs_rx_buff :: bytes
  gs_rx_ptr :: nat
  rx_buf_len :: int
  line_out :: bytes
  line_in :: "read_result list"

section \<open>Sending\<close>

definition send_char :: "u8 \<Rightarrow> uart \<Rightarrow> uart" where
  "send_char ch u =
     (if gs_tx_ptr u < QUEUE_MAX_NUM
      then u\<lparr>gs_tx_buff := (gs_tx_buff u)[gs_tx_ptr u := ch], gs_tx_ptr := gs_tx_ptr u + 1\<rparr>
      else u)"

definition send_char_do :: "(bytes \<Rightarrow> bytes) \<Rightarrow> uart \<Rightarrow> uart" where
  "send_char_do tty_write u =
     u\<lparr>line_out := line_out u @ tty_write (take (gs_tx_ptr u) (gs_tx_buff u)), gs_tx_ptr := 0\<rparr>"

fun uart2_write_string :: "bytes \<Rightarrow> uart \<Rightarrow> uart" where
  "uart2_write_string [] u = u"
| "uart2_write_string (c # pstr) u =
     (if c = 0 then u else uart2_write_string pstr (send_char c u))"

section \<open>Receiving\<close>

text \<open>
  \<open>read(fd, gs_rx_buff, QUEUE_MAX_NUM)\<close>: the kernel hands over at most the bytes asked for;
  0 is end of file (a hung-up line), \<open>-1\<close> an error that leaves the buffer as it is.
\<close>

definition read_fd :: "uart \<Rightarrow> (int \<times> uart) outcome" where
  "read_fd u =
     (case line_in u of
        [] \<Rightarrow> Blocked
      | Data bs # rs \<Rightarrow>
          (let bs = take QUEUE_MAX_NUM bs in
           Ok (int (length bs), u\<lparr>gs_rx_buff := blit (gs_rx_buff u) 0 bs, line_in := rs\<rparr>))
      | ReadError # rs \<Rightarrow> Ok (-1, u\<lparr>line_in := rs\<rparr>))"

definition recv_char :: "uart \<Rightarrow> (u8 \<times> uart) outcome" where
  "recv_char u =
     obind (if rx_buf_len u = 0 \<or> int (gs_rx_ptr u) = rx_buf_len u
            then obind (read_fd u) (\<lambda>(n, u). Ok (u\<lparr>rx_buf_len := n, gs_rx_ptr := 0\<rparr>))
            else Ok u)
       (\<lambda>u. obind (load (gs_rx_buff u) (gs_rx_ptr u))
         (\<lambda>c. Ok (c, u\<lparr>gs_rx_ptr := gs_rx_ptr u + 1\<rparr>)))"

section \<open>Opening the line\<close>

text \<open>
  The two parallel tables of \<open>uart2_init\<close>. A \<open>speed_t\<close> constant is named by the rate it
  stands for, \<open>B0\<close> is the initial value that no table entry has.
\<close>

datatype speed_t = B0 | B nat

definition gs_usart_rate_val :: "nat list" where
  "gs_usart_rate_val = [1800, 2400, 4800, 9600, 19200, 38400, 57600, 115200, 230400, 460800,
     500000, 576000, 921600, 1000000, 1152000, 1500000, 2000000, 2500000]"

definition gs_usart_rate :: "speed_t list" where
  "gs_usart_rate = [B 1800, B 2400, B 4800, B 9600, B 19200, B 38400, B 57600, B 115200, B 230400,
     B 460800, B 500000, B 576000, B 921600, B 1000000, B 1152000, B 1500000, B 2000000, B 2500000]"

fun rate_loop :: "nat list \<Rightarrow> speed_t list \<Rightarrow> nat \<Rightarrow> speed_t" where
  "rate_loop (v # vs) (r # rs) speed = (if v = speed then r else rate_loop vs rs speed)"
| "rate_loop _ _ speed = B0"

text \<open>\<open>uart2_init\<close> returns the result code and the descriptor it stored in \<open>fd\<close>, if it did.\<close>

definition uart2_init :: "(string \<Rightarrow> speed_t \<Rightarrow> int) \<Rightarrow> string \<Rightarrow> nat \<Rightarrow> int \<times> int option" where
  "uart2_init SerialInit file speed =
     (let uart_speed = rate_loop gs_usart_rate_val gs_usart_rate speed in
      if uart_speed = B0 then (-1, None)
      else let fd = SerialInit file uart_speed in
        if fd < 0 then (-1, Some fd) else (0, Some fd))"

section \<open>The sending side keeps the first 4000 characters\<close>

definition tx_ok :: "uart \<Rightarrow> bool" where
  "tx_ok u \<longleftrightarrow> length (gs_tx_buff u) = QUEUE_MAX_NUM \<and> gs_tx_ptr u \<le> QUEUE_MAX_NUM"

definition pending :: "uart \<Rightarrow> bytes" where
  "pending u = take (gs_tx_ptr u) (gs_tx_buff u)"

lemma send_char_frame [simp]:
  "line_out (send_char c u) = line_out u" "gs_rx_buff (send_char c u) = gs_rx_buff u"
  "gs_rx_ptr (send_char c u) = gs_rx_ptr u" "rx_buf_len (send_char c u) = rx_buf_len u"
  "line_in (send_char c u) = line_in u"
  by (simp_all add: send_char_def)

lemma send_char_tx:
  assumes "tx_ok u"
  shows "tx_ok (send_char c u)" "pending (send_char c u) = take QUEUE_MAX_NUM (pending u @ [c])"
  using assms by (auto simp: tx_ok_def send_char_def pending_def take_Suc_nth)

lemma send_byte_frame [simp]:
  "line_out (send_byte send_char c u) = line_out u" "gs_rx_buff (send_byte send_char c u) = gs_rx_buff u"
  "gs_rx_ptr (send_byte send_char c u) = gs_rx_ptr u" "rx_buf_len (send_byte send_char c u) = rx_buf_len u"
  "line_in (send_byte send_char c u) = line_in u"
  by (simp_all add: send_byte_def)

lemma send_byte_tx:
  assumes "tx_ok u"
  shows "tx_ok (send_byte send_char c u)"
    "pending (send_byte send_char c u) = take QUEUE_MAX_NUM (pending u @ stuff c)"
  using assms by (simp_all add: send_byte_def stuff_def send_char_tx del: take_append)

lemma send_loop_tx:
  assumes "tx_ok u"
  shows "\<exists>v. send_loop send_char (bs @ tail) (int (length bs)) u = Ok v \<and> tx_ok v
    \<and> line_out v = line_out u \<and> line_in v = line_in u \<and> rx_buf_len v = rx_buf_len u
    \<and> gs_rx_ptr v = gs_rx_ptr u \<and> gs_rx_buff v = gs_rx_buff u
    \<and> pending v = take QUEUE_MAX_NUM (pending u @ slip_encode bs)"
  using assms
proof (induction bs arbitrary: u)
  case Nil
  then show ?case by (cases tail) (auto simp: pending_def tx_ok_def)
next
  case (Cons c bs)
  note sent = send_byte_tx [OF Cons.prems, of c]
  from Cons.IH [OF sent(1)] sent(2) show ?case by (auto simp del: take_append)
qed

text \<open>
  \<open>idle u\<close> is the state between two packets. The receive side is untouched by sending.
\<close>

definition idle :: "uart \<Rightarrow> bool" where
  "idle u \<longleftrightarrow> tx_ok u \<and> gs_tx_ptr u = 0"

definition rx_part :: "uart \<Rightarrow> bytes \<times> nat \<times> int \<times> read_result list" where
  "rx_part u = (gs_rx_buff u, gs_rx_ptr u, rx_buf_len u, line_in u)"

lemma send_packet_line:
  assumes "idle u"
  shows "\<exists>v. send_packet send_char (send_char_do tty_write) (bs @ tail) (int (length bs)) u = Ok v
    \<and> idle v \<and> rx_part v = rx_part u
    \<and> line_out v = line_out u @ tty_write (take QUEUE_MAX_NUM (slip_frame bs))"
proof -
  from assms have ok: "tx_ok u" and e: "pending u = []"
    by (simp_all add: idle_def pending_def)
  from send_loop_tx [OF send_char_tx(1) [OF ok, of END], of bs tail] obtain v where v:
    "send_loop send_char (bs @ tail) (int (length bs)) (send_char END u) = Ok v" "tx_ok v"
    "line_out v = line_out u" "rx_part v = rx_part u"
    "pending v = take QUEUE_MAX_NUM (END # slip_encode bs)"
    using send_char_tx(2) [OF ok, of END] e by (auto simp: rx_part_def simp del: take_append)
  let ?w = "send_char END v"
  have "pending ?w = take QUEUE_MAX_NUM (slip_frame bs)" "tx_ok ?w"
    using send_char_tx [OF v(2), of END] v(5) by (simp_all add: slip_frame_def del: take_append)
  with v show ?thesis
    by (simp add: send_packet_def send_char_do_def idle_def tx_ok_def rx_part_def pending_def)
qed

section \<open>The contracts of the framing\<close>

definition wire :: "uart \<Rightarrow> bytes" where
  "wire u = line_out u @ pending u"

definition room :: "uart \<Rightarrow> nat \<Rightarrow> bool" where
  "room u n \<longleftrightarrow> length (gs_tx_buff u) = QUEUE_MAX_NUM \<and> gs_tx_ptr u + n \<le> QUEUE_MAX_NUM"

interpretation host_tx: char_sink send_char "send_char_do (\<lambda>bs. bs)" wire room
proof unfold_locales
  fix u n c
  assume r: "room u (Suc n)"
  then have "tx_ok u" "length (pending u) + Suc n \<le> QUEUE_MAX_NUM"
    by (auto simp: room_def tx_ok_def pending_def)
  then show "wire (send_char c u) = wire u @ [c]"
    using send_char_tx [of u c] by (simp add: wire_def)
  from r show "room (send_char c u) n" by (auto simp: room_def send_char_def)
qed (auto simp: room_def wire_def pending_def send_char_do_def)

text \<open>
  The receive side is good while every coming \<open>read\<close> delivers between 1 and 4000 bytes and
  the index stays inside the last chunk; \<open>incoming\<close> is the character string still to come.
\<close>

definition incoming :: "uart \<Rightarrow> bytes" where
  "incoming u = drop (gs_rx_ptr u) (take (nat (rx_buf_len u)) (gs_rx_buff u))
     @ concat (map (\<lambda>r. case r of Data bs \<Rightarrow> bs | ReadError \<Rightarrow> []) (line_in u))"

definition rx_good :: "uart \<Rightarrow> bool" where
  "rx_good u \<longleftrightarrow> length (gs_rx_buff u) = QUEUE_MAX_NUM \<and> 0 \<le> rx_buf_len u
     \<and> rx_buf_len u \<le> int QUEUE_MAX_NUM \<and> int (gs_rx_ptr u) \<le> rx_buf_len u
     \<and> (\<forall>r \<in> set (line_in u). \<exists>bs. r = Data bs \<and> bs \<noteq> [] \<and> length bs \<le> QUEUE_MAX_NUM)"

lemma recv_char_buffered:
  assumes "rx_good u" and "int (gs_rx_ptr u) < rx_buf_len u" and "incoming u = c # cs"
  shows "\<exists>v. recv_char u = Ok (c, v) \<and> incoming v = cs \<and> rx_good v"
proof -
  let ?i = "gs_rx_ptr u" and ?b = "take (nat (rx_buf_len u)) (gs_rx_buff u)"
  have i: "?i < length ?b" "?i < length (gs_rx_buff u)"
    using assms(1,2) by (auto simp: rx_good_def)
  then have "drop ?i ?b = gs_rx_buff u ! ?i # drop (Suc ?i) ?b"
    by (subst Cons_nth_drop_Suc [symmetric]) auto
  with assms i show ?thesis
    by (auto simp: recv_char_def incoming_def rx_good_def)
qed

interpretation host_rx: char_source recv_char incoming rx_good
proof unfold_locales
  fix u c cs
  assume good: "rx_good u" and inc: "incoming u = c # cs"
  show "\<exists>v. recv_char u = Ok (c, v) \<and> incoming v = cs \<and> rx_good v"
  proof (cases "int (gs_rx_ptr u) < rx_buf_len u")
    case True
    with good inc show ?thesis by (intro recv_char_buffered)
  next
    case False
    with good have empty: "int (gs_rx_ptr u) = rx_buf_len u" by (simp add: rx_good_def)
    with inc obtain r rs where l: "line_in u = r # rs"
      by (cases "line_in u") (auto simp: incoming_def)
    with good obtain bs where r: "r = Data bs" "bs \<noteq> []" "length bs \<le> QUEUE_MAX_NUM"
      by (auto simp: rx_good_def)
    let ?v = "u\<lparr>gs_rx_buff := blit (gs_rx_buff u) 0 bs, line_in := rs,
                rx_buf_len := int (length bs), gs_rx_ptr := 0\<rparr>"
    have v: "rx_good ?v" "int (gs_rx_ptr ?v) < rx_buf_len ?v" "incoming ?v = c # cs"
      using good inc empty l r
      by (auto simp: rx_good_def incoming_def take_blit_through [where off = 0, simplified])
    have "recv_char u = recv_char ?v"
      using good empty l r by (simp add: recv_char_def read_fd_def)
    with recv_char_buffered [OF v] show ?thesis by simp
  qed
qed

section \<open>The initial state\<close>

text \<open>The static variables of \<^verbatim>\<open>uart2.c\<close> at program start, on a line that will deliver \<open>rs\<close>.\<close>

definition uart_start :: "read_result list \<Rightarrow> uart" where
  "uart_start rs = \<lparr>gs_tx_buff = replicate QUEUE_MAX_NUM 0, gs_tx_ptr = 0,
     gs_rx_buff = replicate QUEUE_MAX_NUM 0, gs_rx_ptr = 0, rx_buf_len = 0, line_out = [], line_in = rs\<rparr>"

lemma idle_start: "idle (uart_start rs)"
  by (simp add: idle_def tx_ok_def uart_start_def)

lemma rx_good_start:
  "(\<forall>r \<in> set rs. \<exists>bs. r = Data bs \<and> bs \<noteq> [] \<and> length bs \<le> QUEUE_MAX_NUM) \<Longrightarrow> rx_good (uart_start rs)"
  by (simp add: rx_good_def uart_start_def)

lemma incoming_start [simp]:
  "incoming (uart_start rs) = concat (map (\<lambda>r. case r of Data bs \<Rightarrow> bs | ReadError \<Rightarrow> []) rs)"
  by (simp add: incoming_def uart_start_def)

section \<open>Properties\<close>

text \<open>
  C9. Link round trip. A non-empty packet whose encoding fits the transmit buffer, sent by
  \<open>send_packet\<close> on an idle device whose \<open>write\<close> takes all bytes, is received by
  \<open>recv_packet\<close> at the other end byte for byte, in whatever chunks \<open>read\<close> delivers
  it; what follows on the line is left for the next call.
\<close>

theorem slip_link_roundtrip:
  assumes "idle u" and "\<forall>xs. tty_write xs = xs" and "length (slip_frame bs) \<le> QUEUE_MAX_NUM"
    and "bs \<noteq> []" and "length bs \<le> n" and "n \<le> length p"
  shows "\<exists>v out. send_packet send_char (send_char_do tty_write) (bs @ tail) (int (length bs)) u = Ok v
    \<and> idle v \<and> line_out v = line_out u @ out
    \<and> (\<forall>r rest. rx_good r \<longrightarrow> incoming r = out @ rest \<longrightarrow>
        (\<exists>r'. recv_packet recv_char p (int n) r = Some (Ok (length bs, blit p 0 bs, r'))
          \<and> incoming r' = rest \<and> rx_good r'))"
proof -
  from assms(2,3) send_packet_line [OF assms(1), of tty_write bs tail]
  obtain v where v: "send_packet send_char (send_char_do tty_write) (bs @ tail) (int (length bs)) u = Ok v"
    "idle v" "line_out v = line_out u @ slip_frame bs" by auto
  have n: "0 < n" using assms(4,5) by (cases bs) auto
  have "\<exists>r'. recv_packet recv_char p (int n) r = Some (Ok (length bs, blit p 0 bs, r'))
      \<and> incoming r' = rest \<and> rx_good r'"
    if "rx_good r" "incoming r = slip_frame bs @ rest" for r rest
    using host_rx.recv_packet_frame [of r 0 bs rest n p] that assms(4-6) n by (simp add: min_absorb2)
  with v show ?thesis by blast
qed

theorem slip_link_roundtrip_witness:
  "idle (uart_start []) \<and> (\<exists>v out. send_packet send_char (send_char_do (\<lambda>xs. xs)) ([0xC0, 7] @ [9]) (int 2) (uart_start []) = Ok v
    \<and> idle v \<and> line_out v = line_out (uart_start []) @ out
    \<and> (\<forall>r rest. rx_good r \<longrightarrow> incoming r = out @ rest \<longrightarrow>
        (\<exists>r'. recv_packet recv_char [0, 0, 0] (int 3) r = Some (Ok (2, blit [0, 0, 0] 0 [0xC0, 7], r'))
          \<and> incoming r' = rest \<and> rx_good r')))"
proof -
  have "length (slip_frame [0xC0, 7]) \<le> QUEUE_MAX_NUM"
    by (simp add: slip_frame_def stuff_def slip_chars QUEUE_MAX_NUM_def)
  then show ?thesis
    using slip_link_roundtrip [OF idle_start, where tty_write = "\<lambda>xs. xs" and bs = "[0xC0, 7]"
        and n = 3 and p = "[0, 0, 0]" and tail = "[9]"] idle_start
    by (simp add: numeral_eq_Suc)
qed

text \<open>
  C27. What a packet puts on the line, in every case. \<open>send_packet\<close> hands \<open>write\<close> the first
  4000 characters of the frame and no more: when the encoding is longer the rest, with the
  closing END, is dropped without any error, so the receiver joins the packet with the next.
\<close>

theorem send_packet_truncates:
  assumes "idle u"
  shows "\<exists>v. send_packet send_char (send_char_do tty_write) (bs @ tail) (int (length bs)) u = Ok v
    \<and> idle v \<and> line_out v = line_out u @ tty_write (take 4000 (slip_frame bs))
    \<and> (length (slip_encode bs) \<ge> 3999 \<longrightarrow> END \<notin> set (tl (take 4000 (slip_frame bs))))"
proof -
  have "END \<notin> set (tl (take 4000 (slip_frame bs)))" if "length (slip_encode bs) \<ge> 3999"
  proof -
    have "tl (take 4000 (slip_frame bs)) = take 3999 (slip_encode bs)"
      using that by (simp add: slip_frame_def tl_take)
    then show ?thesis
      using END_notin_slip_encode [of bs] by (auto dest: in_set_takeD)
  qed
  with send_packet_line [OF assms, of tty_write bs tail] show ?thesis
    unfolding QUEUE_MAX_NUM_def by blast
qed

theorem send_packet_truncates_witness:
  "\<exists>v. send_packet send_char (send_char_do (\<lambda>xs. xs)) (replicate 2000 0xC0 @ []) (int (length (replicate 2000 (0xC0 :: u8)))) (uart_start []) = Ok v
    \<and> idle v \<and> line_out v = line_out (uart_start []) @ take 4000 (slip_frame (replicate 2000 0xC0))
    \<and> END \<notin> set (tl (take 4000 (slip_frame (replicate 2000 0xC0))))"
proof -
  have "length (slip_encode (replicate n 0xC0)) = 2 * n" for n
    by (induction n) (simp_all add: stuff_def slip_chars)
  then show ?thesis
    using send_packet_truncates [OF idle_start, where tty_write = "\<lambda>xs. xs" and bs = "replicate 2000 0xC0" and tail = "[]"]
    by simp
qed

text \<open>
  Resynchronisation. The opening END of a frame flushes line noise: noise \<open>g\<close> that has no
  END and does not stop inside an escape costs one bogus packet, and the next call of
  \<open>recv_packet\<close> returns the real packet unharmed.
\<close>

theorem noise_is_flushed:
  assumes "rx_good r" and "incoming r = g @ slip_frame bs @ rest" and "segment g = Some junk"
    and "junk \<noteq> []" and "bs \<noteq> []" and "length bs \<le> n" and "n \<le> length p"
  shows "\<exists>r1 r2. recv_packet recv_char p (int n) r = Some (Ok (min n (length junk), blit p 0 (take n junk), r1))
    \<and> recv_packet recv_char (blit p 0 (take n junk)) (int n) r1 =
        Some (Ok (length bs, blit (blit p 0 (take n junk)) 0 bs, r2))
    \<and> incoming r2 = rest"
proof -
  have n: "0 < n" using assms(5,6) by (cases bs) auto
  have "incoming r = replicate 0 END @ g @ END # (slip_encode bs @ END # rest)"
    using assms(2) by (simp add: slip_frame_def)
  from host_rx.recv_packet_segment [OF assms(1) this assms(3,4) n assms(7)]
  obtain r1 where r1: "recv_packet recv_char p (int n) r =
      Some (Ok (min n (length junk), blit p 0 (take n junk), r1))"
    "incoming r1 = slip_encode bs @ END # rest" "rx_good r1" by blast
  have "incoming r1 = replicate 0 END @ slip_encode bs @ END # rest" using r1(2) by simp
  from host_rx.recv_packet_segment [OF r1(3) this segment_slip_encode assms(5) n, of "blit p 0 (take n junk)"]
  show ?thesis using r1(1) assms(6,7) by (auto simp: min_absorb2)
qed

theorem noise_is_flushed_witness:
  "\<exists>r1 r2. recv_packet recv_char [0, 0] (int 2) (uart_start [Data ([5, 6] @ slip_frame [1, 2])]) =
      Some (Ok (min 2 (length [5, 6 :: u8]), blit [0, 0] 0 (take 2 [5, 6]), r1))
    \<and> recv_packet recv_char (blit [0, 0] 0 (take 2 [5, 6])) (int 2) r1 =
        Some (Ok (length [1, 2 :: u8], blit (blit [0, 0] 0 (take 2 [5, 6])) 0 [1, 2], r2))
    \<and> incoming r2 = []"
proof -
  let ?r = "uart_start [Data ([5, 6] @ slip_frame [1, 2])]"
  have "rx_good ?r"
    by (rule rx_good_start) (simp add: slip_frame_def stuff_def slip_chars QUEUE_MAX_NUM_def)
  moreover have "incoming ?r = [5, 6] @ slip_frame [1, 2] @ []" by simp
  moreover have "segment [5, 6] = Some [5, 6]" by (simp add: slip_chars)
  ultimately show ?thesis
    by (rule noise_is_flushed) simp_all
qed

text \<open>
  C26. Memory safety of the receiver on any input: whatever characters arrive, \<open>recv_packet\<close>
  with a buffer of at least \<open>len\<close> bytes never stores outside it; if it returns, the packet
  has between 1 and \<open>len\<close> bytes and the buffer beyond \<open>len\<close> is untouched.
\<close>

theorem recv_packet_in_bounds:
  fixes recv_char :: "'s \<Rightarrow> (u8 \<times> 's) outcome"
  assumes "\<forall>s. recv_char s \<noteq> Fault" and "n \<le> length p"
  shows "recv_packet recv_char p (int n) s \<noteq> Some Fault
    \<and> (\<forall>k p' s'. recv_packet recv_char p (int n) s = Some (Ok (k, p', s')) \<longrightarrow>
        0 < k \<and> k \<le> n \<and> length p' = length p \<and> drop n p' = drop n p)"
proof -
  have safe: "recv_safe (int n) p 0 x" if "recv_packet recv_char p (int n) s = Some x" for x
    using recv_loop_safe [of recv_char "int n" p 0 s x] assms(1) that by (simp add: recv_packet_def)
  show ?thesis
    using assms(2) safe [of Fault] safe [of "Ok _"] by (auto simp: recv_safe_def)
qed

definition line_char :: "bytes \<Rightarrow> (u8 \<times> bytes) outcome" where
  "line_char s = (case s of [] \<Rightarrow> Blocked | c # cs \<Rightarrow> Ok (c, cs))"

theorem recv_packet_in_bounds_witness:
  "\<exists>k p' s'. recv_packet line_char [0, 0] (int 1) [1, 2, 0xC0] = Some (Ok (k, p', s'))
    \<and> 0 < k \<and> k \<le> 1 \<and> length p' = 2 \<and> drop 1 p' = [0]"
proof -
  have "recv_loop line_char (int 1) [0, 0] 0 [1, 2, 0xC0] = Some (Ok (1, [1, 0], []))"
    by (subst recv_loop.simps, simp add: line_char_def put_char_def slip_chars)+
  then have run: "recv_packet line_char [0, 0] (int 1) [1, 2, 0xC0] = Some (Ok (1, [1, 0], []))"
    by (simp add: recv_packet_def)
  have "\<forall>s. line_char s \<noteq> Fault" by (simp add: line_char_def split: list.split)
  with recv_packet_in_bounds [of line_char 1 "[0, 0]" "[1, 2, 0xC0]"] run show ?thesis by simp
qed

text \<open>
  C40. A failing \<open>read\<close> is not handled: once \<open>read\<close> has returned \<open>-1\<close>, \<open>recv_char\<close> never
  asks the line again. It replays the 4000 stale bytes of its buffer as if they had been
  received, and then indexes past the end of the array.
\<close>

fun recv_chars :: "nat \<Rightarrow> uart \<Rightarrow> (bytes \<times> uart) outcome" where
  "recv_chars 0 u = Ok ([], u)"
| "recv_chars (Suc n) u =
     obind (recv_chars n u) (\<lambda>(cs, u). obind (recv_char u) (\<lambda>(c, u). Ok (cs @ [c], u)))"

theorem read_error_replays_buffer:
  assumes "length (gs_rx_buff u) = 4000" and "rx_buf_len u = int (gs_rx_ptr u)"
    and "line_in u = ReadError # rs" and "1 \<le> n"
  shows "recv_chars n u =
    (if n \<le> 4000
     then Ok (take n (gs_rx_buff u), u\<lparr>line_in := rs, rx_buf_len := -1, gs_rx_ptr := n\<rparr>)
     else Fault)"
  using assms(4)
proof (induction n rule: dec_induct)
  case base
  have "gs_rx_buff u \<noteq> []" using assms(1) by auto
  then show ?case
    using assms(1-3) by (simp add: recv_char_def read_fd_def take_Suc hd_conv_nth)
next
  case (step n)
  then show ?case
    using assms(1) by (auto simp: recv_char_def load_def take_Suc_nth)
qed

theorem read_error_replays_buffer_witness:
  "recv_chars 2 (uart_start [ReadError]) =
     Ok (take 2 (replicate 4000 0), (uart_start [ReadError])\<lparr>line_in := [], rx_buf_len := -1, gs_rx_ptr := 2\<rparr>)
   \<and> recv_chars 4001 (uart_start [ReadError]) = Fault"
  using read_error_replays_buffer [of "uart_start [ReadError]" "[]" 2]
    read_error_replays_buffer [of "uart_start [ReadError]" "[]" 4001]
  by (simp add: uart_start_def QUEUE_MAX_NUM_def)

end
