(* ===== verification/Frame_Checksum.thy ===== *)
theory Frame_Checksum
  imports Prelude
begin

text \<open>
  The two-byte check sequence every Ethernet frame carries over the serial line:
  \<open>if_api_calculate_checksum\<close> and \<open>if_api_check\<close> of \<^verbatim>\<open>arch/ethoslipif.c\<close> (the TAP bridge
  and the firmware hold the same two functions). A buffer is a byte list with its real
  size, so a store behind its end is a \<open>Fault\<close>.
\<close>

section \<open>The two functions\<close>

definition fold_sum :: "u32 \<Rightarrow> u32" where
  "fold_sum acc = (acc mod 65536) XOR 0xffff"

definition check_high :: "u32 \<Rightarrow> u8" where
  "check_high acc = ucast (drop_bit 8 (acc AND 0x7f00))"

definition check_low :: "u32 \<Rightarrow> u8" where
  "check_low acc = ucast (acc AND 0x7f)"

text \<open>The accumulation loop: \<open>sum\<close> (here \<open>acc\<close>) is an \<open>unsigned int\<close>, so the sum wraps at \<open>2 ^ 32\<close>.\<close>

fun sum_loop :: "bytes \<Rightarrow> nat \<Rightarrow> u32 \<Rightarrow> u32 outcome" where
  "sum_loop p 0 acc = Ok acc"
| "sum_loop [] (Suc n) acc = Fault"
| "sum_loop (c # p) (Suc n) acc = sum_loop p n (acc + ucast c)"

definition if_api_calculate_checksum :: "bytes \<Rightarrow> nat \<Rightarrow> (nat \<times> bytes) outcome" where
  "if_api_calculate_checksum buf len =
     obind (sum_loop buf len 0) (\<lambda>acc.
       let acc = fold_sum acc in
       obind (store buf len (check_high acc)) (\<lambda>buf.
       obind (store buf (len + 1) (check_low acc)) (\<lambda>buf.
         Ok (len + 2, buf))))"

text \<open>The result is \<open>-1\<close> or the payload length; the buffer is changed either way.\<close>

definition if_api_check :: "bytes \<Rightarrow> nat \<Rightarrow> (int \<times> bytes) outcome" where
  "if_api_check buf len =
     (if len < 2 then Ok (-1, buf)
      else
        obind (load buf (len - 1)) (\<lambda>low.
        obind (load buf (len - 2)) (\<lambda>high.
        obind (store buf (len - 1) 0) (\<lambda>buf.
        obind (store buf (len - 2) 0) (\<lambda>buf.
        obind (if_api_calculate_checksum buf (len - 2)) (\<lambda>(_, buf).
          if low \<noteq> buf ! (len - 1) \<or> high \<noteq> buf ! (len - 2) then Ok (-1, buf)
          else Ok (int (len - 2), buf)))))))"

section \<open>What they compute\<close>

definition byte_sum :: "bytes \<Rightarrow> u32" where
  "byte_sum bs = sum_list (map ucast bs)"

definition trailer :: "bytes \<Rightarrow> bytes" where
  "trailer bs = [check_high (fold_sum (byte_sum bs)), check_low (fold_sum (byte_sum bs))]"

lemma byte_sum_simps [simp]:
  "byte_sum [] = 0" "byte_sum (c # bs) = ucast c + byte_sum bs"
  "byte_sum (as @ bs) = byte_sum as + byte_sum bs"
  by (simp_all add: byte_sum_def)

lemma length_trailer [simp]: "length (trailer bs) = 2"
  by (simp add: trailer_def)

lemma sum_loop_ok: "n \<le> length p \<Longrightarrow> sum_loop p n acc = Ok (acc + byte_sum (take n p))"
  by (induction p n acc rule: sum_loop.induct) (auto simp: add.assoc)

lemma sum_loop_fault: "length p < n \<Longrightarrow> sum_loop p n acc = Fault"
  by (induction p n acc rule: sum_loop.induct) auto

lemma if_api_calculate_checksum_eq:
  "if_api_calculate_checksum buf len =
     (if len + 2 \<le> length buf
      then Ok (len + 2, blit buf len (trailer (take len buf))) else Fault)"
proof (cases "len + 2 \<le> length buf")
  case True
  have "blit buf len [a, b] = (buf[len := a])[Suc len := b]" for a b
    using True blit_snoc [of len "[a]" buf b] blit_single [of len buf a] by simp
  with True show ?thesis
    by (simp add: if_api_calculate_checksum_def sum_loop_ok trailer_def Let_def)
next
  case False
  then show ?thesis
    by (cases "len \<le> length buf")
      (auto simp: if_api_calculate_checksum_def sum_loop_ok sum_loop_fault store_def Let_def)
qed

lemma if_api_check_eq:
  assumes "length buf \<ge> len + 2"
  shows "if_api_check buf (len + 2) =
    (let buf' = blit buf len (trailer (take len buf)) in
     if take 2 (drop len buf) = trailer (take len buf) then Ok (int len, buf') else Ok (-1, buf'))"
proof -
  let ?z = "(buf[Suc len := 0])[len := 0]"
  have z: "take len ?z = take len buf" and dz: "drop (len + 2) ?z = drop (len + 2) buf"
    by simp_all
  have "drop len buf = buf ! len # buf ! Suc len # drop (Suc (Suc len)) buf"
    using assms by (simp add: Cons_nth_drop_Suc)
  then have two: "take 2 (drop len buf) = [buf ! len, buf ! Suc len]" by simp
  have blit: "blit ?z len (trailer (take len buf)) = blit buf len (trailer (take len buf))"
    unfolding blit_def using z dz by simp
  have len: "length ?z = length buf" by simp
  have "if_api_calculate_checksum ?z len = Ok (len + 2, blit buf len (trailer (take len buf)))"
    using assms blit z by (simp add: if_api_calculate_checksum_eq)
  moreover have "blit buf len (trailer (take len buf)) ! len = check_high (fold_sum (byte_sum (take len buf)))"
    and "blit buf len (trailer (take len buf)) ! Suc len = check_low (fold_sum (byte_sum (take len buf)))"
    using assms by (simp_all add: nth_blit) (simp_all add: trailer_def)
  ultimately show ?thesis
    using assms two by (auto simp: if_api_check_def trailer_def Let_def)
qed

section \<open>Arithmetic of the check sequence\<close>

text \<open>
  The trailer keeps bits 0 to 6 and 8 to 14 of the complemented sum; bits 7 and 15 are
  masked out by the \<open>0x7f\<close> masks.
\<close>

lemma fold_sum_bits:
  "fold_sum s AND 0x7f00 = 0x7f00 XOR (s AND 0x7f00)" "fold_sum s AND 0x7f = 0x7f XOR (s AND 0x7f)"
proof -
  have m: "s mod 65536 = s AND 0xffff"
    using take_bit_eq_mod [of 16 s] take_bit_eq_mask [of 16 s] by (simp add: mask_numeral)
  have e: "(a XOR 0xffff) AND c = (0xffff AND c) XOR (a AND c)" for a c :: u32
    by (rule bit_word_eqI) (auto simp: bit_simps)
  show "fold_sum s AND 0x7f00 = 0x7f00 XOR (s AND 0x7f00)" "fold_sum s AND 0x7f = 0x7f XOR (s AND 0x7f)"
    unfolding fold_sum_def m e by (simp_all add: and.assoc)
qed

lemma low_bits: "s AND 0x7f = s mod 128" for s :: u32
  using take_bit_eq_mod [of 7 s] take_bit_eq_mask [of 7 s] by (simp add: mask_numeral)

lemma high_bits: "drop_bit 8 (s AND 0x7f00) = s div 256 mod 128" for s :: u32
proof -
  have "drop_bit 8 (s AND 0x7f00) = drop_bit 8 s AND drop_bit 8 0x7f00"
    by (rule drop_bit_and)
  then show ?thesis
    by (simp add: low_bits drop_bit_eq_div)
qed

lemma check_bytes_eq_iff:
  "check_low (fold_sum s) = check_low (fold_sum t) \<longleftrightarrow> s mod 128 = t mod 128"
  "check_high (fold_sum s) = check_high (fold_sum t) \<longleftrightarrow> s div 256 mod 128 = t div 256 mod 128"
proof -
  have inj: "ucast (0x7f XOR a) = (ucast (0x7f XOR b) :: u8) \<longleftrightarrow> a = b"
    if "a = take_bit 7 a" "b = take_bit 7 b" for a b :: u32
  proof
    assume eq: "ucast (0x7f XOR a) = (ucast (0x7f XOR b) :: u8)"
    have "bit a n = bit b n" if "n < 7" for n
    proof -
      have "bit (ucast (0x7f XOR a) :: u8) n = bit (ucast (0x7f XOR b) :: u8) n" by (simp add: eq)
      with that show ?thesis by (auto simp: bit_simps)
    qed
    then have "take_bit 7 a = take_bit 7 b" by (intro bit_word_eqI) (auto simp: bit_simps)
    with that show "a = b" by simp
  qed simp
  have tb: "x mod 128 = take_bit 7 x" for x :: u32
    using take_bit_eq_mod [of 7 x] by simp
  have low: "check_low (fold_sum x) = ucast (0x7f XOR (x mod 128))" for x
    by (simp only: check_low_def fold_sum_bits) (simp only: low_bits)
  have "drop_bit 8 (0x7f00 XOR (x AND 0x7f00)) = 0x7f XOR (x div 256 mod 128)" for x :: u32
    by (simp only: drop_bit_xor high_bits) simp
  then have high: "check_high (fold_sum x) = ucast (0x7f XOR (x div 256 mod 128))" for x
    by (simp only: check_high_def fold_sum_bits)
  show "check_low (fold_sum s) = check_low (fold_sum t) \<longleftrightarrow> s mod 128 = t mod 128"
    unfolding low by (rule inj) (simp_all add: tb)
  show "check_high (fold_sum s) = check_high (fold_sum t) \<longleftrightarrow> s div 256 mod 128 = t div 256 mod 128"
    unfolding high by (rule inj) (simp_all add: tb)
qed

text \<open>Frames on this line are far below the length at which the 32-bit sum could wrap.\<close>

definition nat_sum :: "bytes \<Rightarrow> nat" where
  "nat_sum bs = sum_list (map unat bs)"

lemma nat_sum_simps [simp]:
  "nat_sum [] = 0" "nat_sum (c # bs) = unat c + nat_sum bs"
  "nat_sum (as @ bs) = nat_sum as + nat_sum bs"
  by (simp_all add: nat_sum_def)

lemma byte_sum_of_nat: "byte_sum bs = of_nat (nat_sum bs)"
  by (induction bs) simp_all

lemma unat_byte_sum: "length bs < 2 ^ 16 \<Longrightarrow> unat (byte_sum bs) = nat_sum bs"
proof -
  assume "length bs < 2 ^ 16"
  moreover have "nat_sum bs \<le> 255 * length bs"
    by (simp add: nat_sum_def sum_list_unat_le)
  ultimately have "nat_sum bs < 2 ^ 32" by simp
  then show ?thesis by (simp add: byte_sum_of_nat unat_of_nat)
qed

lemma trailer_eq_iff:
  assumes "length as < 2 ^ 16" and "length bs < 2 ^ 16"
  shows "trailer as = trailer bs \<longleftrightarrow>
    nat_sum as mod 128 = nat_sum bs mod 128 \<and>
    nat_sum as div 256 mod 128 = nat_sum bs div 256 mod 128"
  using assms
  by (auto simp: trailer_def check_bytes_eq_iff)
    (simp_all add: word_unat_eq_iff unat_mod_distrib unat_div_distrib unat_byte_sum)

lemma change_kept_iff:
  fixes b b' t :: nat
  assumes "b < 256" and "b' < 256"
  shows "(t + b) mod 128 = (t + b') mod 128 \<and> (t + b) div 256 mod 128 = (t + b') div 256 mod 128
    \<longleftrightarrow> b = b' \<or> (b' = b + 128 \<and> (t + b) mod 256 < 128) \<or> (b = b' + 128 \<and> (t + b') mod 256 < 128)"
proof -
  have near: "b = b' \<or> b' = b + 128 \<or> b = b' + 128" if "(t + b) mod 128 = (t + b') mod 128"
  proof -
    from that have "b mod 128 = b' mod 128" by (auto simp: nat_mod_eq_iff)
    moreover have "b div 128 = 0 \<or> b div 128 = 1" "b' div 128 = 0 \<or> b' div 128 = 1"
      using assms by auto
    ultimately show ?thesis
      using div_mult_mod_eq [of b 128] div_mult_mod_eq [of b' 128]
      by (elim disjE) linarith+
  qed
  have carry: "(x + 128) div 256 mod 128 = x div 256 mod 128 \<longleftrightarrow> x mod 256 < 128" for x :: nat
  proof -
    have "(x mod 256 + 128) div 256 = (if x mod 256 < 128 then 0 else 1)"
      using div_nat_eqI [of 256 1 "x mod 256 + 128"] by simp
    then have "(x + 128) div 256 = (if x mod 256 < 128 then x div 256 else Suc (x div 256))"
      using div_add1_eq [of x 128 256] by simp
    moreover have "Suc q mod 128 \<noteq> q mod 128" for q :: nat by (simp add: mod_Suc)
    ultimately show ?thesis by simp
  qed
  show ?thesis
  proof (cases "b = b' \<or> b' = b + 128 \<or> b = b' + 128")
    case True
    then show ?thesis
      using carry [of "t + b"] carry [of "t + b'"]
      by (elim disjE) (auto simp: add.assoc [symmetric])
  qed (use near in blast)
qed

section \<open>Properties\<close>

text \<open>
  The check sequence round trip: a buffer holding the frame \<open>bs\<close> and two spare bytes is
  accepted by \<open>if_api_check\<close> after \<open>if_api_calculate_checksum\<close>, the frame length is
  returned, and the frame bytes are unchanged by both calls.
\<close>

theorem checksum_roundtrip:
  assumes "length spare \<ge> 2"
  shows "\<exists>buf buf'. if_api_calculate_checksum (bs @ spare) (length bs) = Ok (length bs + 2, buf)
    \<and> if_api_check buf (length bs + 2) = Ok (int (length bs), buf')
    \<and> take (length bs) buf' = bs \<and> length buf' = length (bs @ spare)"
proof -
  let ?b = "blit (bs @ spare) (length bs) (trailer bs)"
  have b: "length ?b = length (bs @ spare)" "take (length bs) ?b = bs"
    "take 2 (drop (length bs) ?b) = trailer bs"
    using assms blit_read_back [of "length bs" "trailer bs" "bs @ spare"]
    by (simp_all add: take_blit)
  have "if_api_calculate_checksum (bs @ spare) (length bs) = Ok (length bs + 2, ?b)"
    using assms by (simp add: if_api_calculate_checksum_eq)
  moreover have "if_api_check ?b (length bs + 2) =
      Ok (int (length bs), blit ?b (length bs) (trailer bs))"
    using assms b by (subst if_api_check_eq) simp_all
  ultimately show ?thesis
    using assms b by (auto simp: take_blit)
qed

theorem checksum_roundtrip_witness:
  "\<exists>buf buf'. if_api_calculate_checksum ([1, 2, 3] @ [9, 9]) (length [1, 2, 3 :: u8]) = Ok (5, buf)
    \<and> if_api_check buf 5 = Ok (3, buf') \<and> take 3 buf' = [1, 2, 3] \<and> length buf' = 5"
  using checksum_roundtrip [of "[9, 9]" "[1, 2, 3]"] by (simp add: numeral_eq_Suc)

text \<open>
  C25. Exactly which corruptions of one byte \<open>if_api_check\<close> accepts: the frame
  \<open>as @ b # cs\<close> is sent with its trailer and arrives with \<open>b'\<close> in place of \<open>b\<close>. It is
  accepted just when the byte is unchanged, or when the two bytes differ by exactly 128
  and the smaller byte sum has bit 7 clear: bit 7 of the sum is masked out of the trailer.
\<close>

theorem single_byte_change_accepted_iff:
  assumes "length (as @ b # cs) < 2 ^ 16"
  shows "(\<exists>buf. if_api_check (as @ b' # cs @ trailer (as @ b # cs)) (length (as @ b # cs) + 2) =
      Ok (int (length (as @ b # cs)), buf)) \<longleftrightarrow>
    b = b' \<or> (unat b' = unat b + 128 \<and> nat_sum (as @ b # cs) mod 256 < 128)
           \<or> (unat b = unat b' + 128 \<and> nat_sum (as @ b' # cs) mod 256 < 128)"
proof -
  let ?f = "as @ b # cs" and ?g = "as @ b' # cs"
  let ?t = "nat_sum as + nat_sum cs"
  have len: "length ?g = length ?f" by simp
  have chk: "if_api_check (?g @ trailer ?f) (length ?g + 2) =
      (let buf' = blit (?g @ trailer ?f) (length ?g) (trailer ?g) in
       if trailer ?f = trailer ?g then Ok (int (length ?g), buf') else Ok (-1, buf'))"
    by (subst if_api_check_eq) simp_all
  have "(\<exists>buf. if_api_check (?g @ trailer ?f) (length ?g + 2) = Ok (int (length ?g), buf))
      \<longleftrightarrow> trailer ?f = trailer ?g"
    unfolding chk by (simp add: Let_def)
  also have "\<dots> \<longleftrightarrow> (?t + unat b) mod 128 = (?t + unat b') mod 128 \<and>
      (?t + unat b) div 256 mod 128 = (?t + unat b') div 256 mod 128"
    using assms by (subst trailer_eq_iff) (simp_all add: ac_simps)
  also have "\<dots> \<longleftrightarrow> unat b = unat b' \<or> (unat b' = unat b + 128 \<and> (?t + unat b) mod 256 < 128)
      \<or> (unat b = unat b' + 128 \<and> (?t + unat b') mod 256 < 128)"
    by (rule change_kept_iff) simp_all
  finally show ?thesis
    by (simp add: ac_simps word_unat_eq_iff)
qed

theorem single_byte_change_accepted_iff_witness:
  "(\<exists>buf. if_api_check ([] @ 0x80 # [0] @ trailer ([] @ 0 # [0])) (length ([] @ 0 # [0 :: u8]) + 2) =
      Ok (int (length ([] @ (0 :: u8) # [0])), buf))
   \<and> \<not> (\<exists>buf. if_api_check ([] @ 0x81 # [0] @ trailer ([] @ 0 # [0])) (length ([] @ 0 # [0 :: u8]) + 2) =
      Ok (int (length ([] @ (0 :: u8) # [0])), buf))"
  using single_byte_change_accepted_iff [of "[]" 0 "[0]" "0x80"]
    single_byte_change_accepted_iff [of "[]" 0 "[0]" "0x81"]
  by simp

end
