(* ===== verification/Pbuf.thy ===== *)
theory Pbuf
  imports Prelude "HOL-Library.Monad_Syntax"
begin

text \<open>
  \<^verbatim>\<open>core/pbuf.c\<close> of lwIP: packet buffers as chains of cells with reference counts. The heap
  is an explicit store from addresses to cells; pools are the lists of free elements with
  the bytes they still hold. A function returns \<open>None\<close> where the C code does not return:
  a failed \<open>LWIP_ASSERT\<close> or \<open>LWIP_ERROR\<close> (both end in \<open>abort\<close> in this build), an access
  through a dangling or null pointer or outside the buffer memory, a loop that never ends.
  Options of this build: \<open>MEM_ALIGNMENT\<close> is 1, so the alignment macros are the identity.
\<close>

section \<open>Cells and the store\<close>

record pbuf =
  nxt :: "nat option"
  area :: bytes        \<comment> \<open>the buffer memory the payload pointer points into\<close>
  payload :: int       \<comment> \<open>offset of the payload pointer in \<open>area\<close>\<close>
  tot_len :: nat       \<comment> \<open>\<open>u16_t\<close>\<close>
  len :: nat           \<comment> \<open>\<open>u16_t\<close>\<close>
  type_internal :: u8
  flags :: u8
  ref :: nat           \<comment> \<open>\<open>u8_t\<close>\<close>
  if_idx :: u8

record pheap =
  cells :: "nat \<Rightarrow> pbuf option"
  pool :: "(nat \<times> bytes) list"     \<comment> \<open>free elements of \<open>MEMP_PBUF_POOL\<close>\<close>
  refs :: "nat list"               \<comment> \<open>free elements of \<open>MEMP_PBUF\<close>\<close>
  ram :: "nat list"                \<comment> \<open>addresses \<open>mem_malloc\<close> will hand out\<close>
  ram_fits :: "nat \<Rightarrow> bool"        \<comment> \<open>sizes \<open>mem_malloc\<close> can satisfy\<close>
  junk :: "nat \<Rightarrow> u8"              \<comment> \<open>contents of fresh heap memory\<close>
  ooseq_pending :: bool            \<comment> \<open>\<open>pbuf_free_ooseq_pending\<close>\<close>
  custom_freed :: "nat list"       \<comment> \<open>calls of custom free functions\<close>

type_synonym pptr = "nat option"

datatype err = ERR_OK | ERR_MEM | ERR_BUF | ERR_TIMEOUT | ERR_RTE | ERR_INPROGRESS | ERR_VAL | ERR_WOULDBLOCK
  | ERR_USE | ERR_ALREADY | ERR_ISCONN | ERR_CONN | ERR_IF | ERR_ABRT | ERR_RST | ERR_CLSD | ERR_ARG

datatype pbuf_type = PBUF_RAM | PBUF_ROM | PBUF_REF | PBUF_POOL

fun type_code :: "pbuf_type \<Rightarrow> u8" where
  "type_code PBUF_RAM = 0x80"
| "type_code PBUF_ROM = 0x01"
| "type_code PBUF_REF = 0x41"
| "type_code PBUF_POOL = 0x82"

datatype pbuf_layer = PBUF_TRANSPORT | PBUF_IP | PBUF_LINK | PBUF_RAW_TX | PBUF_RAW

fun layer_offset :: "pbuf_layer \<Rightarrow> nat" where
  "layer_offset PBUF_TRANSPORT = 74"
| "layer_offset PBUF_IP = 54"
| "layer_offset PBUF_LINK = 14"
| "layer_offset PBUF_RAW_TX = 0"
| "layer_offset PBUF_RAW = 0"

definition PBUF_POOL_BUFSIZE :: nat where "PBUF_POOL_BUFSIZE = 590"
definition SIZEOF_STRUCT_PBUF :: nat where "SIZEOF_STRUCT_PBUF = 24"
definition FLAG_CONTIGUOUS :: u8 where "FLAG_CONTIGUOUS = 0x80"
definition PBUF_FLAG_IS_CUSTOM :: u8 where "PBUF_FLAG_IS_CUSTOM = 0x02"
definition PBUF_FLAG_TCP_FIN :: u8 where "PBUF_FLAG_TCP_FIN = 0x20"

text \<open>The casts to \<open>u16_t\<close>: sums and differences wrap.\<close>

definition u16 :: "nat \<Rightarrow> nat" where "u16 n = n mod 65536"
definition sub16 :: "nat \<Rightarrow> nat \<Rightarrow> nat" where "sub16 a b = (a + 65536 - b mod 65536) mod 65536"

definition deref :: "pptr \<Rightarrow> pheap \<Rightarrow> pbuf option" where
  "deref p h = Option.bind p (cells h)"

definition put :: "nat \<Rightarrow> pbuf \<Rightarrow> pheap \<Rightarrow> pheap" where
  "put a c h = h\<lparr>cells := (cells h)(a \<mapsto> c)\<rparr>"

definition drop_cell :: "nat \<Rightarrow> pheap \<Rightarrow> pheap" where
  "drop_cell a h = h\<lparr>cells := (cells h)(a := None)\<rparr>"

text \<open>\<open>MEMCPY\<close> out of and into the payload, at an offset from the payload pointer.\<close>

definition rd :: "pbuf \<Rightarrow> nat \<Rightarrow> nat \<Rightarrow> bytes option" where
  "rd c off n =
     (if 0 \<le> payload c \<and> nat (payload c) + off + n \<le> length (area c)
      then Some (take n (drop (nat (payload c) + off) (area c))) else None)"

definition wr :: "pbuf \<Rightarrow> nat \<Rightarrow> bytes \<Rightarrow> pbuf option" where
  "wr c off bs =
     (if 0 \<le> payload c \<and> nat (payload c) + off + length bs \<le> length (area c)
      then Some (c\<lparr>area := blit (area c) (nat (payload c) + off) bs\<rparr>) else None)"

definition assert :: "bool \<Rightarrow> unit option" where
  "assert b = (if b then Some () else None)"

section \<open>Freeing and reference counts\<close>

definition release :: "nat \<Rightarrow> pbuf \<Rightarrow> pheap \<Rightarrow> pheap option" where
  "release a c h =
     (if flags c AND PBUF_FLAG_IS_CUSTOM \<noteq> 0
      then Some ((drop_cell a h)\<lparr>custom_freed := a # custom_freed h\<rparr>)
      else if type_internal c AND 0x0F = 0x02 then Some ((drop_cell a h)\<lparr>pool := (a, area c) # pool h\<rparr>)
      else if type_internal c AND 0x0F = 0x01 then Some ((drop_cell a h)\<lparr>refs := a # refs h\<rparr>)
      else if type_internal c AND 0x0F = 0x00 then Some ((drop_cell a h)\<lparr>ram := a # ram h\<rparr>)
      else None)"

partial_function (option) free_loop :: "pptr \<Rightarrow> nat \<Rightarrow> pheap \<Rightarrow> (nat \<times> pheap) option" where
  "free_loop p count h =
     (case p of
        None \<Rightarrow> Some (count, h)
      | Some a \<Rightarrow>
          do { c \<leftarrow> cells h a;
               assert (ref c > 0);
               (if ref c - 1 = 0
                then do { h \<leftarrow> release a c h; free_loop (nxt c) ((count + 1) mod 256) h }
                else Some (count, put a (c\<lparr>ref := ref c - 1\<rparr>) h)) })"

definition pbuf_free :: "pptr \<Rightarrow> pheap \<Rightarrow> (nat \<times> pheap) option" where
  "pbuf_free p h = do { assert (p \<noteq> None); free_loop p 0 h }"

definition pbuf_ref :: "pptr \<Rightarrow> pheap \<Rightarrow> pheap option" where
  "pbuf_ref p h =
     (case p of None \<Rightarrow> Some h
      | Some a \<Rightarrow> do { c \<leftarrow> cells h a; let r = (ref c + 1) mod 256 in
           do { assert (r > 0); Some (put a (c\<lparr>ref := r\<rparr>) h) } })"

section \<open>Allocation\<close>

definition pbuf_init_alloced_pbuf :: "bytes \<Rightarrow> int \<Rightarrow> nat \<Rightarrow> nat \<Rightarrow> pbuf_type \<Rightarrow> u8 \<Rightarrow> pbuf" where
  "pbuf_init_alloced_pbuf mem pl tlen l type fl =
     \<lparr>nxt = None, area = mem, payload = pl, tot_len = tlen, len = l, type_internal = type_code type,
      flags = fl, ref = 1, if_idx = 0\<rparr>"

partial_function (option) alloc_pool_loop ::
  "pptr \<Rightarrow> pptr \<Rightarrow> nat \<Rightarrow> nat \<Rightarrow> pheap \<Rightarrow> (pptr \<times> pheap) option" where
  "alloc_pool_loop p lst rem_len offset h =
     (case pool h of
        [] \<Rightarrow>
          (let h = h\<lparr>ooseq_pending := True\<rparr> in
           if p \<noteq> None then do { (_, h) \<leftarrow> pbuf_free p h; Some (None, h) } else Some (None, h))
      | (q, mem) # rest \<Rightarrow>
          do { assert (offset < PBUF_POOL_BUFSIZE);
            let qlen = min rem_len (u16 (PBUF_POOL_BUFSIZE - offset));
                h = put q (pbuf_init_alloced_pbuf mem (int offset) rem_len qlen PBUF_POOL 0) (h\<lparr>pool := rest\<rparr>);
                rem = sub16 rem_len qlen
            in do { h \<leftarrow> (case lst of None \<Rightarrow> Some h
                     | Some l \<Rightarrow> do { c \<leftarrow> cells h l; Some (put l (c\<lparr>nxt := Some q\<rparr>) h) });
                 (let p = (if p = None then Some q else p) in
                  if rem > 0 then alloc_pool_loop p (Some q) rem 0 h else Some (p, h)) } })"

definition pbuf_alloc_reference :: "bytes \<Rightarrow> int \<Rightarrow> nat \<Rightarrow> pbuf_type \<Rightarrow> pheap \<Rightarrow> (pptr \<times> pheap) option" where
  "pbuf_alloc_reference mem pl lgth type h =
     do { assert (type = PBUF_REF \<or> type = PBUF_ROM);
       (case refs h of [] \<Rightarrow> Some (None, h)
        | a # rest \<Rightarrow> Some (Some a, put a (pbuf_init_alloced_pbuf mem pl lgth lgth type 0) (h\<lparr>refs := rest\<rparr>))) }"

definition mem_malloc :: "nat \<Rightarrow> pheap \<Rightarrow> pptr \<times> pheap" where
  "mem_malloc n h =
     (if ram_fits h n then (case ram h of [] \<Rightarrow> (None, h) | a # rest \<Rightarrow> (Some a, h\<lparr>ram := rest\<rparr>)) else (None, h))"

definition pbuf_alloc :: "pbuf_layer \<Rightarrow> nat \<Rightarrow> pbuf_type \<Rightarrow> pheap \<Rightarrow> (pptr \<times> pheap) option" where
  "pbuf_alloc layer lgth type h =
     (let offset = layer_offset layer in
      case type of
        PBUF_REF \<Rightarrow> pbuf_alloc_reference [] 0 lgth type h
      | PBUF_ROM \<Rightarrow> pbuf_alloc_reference [] 0 lgth type h
      | PBUF_POOL \<Rightarrow> alloc_pool_loop None None lgth offset h
      | PBUF_RAM \<Rightarrow>
          (let payload_len = u16 (offset + lgth); alloc_len = u16 (SIZEOF_STRUCT_PBUF + payload_len) in
           if payload_len < lgth \<or> alloc_len < lgth then Some (None, h)
           else case mem_malloc alloc_len h of
             (None, h) \<Rightarrow> Some (None, h)
           | (Some a, h) \<Rightarrow> Some (Some a, put a (pbuf_init_alloced_pbuf (map (junk h) [0..<payload_len])
                 (int offset) lgth lgth PBUF_RAM 0) h)))"

text \<open>\<open>pbuf_alloced_custom\<close>: the memory is the caller's, \<open>a\<close> the address of his structure.\<close>

definition pbuf_alloced_custom ::
  "pbuf_layer \<Rightarrow> nat \<Rightarrow> pbuf_type \<Rightarrow> nat \<Rightarrow> bytes \<Rightarrow> nat \<Rightarrow> pheap \<Rightarrow> pptr \<times> pheap" where
  "pbuf_alloced_custom l lgth type a payload_mem payload_mem_len h =
     (if layer_offset l + lgth > payload_mem_len then (None, h)
      else (Some a, put a (pbuf_init_alloced_pbuf payload_mem (int (layer_offset l)) lgth lgth type
              PBUF_FLAG_IS_CUSTOM) h))"

section \<open>Headers\<close>

definition pbuf_add_header_impl :: "nat \<Rightarrow> nat \<Rightarrow> bool \<Rightarrow> pheap \<Rightarrow> (nat \<times> pheap) option" where
  "pbuf_add_header_impl a inc force h =
     (if inc > 0xFFFF then Some (1, h)
      else if inc = 0 then Some (0, h)
      else do { c \<leftarrow> cells h a;
        if u16 (inc + tot_len c) < inc then Some (1, h)
        else if type_internal c AND FLAG_CONTIGUOUS \<noteq> 0 \<and> payload c - int inc < 0 then Some (1, h)
        else if type_internal c AND FLAG_CONTIGUOUS = 0 \<and> \<not> force then Some (1, h)
        else Some (0, put a (c\<lparr>payload := payload c - int inc, len := u16 (len c + inc),
                               tot_len := u16 (tot_len c + inc)\<rparr>) h) })"

definition pbuf_add_header :: "nat \<Rightarrow> nat \<Rightarrow> pheap \<Rightarrow> (nat \<times> pheap) option" where
  "pbuf_add_header a inc h = pbuf_add_header_impl a inc False h"

definition pbuf_add_header_force :: "nat \<Rightarrow> nat \<Rightarrow> pheap \<Rightarrow> (nat \<times> pheap) option" where
  "pbuf_add_header_force a inc h = pbuf_add_header_impl a inc True h"

definition pbuf_remove_header :: "nat \<Rightarrow> nat \<Rightarrow> pheap \<Rightarrow> (nat \<times> pheap) option" where
  "pbuf_remove_header a dec h =
     (if dec > 0xFFFF then Some (1, h)
      else if dec = 0 then Some (0, h)
      else do { c \<leftarrow> cells h a; assert (dec \<le> len c);
        Some (0, put a (c\<lparr>payload := payload c + int dec, len := sub16 (len c) dec,
                          tot_len := sub16 (tot_len c) dec\<rparr>) h) })"

definition pbuf_header_impl :: "nat \<Rightarrow> int \<Rightarrow> bool \<Rightarrow> pheap \<Rightarrow> (nat \<times> pheap) option" where
  "pbuf_header_impl a inc force h =
     (if inc < 0 then pbuf_remove_header a (nat (- inc)) h else pbuf_add_header_impl a (nat inc) force h)"

definition pbuf_header :: "nat \<Rightarrow> int \<Rightarrow> pheap \<Rightarrow> (nat \<times> pheap) option" where
  "pbuf_header a inc h = pbuf_header_impl a inc False h"

definition pbuf_header_force :: "nat \<Rightarrow> int \<Rightarrow> pheap \<Rightarrow> (nat \<times> pheap) option" where
  "pbuf_header_force a inc h = pbuf_header_impl a inc True h"

partial_function (option) free_header_loop :: "pptr \<Rightarrow> nat \<Rightarrow> pheap \<Rightarrow> (pptr \<times> pheap) option" where
  "free_header_loop p free_left h =
     (case p of None \<Rightarrow> Some (None, h)
      | Some a \<Rightarrow>
          if free_left = 0 then Some (p, h)
          else do { c \<leftarrow> cells h a;
            if free_left \<ge> len c then
              do { (_, h) \<leftarrow> pbuf_free p (put a (c\<lparr>nxt := None\<rparr>) h);
                   free_header_loop (nxt c) (sub16 free_left (len c)) h }
            else do { (_, h) \<leftarrow> pbuf_remove_header a free_left h; free_header_loop p 0 h } })"

definition pbuf_free_header :: "pptr \<Rightarrow> nat \<Rightarrow> pheap \<Rightarrow> (pptr \<times> pheap) option" where
  "pbuf_free_header q sz h = free_header_loop q sz h"

section \<open>Shrinking, concatenation, splitting\<close>

partial_function (option) realloc_loop ::
  "nat \<Rightarrow> nat \<Rightarrow> nat \<Rightarrow> pheap \<Rightarrow> (nat \<times> nat \<times> pheap) option" where
  "realloc_loop q rem_len shrink h =
     do { c \<leftarrow> cells h q;
       if rem_len > len c then
         (case nxt c of None \<Rightarrow> None
          | Some q' \<Rightarrow> realloc_loop q' (sub16 rem_len (len c)) shrink
              (put q (c\<lparr>tot_len := sub16 (tot_len c) shrink\<rparr>) h))
       else Some (q, rem_len, h) }"

text \<open>\<open>mem_trim\<close> cuts the memory of a heap pbuf behind the new end; the block stays in place.\<close>

definition pbuf_realloc :: "nat \<Rightarrow> nat \<Rightarrow> pheap \<Rightarrow> pheap option" where
  "pbuf_realloc p new_len h =
     do { c \<leftarrow> cells h p;
       if new_len \<ge> tot_len c then Some h
       else do { (q, rem_len, h) \<leftarrow> realloc_loop p new_len (sub16 (tot_len c) new_len) h;
         c \<leftarrow> cells h q;
         let c = (if type_internal c AND 0x0F = 0x00 \<and> rem_len \<noteq> len c \<and> flags c AND PBUF_FLAG_IS_CUSTOM = 0
                  then c\<lparr>area := take (nat (payload c) + rem_len) (area c)\<rparr> else c);
             h = put q (c\<lparr>len := rem_len, tot_len := rem_len\<rparr>) h
         in do { h \<leftarrow> (if nxt c \<noteq> None then do { (_, h) \<leftarrow> pbuf_free (nxt c) h; Some h } else Some h);
              c \<leftarrow> cells h q; Some (put q (c\<lparr>nxt := None\<rparr>) h) } } }"

partial_function (option) pbuf_clen_loop :: "pptr \<Rightarrow> nat \<Rightarrow> pheap \<Rightarrow> nat option" where
  "pbuf_clen_loop p n h =
     (case p of None \<Rightarrow> Some n | Some a \<Rightarrow> do { c \<leftarrow> cells h a; pbuf_clen_loop (nxt c) (u16 (n + 1)) h })"

definition pbuf_clen :: "pptr \<Rightarrow> pheap \<Rightarrow> nat option" where
  "pbuf_clen p h = pbuf_clen_loop p 0 h"

text \<open>\<open>t->tot_len\<close> is read again in every round.\<close>

partial_function (option) cat_loop :: "nat \<Rightarrow> nat \<Rightarrow> pheap \<Rightarrow> pheap option" where
  "cat_loop p t h =
     do { c \<leftarrow> cells h p; d \<leftarrow> cells h t;
       (case nxt c of
          Some p' \<Rightarrow> cat_loop p' t (put p (c\<lparr>tot_len := u16 (tot_len c + tot_len d)\<rparr>) h)
        | None \<Rightarrow> do { assert (tot_len c = len c);
            Some (put p (c\<lparr>tot_len := u16 (tot_len c + tot_len d), nxt := Some t\<rparr>) h) }) }"

definition pbuf_cat :: "pptr \<Rightarrow> pptr \<Rightarrow> pheap \<Rightarrow> pheap option" where
  "pbuf_cat hp t h = (case (hp, t) of (Some a, Some b) \<Rightarrow> cat_loop a b h | _ \<Rightarrow> None)"

definition pbuf_chain :: "pptr \<Rightarrow> pptr \<Rightarrow> pheap \<Rightarrow> pheap option" where
  "pbuf_chain hp t h = do { h \<leftarrow> pbuf_cat hp t h; pbuf_ref t h }"

definition pbuf_dechain :: "nat \<Rightarrow> pheap \<Rightarrow> (pptr \<times> pheap) option" where
  "pbuf_dechain p h =
     do { c \<leftarrow> cells h p;
       case nxt c of
         None \<Rightarrow> do { assert (tot_len c = len c); Some (None, h) }
       | Some q \<Rightarrow>
           do { d \<leftarrow> cells h q;
             assert (int (tot_len d) = int (tot_len c) - int (len c));
             let h = put q (d\<lparr>tot_len := sub16 (tot_len c) (len c)\<rparr>) h;
                 h = put p (c\<lparr>nxt := None, tot_len := len c\<rparr>) h
             in do { (tail_gone, h) \<leftarrow> pbuf_free (Some q) h;
                  Some (if tail_gone > 0 then None else Some q, h) } } }"

section \<open>Copying data\<close>

partial_function (option) copy_partial_loop ::
  "pptr \<Rightarrow> nat \<Rightarrow> nat \<Rightarrow> nat \<Rightarrow> bytes \<Rightarrow> pheap \<Rightarrow> (nat \<times> bytes) option" where
  "copy_partial_loop p n offset left dataptr h =
     (if n = 0 then Some (left, dataptr)
      else case p of None \<Rightarrow> Some (left, dataptr)
       | Some a \<Rightarrow> do { c \<leftarrow> cells h a;
           if offset \<noteq> 0 \<and> offset \<ge> len c then copy_partial_loop (nxt c) n (sub16 offset (len c)) left dataptr h
           else let k = min (sub16 (len c) offset) n in
             do { bs \<leftarrow> rd c offset k; assert (left + k \<le> length dataptr);
               copy_partial_loop (nxt c) (sub16 n k) 0 (u16 (left + k)) (blit dataptr left bs) h } })"

text \<open>\<open>copied_total\<close> and \<open>left\<close> always hold the same value and are one variable here.\<close>

definition pbuf_copy_partial :: "pptr \<Rightarrow> bytes \<Rightarrow> nat \<Rightarrow> nat \<Rightarrow> pheap \<Rightarrow> (nat \<times> bytes) option" where
  "pbuf_copy_partial buf dataptr n offset h =
     do { assert (buf \<noteq> None); copy_partial_loop buf n offset 0 dataptr h }"

partial_function (option) skip_loop :: "pptr \<Rightarrow> nat \<Rightarrow> pheap \<Rightarrow> (pptr \<times> nat) option" where
  "skip_loop q offset_left h =
     (case q of None \<Rightarrow> Some (None, offset_left)
      | Some a \<Rightarrow> do { c \<leftarrow> cells h a;
          if len c \<le> offset_left then skip_loop (nxt c) (sub16 offset_left (len c)) h
          else Some (q, offset_left) })"

definition pbuf_skip :: "pptr \<Rightarrow> nat \<Rightarrow> pheap \<Rightarrow> (pptr \<times> nat) option" where
  "pbuf_skip q in_offset h = skip_loop q in_offset h"

partial_function (option) take_loop :: "pptr \<Rightarrow> nat \<Rightarrow> nat \<Rightarrow> bytes \<Rightarrow> pheap \<Rightarrow> pheap option" where
  "take_loop p total_copy_len copied_total dataptr h =
     (if total_copy_len = 0 then Some h
      else case p of None \<Rightarrow> None
       | Some a \<Rightarrow> do { c \<leftarrow> cells h a;
           let k = min total_copy_len (len c) in
           do { assert (copied_total + k \<le> length dataptr);
             c' \<leftarrow> wr c 0 (take k (drop copied_total dataptr));
             take_loop (nxt c) (total_copy_len - k) (copied_total + k) dataptr (put a c' h) } })"

definition pbuf_take :: "pptr \<Rightarrow> bytes \<Rightarrow> nat \<Rightarrow> pheap \<Rightarrow> (err \<times> pheap) option" where
  "pbuf_take buf dataptr n h =
     do { c \<leftarrow> deref buf h; assert (tot_len c \<ge> n); h \<leftarrow> take_loop buf n 0 dataptr h; Some (ERR_OK, h) }"

definition pbuf_take_at :: "pptr \<Rightarrow> bytes \<Rightarrow> nat \<Rightarrow> nat \<Rightarrow> pheap \<Rightarrow> (err \<times> pheap) option" where
  "pbuf_take_at buf dataptr n offset h =
     do { (q, target_offset) \<leftarrow> pbuf_skip buf offset h;
       case q of None \<Rightarrow> Some (ERR_MEM, h)
       | Some a \<Rightarrow> do { c \<leftarrow> cells h a;
           if tot_len c \<ge> target_offset + n then
             (let k = min (len c - target_offset) n in
              do { assert (target_offset < len c); assert (k \<le> length dataptr);
                c' \<leftarrow> wr c target_offset (take k dataptr);
                (if sub16 n k > 0 then pbuf_take (nxt c) (drop k dataptr) (sub16 n k) (put a c' h)
                 else Some (ERR_OK, put a c' h)) })
           else Some (ERR_MEM, h) } }"

definition pbuf_try_get_at :: "pptr \<Rightarrow> nat \<Rightarrow> pheap \<Rightarrow> int option" where
  "pbuf_try_get_at p offset h =
     do { (q, q_idx) \<leftarrow> pbuf_skip p offset h;
       case q of None \<Rightarrow> Some (-1)
       | Some a \<Rightarrow> do { c \<leftarrow> cells h a;
           if len c > q_idx then do { bs \<leftarrow> rd c q_idx 1; Some (int (unat (hd bs))) } else Some (-1) } }"

definition pbuf_get_at :: "pptr \<Rightarrow> nat \<Rightarrow> pheap \<Rightarrow> u8 option" where
  "pbuf_get_at p offset h =
     do { r \<leftarrow> pbuf_try_get_at p offset h; Some (if r \<ge> 0 then of_int r else 0) }"

definition pbuf_put_at :: "pptr \<Rightarrow> nat \<Rightarrow> u8 \<Rightarrow> pheap \<Rightarrow> pheap option" where
  "pbuf_put_at p offset data h =
     do { (q, q_idx) \<leftarrow> pbuf_skip p offset h;
       case q of None \<Rightarrow> Some h
       | Some a \<Rightarrow> do { c \<leftarrow> cells h a;
           if len c > q_idx then do { c' \<leftarrow> wr c q_idx [data]; Some (put a c' h) } else Some h } }"

fun memcmp_loop :: "pptr \<Rightarrow> nat \<Rightarrow> nat \<Rightarrow> bytes \<Rightarrow> pheap \<Rightarrow> nat option" where
  "memcmp_loop q start i [] h = Some 0"
| "memcmp_loop q start i (b # s2) h =
     do { a \<leftarrow> pbuf_get_at q (u16 (start + i)) h;
       if a \<noteq> b then Some (min (i + 1) 0xFFFF) else memcmp_loop q start (i + 1) s2 h }"

text \<open>\<open>s2\<close> is the compared memory, of which the first \<open>n\<close> bytes are read.\<close>

definition pbuf_memcmp :: "nat \<Rightarrow> nat \<Rightarrow> bytes \<Rightarrow> nat \<Rightarrow> pheap \<Rightarrow> nat option" where
  "pbuf_memcmp p offset s2 n h =
     do { c \<leftarrow> cells h p;
       if tot_len c < offset + n then Some 0xffff
       else do { assert (n \<le> length s2); (q, start) \<leftarrow> skip_loop (Some p) offset h;
         memcmp_loop q start 0 (take n s2) h } }"

partial_function (option) memfind_loop :: "nat \<Rightarrow> bytes \<Rightarrow> nat \<Rightarrow> nat \<Rightarrow> nat \<Rightarrow> pheap \<Rightarrow> nat option" where
  "memfind_loop p mem mem_len i max_cmp_start h =
     (if i \<le> max_cmp_start then
        do { plus \<leftarrow> pbuf_memcmp p i mem mem_len h;
          if plus = 0 then Some i else memfind_loop p mem mem_len (u16 (i + 1)) max_cmp_start h }
      else Some 0xFFFF)"

definition pbuf_memfind :: "nat \<Rightarrow> bytes \<Rightarrow> nat \<Rightarrow> nat \<Rightarrow> pheap \<Rightarrow> nat option" where
  "pbuf_memfind p mem mem_len start_offset h =
     do { c \<leftarrow> cells h p;
       if tot_len c \<ge> mem_len + start_offset
       then memfind_loop p mem mem_len start_offset (sub16 (tot_len c) mem_len) h
       else Some 0xFFFF }"

definition pbuf_strstr :: "nat \<Rightarrow> bytes \<Rightarrow> pheap \<Rightarrow> nat option" where
  "pbuf_strstr p substr h =
     do { c \<leftarrow> cells h p;
       let s = takeWhile (\<lambda>b. b \<noteq> 0) substr in
       if s = [] \<or> tot_len c = 0xFFFF then Some 0xFFFF
       else if length s \<ge> 0xFFFF then Some 0xFFFF
       else pbuf_memfind p s (length s) 0 h }"

section \<open>Copying between chains\<close>

text \<open>
  \<open>pbuf_copy\<close>: the \<open>do-while\<close> loop over both chains. The checks for packet queues are the
  two tests at the end of the body; they abort here.
\<close>

definition no_queue :: "pptr \<Rightarrow> pheap \<Rightarrow> unit option" where
  "no_queue p h =
     (case p of None \<Rightarrow> Some ()
      | Some a \<Rightarrow> do { c \<leftarrow> cells h a; assert (len c = tot_len c \<longrightarrow> nxt c = None) })"

partial_function (option) copy_loop :: "pptr \<Rightarrow> nat \<Rightarrow> pptr \<Rightarrow> nat \<Rightarrow> pheap \<Rightarrow> pheap option" where
  "copy_loop p_to offset_to p_from offset_from h =
     do { t \<leftarrow> deref p_to h; f \<leftarrow> deref p_from h;
       let n = (if len t - offset_to \<ge> len f - offset_from then len f - offset_from else len t - offset_to) in
       do { bs \<leftarrow> rd f offset_from n; t' \<leftarrow> wr t offset_to bs;
         let h = put (the p_to) t' h; offset_to = offset_to + n; offset_from = offset_from + n in
         do { assert (offset_to \<le> len t); assert (offset_from \<le> len f);
           let (p_from, offset_from) = (if offset_from \<ge> len f then (nxt f, 0) else (p_from, offset_from));
               (p_to, offset_to) = (if offset_to = len t then (nxt t, 0) else (p_to, offset_to))
           in do { assert (p_to \<noteq> None \<or> p_from = None); no_queue p_from h; no_queue p_to h;
                (if p_from \<noteq> None then copy_loop p_to offset_to p_from offset_from h else Some h) } } } }"

definition pbuf_copy :: "pptr \<Rightarrow> pptr \<Rightarrow> pheap \<Rightarrow> (err \<times> pheap) option" where
  "pbuf_copy p_to p_from h =
     do { t \<leftarrow> deref p_to h; f \<leftarrow> deref p_from h; assert (tot_len t \<ge> tot_len f);
       h \<leftarrow> copy_loop p_to 0 p_from 0 h; Some (ERR_OK, h) }"

definition pbuf_clone :: "pbuf_layer \<Rightarrow> pbuf_type \<Rightarrow> nat \<Rightarrow> pheap \<Rightarrow> (pptr \<times> pheap) option" where
  "pbuf_clone layer type p h =
     do { c \<leftarrow> cells h p; (q, h) \<leftarrow> pbuf_alloc layer (tot_len c) type h;
       case q of None \<Rightarrow> Some (None, h)
       | Some _ \<Rightarrow> do { (e, h) \<leftarrow> pbuf_copy q (Some p) h; assert (e = ERR_OK); Some (q, h) } }"

definition pbuf_coalesce :: "nat \<Rightarrow> pbuf_layer \<Rightarrow> pheap \<Rightarrow> (pptr \<times> pheap) option" where
  "pbuf_coalesce p layer h =
     do { c \<leftarrow> cells h p;
       if nxt c = None then Some (Some p, h)
       else do { (q, h) \<leftarrow> pbuf_clone layer PBUF_RAM p h;
         case q of None \<Rightarrow> Some (Some p, h)
         | Some _ \<Rightarrow> do { (_, h) \<leftarrow> pbuf_free (Some p) h; Some (q, h) } } }"

end
