(* ===== verification/Pbuf_Chain.thy ===== *)
theory Pbuf_Chain
  imports Pbuf
begin

text \<open>
  What the pbuf operations do to packets. \<open>chain h p as\<close> says that the cells at the
  addresses \<open>as\<close> are linked from \<open>p\<close>; \<open>packet h p as\<close> adds the consistency of \<open>len\<close>,
  \<open>tot_len\<close> and the payload memory; \<open>contents h as\<close> is the byte string of the packet. Each
  operation is shown to be a list operation on \<open>contents\<close> and to leave other cells alone.
\<close>

section \<open>Chains and packets\<close>

fun chain :: "pheap \<Rightarrow> pptr \<Rightarrow> nat list \<Rightarrow> bool" where
  "chain h p [] \<longleftrightarrow> p = None"
| "chain h p (a # as) \<longleftrightarrow> p = Some a \<and> (\<exists>c. cells h a = Some c \<and> chain h (nxt c) as)"

definition cell_ok :: "pbuf \<Rightarrow> bool" where
  "cell_ok c \<longleftrightarrow> 0 \<le> payload c \<and> nat (payload c) + len c \<le> length (area c)"

definition data_of :: "pbuf \<Rightarrow> bytes" where
  "data_of c = take (len c) (drop (nat (payload c)) (area c))"

definition plen :: "pheap \<Rightarrow> nat list \<Rightarrow> nat" where
  "plen h as = sum_list (map (\<lambda>a. len (the (cells h a))) as)"

definition contents :: "pheap \<Rightarrow> nat list \<Rightarrow> bytes" where
  "contents h as = concat (map (\<lambda>a. data_of (the (cells h a))) as)"

fun packet :: "pheap \<Rightarrow> pptr \<Rightarrow> nat list \<Rightarrow> bool" where
  "packet h p [] \<longleftrightarrow> p = None"
| "packet h p (a # as) \<longleftrightarrow> p = Some a \<and> (\<exists>c. cells h a = Some c \<and> cell_ok c
     \<and> tot_len c = len c + plen h as \<and> tot_len c < 65536 \<and> packet h (nxt c) as)"

lemma plen_simps [simp]:
  "plen h [] = 0" "plen h (a # as) = len (the (cells h a)) + plen h as"
  "plen h (as @ bs) = plen h as + plen h bs"
  by (simp_all add: plen_def)

lemma contents_simps [simp]:
  "contents h [] = []" "contents h (a # as) = data_of (the (cells h a)) @ contents h as"
  "contents h (as @ bs) = contents h as @ contents h bs"
  by (simp_all add: contents_def)

lemma length_data_of [simp]: "cell_ok c \<Longrightarrow> length (data_of c) = len c"
  by (auto simp: cell_ok_def data_of_def)

lemma packet_chain: "packet h p as \<Longrightarrow> chain h p as"
  by (induction as arbitrary: p) auto

lemma length_contents: "packet h p as \<Longrightarrow> length (contents h as) = plen h as"
  by (induction as arbitrary: p) auto

lemma packet_plen_less: "packet h p as \<Longrightarrow> plen h as < 65536"
  by (cases as) auto

lemma chain_unique: "chain h p as \<Longrightarrow> chain h p bs \<Longrightarrow> as = bs"
proof (induction as arbitrary: p bs)
  case Nil
  then show ?case by (cases bs) auto
next
  case (Cons a as)
  then show ?case by (cases bs) auto
qed

lemma chain_suffix: "chain h p (xs @ a # ys) \<Longrightarrow> chain h (Some a) (a # ys)"
  by (induction xs arbitrary: p) auto

lemma chain_distinct: "chain h p as \<Longrightarrow> distinct as"
proof (induction as arbitrary: p)
  case Nil
  then show ?case by simp
next
  case (Cons a as)
  then obtain c where c: "p = Some a" "cells h a = Some c" "chain h (nxt c) as" by auto
  have "a \<notin> set as"
  proof
    assume "a \<in> set as"
    then obtain xs ys where as: "as = xs @ a # ys" by (auto simp: in_set_conv_decomp)
    have "chain h (Some a) (a # ys)"
      using chain_suffix [of h "nxt c" xs a ys] c(3) as by simp
    with Cons.prems c(1) have "a # as = a # ys" by (metis chain_unique)
    with as show False by simp
  qed
  with Cons.IH [OF c(3)] show ?case by simp
qed

lemma packet_distinct: "packet h p as \<Longrightarrow> distinct as"
  by (rule chain_distinct [OF packet_chain])

text \<open>
  Frame rule: a packet only depends on its own cells. \<open>same_on as h h'\<close> is agreement there.
\<close>

definition same_on :: "nat list \<Rightarrow> pheap \<Rightarrow> pheap \<Rightarrow> bool" where
  "same_on as h h' \<longleftrightarrow> (\<forall>a \<in> set as. cells h' a = cells h a)"

lemma same_on_refl [simp]: "same_on as h h"
  by (simp add: same_on_def)

lemma same_on_Cons: "same_on (a # as) h h' \<longleftrightarrow> cells h' a = cells h a \<and> same_on as h h'"
  by (simp add: same_on_def)

lemma same_on_put [simp]: "a \<notin> set as \<Longrightarrow> same_on as h (put a c h)"
  by (auto simp: same_on_def put_def)

lemma same_on_trans: "same_on as h h1 \<Longrightarrow> same_on as h1 h2 \<Longrightarrow> same_on as h h2"
  by (simp add: same_on_def)

lemma plen_frame: "same_on as h h' \<Longrightarrow> plen h' as = plen h as"
  by (induction as) (auto simp: same_on_def)

lemma contents_frame: "same_on as h h' \<Longrightarrow> contents h' as = contents h as"
  by (induction as) (auto simp: same_on_def)

lemma packet_frame: "same_on as h h' \<Longrightarrow> packet h p as \<Longrightarrow> packet h' p as"
  by (induction as arbitrary: p) (auto simp: same_on_Cons plen_frame)

lemma chain_frame: "same_on as h h' \<Longrightarrow> chain h p as \<Longrightarrow> chain h' p as"
  by (induction as arbitrary: p) (auto simp: same_on_Cons)

lemma cells_put [simp]: "cells (put a c h) = (cells h)(a \<mapsto> c)"
  by (simp add: put_def)

lemma put_fields [simp]:
  "pool (put a c h) = pool h" "refs (put a c h) = refs h" "ram (put a c h) = ram h"
  "ram_fits (put a c h) = ram_fits h" "junk (put a c h) = junk h"
  "ooseq_pending (put a c h) = ooseq_pending h" "custom_freed (put a c h) = custom_freed h"
  by (simp_all add: put_def)

lemma assert_eq_Some [simp]: "assert b = Some u \<longleftrightarrow> b"
  by (simp add: assert_def)

lemma assert_True [simp]: "assert True = Some ()"
  by (simp add: assert_def)

lemma u16_small [simp]: "n < 65536 \<Longrightarrow> u16 n = n"
  by (simp add: u16_def)

lemma sub16_small [simp]: "b \<le> a \<Longrightarrow> a < 65536 \<Longrightarrow> sub16 a b = a - b"
  by (simp add: sub16_def mod_if)

section \<open>Reading: pbuf_copy_partial, pbuf_skip, pbuf_get_at\<close>

lemma rd_ok:
  "cell_ok c \<Longrightarrow> off + n \<le> len c \<Longrightarrow> rd c off n = Some (take n (drop off (data_of c)))"
  by (auto simp: rd_def cell_ok_def data_of_def drop_take min_def add.commute)

lemma copy_partial_loop_spec:
  assumes "packet h p as" and "offset < 65536" and "left + n < 65536"
    and "left + min n (plen h as - offset) \<le> length dp"
  shows "copy_partial_loop p n offset left dp h =
    Some (left + min n (plen h as - offset), blit dp left (take n (drop offset (contents h as))))"
  using assms
proof (induction as arbitrary: p n offset left dp)
  case Nil
  then show ?case by (subst copy_partial_loop.simps) simp
next
  case (Cons a as)
  then obtain c where c: "p = Some a" "cells h a = Some c" "cell_ok c" "packet h (nxt c) as"
    "len c + plen h as < 65536" by auto
  note len = length_data_of [OF c(3)]
  show ?case
  proof (cases "n = 0")
    case True
    then show ?thesis by (subst copy_partial_loop.simps) simp
  next
    case n: False
    show ?thesis
    proof (cases "offset \<noteq> 0 \<and> offset \<ge> len c")
      case True
      then have "copy_partial_loop p n offset left dp h =
          copy_partial_loop (nxt c) n (offset - len c) left dp h"
        using n c Cons.prems(2) by (subst copy_partial_loop.simps) simp
      with Cons.IH [OF c(4), of "offset - len c" left n dp] Cons.prems True c(2) len
      show ?thesis by simp
    next
      case False
      then have off: "offset \<le> len c" by auto
      let ?k = "min (len c - offset) n"
      let ?bs = "take ?k (drop offset (data_of c))"
      have bs: "length ?bs = ?k" using len by simp
      have fit: "left + ?k \<le> length dp" using Cons.prems(4) c(2) by auto
      have "copy_partial_loop p n offset left dp h =
          copy_partial_loop (nxt c) (n - ?k) 0 (left + ?k) (blit dp left ?bs) h"
        using n False c Cons.prems(2,3) fit off rd_ok [OF c(3), of offset ?k]
        by (subst copy_partial_loop.simps) (simp add: Let_def)
      also have "\<dots> = Some (left + ?k + min (n - ?k) (plen h as),
          blit (blit dp left ?bs) (left + ?k) (take (n - ?k) (contents h as)))"
      proof -
        have "?k \<le> n" by simp
        then have 1: "left + ?k + (n - ?k) < 65536" using Cons.prems(3) by linarith
        have sum: "?k + min (n - ?k) (plen h as) = min n (len c + plen h as - offset)"
          using off by linarith
        have "length (blit dp left ?bs) = length dp" by (rule length_blit) (simp only: bs fit)
        with Cons.prems(4) c(2) sum
        have 2: "left + ?k + min (n - ?k) (plen h as - 0) \<le> length (blit dp left ?bs)" by simp
        from Cons.IH [OF c(4) _ 1 2] show ?thesis by simp
      qed
      also have "blit (blit dp left ?bs) (left + ?k) (take (n - ?k) (contents h as)) =
          blit dp left (?bs @ take (n - ?k) (contents h as))"
        by (rule blit_blit) (simp_all only: bs fit)
      also have "?bs @ take (n - ?k) (contents h as) = take n (drop offset (contents h (a # as)))"
        using c(2) off len by (cases "len c - offset \<le> n") simp_all
      also have "left + ?k + min (n - ?k) (plen h as) = left + min n (plen h (a # as) - offset)"
        unfolding plen_simps using c(2) off by simp
      finally show ?thesis .
    qed
  qed
qed

lemma skip_loop_in:
  assumes "packet h p as" and "offset < plen h as"
  shows "\<exists>xs a ys c. as = xs @ a # ys \<and> cells h a = Some c \<and> skip_loop p offset h = Some (Some a, offset - plen h xs)
    \<and> plen h xs \<le> offset \<and> offset - plen h xs < len c \<and> packet h (Some a) (a # ys)"
  using assms
proof (induction as arbitrary: p offset)
  case Nil
  then show ?case by simp
next
  case (Cons a as)
  then obtain c where c: "p = Some a" "cells h a = Some c" "packet h (nxt c) as" "len c + plen h as < 65536"
    by auto
  show ?case
  proof (cases "len c \<le> offset")
    case True
    then have "skip_loop p offset h = skip_loop (nxt c) (offset - len c) h"
      using c Cons.prems(2) by (subst skip_loop.simps) simp
    moreover have "offset - len c < plen h as" using True Cons.prems(2) c(2) by simp
    ultimately obtain xs b ys d where "as = xs @ b # ys" "cells h b = Some d"
      "skip_loop p offset h = Some (Some b, offset - len c - plen h xs)"
      "plen h xs \<le> offset - len c" "offset - len c - plen h xs < len d" "packet h (Some b) (b # ys)"
      using Cons.IH [OF c(3)] by metis
    then show ?thesis
      using True c(2) by (intro exI [of _ "a # xs"] exI [of _ b] exI [of _ ys] exI [of _ d]) auto
  next
    case False
    then have "skip_loop p offset h = Some (Some a, offset)"
      using c by (subst skip_loop.simps) simp
    then show ?thesis
      using False c Cons.prems(1) by (intro exI [of _ "[]"] exI [of _ a] exI [of _ as] exI [of _ c]) auto
  qed
qed

lemma skip_loop_out:
  assumes "packet h p as" and "plen h as \<le> offset" and "offset < 65536"
  shows "skip_loop p offset h = Some (None, offset - plen h as)"
  using assms
proof (induction as arbitrary: p offset)
  case Nil
  then show ?case by (subst skip_loop.simps) simp
next
  case (Cons a as)
  then obtain c where c: "p = Some a" "cells h a = Some c" "packet h (nxt c) as" by auto
  with Cons.prems have "skip_loop p offset h = skip_loop (nxt c) (offset - len c) h"
    by (subst skip_loop.simps) simp
  with Cons.IH [OF c(3), of "offset - len c"] Cons.prems c show ?case by simp
qed

lemma pbuf_try_get_at_spec:
  assumes "packet h p as" and "offset < 65536"
  shows "pbuf_try_get_at p offset h =
    Some (if offset < plen h as then int (unat (contents h as ! offset)) else -1)"
proof (cases "offset < plen h as")
  case False
  with skip_loop_out [OF assms(1) _ assms(2)] show ?thesis
    by (simp add: pbuf_try_get_at_def pbuf_skip_def)
next
  case True
  from skip_loop_in [OF assms(1) True] obtain xs a ys c where
    s: "as = xs @ a # ys" "cells h a = Some c" "skip_loop p offset h = Some (Some a, offset - plen h xs)"
      "plen h xs \<le> offset" "offset - plen h xs < len c" "packet h (Some a) (a # ys)" by blast
  let ?i = "offset - plen h xs"
  from s(2,6) have ok: "cell_ok c" by auto
  have lxs: "length (contents h xs) = plen h xs"
    using length_contents [OF assms(1)] length_contents [OF s(6)] s(1) by simp
  have "rd c ?i 1 = Some (take 1 (drop ?i (data_of c)))"
    using ok s(5) by (intro rd_ok) auto
  moreover have "hd (take 1 (drop ?i (data_of c))) = data_of c ! ?i"
    using ok s(5) by (simp add: hd_drop_conv_nth)
  moreover have "contents h as ! offset = data_of c ! ?i"
    using s(1,2,4,5) ok lxs by (simp add: nth_append)
  ultimately show ?thesis
    using True s by (simp add: pbuf_try_get_at_def pbuf_skip_def)
qed

lemma pbuf_get_at_spec:
  assumes "packet h p as" and "offset < 65536"
  shows "pbuf_get_at p offset h = Some (if offset < plen h as then contents h as ! offset else 0)"
  using pbuf_try_get_at_spec [OF assms] by (simp add: pbuf_get_at_def)

section \<open>Writing: pbuf_take\<close>

definition only_cells :: "nat list \<Rightarrow> pheap \<Rightarrow> pheap \<Rightarrow> bool" where
  "only_cells as h h' \<longleftrightarrow> (\<forall>b. b \<notin> set as \<longrightarrow> cells h' b = cells h b) \<and> h' = h\<lparr>cells := cells h'\<rparr>"

lemma only_cells_refl [simp]: "only_cells as h h"
  by (simp add: only_cells_def)

lemma only_cells_put: "only_cells as (put a c h) h' \<Longrightarrow> only_cells (a # as) h h'"
  unfolding only_cells_def by (auto simp: put_def)

lemma only_cells_same_on: "only_cells as h h' \<Longrightarrow> set as \<inter> set bs = {} \<Longrightarrow> same_on bs h h'"
  by (auto simp: only_cells_def same_on_def)

lemma wr_ok:
  assumes "cell_ok c" and "off + length bs \<le> len c"
  shows "\<exists>c'. wr c off bs = Some c' \<and> cell_ok c' \<and> c' = c\<lparr>area := area c'\<rparr> \<and> data_of c' = blit (data_of c) off bs"
proof -
  let ?p = "nat (payload c)"
  let ?c = "c\<lparr>area := blit (area c) (?p + off) bs\<rparr>"
  have fit: "?p + off + length bs \<le> length (area c)" using assms by (auto simp: cell_ok_def)
  have "wr c off bs = Some ?c" using assms fit by (simp add: wr_def cell_ok_def)
  moreover have "cell_ok ?c" using assms fit by (simp add: cell_ok_def)
  moreover have "data_of ?c = blit (data_of c) off bs"
  proof (rule nth_equalityI)
    show "length (data_of ?c) = length (blit (data_of c) off bs)"
      using \<open>cell_ok ?c\<close> assms by simp
    fix i assume "i < length (data_of ?c)"
    then have i: "i < len c" using \<open>cell_ok ?c\<close> by simp
    have "data_of ?c ! i = blit (area c) (?p + off) bs ! (?p + i)"
      using i fit assms(1) by (simp add: data_of_def cell_ok_def)
    also have "\<dots> = blit (data_of c) off bs ! i"
      using i fit assms by (subst (1 2) nth_blit) (auto simp: data_of_def cell_ok_def)
    finally show "data_of ?c ! i = blit (data_of c) off bs ! i" .
  qed
  ultimately show ?thesis by (intro exI [of _ ?c]) simp
qed

lemma take_loop_spec:
  assumes "packet h p as" and "n \<le> plen h as" and "cp + n \<le> length dt"
  shows "\<exists>h'. take_loop p n cp dt h = Some h' \<and> packet h' p as \<and> only_cells as h h'
    \<and> contents h' as = take n (drop cp dt) @ drop n (contents h as)"
  using assms
proof (induction as arbitrary: p n cp h)
  case Nil
  then show ?case by (subst take_loop.simps) auto
next
  case (Cons a as)
  then obtain c where c: "p = Some a" "cells h a = Some c" "cell_ok c" "packet h (nxt c) as"
    "tot_len c = len c + plen h as" "tot_len c < 65536" by auto
  from packet_distinct [OF Cons.prems(1)] have a: "a \<notin> set as" by simp
  show ?case
  proof (cases "n = 0")
    case True
    with Cons.prems show ?thesis by (subst take_loop.simps) auto
  next
    case False
    let ?k = "min n (len c)" and ?src = "take (min n (len c)) (drop cp dt)"
    have src: "length ?src = ?k" using Cons.prems(3) by simp
    from wr_ok [OF c(3), of 0 ?src] src obtain c' where
      c': "wr c 0 ?src = Some c'" "cell_ok c'" "c' = c\<lparr>area := area c'\<rparr>" "data_of c' = blit (data_of c) 0 ?src"
      by auto
    have keep: "nxt c' = nxt c" "len c' = len c" "tot_len c' = tot_len c" by (subst c'(3), simp)+
    let ?h = "put a c' h"
    have "cp + ?k \<le> length dt" using Cons.prems(3) by linarith
    then have step: "take_loop p n cp dt h = take_loop (nxt c) (n - ?k) (cp + ?k) dt ?h"
      using False c c'(1) by (subst take_loop.simps) (simp add: Let_def)
    have same: "same_on as h ?h" using a by simp
    have tail: "packet ?h (nxt c) as" "plen ?h as = plen h as" "contents ?h as = contents h as"
      using packet_frame [OF same c(4)] plen_frame [OF same] contents_frame [OF same] by auto
    have "n - ?k \<le> plen ?h as" "cp + ?k + (n - ?k) \<le> length dt"
      using Cons.prems(2,3) c(2) tail(2) by auto
    from Cons.IH [OF tail(1) this] tail(3) step obtain h' where
      h': "take_loop p n cp dt h = Some h'" "packet h' (nxt c) as" "only_cells as ?h h'"
        "contents h' as = take (n - ?k) (drop (cp + ?k) dt) @ drop (n - ?k) (contents h as)" by auto
    have at: "cells h' a = Some c'" using h'(3) a by (simp add: only_cells_def)
    have "plen h' as = plen h as"
      using length_contents [OF h'(2)] h'(4) length_contents [OF c(4)] Cons.prems(2,3) c(2) by simp
    then have "packet h' p (a # as)"
      using c(1,5,6) c'(2) keep at h'(2) by simp
    moreover have "only_cells (a # as) h h'" by (rule only_cells_put [OF h'(3)])
    moreover have "contents h' (a # as) = take n (drop cp dt) @ drop n (contents h (a # as))"
      using at c'(4) h'(4) c(2) length_data_of [OF c(3)] src
      by (cases "n \<le> len c") (simp_all add: blit_def take_drop_split)
    ultimately show ?thesis using h'(1) by blast
  qed
qed

end
