(* ===== verification/Pbuf_Alloc.thy ===== *)
theory Pbuf_Alloc
  imports Pbuf_Chain "HOL-Library.Multiset"
begin

text \<open>
  Allocation, release and reference counting of pbufs: \<open>pbuf_free\<close> releases exactly the
  leading cells nobody else refers to, \<open>pbuf_alloc\<close> for the pool either delivers a fresh
  packet of the requested length or gives every element it had taken back.
\<close>

section \<open>pbuf_free\<close>

definition releasable :: "pbuf \<Rightarrow> bool" where
  "releasable c \<longleftrightarrow> flags c AND PBUF_FLAG_IS_CUSTOM \<noteq> 0 \<or> type_internal c AND 0x0F \<in> {0, 1, 2}"

definition free_cells :: "pheap \<Rightarrow> nat multiset" where
  "free_cells h = mset (map fst (pool h)) + mset (refs h) + mset (ram h) + mset (custom_freed h)"

lemma drop_cell_fields [simp]:
  "cells (drop_cell a h) = (cells h)(a := None)" "pool (drop_cell a h) = pool h" "refs (drop_cell a h) = refs h"
  "ram (drop_cell a h) = ram h" "custom_freed (drop_cell a h) = custom_freed h"
  by (simp_all add: drop_cell_def)

lemma release_spec:
  assumes "releasable c"
  shows "\<exists>h'. release a c h = Some h' \<and> cells h' = (cells h)(a := None) \<and> free_cells h' = add_mset a (free_cells h)"
  using assms unfolding releasable_def release_def free_cells_def by auto

definition sole :: "pheap \<Rightarrow> nat \<Rightarrow> bool" where
  "sole h a \<longleftrightarrow> (\<exists>c. cells h a = Some c \<and> ref c = 1 \<and> releasable c)"

definition shared :: "pheap \<Rightarrow> nat list \<Rightarrow> bool" where
  "shared h cs \<longleftrightarrow> cs = [] \<or> (\<exists>c. cells h (hd cs) = Some c \<and> ref c > 1)"

definition unref_head :: "nat list \<Rightarrow> (nat \<Rightarrow> pbuf option) \<Rightarrow> nat \<Rightarrow> pbuf option" where
  "unref_head cs m =
     (case cs of [] \<Rightarrow> m | a # _ \<Rightarrow> m(a := map_option (\<lambda>c. c\<lparr>ref := ref c - 1\<rparr>) (m a)))"

definition free_map :: "nat list \<Rightarrow> nat list \<Rightarrow> (nat \<Rightarrow> pbuf option) \<Rightarrow> nat \<Rightarrow> pbuf option" where
  "free_map bs cs m = (\<lambda>a. if a \<in> set bs then None else unref_head cs m a)"

lemma free_map_all [simp]: "free_map bs [] m = (\<lambda>a. if a \<in> set bs then None else m a)"
  by (simp add: free_map_def unref_head_def fun_eq_iff)

lemma free_cells_put [simp]: "free_cells (put a c h) = free_cells h"
  by (simp add: free_cells_def)

lemma free_loop_shared:
  assumes "chain h p cs" and "shared h cs"
  shows "\<exists>h'. free_loop p n h = Some (n, h') \<and> cells h' = unref_head cs (cells h) \<and> free_cells h' = free_cells h"
proof (cases cs)
  case Nil
  with assms show ?thesis by (subst free_loop.simps) (simp add: unref_head_def)
next
  case (Cons a as)
  with assms obtain c where "p = Some a" "cells h a = Some c" "ref c > 1"
    by (auto simp: shared_def)
  then show ?thesis
    using Cons by (subst free_loop.simps) (simp add: unref_head_def free_cells_def)
qed

lemma free_loop_spec:
  assumes "chain h p (bs @ cs)" and "\<forall>a \<in> set bs. sole h a" and "shared h cs" and "n < 256"
  shows "\<exists>h'. free_loop p n h = Some ((n + length bs) mod 256, h')
    \<and> cells h' = free_map bs cs (cells h) \<and> free_cells h' = mset bs + free_cells h"
  using assms
proof (induction bs arbitrary: p n h)
  case Nil
  with free_loop_shared [of h p cs n] show ?case by (simp add: free_map_def)
next
  case (Cons a bs)
  from Cons.prems(1,2) obtain c where c: "p = Some a" "cells h a = Some c" "chain h (nxt c) (bs @ cs)"
    "ref c = 1" "releasable c" by (auto simp: sole_def)
  from chain_distinct [OF Cons.prems(1)] have a: "a \<notin> set bs" "a \<notin> set cs" by auto
  from release_spec [OF c(5), of a h] obtain h1 where
    h1: "release a c h = Some h1" "cells h1 = (cells h)(a := None)" "free_cells h1 = add_mset a (free_cells h)"
    by blast
  have same: "same_on (bs @ cs) h h1" using a h1(2) by (auto simp: same_on_def)
  have "chain h1 (nxt c) (bs @ cs)" by (rule chain_frame [OF same c(3)])
  moreover have "\<forall>b \<in> set bs. sole h1 b" using Cons.prems(2) same by (auto simp: sole_def same_on_def)
  moreover have "shared h1 cs"
    using Cons.prems(3) same by (cases cs) (auto simp: shared_def same_on_def)
  ultimately obtain h' where h': "free_loop (nxt c) ((n + 1) mod 256) h1 = Some (((n + 1) mod 256 + length bs) mod 256, h')"
    "cells h' = free_map bs cs (cells h1)" "free_cells h' = mset bs + free_cells h1"
    using Cons.IH [of h1 "nxt c" "(n + 1) mod 256"] by fastforce
  have "free_loop p n h = free_loop (nxt c) ((n + 1) mod 256) h1"
    using c h1(1) by (subst free_loop.simps) simp
  moreover have "((n + 1) mod 256 + length bs) mod 256 = (n + length (a # bs)) mod 256"
    by (simp add: mod_add_left_eq)
  moreover have "cells h' = free_map (a # bs) cs (cells h)"
    using h'(2) h1(2) a by (auto simp: free_map_def unref_head_def fun_eq_iff split: list.splits)
  ultimately show ?case using h' h1(3) by simp
qed

lemma pbuf_free_spec:
  assumes "chain h (Some p) (bs @ cs)" and "\<forall>a \<in> set bs. sole h a" and "shared h cs"
  shows "\<exists>h'. pbuf_free (Some p) h = Some (length bs mod 256, h')
    \<and> cells h' = free_map bs cs (cells h) \<and> free_cells h' = mset bs + free_cells h"
  using free_loop_spec [OF assms, of 0] by (simp add: pbuf_free_def)

section \<open>pbuf_alloc from the pool\<close>

text \<open>The packet under construction: \<open>rem\<close> bytes are still to be allocated behind it.\<close>

fun growing :: "pheap \<Rightarrow> pptr \<Rightarrow> nat list \<Rightarrow> nat \<Rightarrow> bool" where
  "growing h p [] rem \<longleftrightarrow> p = None"
| "growing h p (a # as) rem \<longleftrightarrow> p = Some a \<and> (\<exists>c. cells h a = Some c \<and> cell_ok c
     \<and> tot_len c = len c + plen h as + rem \<and> tot_len c < 65536 \<and> ref c = 1
     \<and> type_internal c = 0x82 \<and> flags c = 0 \<and> growing h (nxt c) as rem)"

lemma growing_packet: "growing h p as 0 \<Longrightarrow> packet h p as"
  by (induction as arbitrary: p) auto

lemma growing_chain: "growing h p as rem \<Longrightarrow> chain h p as"
  by (induction as arbitrary: p) auto

lemma growing_frame: "same_on as h h' \<Longrightarrow> growing h p as rem \<Longrightarrow> growing h' p as rem"
  by (induction as arbitrary: p) (auto simp: same_on_Cons plen_frame)

lemma growing_sole: "growing h p as rem \<Longrightarrow> a \<in> set as \<Longrightarrow> sole h a"
  by (induction as arbitrary: p) (auto simp: sole_def releasable_def)

lemma growing_snoc:
  assumes "growing h p as rem" and "as \<noteq> []" and "q \<notin> set as" and "cells h (last as) = Some l"
    and "d = pbuf_init_alloced_pbuf mem off rem qlen PBUF_POOL 0" and "cell_ok d" and "qlen \<le> rem" and "rem < 65536"
  shows "growing (put (last as) (l\<lparr>nxt := Some q\<rparr>) (put q d h)) p (as @ [q]) (rem - qlen)"
  using assms
proof (induction as arbitrary: p)
  case Nil
  then show ?case by simp
next
  case (Cons a as)
  let ?h = "put (last (a # as)) (l\<lparr>nxt := Some q\<rparr>) (put q d h)"
  from Cons.prems(1) obtain c where c: "p = Some a" "cells h a = Some c" "cell_ok c"
    "tot_len c = len c + plen h as + rem" "tot_len c < 65536" "ref c = 1" "type_internal c = 0x82"
    "flags c = 0" "growing h (nxt c) as rem" by auto
  have d: "cells ?h q = Some d" "len d = qlen" "tot_len d = rem" "nxt d = None" "ref d = 1" "type_internal d = 0x82" "flags d = 0"
    using Cons.prems(3,5) by (auto simp: pbuf_init_alloced_pbuf_def)
  from chain_distinct [OF growing_chain [OF Cons.prems(1)]] have dist: "a \<notin> set as" by simp
  show ?case
  proof (cases "as = []")
    case True
    with c Cons.prems(3,4,6-8) d show ?thesis by (auto simp: cell_ok_def)
  next
    case False
    have la: "last as \<noteq> a" using False dist last_in_set [of as] by auto
    have "growing ?h (nxt c) (as @ [q]) (rem - qlen)"
      using Cons.IH [OF c(9) False] Cons.prems False by simp
    moreover have "plen ?h as = plen h as"
    proof -
      have "len (the (cells ?h b)) = len (the (cells h b))" if "b \<in> set as" for b
        using that Cons.prems(3,4) False by auto
      then show ?thesis by (simp add: plen_def cong: map_cong)
    qed
    moreover have "cells ?h a = Some c" using c(2) la False Cons.prems(3) by auto
    ultimately show ?thesis
      using c d Cons.prems(7) by simp
  qed
qed

definition pool_ok :: "pheap \<Rightarrow> bool" where
  "pool_ok h \<longleftrightarrow> distinct (map fst (pool h))
     \<and> (\<forall>q mem. (q, mem) \<in> set (pool h) \<longrightarrow> cells h q = None \<and> length mem = PBUF_POOL_BUFSIZE)"

text \<open>The two outcomes of an allocation that has already linked the cells \<open>as\<close>.\<close>

definition gave_back :: "nat list \<Rightarrow> pheap \<Rightarrow> pheap \<Rightarrow> bool" where
  "gave_back as h h' \<longleftrightarrow> cells h' = (\<lambda>a. if a \<in> set as then None else cells h a)
     \<and> free_cells h' = mset as + free_cells h"

definition extended :: "nat list \<Rightarrow> nat \<Rightarrow> pheap \<Rightarrow> pptr \<Rightarrow> pheap \<Rightarrow> bool" where
  "extended as rem h r h' \<longleftrightarrow> (\<exists>ys. growing h' r (as @ ys) 0 \<and> as @ ys \<noteq> [] \<and> plen h' (as @ ys) = plen h as + rem
     \<and> (\<forall>y \<in> set ys. cells h y = None) \<and> (\<forall>a. a \<notin> set (as @ ys) \<longrightarrow> cells h' a = cells h a)
     \<and> free_cells h = mset ys + free_cells h')"

definition alloc_result :: "nat list \<Rightarrow> nat \<Rightarrow> pheap \<Rightarrow> pptr \<times> pheap \<Rightarrow> bool" where
  "alloc_result as rem h r \<longleftrightarrow>
     (case r of (None, h') \<Rightarrow> gave_back as h h' | (Some q, h') \<Rightarrow> extended as rem h (Some q) h')"

lemma pool_ok_taken:
  assumes "pool_ok h" and "pool h = x # rest" and "pool h' = rest"
    and "\<And>a. a \<in> fst ` set rest \<Longrightarrow> cells h' a = cells h a"
  shows "pool_ok h'"
  unfolding pool_ok_def
proof (intro conjI allI impI)
  show "distinct (map fst (pool h'))" using assms(1-3) by (auto simp: pool_ok_def)
next
  fix q mem
  assume q: "(q, mem) \<in> set (pool h')"
  then have "cells h' q = cells h q" using assms(3,4) by force
  with q assms(1-3) show "cells h' q = None" and "length mem = PBUF_POOL_BUFSIZE"
    by (auto simp: pool_ok_def)
qed

lemma alloc_pool_fails:
  assumes "pool h = []" and "growing h p as rem"
  shows "\<exists>h'. alloc_pool_loop p lst rem off h = Some (None, h') \<and> gave_back as h h'"
proof (cases as)
  case Nil
  with assms show ?thesis
    by (subst alloc_pool_loop.simps) (auto simp: gave_back_def free_cells_def)
next
  case (Cons a bs)
  let ?h = "h\<lparr>ooseq_pending := True\<rparr>"
  have p: "p = Some a" using assms(2) Cons by simp
  have same: "same_on as h ?h" by (simp add: same_on_def)
  have "chain ?h (Some a) (as @ [])" using chain_frame [OF same growing_chain [OF assms(2)]] p by simp
  moreover have "\<forall>x \<in> set as. sole ?h x" using growing_sole [OF assms(2)] by (simp add: sole_def)
  ultimately obtain h' where "pbuf_free (Some a) ?h = Some (length as mod 256, h')"
    "cells h' = free_map as [] (cells h)" "free_cells h' = mset as + free_cells h"
    using pbuf_free_spec [of ?h a as "[]"] by (auto simp: shared_def free_cells_def)
  then show ?thesis
    using assms(1) p by (subst alloc_pool_loop.simps) (auto simp: gave_back_def free_map_def unref_head_def)
qed

lemma alloc_pool_step:
  assumes ok: "pool_ok h" and pool: "pool h = (q, mem) # rest" and gr: "growing h p as rem"
    and lst: "lst = (if as = [] then None else Some (last as))" and rem: "rem < 65536" and off: "off < PBUF_POOL_BUFSIZE"
  defines "k \<equiv> min rem (PBUF_POOL_BUFSIZE - off)"
  shows "\<exists>h1. growing h1 (if p = None then Some q else p) (as @ [q]) (rem - k) \<and> pool_ok h1 \<and> pool h1 = rest
    \<and> plen h1 (as @ [q]) = plen h as + k \<and> (\<forall>a. a \<notin> set (as @ [q]) \<longrightarrow> cells h1 a = cells h a)
    \<and> free_cells h = add_mset q (free_cells h1)
    \<and> alloc_pool_loop p lst rem off h =
       (if rem - k > 0 then alloc_pool_loop (if p = None then Some q else p) (Some q) (rem - k) 0 h1
        else Some (if p = None then Some q else p, h1))"
proof -
  let ?d = "pbuf_init_alloced_pbuf mem (int off) rem k PBUF_POOL 0"
  let ?h0 = "put q ?d (h\<lparr>pool := rest\<rparr>)"
  have q: "cells h q = None" "length mem = PBUF_POOL_BUFSIZE" "q \<notin> fst ` set rest"
    using ok pool by (auto simp: pool_ok_def)
  have small: "PBUF_POOL_BUFSIZE - off < 65536" by (simp add: PBUF_POOL_BUFSIZE_def)
  have d: "cell_ok ?d" "len ?d = k" using q(2) off by (auto simp: cell_ok_def pbuf_init_alloced_pbuf_def k_def)
  have k: "k \<le> rem" by (simp add: k_def)
  have notin: "q \<notin> set as" using growing_sole [OF gr, of q] q(1) by (auto simp: sole_def)
  have kd: "min rem (u16 (PBUF_POOL_BUFSIZE - off)) = k" using small by (simp add: k_def)
  have s16: "sub16 rem k = rem - k" using k rem by simp
  have unfold: "alloc_pool_loop p lst rem off h =
      Option.bind (case lst of None \<Rightarrow> Some ?h0
         | Some l \<Rightarrow> do { c \<leftarrow> cells ?h0 l; Some (put l (c\<lparr>nxt := Some q\<rparr>) ?h0) })
       (\<lambda>h. let p = (if p = None then Some q else p) in
          if rem - k > 0 then alloc_pool_loop p (Some q) (rem - k) 0 h else Some (p, h))"
    using pool off by (subst alloc_pool_loop.simps) (simp add: kd s16 Let_def cong: if_cong)
  show ?thesis
  proof (cases "as = []")
    case True
    then have "p = None" using gr by simp
    moreover have "growing ?h0 (Some q) [q] (rem - k)"
      using d k rem by (simp add: pbuf_init_alloced_pbuf_def)
    moreover have "pool_ok ?h0" using q(3) by (intro pool_ok_taken [OF ok pool]) auto
    ultimately show ?thesis
      using True lst pool unfold d(2)
      by (intro exI [of _ ?h0]) (simp add: free_cells_def Let_def)
  next
    case False
    then obtain l where l: "cells h (last as) = Some l" using growing_sole [OF gr last_in_set] by (auto simp: sole_def)
    have neq: "last as \<noteq> q" using False notin last_in_set [of as] by auto
    let ?h1 = "put (last as) (l\<lparr>nxt := Some q\<rparr>) ?h0"
    obtain b where p: "p = Some b" using gr False by (cases as) auto
    have "growing (h\<lparr>pool := rest\<rparr>) p as rem"
      by (rule growing_frame [OF _ gr]) (simp add: same_on_def)
    then have g: "growing ?h1 p (as @ [q]) (rem - k)"
      using growing_snoc [of "h\<lparr>pool := rest\<rparr>" p as rem q l ?d] False notin l d k rem by simp
    have "cells h a = None" if "a \<in> fst ` set rest" for a
      using that ok pool by (auto simp: pool_ok_def)
    with l have "last as \<notin> fst ` set rest" by fastforce
    then have "cells ?h1 a = cells h a" if "a \<in> fst ` set rest" for a
      using that q(3) by (cases "a = last as"; cases "a = q") simp_all
    then have "pool_ok ?h1"
      by (intro pool_ok_taken [OF ok pool]) simp_all
    moreover have "plen ?h1 (as @ [q]) = plen h as + k"
    proof -
      have "len (the (cells ?h1 b)) = len (the (cells h b))" if "b \<in> set as" for b
        using that notin l by auto
      then show ?thesis using neq d(2) by (simp add: plen_def cong: map_cong)
    qed
    moreover have "\<forall>a. a \<notin> set (as @ [q]) \<longrightarrow> cells ?h1 a = cells h a"
      using False by auto
    ultimately show ?thesis
      using g p lst False pool unfold l neq
      by (intro exI [of _ ?h1]) (simp add: free_cells_def Let_def)
  qed
qed

lemma alloc_pool_loop_spec:
  assumes "pool_ok h" and "growing h p as rem" and "lst = (if as = [] then None else Some (last as))"
    and "rem < 65536" and "off < PBUF_POOL_BUFSIZE"
  shows "\<exists>r. alloc_pool_loop p lst rem off h = Some r \<and> alloc_result as rem h r"
  using assms
proof (induction "pool h" arbitrary: p lst rem off h as)
  case Nil
  with alloc_pool_fails [of h p as rem lst off] show ?case by (auto simp: alloc_result_def)
next
  case (Cons x rest)
  obtain q mem where x: "x = (q, mem)" by (cases x)
  define k where "k = min rem (PBUF_POOL_BUFSIZE - off)"
  define p' where "p' = (if p = None then Some q else p)"
  have "(q, mem) \<in> set (pool h)" using Cons.hyps(2) [symmetric] x by simp
  then have qn: "cells h q = None" using Cons.prems(1) unfolding pool_ok_def by blast
  obtain h1 where h1: "growing h1 p' (as @ [q]) (rem - k)" "pool_ok h1" "pool h1 = rest"
    "plen h1 (as @ [q]) = plen h as + k" "\<forall>a. a \<notin> set (as @ [q]) \<longrightarrow> cells h1 a = cells h a"
    "free_cells h = add_mset q (free_cells h1)"
    "alloc_pool_loop p lst rem off h =
       (if rem - k > 0 then alloc_pool_loop p' (Some q) (rem - k) 0 h1 else Some (p', h1))"
    using alloc_pool_step [OF Cons.prems(1) Cons.hyps(2) [symmetric, unfolded x] Cons.prems(2-5)]
    unfolding k_def p'_def by blast
  have k: "k \<le> rem" by (simp add: k_def)
  show ?case
  proof (cases "rem - k > 0")
    case False
    then have "extended as rem h p' h1"
      using h1 k qn unfolding extended_def by (intro exI [of _ "[q]"]) auto
    moreover obtain b where "p' = Some b" using h1(1) by (cases as) auto
    ultimately show ?thesis using h1(7) False by (simp add: alloc_result_def)
  next
    case True
    have "0 < PBUF_POOL_BUFSIZE" "rem - k < 65536"
      using Cons.prems(4) by (simp_all add: PBUF_POOL_BUFSIZE_def)
    then obtain r where r: "alloc_pool_loop p lst rem off h = Some r" "alloc_result (as @ [q]) (rem - k) h1 r"
      using Cons.hyps(1) [OF h1(3) [symmetric] h1(2,1), of "Some q" 0] True h1(7) by auto
    have "alloc_result as rem h r"
    proof (cases r)
      case (Pair pr h')
      show ?thesis
      proof (cases pr)
        case None
        with r(2) Pair h1(5,6) qn show ?thesis
          by (auto simp: alloc_result_def gave_back_def fun_eq_iff)
      next
        case (Some b)
        with r(2) Pair obtain ys where ys: "growing h' (Some b) ((as @ [q]) @ ys) 0"
          "plen h' ((as @ [q]) @ ys) = plen h1 (as @ [q]) + (rem - k)" "\<forall>y \<in> set ys. cells h1 y = None"
          "\<forall>a. a \<notin> set ((as @ [q]) @ ys) \<longrightarrow> cells h' a = cells h1 a" "free_cells h1 = mset ys + free_cells h'"
          by (auto simp: alloc_result_def extended_def)
        have "cells h y = None" if "y \<in> set (q # ys)" for y
        proof (cases "y \<in> set (as @ [q])")
          case True
          then have "cells h1 y \<noteq> None" using growing_sole [OF h1(1), of y] by (auto simp: sole_def)
          with ys(3) that qn show ?thesis by auto
        next
          case False
          with h1(5) ys(3) that show ?thesis by auto
        qed
        with ys h1 k have "extended as rem h (Some b) h'"
          unfolding extended_def by (intro exI [of _ "q # ys"]) auto
        with Pair Some show ?thesis by (simp add: alloc_result_def)
      qed
    qed
    with r(1) show ?thesis by blast
  qed
qed

end
