(* ===== verification/Pbuf_Packets.thy ===== *)
theory Pbuf_Packets
  imports Pbuf_Alloc
begin

text \<open>
  The contract of the pbuf module for its callers: packets are byte strings, and allocation,
  release, concatenation, header adjustment, truncation and copying are the corresponding
  operations on byte strings that leave every other packet alone.
\<close>

section \<open>Concatenation\<close>

lemma cat_loop_spec:
  assumes "packet h (Some p) (p # as)" and "packet h (Some t) bs" and "set (p # as) \<inter> set bs = {}"
    and "plen h (p # as) + plen h bs < 65536"
  shows "\<exists>h'. cat_loop p t h = Some h' \<and> packet h' (Some p) (p # as @ bs) \<and> only_cells (p # as) h h'
    \<and> contents h' (p # as) = contents h (p # as) \<and> plen h' (p # as) = plen h (p # as)"
  using assms
proof (induction as arbitrary: p h)
  case Nil
  then obtain c where c: "cells h p = Some c" "cell_ok c" "tot_len c = len c" "nxt c = None" by auto
  from Nil.prems(2) obtain d cs where d: "bs = t # cs" "cells h t = Some d" "tot_len d = plen h bs" by (cases bs) auto
  let ?h = "put p (c\<lparr>tot_len := len c + tot_len d, nxt := Some t\<rparr>) h"
  have same: "same_on bs h ?h" using Nil.prems(3) by auto
  have "cat_loop p t h = Some ?h"
    using c d(2,3) Nil.prems(4) by (subst cat_loop.simps) simp
  moreover have "packet ?h (Some p) (p # [] @ bs)"
    using c d packet_frame [OF same Nil.prems(2)] plen_frame [OF same] Nil.prems(4)
    by (simp add: cell_ok_def)
  moreover have "only_cells [p] h ?h" by (simp add: only_cells_def put_def)
  ultimately show ?case using c(1) by (intro exI [of _ ?h]) (simp add: data_of_def)
next
  case (Cons a as)
  then obtain c where c: "cells h p = Some c" "cell_ok c" "tot_len c = len c + plen h (a # as)" "nxt c = Some a"
    "packet h (Some a) (a # as)" by auto
  from Cons.prems(2,3) obtain d cs where d: "bs = t # cs" "cells h t = Some d" "tot_len d = plen h bs"
    by (cases bs) auto
  from packet_distinct [OF Cons.prems(1)] have dist: "p \<notin> set (a # as)" by simp
  let ?c = "c\<lparr>tot_len := tot_len c + tot_len d\<rparr>"
  let ?h = "put p ?c h"
  have same: "same_on (a # as) h ?h" "same_on bs h ?h" using dist Cons.prems(3) by auto
  have step: "cat_loop p t h = cat_loop a t ?h"
    using c d(2,3) Cons.prems(4) by (subst cat_loop.simps) simp
  have pre: "packet ?h (Some a) (a # as)" "packet ?h (Some t) bs" "plen ?h (a # as) + plen ?h bs < 65536"
    using packet_frame [OF same(1) c(5)] packet_frame [OF same(2) Cons.prems(2)] plen_frame [OF same(1)]
      plen_frame [OF same(2)] Cons.prems(4) by auto
  obtain h' where h': "cat_loop p t h = Some h'" "packet h' (Some a) (a # as @ bs)" "only_cells (a # as) ?h h'"
    "contents h' (a # as) = contents ?h (a # as)" "plen h' (a # as) = plen ?h (a # as)"
    using Cons.IH [OF pre(1,2) _ pre(3)] Cons.prems(3) step by auto
  have at: "cells h' p = Some ?c" using h'(3) dist by (simp add: only_cells_def)
  have "plen h' bs = plen h bs"
    using plen_frame [OF only_cells_same_on [OF h'(3), of bs]] plen_frame [OF same(2)] Cons.prems(3) by auto
  moreover have "plen ?h (a # as) = plen h (a # as)" "contents ?h (a # as) = contents h (a # as)"
    by (rule plen_frame [OF same(1)], rule contents_frame [OF same(1)])
  ultimately show ?case
    using h' at c d(3) Cons.prems(4) only_cells_put [OF h'(3)]
    by (intro exI [of _ h']) (auto simp: cell_ok_def data_of_def)
qed

section \<open>Truncation\<close>

definition realloc_tail :: "nat \<Rightarrow> nat \<Rightarrow> pheap \<Rightarrow> pheap option" where
  "realloc_tail q rem_len h =
     do { c \<leftarrow> cells h q;
       let c = (if type_internal c AND 0x0F = 0x00 \<and> rem_len \<noteq> len c \<and> flags c AND PBUF_FLAG_IS_CUSTOM = 0
                then c\<lparr>area := take (nat (payload c) + rem_len) (area c)\<rparr> else c);
           h = put q (c\<lparr>len := rem_len, tot_len := rem_len\<rparr>) h
       in do { h \<leftarrow> (if nxt c \<noteq> None then do { (_, h) \<leftarrow> pbuf_free (nxt c) h; Some h } else Some h);
            c \<leftarrow> cells h q; Some (put q (c\<lparr>nxt := None\<rparr>) h) } }"

lemma pbuf_realloc_tail:
  "pbuf_realloc p new_len h =
     do { c \<leftarrow> cells h p;
       if new_len \<ge> tot_len c then Some h
       else do { (q, rem_len, h) \<leftarrow> realloc_loop p new_len (sub16 (tot_len c) new_len) h;
         realloc_tail q rem_len h } }"
  by (simp only: pbuf_realloc_def realloc_tail_def)

text \<open>What a truncation to \<open>n\<close> bytes leaves: a prefix \<open>bs\<close> of the cells, the rest is released.\<close>

definition cell_kept :: "pbuf \<Rightarrow> pbuf \<Rightarrow> bool" where
  "cell_kept c c' \<longleftrightarrow> ref c' = ref c \<and> flags c' = flags c \<and> type_internal c' = type_internal c \<and> payload c' = payload c"

lemma cell_kept_refl [simp]: "cell_kept c c"
  by (simp add: cell_kept_def)

definition truncated :: "pptr \<Rightarrow> nat list \<Rightarrow> nat \<Rightarrow> pheap \<Rightarrow> pheap \<Rightarrow> bool" where
  "truncated p as n h h' \<longleftrightarrow> (\<exists>bs cs. as = bs @ cs \<and> packet h' p bs \<and> contents h' bs = take n (contents h as)
     \<and> (\<forall>a \<in> set cs. cells h' a = None) \<and> (\<forall>a. a \<notin> set as \<longrightarrow> cells h' a = cells h a)
     \<and> free_cells h' = mset cs + free_cells h \<and> (\<forall>a \<in> set bs. cell_kept (the (cells h a)) (the (cells h' a)))
     \<and> bs \<noteq> [] \<and> len (the (cells h' (hd bs))) = min n (len (the (cells h (hd as)))))"

lemma realloc_tail_spec:
  assumes pk: "packet h (Some q) (q # as)" and sole: "\<forall>a \<in> set as. sole h a"
    and n: "\<exists>c. cells h q = Some c \<and> n \<le> len c"
  shows "\<exists>h'. realloc_tail q n h = Some h' \<and> truncated (Some q) (q # as) n h h'"
proof -
  from pk n obtain c where c: "cells h q = Some c" "cell_ok c" "chain h (nxt c) as" "n \<le> len c" "tot_len c < 65536" "len c \<le> tot_len c"
    by (auto simp: packet_chain)
  from packet_distinct [OF pk] have q: "q \<notin> set as" by simp
  define e where "e = (if type_internal c AND 0x0F = 0x00 \<and> n \<noteq> len c \<and> flags c AND PBUF_FLAG_IS_CUSTOM = 0
    then c\<lparr>area := take (nat (payload c) + n) (area c)\<rparr> else c)"
  define d where "d = e\<lparr>len := n, tot_len := n\<rparr>"
  have e: "nxt e = nxt c" by (simp add: e_def)
  let ?h = "put q d h"
  have d: "nxt d = nxt c" "cell_ok (d\<lparr>nxt := None\<rparr>)" "len d = n" "tot_len d = n" "data_of (d\<lparr>nxt := None\<rparr>) = take n (data_of c)"
    using c(2,4) by (auto simp: d_def e_def cell_ok_def data_of_def drop_take min_def)
  have same: "same_on as h ?h" using q by simp
  have "\<exists>h2. (if nxt c \<noteq> None then do { (_, h) \<leftarrow> pbuf_free (nxt c) ?h; Some h } else Some ?h) = Some h2
    \<and> cells h2 = (\<lambda>a. if a \<in> set as then None else cells ?h a) \<and> free_cells h2 = mset as + free_cells h"
  proof (cases as)
    case Nil
    with c(3) show ?thesis by auto
  next
    case (Cons b bs)
    then have nb: "nxt c = Some b" using c(3) by simp
    have "chain ?h (Some b) (as @ [])" using chain_frame [OF same c(3)] nb by simp
    moreover have "\<forall>a \<in> set as. sole ?h a" using sole q by (auto simp: sole_def)
    ultimately show ?thesis
      using pbuf_free_spec [of ?h b as "[]"] nb by (auto simp: shared_def cong: if_cong)
  qed
  then obtain h2 where h2: "(if nxt c \<noteq> None then do { (_, h) \<leftarrow> pbuf_free (nxt c) ?h; Some h } else Some ?h) = Some h2"
    "cells h2 = (\<lambda>a. if a \<in> set as then None else cells ?h a)" "free_cells h2 = mset as + free_cells h" by blast
  let ?h' = "put q (d\<lparr>nxt := None\<rparr>) h2"
  have "realloc_tail q n h = Option.bind
      (if nxt c \<noteq> None then do { (_, h) \<leftarrow> pbuf_free (nxt c) ?h; Some h } else Some ?h)
      (\<lambda>h. Option.bind (cells h q) (\<lambda>c. Some (put q (c\<lparr>nxt := None\<rparr>) h)))"
    by (simp only: realloc_tail_def c(1) bind.bind_lunit Let_def e_def [symmetric] d_def [symmetric] e)
  then have "realloc_tail q n h = Some ?h'"
    unfolding h2(1) using h2(2) q by simp
  moreover have "truncated (Some q) (q # as) n h ?h'"
    unfolding truncated_def
  proof (rule exI [of _ "[q]"], rule exI [of _ as], intro conjI)
    show "packet ?h' (Some q) [q]" using d c(4-6) by simp
    show "contents ?h' [q] = take n (contents h (q # as))" using d(5) c(1,2,4) by simp
    show "free_cells ?h' = mset as + free_cells h" using h2(3) by simp
    show "\<forall>a \<in> set [q]. cell_kept (the (cells h a)) (the (cells ?h' a))" using c(1) by (simp add: cell_kept_def d_def e_def)
    show "len (the (cells ?h' (hd [q]))) = min n (len (the (cells h (hd (q # as)))))" using c(1,4) d(3) by simp
  qed (use h2(2) q in auto)
  ultimately show ?thesis by blast
qed

lemma realloc_spec:
  assumes "packet h (Some q) (q # as)" and "\<forall>a \<in> set as. sole h a" and "n < plen h (q # as)"
  shows "\<exists>h'. do { (q, n, h) \<leftarrow> realloc_loop q n (plen h (q # as) - n) h; realloc_tail q n h } = Some h'
    \<and> truncated (Some q) (q # as) n h h'"
  using assms
proof (induction as arbitrary: q n h)
  case Nil
  then have "\<exists>c. cells h q = Some c \<and> n \<le> len c" by auto
  with realloc_tail_spec [OF Nil.prems(1), of n] show ?case
    by (subst realloc_loop.simps) auto
next
  case (Cons a as)
  from Cons.prems(1) obtain c where c: "cells h q = Some c" "cell_ok c" "nxt c = Some a" "packet h (Some a) (a # as)"
    "tot_len c = len c + plen h (a # as)" "tot_len c < 65536" by auto
  show ?case
  proof (cases "n \<le> len c")
    case True
    with c realloc_tail_spec [OF Cons.prems(1,2), of n] show ?thesis
      by (subst realloc_loop.simps) auto
  next
    case False
    from packet_distinct [OF Cons.prems(1)] have q: "q \<notin> set (a # as)" by simp
    let ?c = "c\<lparr>tot_len := n\<rparr>"
    let ?h = "put q ?c h"
    have same: "same_on (a # as) h ?h" using q by simp
    note keep = packet_frame [OF same c(4)] plen_frame [OF same] contents_frame [OF same]
    have sz: "sub16 (tot_len c) (plen h (q # a # as) - n) = n" "sub16 n (len c) = n - len c"
      using c Cons.prems(3) False by auto
    have shrink: "plen h (q # a # as) - n = plen ?h (a # as) - (n - len c)"
      using keep(2) c(1) False by simp
    have "realloc_loop q n (plen h (q # a # as) - n) h = realloc_loop a (n - len c) (plen ?h (a # as) - (n - len c)) ?h"
      using c(1,3) sz False unfolding shrink by (subst realloc_loop.simps) simp
    moreover have "\<forall>b \<in> set as. sole ?h b" using Cons.prems(2) q by (auto simp: sole_def)
    moreover have "n - len c < plen ?h (a # as)" using Cons.prems(3) c(1) keep(2) False by simp
    ultimately obtain h' where h': "do { (q, n, h) \<leftarrow> realloc_loop q n (plen h (q # a # as) - n) h; realloc_tail q n h } = Some h'"
      "truncated (Some a) (a # as) (n - len c) ?h h'"
      using Cons.IH [OF keep(1), of "n - len c"] by auto
    from h'(2) obtain bs cs where t: "a # as = bs @ cs" "packet h' (Some a) bs" "contents h' bs = take (n - len c) (contents h (a # as))"
      "\<forall>b \<in> set cs. cells h' b = None" "\<forall>b. b \<notin> set (a # as) \<longrightarrow> cells h' b = cells ?h b"
      "free_cells h' = mset cs + free_cells h" "\<forall>b \<in> set bs. cell_kept (the (cells ?h b)) (the (cells h' b))"
      unfolding truncated_def keep(3) free_cells_put by blast
    have sub: "set bs \<subseteq> set (a # as)" unfolding t(1) by simp
    have at: "cells h' q = Some ?c" using t(5) q by simp
    have pl: "plen h' bs = n - len c"
      using length_contents [OF t(2)] t(3) length_contents [OF c(4)] Cons.prems(3) c(1) by simp
    have "truncated (Some q) (q # a # as) n h h'"
      unfolding truncated_def
    proof (rule exI [of _ "q # bs"], rule exI [of _ cs], intro conjI)
      show "packet h' (Some q) (q # bs)"
        using at c(1-3,5,6) t(2) pl False Cons.prems(3) by (simp add: cell_ok_def)
      have "data_of ?c = data_of c" by (simp add: data_of_def)
      then show "contents h' (q # bs) = take n (contents h (q # a # as))"
        using at c(1) length_data_of [OF c(2)] t(3) False by simp
      have "cell_kept (the (cells h q)) (the (cells h' q))" using c(1) at by (simp add: cell_kept_def)
      moreover have "the (cells ?h b) = the (cells h b)" if "b \<in> set bs" for b using that sub q by auto
      ultimately show "\<forall>b \<in> set (q # bs). cell_kept (the (cells h b)) (the (cells h' b))" using t(7) by simp
      show "len (the (cells h' (hd (q # bs)))) = min n (len (the (cells h (hd (q # a # as)))))" using at c(1) False by simp
    qed (use t in auto)
    with h'(1) show ?thesis by blast
  qed
qed

lemma pbuf_realloc_same: "packet h (Some p) (p # as) \<Longrightarrow> n \<ge> plen h (p # as) \<Longrightarrow> pbuf_realloc p n h = Some h"
  by (auto simp: pbuf_realloc_def)

lemma pbuf_realloc_spec:
  assumes "packet h (Some p) (p # as)" and "\<forall>a \<in> set as. sole h a" and "n < plen h (p # as)"
  shows "\<exists>h'. pbuf_realloc p n h = Some h' \<and> truncated (Some p) (p # as) n h h'"
proof -
  from assms(1) obtain c where c: "cells h p = Some c" "tot_len c = plen h (p # as)" "tot_len c < 65536" by auto
  then have "pbuf_realloc p n h = do { (q, n, h) \<leftarrow> realloc_loop p n (plen h (p # as) - n) h; realloc_tail q n h }"
    using assms(3) by (simp add: pbuf_realloc_tail del: plen_simps)
  with realloc_spec [OF assms] show ?thesis by simp
qed

section \<open>Headers\<close>

lemma add_header_ok:
  assumes "cells h a = Some c" and "cell_ok c" and "tot_len c < 65536" and "len c \<le> tot_len c"
    and "pbuf_add_header a inc h = Some (0, h')"
  shows "int inc \<le> payload c \<and> tot_len c + inc < 65536
    \<and> h' = put a (c\<lparr>payload := payload c - int inc, len := len c + inc, tot_len := tot_len c + inc\<rparr>) h"
proof (cases "inc = 0")
  case True
  then have "h' = h" using assms(5) by (simp add: pbuf_add_header_def pbuf_add_header_impl_def)
  with True assms show ?thesis by (simp add: put_def cell_ok_def fun_upd_idem)
next
  case False
  with assms have i: "inc \<le> 65535" "\<not> u16 (inc + tot_len c) < inc" "int inc \<le> payload c"
    and h': "h' = put a (c\<lparr>payload := payload c - int inc, len := u16 (len c + inc), tot_len := u16 (tot_len c + inc)\<rparr>) h"
    by (auto simp: pbuf_add_header_def pbuf_add_header_impl_def split: if_splits)
  from i(1,2) assms(3) have "tot_len c + inc < 65536" by (simp add: u16_def mod_if split: if_splits)
  with i(3) h' assms(4) show ?thesis by simp
qed

section \<open>The properties\<close>

text \<open>A heap with the two-cell packet \<open>[3, 4, 5, 9, 8]\<close> in cells 1 and 2 and a pool of two elements.\<close>

definition sample_heap :: pheap where
  "sample_heap = \<lparr>cells =
       [1 \<mapsto> (pbuf_init_alloced_pbuf [1, 2, 3, 4, 5] 2 5 3 PBUF_POOL 0)\<lparr>nxt := Some 2\<rparr>,
        2 \<mapsto> pbuf_init_alloced_pbuf [9, 8] 0 2 2 PBUF_POOL 0,
        3 \<mapsto> pbuf_init_alloced_pbuf [6] 0 1 1 PBUF_POOL 0],
     pool = [(7, replicate 590 0), (8, replicate 590 0)], refs = [], ram = [], ram_fits = (\<lambda>_. False),
     junk = (\<lambda>_. 0), ooseq_pending = False, custom_freed = []\<rparr>"

lemma sample_packet: "packet sample_heap (Some 1) [1, 2]" "packet sample_heap (Some 3) [3]"
  "contents sample_heap [1, 2] = [3, 4, 5, 9, 8]" "contents sample_heap [3] = [6]"
  "plen sample_heap [1, 2] = 5" "plen sample_heap [3] = 1"
  by (auto simp: sample_heap_def pbuf_init_alloced_pbuf_def cell_ok_def data_of_def)

lemma sample_sole: "a \<in> {1, 2, 3} \<Longrightarrow> sole sample_heap a"
  by (auto simp: sole_def sample_heap_def pbuf_init_alloced_pbuf_def releasable_def)

lemma sample_pool: "pool_ok sample_heap"
  by (auto simp: pool_ok_def sample_heap_def PBUF_POOL_BUFSIZE_def)

text \<open>
  C28. Allocation from the pool never leaks and never half-succeeds. For every requested length
  and layer, \<open>pbuf_alloc\<close> returns: either a well-formed packet of exactly that length made of
  cells that were free and no longer are, or NULL with the store and the set of free elements
  as before (every element taken meanwhile went back). Cells in use are never touched.
\<close>

theorem pbuf_alloc_pool_no_leak:
  assumes "pool_ok h" and "lgth < 65536"
  shows "\<exists>p h'. pbuf_alloc layer lgth PBUF_POOL h = Some (p, h') \<and>
    (case p of
       None \<Rightarrow> cells h' = cells h \<and> free_cells h' = free_cells h
     | Some _ \<Rightarrow> \<exists>as. packet h' p as \<and> plen h' as = lgth \<and> (\<forall>a \<in> set as. cells h a = None)
         \<and> (\<forall>a. a \<notin> set as \<longrightarrow> cells h' a = cells h a) \<and> free_cells h = mset as + free_cells h')"
proof -
  have "layer_offset layer < PBUF_POOL_BUFSIZE" by (cases layer) (simp_all add: PBUF_POOL_BUFSIZE_def)
  then obtain p h' where r: "pbuf_alloc layer lgth PBUF_POOL h = Some (p, h')" "alloc_result [] lgth h (p, h')"
    using alloc_pool_loop_spec [OF assms(1), of None "[]" lgth None "layer_offset layer"] assms(2)
    by (auto simp: pbuf_alloc_def)
  then show ?thesis
    by (cases p) (fastforce simp: alloc_result_def gave_back_def extended_def dest: growing_packet)+
qed

theorem pbuf_alloc_pool_no_leak_witness:
  "pool_ok sample_heap \<and> (700::nat) < 65536 \<and>
   (\<exists>p h'. pbuf_alloc PBUF_RAW 700 PBUF_POOL sample_heap = Some (p, h') \<and>
    (case p of
       None \<Rightarrow> cells h' = cells sample_heap \<and> free_cells h' = free_cells sample_heap
     | Some _ \<Rightarrow> \<exists>as. packet h' p as \<and> plen h' as = 700 \<and> (\<forall>a \<in> set as. cells sample_heap a = None)
         \<and> (\<forall>a. a \<notin> set as \<longrightarrow> cells h' a = cells sample_heap a) \<and> free_cells sample_heap = mset as + free_cells h'))"
  using pbuf_alloc_pool_no_leak [OF sample_pool, of 700 PBUF_RAW] sample_pool by simp

text \<open>
  \<open>pbuf_free\<close> walks the chain and releases the leading cells that nobody else refers to, up
  to the first shared one, whose count it decrements; it returns their number (modulo 256). The
  released cells are free again, each exactly once, and nothing else changes.
\<close>

theorem pbuf_free_releases_unshared:
  assumes "chain h (Some p) (bs @ cs)" and "\<forall>a \<in> set bs. sole h a" and "shared h cs"
  shows "\<exists>h'. pbuf_free (Some p) h = Some (length bs mod 256, h') \<and> free_cells h' = mset bs + free_cells h
    \<and> (\<forall>a \<in> set bs. cells h' a = None)
    \<and> (\<forall>a. a \<notin> set bs \<longrightarrow> cells h' a =
        (if cs \<noteq> [] \<and> a = hd cs then map_option (\<lambda>c. c\<lparr>ref := ref c - 1\<rparr>) (cells h a) else cells h a))"
  using pbuf_free_spec [OF assms] by (fastforce simp: free_map_def unref_head_def split: list.splits)

theorem pbuf_free_releases_unshared_witness:
  "chain sample_heap (Some 1) ([1, 2] @ []) \<and> sole sample_heap 1 \<and> sole sample_heap 2 \<and> shared sample_heap [] \<and>
   (\<exists>h'. pbuf_free (Some 1) sample_heap = Some (2 mod 256, h') \<and> cells h' 1 = None \<and> cells h' 2 = None)"
proof -
  have "chain sample_heap (Some 1) ([1, 2] @ [])" "\<forall>a \<in> set [1, 2]. sole sample_heap a" "shared sample_heap []"
    using packet_chain [OF sample_packet(1)] by (auto simp: sample_sole shared_def)
  with pbuf_free_releases_unshared [OF this] show ?thesis by auto
qed

text \<open>
  C29. Data round trip through a packet: after \<open>pbuf_take\<close> has stored \<open>bs\<close> in a packet that is
  long enough, the packet holds \<open>bs\<close> followed by its old tail, \<open>pbuf_copy_partial\<close> from any
  offset delivers exactly those bytes and their number, and packets without a common cell are
  unchanged.
\<close>

theorem pbuf_take_copy_roundtrip:
  assumes "packet h (Some p) as" and "length bs \<le> plen h as" and "length dp = plen h as" and "offset < 65536"
    and "packet h q cs" and "set as \<inter> set cs = {}"
  shows "\<exists>h'. pbuf_take (Some p) bs (length bs) h = Some (ERR_OK, h')
    \<and> packet h' (Some p) as \<and> contents h' as = bs @ drop (length bs) (contents h as)
    \<and> pbuf_copy_partial (Some p) dp (length dp) offset h' =
        Some (length dp - offset, blit dp 0 (drop offset (bs @ drop (length bs) (contents h as))))
    \<and> packet h' q cs \<and> contents h' cs = contents h cs"
proof -
  from assms(1) obtain c where c: "cells h p = Some c" "tot_len c = plen h as" by (cases as) auto
  from take_loop_spec [OF assms(1,2), of 0 bs] obtain h' where
    h': "take_loop (Some p) (length bs) 0 bs h = Some h'" "packet h' (Some p) as" "only_cells as h h'"
      "contents h' as = bs @ drop (length bs) (contents h as)" by auto
  have pl: "plen h' as = plen h as"
    using length_contents [OF h'(2)] length_contents [OF assms(1)] h'(4) assms(2) by simp
  have "copy_partial_loop (Some p) (length dp) offset 0 dp h' =
      Some (length dp - offset, blit dp 0 (take (length dp) (drop offset (contents h' as))))"
    using copy_partial_loop_spec [OF h'(2) assms(4), of 0 "length dp" dp] pl assms(3) packet_plen_less [OF assms(1)]
    by simp
  moreover have "take (length dp) (drop offset (contents h' as)) = drop offset (contents h' as)"
    using length_contents [OF h'(2)] pl assms(3) by simp
  ultimately have "pbuf_copy_partial (Some p) dp (length dp) offset h' =
      Some (length dp - offset, blit dp 0 (drop offset (contents h' as)))"
    by (simp add: pbuf_copy_partial_def)
  moreover have "pbuf_take (Some p) bs (length bs) h = Some (ERR_OK, h')"
    using c assms(2) h'(1) by (simp add: pbuf_take_def deref_def)
  moreover have "same_on cs h h'" by (rule only_cells_same_on [OF h'(3) assms(6)])
  ultimately show ?thesis
    using h'(2,4) assms(5) by (auto simp: packet_frame contents_frame)
qed

theorem pbuf_take_copy_roundtrip_witness:
  "packet sample_heap (Some 1) [1, 2] \<and> packet sample_heap (Some 3) [3] \<and>
   (\<exists>h'. pbuf_take (Some 1) [21, 22, 23, 24] 4 sample_heap = Some (ERR_OK, h')
     \<and> contents h' [1, 2] = [21, 22, 23, 24, 8]
     \<and> pbuf_copy_partial (Some 1) [0, 0, 0, 0, 0] 5 2 h' = Some (3, [23, 24, 8, 0, 0]))"
proof -
  have n: "length [21, 22, 23, 24 :: u8] = 4" "length [0, 0, 0, 0, 0 :: u8] = 5" by simp_all
  have pre: "length [21, 22, 23, 24 :: u8] \<le> plen sample_heap [1, 2]"
    "length [0, 0, 0, 0, 0 :: u8] = plen sample_heap [1, 2]" "(2 :: nat) < 65536" "set [1, 2] \<inter> set [3 :: nat] = {}"
    unfolding sample_packet(5) by simp_all
  have res: "[21, 22, 23, 24] @ drop 4 [3, 4, 5, 9, 8] = [21, 22, 23, 24, 8 :: u8]"
    "blit [0, 0, 0, 0, 0] 0 (drop 2 [21, 22, 23, 24, 8]) = [23, 24, 8, 0, 0 :: u8]" "5 - 2 = (3 :: nat)"
    by (simp_all add: blit_def)
  show ?thesis
    using pbuf_take_copy_roundtrip [OF sample_packet(1) pre(1-3) sample_packet(2) pre(4)] sample_packet(1,2)
    unfolding n sample_packet(3) res by blast
qed

text \<open>
  Concatenation: \<open>pbuf_cat\<close> of two packets without a common cell whose lengths fit
  \<open>tot_len\<close> yields one well-formed packet that starts at the head, consists of the cells of both
  in order and holds the bytes of the head followed by the bytes of the tail.
\<close>

theorem pbuf_cat_concatenates:
  assumes "packet h (Some p) as" and "packet h (Some t) bs" and "set as \<inter> set bs = {}"
    and "plen h as + plen h bs < 65536"
  shows "\<exists>h'. pbuf_cat (Some p) (Some t) h = Some h' \<and> packet h' (Some p) (as @ bs)
    \<and> contents h' (as @ bs) = contents h as @ contents h bs \<and> only_cells as h h'"
proof -
  from assms(1) obtain xs where as: "as = p # xs" by (cases as) auto
  from cat_loop_spec [OF assms(1-4) [unfolded as]] obtain h' where
    h': "cat_loop p t h = Some h'" "packet h' (Some p) (as @ bs)" "only_cells as h h'" "contents h' as = contents h as"
    unfolding as append_Cons by blast
  moreover have "contents h' bs = contents h bs"
    by (rule contents_frame [OF only_cells_same_on [OF h'(3) assms(3)]])
  ultimately show ?thesis by (simp add: pbuf_cat_def)
qed

theorem pbuf_cat_concatenates_witness:
  "\<exists>h'. pbuf_cat (Some 1) (Some 3) sample_heap = Some h' \<and> packet h' (Some 1) [1, 2, 3]
    \<and> contents h' [1, 2, 3] = [3, 4, 5, 9, 8, 6]"
proof -
  have pre: "set [1, 2] \<inter> set [3 :: nat] = {}" "plen sample_heap [1, 2] + plen sample_heap [3] < 65536"
    "[1, 2] @ [3] = [1, 2, 3 :: nat]" "[3, 4, 5, 9, 8] @ [6] = [3, 4, 5, 9, 8, 6 :: u8]"
    unfolding sample_packet by simp_all
  show ?thesis
    using pbuf_cat_concatenates [OF sample_packet(1,2) pre(1,2)] unfolding pre(3,4) sample_packet(3,4) by blast
qed

text \<open>
  Truncation: \<open>pbuf_realloc\<close> of a packet whose later cells are not shared to a smaller length
  leaves a well-formed packet at the same head that holds the first \<open>n\<close> bytes; the cells behind
  the new end are released exactly once and no other cell changes. Asking for the current
  length or more changes nothing.
\<close>

theorem pbuf_realloc_truncates:
  assumes "packet h (Some p) (p # as)" and "\<forall>a \<in> set as. sole h a"
  shows "\<exists>h'. pbuf_realloc p n h = Some h' \<and>
    (if n \<ge> plen h (p # as) then h' = h
     else \<exists>bs cs. p # as = bs @ cs \<and> packet h' (Some p) bs \<and> contents h' bs = take n (contents h (p # as))
       \<and> (\<forall>a \<in> set cs. cells h' a = None) \<and> (\<forall>a. a \<notin> set (p # as) \<longrightarrow> cells h' a = cells h a)
       \<and> free_cells h' = mset cs + free_cells h)"
proof (cases "n \<ge> plen h (p # as)")
  case True
  then show ?thesis using pbuf_realloc_same [OF assms(1)] by simp
next
  case False
  with pbuf_realloc_spec [OF assms, of n] show ?thesis unfolding truncated_def by (metis leI)
qed

theorem pbuf_realloc_truncates_witness:
  "packet sample_heap (Some 1) [1, 2] \<and> sole sample_heap 2 \<and>
   (\<exists>h' bs. pbuf_realloc 1 2 sample_heap = Some h' \<and> packet h' (Some 1) bs \<and> contents h' bs = [3, 4])"
proof -
  have sole: "\<forall>a \<in> set [2]. sole sample_heap a" by (simp add: sample_sole)
  have "take 2 [3, 4, 5, 9, 8] = [3, 4 :: u8]" "\<not> 5 \<le> (2 :: nat)" "sole sample_heap 2"
    by (simp_all add: sample_sole)
  with pbuf_realloc_truncates [OF sample_packet(1) sole, of 2] sole sample_packet(1) show ?thesis
    unfolding sample_packet(3,5) by metis
qed

text \<open>
  Protocol headers: whenever \<open>pbuf_add_header\<close> reports success, the packet is still
  well-formed and its bytes are \<open>inc\<close> header bytes followed by the old ones, and
  \<open>pbuf_remove_header\<close> of the same size restores the store exactly. Success means that the
  headroom in front of the payload was sufficient and that the length did not overflow.
\<close>

theorem pbuf_header_roundtrip:
  assumes "packet h (Some a) (a # as)" and "pbuf_add_header a inc h = Some (0, h')"
  shows "packet h' (Some a) (a # as) \<and> plen h' (a # as) = plen h (a # as) + inc
    \<and> drop inc (contents h' (a # as)) = contents h (a # as) \<and> pbuf_remove_header a inc h' = Some (0, h)"
proof -
  from assms(1) obtain c where c: "cells h a = Some c" "cell_ok c" "tot_len c = len c + plen h as"
    "tot_len c < 65536" "packet h (nxt c) as" by auto
  let ?c = "c\<lparr>payload := payload c - int inc, len := len c + inc, tot_len := tot_len c + inc\<rparr>"
  from add_header_ok [OF c(1,2,4) _ assms(2)] c(3) have inc: "int inc \<le> payload c" "tot_len c + inc < 65536" and h': "h' = put a ?c h"
    by auto
  from packet_distinct [OF assms(1)] have a: "a \<notin> set as" by simp
  have same: "same_on as h h'" using a h' by simp
  note keep = packet_frame [OF same c(5)] plen_frame [OF same] contents_frame [OF same]
  have ok: "cell_ok ?c" and len: "length (data_of ?c) = len c + inc"
    using c(2) inc(1) by (auto simp: cell_ok_def data_of_def nat_diff_distrib)
  have "packet h' (Some a) (a # as)" using h' ok c(3) inc(2) keep(1,2) by simp
  moreover have "drop inc (data_of ?c) = data_of c"
    using inc(1) c(2) by (auto simp: data_of_def drop_take nat_diff_distrib cell_ok_def)
  then have "drop inc (contents h' (a # as)) = contents h (a # as)" using h' c(1) keep(3) len by simp
  moreover have "pbuf_remove_header a inc h' = Some (0, h)"
  proof (cases "inc = 0")
    case False
    have "put a c h' = h" "cells h' a = Some ?c" using h' c(1) by (simp_all add: put_def fun_upd_idem)
    moreover have "len c + inc < 65536" using c(3) inc(2) by simp
    ultimately show ?thesis using False inc(2) by (simp add: pbuf_remove_header_def)
  qed (use h' c(1) in \<open>simp add: pbuf_remove_header_def put_def fun_upd_idem\<close>)
  moreover have "plen h' (a # as) = plen h (a # as) + inc" using h' c(1) keep(2) by simp
  ultimately show ?thesis by blast
qed

theorem pbuf_header_roundtrip_witness:
  "\<exists>h'. pbuf_add_header 1 2 sample_heap = Some (0, h') \<and> drop 2 (contents h' [1, 2]) = [3, 4, 5, 9, 8]
    \<and> pbuf_remove_header 1 2 h' = Some (0, sample_heap)"
proof -
  have "\<exists>h'. pbuf_add_header 1 2 sample_heap = Some (0, h')"
    by (simp add: pbuf_add_header_def pbuf_add_header_impl_def sample_heap_def pbuf_init_alloced_pbuf_def FLAG_CONTIGUOUS_def)
  then obtain h' where h': "pbuf_add_header 1 2 sample_heap = Some (0, h')" ..
  from pbuf_header_roundtrip [OF sample_packet(1) h'] h' show ?thesis
    unfolding sample_packet(3) by blast
qed

end
