(* ===== verification/Ethoslipif.thy ===== *)
theory Ethoslipif
  imports Host_Uart Frame_Checksum Pbuf_Packets
begin

text \<open>
  The network interface driver of the lwIP host, \<^verbatim>\<open>arch/ethoslipif.c\<close>: the initial interface
  settings and \<open>ethoslipif_low_level_output\<close>, which flattens a packet, appends the check
  sequence and sends it as one SLIP packet; and the same path in the TAP bridge
  (\<^verbatim>\<open>tools/ethoslip_tun/main.c\<close>), from \<open>read\<close> to \<open>send_packet\<close> and from \<open>recv_packet\<close> to \<open>write\<close>.
\<close>

section \<open>Interface settings\<close>

definition BUF_SIZE :: nat where "BUF_SIZE = 4000"
definition ETHERNET_MTU :: nat where "ETHERNET_MTU = 1400"
definition ETH_HWADDR_LEN :: nat where "ETH_HWADDR_LEN = 6"

definition NETIF_FLAG_BROADCAST :: u8 where "NETIF_FLAG_BROADCAST = 0x02"
definition NETIF_FLAG_ETHARP :: u8 where "NETIF_FLAG_ETHARP = 0x08"
definition NETIF_FLAG_ETHERNET :: u8 where "NETIF_FLAG_ETHERNET = 0x10"
definition NETIF_FLAG_IGMP :: u8 where "NETIF_FLAG_IGMP = 0x20"
definition NETIF_FLAG_MLD6 :: u8 where "NETIF_FLAG_MLD6 = 0x40"

datatype netif_fn = No_function | Ethoslipif_low_level_output | Etharp_output | Ethip6_output

record netif_conf =
  linkoutput :: netif_fn
  output_fn :: netif_fn
  output_ip6 :: netif_fn
  mtu :: nat
  nflags :: u8
  nhwaddr :: bytes
  nhwaddr_len :: nat

definition ethoslipif_mac :: bytes where
  "ethoslipif_mac = [0, 0, 0, 0, 0, 0]"

definition ethoslipif_low_level_init :: "netif_conf \<Rightarrow> err \<times> netif_conf" where
  "ethoslipif_low_level_init n =
     (ERR_OK, n\<lparr>linkoutput := Ethoslipif_low_level_output, output_fn := Etharp_output, output_ip6 := Ethip6_output,
        mtu := ETHERNET_MTU,
        nflags := NETIF_FLAG_BROADCAST OR NETIF_FLAG_ETHARP OR NETIF_FLAG_ETHERNET OR NETIF_FLAG_IGMP OR NETIF_FLAG_MLD6,
        nhwaddr := blit (nhwaddr n) 0 ethoslipif_mac, nhwaddr_len := ETH_HWADDR_LEN\<rparr>)"

section \<open>Output\<close>

text \<open>
  The state is the static buffer \<open>lwip_out_buffer\<close> and the serial device. A failing pbuf call
  is a \<open>Fault\<close> (the pbuf module aborts or runs outside the buffer).
\<close>

definition ethoslipif_low_level_output ::
  "(bytes \<Rightarrow> bytes) \<Rightarrow> pheap \<Rightarrow> nat \<Rightarrow> bytes \<times> uart \<Rightarrow> (err \<times> bytes \<times> uart) outcome" where
  "ethoslipif_low_level_output tty_write h p s = (case s of (buf, u) \<Rightarrow>
     case cells h p of None \<Rightarrow> Fault
     | Some c \<Rightarrow>
       (case pbuf_copy_partial (Some p) buf (tot_len c) 0 h of
          None \<Rightarrow> Fault
        | Some (_, buf) \<Rightarrow>
            obind (if_api_calculate_checksum buf (tot_len c)) (\<lambda>(total_len, buf).
            obind (send_packet send_char (send_char_do tty_write) buf (int total_len) u) (\<lambda>u.
              Ok (ERR_OK, buf, u)))))"

section \<open>The TAP bridge\<close>

text \<open>
  One round of the loop of \<open>main\<close>: \<open>rd_result\<close> is what \<open>read(tun_fd, tun_out_buffer, BUF_SIZE)\<close>
  returned, \<open>None\<close> for an error. The result \<open>None\<close> means that the program stops with \<open>-1\<close>.
\<close>

definition tap_round :: "(bytes \<Rightarrow> bytes) \<Rightarrow> bytes option \<Rightarrow> bytes \<times> uart \<Rightarrow> (bytes \<times> uart) option outcome" where
  "tap_round tty_write rd_result s = (case s of (buf, u) \<Rightarrow>
     case rd_result of None \<Rightarrow> Ok None
     | Some bs \<Rightarrow>
         (let bs = take BUF_SIZE bs; buf = blit buf 0 bs in
          obind (if_api_calculate_checksum buf (length bs)) (\<lambda>(total_len, buf).
          obind (send_packet send_char (send_char_do tty_write) buf (int total_len) u) (\<lambda>u.
            Ok (Some (buf, u))))))"

text \<open>One round of \<open>slip_out_task_proc\<close>: the bytes written to the TAP device, if any.\<close>

definition tap_slip_round :: "bytes \<times> uart \<Rightarrow> (bytes option \<times> bytes \<times> uart) outcome option" where
  "tap_slip_round s = (case s of (buf, u) \<Rightarrow>
     case recv_packet recv_char buf (int BUF_SIZE) u of
       None \<Rightarrow> None
     | Some r \<Rightarrow> Some (obind r (\<lambda>(n, buf, u). obind (if_api_check buf n) (\<lambda>(total_len, buf).
         if total_len < 0 then Ok (None, buf, u) else Ok (Some (take (nat total_len) buf), buf, u)))))"

datatype task_flag = Stopped | Running

definition slip_out_task_start :: "task_flag \<Rightarrow> task_flag" where
  "slip_out_task_start f = Running"

definition slip_out_task_stop :: "task_flag \<Rightarrow> int \<times> task_flag" where
  "slip_out_task_stop f = (if f = Running then (0, Stopped) else (-1, f))"

text \<open>\<open>tun_alloc\<close>: \<open>open\<close> and \<open>ioctl\<close> return a descriptor or a negative error; \<open>close\<close> is recorded.\<close>

definition tun_alloc :: "int \<Rightarrow> int \<Rightarrow> int \<times> int list" where
  "tun_alloc open_result ioctl_result =
     (if open_result < 0 then (open_result, [])
      else if ioctl_result < 0 then (ioctl_result, [open_result])
      else (open_result, []))"

section \<open>What goes on the line\<close>

lemma send_with_trailer:
  assumes "idle u" and "length buf = BUF_SIZE" and "length bs + 2 \<le> BUF_SIZE"
  shows "\<exists>buf' v. obind (if_api_calculate_checksum (blit buf 0 bs) (length bs)) (\<lambda>(total_len, buf).
      obind (send_packet send_char (send_char_do tty_write) buf (int total_len) u) (\<lambda>u. F buf u)) = F buf' v
    \<and> length buf' = BUF_SIZE \<and> idle v \<and> rx_part v = rx_part u
    \<and> line_out v = line_out u @ tty_write (take QUEUE_MAX_NUM (slip_frame (bs @ trailer bs)))"
proof -
  let ?tail = "drop (length bs + 2) buf"
  have "blit (blit buf 0 bs) (length bs) (trailer bs) = (bs @ trailer bs) @ ?tail"
    using assms(2,3) by (simp add: blit_def)
  then have "if_api_calculate_checksum (blit buf 0 bs) (length bs) = Ok (length bs + 2, (bs @ trailer bs) @ ?tail)"
    using assms(2,3) by (simp add: if_api_calculate_checksum_eq blit_def)
  moreover from send_packet_line [OF assms(1), of tty_write "bs @ trailer bs" ?tail] obtain v where
    "send_packet send_char (send_char_do tty_write) ((bs @ trailer bs) @ ?tail) (int (length bs + 2)) u = Ok v"
    "idle v" "rx_part v = rx_part u" "line_out v = line_out u @ tty_write (take QUEUE_MAX_NUM (slip_frame (bs @ trailer bs)))"
    by auto
  ultimately show ?thesis
    using assms(2,3) by (intro exI [of _ "(bs @ trailer bs) @ ?tail"] exI [of _ v]) simp
qed

lemma low_level_output_line:
  assumes "packet h (Some p) as" and "idle u" and "length buf = BUF_SIZE" and "plen h as + 2 \<le> BUF_SIZE"
  shows "\<exists>buf' v. ethoslipif_low_level_output tty_write h p (buf, u) = Ok (ERR_OK, buf', v)
    \<and> length buf' = BUF_SIZE \<and> idle v \<and> rx_part v = rx_part u
    \<and> line_out v = line_out u @ tty_write (take QUEUE_MAX_NUM (slip_frame (contents h as @ trailer (contents h as))))"
proof -
  let ?bs = "contents h as"
  from assms(1) obtain c where c: "cells h p = Some c" "tot_len c = plen h as" by (cases as) auto
  have len: "length ?bs = plen h as" by (rule length_contents [OF assms(1)])
  have "copy_partial_loop (Some p) (plen h as) 0 0 buf h = Some (plen h as, blit buf 0 ?bs)"
    using copy_partial_loop_spec [OF assms(1), of 0 0 "plen h as" buf] assms(3,4) len packet_plen_less [OF assms(1)] by simp
  with c len have eq: "ethoslipif_low_level_output tty_write h p (buf, u) =
      obind (if_api_calculate_checksum (blit buf 0 ?bs) (length ?bs)) (\<lambda>(total_len, buf).
      obind (send_packet send_char (send_char_do tty_write) buf (int total_len) u) (\<lambda>u. Ok (ERR_OK, buf, u)))"
    by (simp add: ethoslipif_low_level_output_def pbuf_copy_partial_def)
  show ?thesis
    unfolding eq using send_with_trailer [OF assms(2,3), of ?bs tty_write "\<lambda>buf u. Ok (ERR_OK, buf, u)"] assms(4) len by auto
qed

text \<open>Reception of a frame with its check sequence, for every receiver with a buffer of this size.\<close>

lemma recv_checked:
  assumes "rx_good u" and "incoming u = slip_frame (bs @ trailer bs) @ rest" and "length bs + 2 \<le> BUF_SIZE"
    and "length buf = BUF_SIZE"
  shows "\<exists>buf1 buf' v. recv_packet recv_char buf (int BUF_SIZE) u = Some (Ok (length bs + 2, buf1, v))
    \<and> if_api_check buf1 (length bs + 2) = Ok (int (length bs), buf') \<and> take (length bs) buf' = bs
    \<and> length buf' = BUF_SIZE \<and> incoming v = rest \<and> rx_good v"
proof -
  have ne: "bs @ trailer bs \<noteq> []" by (simp add: trailer_def)
  from host_rx.recv_packet_frame [OF assms(1), of 0 "bs @ trailer bs" rest BUF_SIZE buf] assms(2-4) ne obtain v where
    v: "recv_packet recv_char buf (int BUF_SIZE) u = Some (Ok (length bs + 2, blit buf 0 (bs @ trailer bs), v))"
      "incoming v = rest" "rx_good v" by (auto simp: BUF_SIZE_def min_absorb2)
  let ?b = "blit buf 0 (bs @ trailer bs)"
  have b: "?b = bs @ trailer bs @ drop (length bs + 2) buf" using assms(3,4) by (simp add: blit_def)
  have l: "length ?b = BUF_SIZE" using assms(3,4) by simp
  have "if_api_check ?b (length bs + 2) = Ok (int (length bs), blit ?b (length bs) (trailer bs))"
    using l assms(3) by (subst if_api_check_eq) (simp_all add: b)
  moreover have "take (length bs) (blit ?b (length bs) (trailer bs)) = bs"
    using l assms(3) by (simp add: take_blit b)
  ultimately show ?thesis using v l assms(3) by auto
qed

lemma tap_receives:
  assumes "rx_good u" and "incoming u = slip_frame (bs @ trailer bs) @ rest" and "length bs + 2 \<le> BUF_SIZE"
    and "length buf = BUF_SIZE"
  shows "\<exists>buf' v. tap_slip_round (buf, u) = Some (Ok (Some bs, buf', v)) \<and> incoming v = rest \<and> rx_good v
    \<and> length buf' = BUF_SIZE"
  using recv_checked [OF assms] by (auto simp: tap_slip_round_def)

section \<open>Properties\<close>

text \<open>
  C37. The bridge and the host speak the same protocol. A packet of the lwIP host, in however
  many buffers, whose framed form fits the transmit buffer, is sent by
  \<open>ethoslipif_low_level_output\<close> so that a receiver running \<open>slip_out_task_proc\<close> on the
  other end of the line gets exactly the bytes of the packet, and the line is idle again.
\<close>

theorem low_level_output_delivered:
  assumes "packet h (Some p) as" and "idle u" and "length buf = BUF_SIZE" and "\<forall>xs. tty_write xs = xs"
    and "wire_bytes = slip_frame (contents h as @ trailer (contents h as))" and "length wire_bytes \<le> QUEUE_MAX_NUM"
    and "rx_good r" and "incoming r = wire_bytes @ rest" and "length rbuf = BUF_SIZE"
  shows "\<exists>buf' v rbuf' r'. ethoslipif_low_level_output tty_write h p (buf, u) = Ok (ERR_OK, buf', v)
    \<and> idle v \<and> line_out v = line_out u @ wire_bytes
    \<and> tap_slip_round (rbuf, r) = Some (Ok (Some (contents h as), rbuf', r')) \<and> incoming r' = rest"
proof -
  have len: "length (contents h as) = plen h as" by (rule length_contents [OF assms(1)])
  have fits: "plen h as + 2 \<le> BUF_SIZE"
    using assms(5,6) length_slip_encode [of "contents h as @ trailer (contents h as)"] len
    by (simp add: slip_frame_def BUF_SIZE_def QUEUE_MAX_NUM_def)
  from low_level_output_line [OF assms(1-3) fits, of tty_write] assms(4-6) obtain buf' v where
    v: "ethoslipif_low_level_output tty_write h p (buf, u) = Ok (ERR_OK, buf', v)" "idle v"
      "line_out v = line_out u @ wire_bytes" by auto
  moreover have "\<exists>rbuf' r'. tap_slip_round (rbuf, r) = Some (Ok (Some (contents h as), rbuf', r')) \<and> incoming r' = rest"
    using tap_receives [OF assms(7,8) [unfolded assms(5)] _ assms(9)] fits len by auto
  ultimately show ?thesis by blast
qed

theorem low_level_output_delivered_witness:
  "\<exists>buf' v rbuf' r'. ethoslipif_low_level_output (\<lambda>xs. xs) sample_heap 1 (replicate 4000 0, uart_start []) = Ok (ERR_OK, buf', v)
    \<and> line_out v = slip_frame ([3, 4, 5, 9, 8] @ trailer [3, 4, 5, 9, 8])
    \<and> tap_slip_round (replicate 4000 0, uart_start [Data (slip_frame ([3, 4, 5, 9, 8] @ trailer [3, 4, 5, 9, 8]))]) =
        Some (Ok (Some [3, 4, 5, 9, 8], rbuf', r'))"
proof -
  let ?w = "slip_frame ([3, 4, 5, 9, 8] @ trailer [3, 4, 5, 9, 8])"
  have w: "length ?w \<le> QUEUE_MAX_NUM" "?w \<noteq> []"
    using length_slip_encode [of "[3, 4, 5, 9, 8] @ trailer [3, 4, 5, 9, 8]"]
    by (simp_all add: slip_frame_def QUEUE_MAX_NUM_def)
  then have r: "rx_good (uart_start [Data ?w])" by (intro rx_good_start) simp
  have b: "length (replicate 4000 (0 :: u8)) = BUF_SIZE" "line_out (uart_start []) = []" "incoming (uart_start [Data ?w]) = ?w @ []"
    by (simp_all add: BUF_SIZE_def) (simp add: uart_start_def)
  show ?thesis
    using low_level_output_delivered [OF sample_packet(1) idle_start [of "[]"] b(1), of "\<lambda>xs. xs" ?w "uart_start [Data ?w]" "[]",
        OF _ _ w(1) r b(3,1)]
    unfolding sample_packet(3) b(2) by auto
qed

text \<open>
  C38. The exact limit of the TAP bridge: \<open>main\<close> reads up to 4000 bytes into a buffer of 4000
  bytes and then appends two check bytes, so a round writes behind the end of
  \<open>tun_out_buffer\<close> precisely when \<open>read\<close> returned more than 3998 bytes; every shorter
  read is sent as one packet, the device staying idle.
\<close>

theorem tap_round_overflow_iff:
  assumes "idle u" and "length buf = BUF_SIZE" and "length bs \<le> BUF_SIZE"
  shows "(tap_round tty_write (Some bs) (buf, u) = Fault \<longleftrightarrow> length bs > 3998)
    \<and> (length bs \<le> 3998 \<longrightarrow> (\<exists>buf' v. tap_round tty_write (Some bs) (buf, u) = Ok (Some (buf', v)) \<and> idle v
      \<and> line_out v = line_out u @ tty_write (take QUEUE_MAX_NUM (slip_frame (bs @ trailer bs)))))"
proof (cases "length bs \<le> 3998")
  case True
  with send_with_trailer [OF assms(1,2), of bs tty_write "\<lambda>buf u. Ok (Some (buf, u))"] assms(3) show ?thesis
    by (auto simp: tap_round_def BUF_SIZE_def)
next
  case False
  with assms(2,3) show ?thesis
    by (simp add: tap_round_def if_api_calculate_checksum_eq BUF_SIZE_def Let_def)
qed

theorem tap_round_overflow_iff_witness:
  "tap_round (\<lambda>xs. xs) (Some (replicate 3999 0)) (replicate 4000 0, uart_start []) = Fault
   \<and> (\<exists>buf' v. tap_round (\<lambda>xs. xs) (Some [1]) (replicate 4000 0, uart_start []) = Ok (Some (buf', v)))"
  using tap_round_overflow_iff [OF idle_start [of "[]"], of "replicate 4000 0" "replicate 3999 0" "\<lambda>xs. xs"]
    tap_round_overflow_iff [OF idle_start [of "[]"], of "replicate 4000 0" "[1]" "\<lambda>xs. xs"]
  by (auto simp: BUF_SIZE_def)

end
