(* ===== verification/Ring_Queue.thy ===== *)
theory Ring_Queue
  imports Prelude
begin

text \<open>
  \<^verbatim>\<open>queue.c\<close>: the circular queue that carries received frames from the SLIP thread to the
  main loop, and its pointer interface \<open>queue_try_put\<close> / \<open>queue_try_get\<close>. The queue stores
  C \<open>int\<close>s (32 bits) while the pointers put into it have 64 bits on the host, so the casts
  are written out. The locale \<open>bounded_fifo\<close> is what the main program relies on.
\<close>

section \<open>The code\<close>

definition MAX_QSIZE :: nat where "MAX_QSIZE = 100"

text \<open>\<open>base\<close> is \<open>None\<close> for a null pointer; an access through it is a \<open>Fault\<close>.\<close>

record SqQueue =
  base :: "u32 list option"
  front :: nat
  rear :: nat

definition Q_Init :: "u32 list option \<Rightarrow> SqQueue \<Rightarrow> SqQueue" where
  "Q_Init malloc_result Q =
     (let Q = Q\<lparr>base := malloc_result\<rparr> in
      if base Q = None then Q else Q\<lparr>front := 0, rear := 0\<rparr>)"

definition Q_Destroy :: "SqQueue \<Rightarrow> SqQueue" where
  "Q_Destroy Q = Q\<lparr>base := None, front := 0, rear := 0\<rparr>"

definition Q_Clear :: "SqQueue \<Rightarrow> SqQueue" where
  "Q_Clear Q = Q\<lparr>front := 0, rear := 0\<rparr>"

definition Q_Empty :: "SqQueue \<Rightarrow> int" where
  "Q_Empty Q = (if front Q = rear Q then 1 else -1)"

definition Q_Length :: "SqQueue \<Rightarrow> nat" where
  "Q_Length Q = (rear Q + MAX_QSIZE - front Q) mod MAX_QSIZE"

definition read_base :: "SqQueue \<Rightarrow> nat \<Rightarrow> u32 outcome" where
  "read_base Q i = (case base Q of None \<Rightarrow> Fault | Some b \<Rightarrow> load b i)"

definition Q_GetHead :: "SqQueue \<Rightarrow> (u32 option \<times> int) outcome" where
  "Q_GetHead Q =
     (if front Q = rear Q then Ok (None, -1)
      else obind (read_base Q (front Q)) (\<lambda>e. Ok (Some e, 1)))"

definition Q_Put :: "u32 \<Rightarrow> SqQueue \<Rightarrow> (int \<times> SqQueue) outcome" where
  "Q_Put e Q =
     (if (rear Q + 1) mod MAX_QSIZE = front Q then Ok (-1, Q)
      else case base Q of None \<Rightarrow> Fault
       | Some b \<Rightarrow> obind (store b (rear Q) e)
           (\<lambda>b. Ok (1, Q\<lparr>base := Some b, rear := (rear Q + 1) mod MAX_QSIZE\<rparr>)))"

definition Q_Poll :: "SqQueue \<Rightarrow> (u32 option \<times> int \<times> SqQueue) outcome" where
  "Q_Poll Q =
     (if front Q = rear Q then Ok (None, -1, Q)
      else obind (read_base Q (front Q))
        (\<lambda>e. Ok (Some e, 1, Q\<lparr>front := (front Q + 1) mod MAX_QSIZE\<rparr>)))"

text \<open>The cast \<open>(int)p\<close> keeps the low 32 bits, the cast back extends the sign.\<close>

definition queue_try_put :: "64 word \<Rightarrow> SqQueue \<Rightarrow> (bool \<times> SqQueue) outcome" where
  "queue_try_put p Q = obind (Q_Put (ucast p) Q) (\<lambda>(r, Q). Ok (r = 1, Q))"

definition queue_try_get :: "SqQueue \<Rightarrow> (64 word \<times> SqQueue) outcome" where
  "queue_try_get Q =
     obind (Q_Poll Q) (\<lambda>(e, r, Q).
       if r = 1 then (case e of Some e \<Rightarrow> Ok (scast e, Q) | None \<Rightarrow> Fault) else Ok (0, Q))"

section \<open>The contract: a bounded first-in first-out queue\<close>

datatype 'e qop = Put 'e | Get

text \<open>
  \<open>run_ops\<close> performs a sequence of operations and collects the elements that were accepted
  and the elements that came out.
\<close>

fun run_ops ::
  "('e \<Rightarrow> 'q \<Rightarrow> (bool \<times> 'q) outcome) \<Rightarrow> ('q \<Rightarrow> ('e option \<times> 'q) outcome) \<Rightarrow> 'e qop list \<Rightarrow> 'q
    \<Rightarrow> ('e list \<times> 'e list \<times> 'q) outcome" where
  "run_ops put get [] q = Ok ([], [], q)"
| "run_ops put get (Put e # ops) q =
     obind (put e q) (\<lambda>(r, q). obind (run_ops put get ops q)
       (\<lambda>(accepted, got, q). Ok (if r then e # accepted else accepted, got, q)))"
| "run_ops put get (Get # ops) q =
     obind (get q) (\<lambda>(r, q). obind (run_ops put get ops q)
       (\<lambda>(accepted, got, q). Ok (accepted, (case r of None \<Rightarrow> got | Some e \<Rightarrow> e # got), q)))"

locale bounded_fifo =
  fixes put :: "'e \<Rightarrow> 'q \<Rightarrow> (bool \<times> 'q) outcome"
    and get :: "'q \<Rightarrow> ('e option \<times> 'q) outcome"
    and contents :: "'q \<Rightarrow> 'e list"
    and capacity :: nat
    and inv :: "'q \<Rightarrow> bool"
  assumes put_spec: "inv q \<Longrightarrow> \<exists>q'. inv q' \<and> put e q = Ok (length (contents q) < capacity, q')
      \<and> contents q' = (if length (contents q) < capacity then contents q @ [e] else contents q)"
    and get_spec: "inv q \<Longrightarrow> \<exists>q'. inv q' \<and> contents q' = tl (contents q)
      \<and> get q = Ok (case contents q of [] \<Rightarrow> None | e # _ \<Rightarrow> Some e, q')"
    and bounded: "inv q \<Longrightarrow> length (contents q) \<le> capacity"
begin

theorem run_ops_fifo:
  assumes "inv q"
  shows "\<exists>accepted got q'. run_ops put get ops q = Ok (accepted, got, q') \<and> inv q'
    \<and> contents q @ accepted = got @ contents q'"
  using assms
proof (induction ops arbitrary: q)
  case Nil
  then show ?case by simp
next
  case (Cons op ops)
  show ?case
  proof (cases op)
    case (Put e)
    from put_spec [OF Cons.prems, of e] obtain q1 where q1: "inv q1"
      "put e q = Ok (length (contents q) < capacity, q1)"
      "contents q1 = (if length (contents q) < capacity then contents q @ [e] else contents q)"
      by blast
    with Cons.IH [OF q1(1)] Put show ?thesis by (auto split: if_splits)
  next
    case Get
    from get_spec [OF Cons.prems] obtain q1 where q1: "inv q1" "contents q1 = tl (contents q)"
      "get q = Ok (case contents q of [] \<Rightarrow> None | e # _ \<Rightarrow> Some e, q1)"
      by blast
    with Cons.IH [OF q1(1)] Get show ?thesis by (auto split: list.splits)
  qed
qed

end

section \<open>The ring implements the contract\<close>

definition ring_inv :: "SqQueue \<Rightarrow> bool" where
  "ring_inv Q \<longleftrightarrow> (\<exists>b. base Q = Some b \<and> length b = MAX_QSIZE)
     \<and> front Q < MAX_QSIZE \<and> rear Q < MAX_QSIZE"

definition ring_list :: "SqQueue \<Rightarrow> u32 list" where
  "ring_list Q = map (\<lambda>i. the (base Q) ! ((front Q + i) mod MAX_QSIZE)) [0..<Q_Length Q]"

lemma length_ring_list [simp]: "length (ring_list Q) = Q_Length Q"
  by (simp add: ring_list_def)

lemma Q_Length_less: "Q_Length Q < MAX_QSIZE"
  by (simp add: Q_Length_def MAX_QSIZE_def)

lemma wrap_index:
  "f < MAX_QSIZE \<Longrightarrow> i \<le> MAX_QSIZE \<Longrightarrow>
   (f + i) mod MAX_QSIZE = (if f + i < MAX_QSIZE then f + i else f + i - MAX_QSIZE)"
  by (simp add: mod_if)

lemma Q_Length_cases:
  "front Q < MAX_QSIZE \<Longrightarrow> rear Q < MAX_QSIZE \<Longrightarrow>
   Q_Length Q = (if front Q \<le> rear Q then rear Q - front Q else rear Q + MAX_QSIZE - front Q)"
  by (simp add: Q_Length_def mod_if)

lemma ring_arith:
  assumes "front Q < MAX_QSIZE" and "rear Q < MAX_QSIZE"
  shows "(front Q + Q_Length Q) mod MAX_QSIZE = rear Q"
    and "Suc (rear Q) mod MAX_QSIZE = front Q \<longleftrightarrow> Suc (Q_Length Q) = MAX_QSIZE"
    and "Q_Length Q = 0 \<longleftrightarrow> front Q = rear Q"
  using assms wrap_index [of "front Q" "Q_Length Q"] wrap_index [of "rear Q" 1]
  by (auto simp: Q_Length_cases split: if_splits)

lemma Q_Put_full:
  "ring_inv Q \<Longrightarrow> Suc (Q_Length Q) = MAX_QSIZE \<Longrightarrow> Q_Put e Q = Ok (-1, Q)"
  by (simp add: Q_Put_def ring_inv_def ring_arith(2))

lemma Q_Put_room:
  assumes inv: "ring_inv Q" and room: "Suc (Q_Length Q) < MAX_QSIZE"
  shows "\<exists>Q'. Q_Put e Q = Ok (1, Q') \<and> ring_inv Q' \<and> ring_list Q' = ring_list Q @ [e]"
proof -
  from inv obtain b where b: "base Q = Some b" "length b = MAX_QSIZE"
    and bounds: "front Q < MAX_QSIZE" "rear Q < MAX_QSIZE" by (auto simp: ring_inv_def)
  let ?Q = "Q\<lparr>base := Some (b[rear Q := e]), rear := (rear Q + 1) mod MAX_QSIZE\<rparr>"
  have put: "Q_Put e Q = Ok (1, ?Q)"
    using b bounds room by (simp add: Q_Put_def ring_arith(2))
  have inv': "ring_inv ?Q" using b bounds by (simp add: ring_inv_def MAX_QSIZE_def)
  have len: "Q_Length ?Q = Suc (Q_Length Q)"
    using bounds room wrap_index [of "rear Q" 1]
    by (subst Q_Length_cases) (auto simp: Q_Length_cases split: if_splits)
  have other: "(front Q + i) mod MAX_QSIZE \<noteq> rear Q" if "i < Q_Length Q" for i
    using that bounds wrap_index [of "front Q" i] by (auto simp: Q_Length_cases split: if_splits)
  have "map (\<lambda>i. b[rear Q := e] ! ((front Q + i) mod MAX_QSIZE)) [0..<Q_Length Q] =
      map (\<lambda>i. b ! ((front Q + i) mod MAX_QSIZE)) [0..<Q_Length Q]"
    by (rule map_cong) (use other [THEN not_sym] in auto)
  then have "ring_list ?Q = ring_list Q @ [e]"
    using b bounds len ring_arith(1) [OF bounds] by (simp add: ring_list_def del: map_eq_conv)
  with put inv' show ?thesis by blast
qed

lemma Q_Poll_empty: "ring_inv Q \<Longrightarrow> ring_list Q = [] \<Longrightarrow> Q_Poll Q = Ok (None, -1, Q)"
  using ring_arith(3) [of Q] by (auto simp: Q_Poll_def ring_inv_def ring_list_def)

lemma Q_Poll_some:
  assumes inv: "ring_inv Q" and some: "ring_list Q = e # es"
  shows "\<exists>Q'. Q_Poll Q = Ok (Some e, 1, Q') \<and> ring_inv Q' \<and> ring_list Q' = es"
proof -
  from inv obtain b where b: "base Q = Some b" "length b = MAX_QSIZE"
    and bounds: "front Q < MAX_QSIZE" "rear Q < MAX_QSIZE" by (auto simp: ring_inv_def)
  let ?Q = "Q\<lparr>front := (front Q + 1) mod MAX_QSIZE\<rparr>"
  from some have ne: "Q_Length Q \<noteq> 0" by (metis length_ring_list length_0_conv list.distinct(1))
  then obtain n where n: "Q_Length Q = Suc n" by (cases "Q_Length Q") auto
  have upt: "[0..<Suc n] = 0 # map Suc [0..<n]" by (simp add: map_Suc_upt upt_conv_Cons)
  have e: "e = b ! front Q" and es: "es = map (\<lambda>i. b ! ((front Q + Suc i) mod MAX_QSIZE)) [0..<n]"
    using some b bounds by (auto simp: ring_list_def n upt simp del: upt_Suc)
  have len: "Q_Length ?Q = n"
  proof -
    have f: "front ?Q = (if front Q + 1 < MAX_QSIZE then front Q + 1 else front Q + 1 - MAX_QSIZE)"
      using bounds wrap_index [of "front Q" 1] by simp
    then have "front ?Q < MAX_QSIZE" "rear ?Q < MAX_QSIZE" using bounds by auto
    note q = Q_Length_cases [OF this]
    from f show ?thesis
      unfolding q using bounds Q_Length_cases [OF bounds] n by (simp split: if_splits) linarith
  qed
  have "Q_Poll Q = Ok (Some e, 1, ?Q)"
    using b bounds ne e ring_arith(3) [OF bounds] by (simp add: Q_Poll_def read_base_def)
  moreover have "ring_inv ?Q" using b bounds by (simp add: ring_inv_def MAX_QSIZE_def)
  moreover have "ring_list ?Q = es"
    using b len es by (simp add: ring_list_def mod_add_left_eq)
  ultimately show ?thesis by blast
qed

text \<open>\<open>ring_get\<close> is \<open>Q_Poll\<close> without its status code, in the shape the contract asks for.\<close>

definition ring_put :: "u32 \<Rightarrow> SqQueue \<Rightarrow> (bool \<times> SqQueue) outcome" where
  "ring_put e Q = obind (Q_Put e Q) (\<lambda>(r, Q). Ok (r = 1, Q))"

definition ring_get :: "SqQueue \<Rightarrow> (u32 option \<times> SqQueue) outcome" where
  "ring_get Q = obind (Q_Poll Q) (\<lambda>(e, r, Q). Ok (e, Q))"

interpretation ring: bounded_fifo ring_put ring_get ring_list "MAX_QSIZE - 1" ring_inv
proof unfold_locales
  fix Q e
  assume inv: "ring_inv Q"
  show "\<exists>Q'. ring_inv Q' \<and> ring_put e Q = Ok (length (ring_list Q) < MAX_QSIZE - 1, Q')
      \<and> ring_list Q' = (if length (ring_list Q) < MAX_QSIZE - 1 then ring_list Q @ [e] else ring_list Q)"
  proof (cases "Suc (Q_Length Q) = MAX_QSIZE")
    case True
    with inv show ?thesis by (simp add: ring_put_def Q_Put_full)
  next
    case False
    with Q_Length_less [of Q] have "Suc (Q_Length Q) < MAX_QSIZE" by simp
    with Q_Put_room [OF inv this, of e] show ?thesis by (auto simp: ring_put_def)
  qed
  show "\<exists>Q'. ring_inv Q' \<and> ring_list Q' = tl (ring_list Q)
      \<and> ring_get Q = Ok (case ring_list Q of [] \<Rightarrow> None | e # _ \<Rightarrow> Some e, Q')"
  proof (cases "ring_list Q")
    case Nil
    with inv show ?thesis by (auto simp: ring_get_def Q_Poll_empty)
  next
    case (Cons e es)
    with Q_Poll_some [OF inv Cons] show ?thesis by (auto simp: ring_get_def)
  qed
  show "length (ring_list Q) \<le> MAX_QSIZE - 1"
    using Q_Length_less [of Q] by simp
qed

lemma Q_Init_ring:
  "length b = MAX_QSIZE \<Longrightarrow> ring_inv (Q_Init (Some b) Q) \<and> ring_list (Q_Init (Some b) Q) = []"
  by (simp add: ring_inv_def ring_list_def Q_Init_def Q_Length_def MAX_QSIZE_def)

section \<open>Properties\<close>

text \<open>
  The circular queue is first-in first-out. After a successful \<open>Q_Init\<close>, any sequence of
  puts and polls runs without a fault, and the elements that were accepted are exactly
  those that came out followed by those still queued, in order: none lost, none twice.
\<close>

theorem queue_is_fifo:
  assumes "length b = MAX_QSIZE"
  shows "\<exists>accepted got Q'. run_ops ring_put ring_get ops (Q_Init (Some b) Q) = Ok (accepted, got, Q')
    \<and> accepted = got @ ring_list Q' \<and> Q_Length Q' \<le> 99"
proof -
  from ring.run_ops_fifo [of "Q_Init (Some b) Q" ops] Q_Init_ring [OF assms, of Q]
  obtain accepted got Q' where r: "run_ops ring_put ring_get ops (Q_Init (Some b) Q) = Ok (accepted, got, Q')"
    "ring_inv Q'" "accepted = got @ ring_list Q'" by auto
  moreover have "Q_Length Q' \<le> 99" using Q_Length_less [of Q'] by (simp add: MAX_QSIZE_def)
  ultimately show ?thesis by blast
qed

theorem queue_is_fifo_witness:
  "\<exists>accepted got Q'. run_ops ring_put ring_get [Put 5, Put 6, Get]
      (Q_Init (Some (replicate MAX_QSIZE 0)) \<lparr>base = None, front = 3, rear = 4\<rparr>) = Ok (accepted, got, Q')
    \<and> accepted = got @ ring_list Q' \<and> Q_Length Q' \<le> 99"
  by (rule queue_is_fifo) simp

text \<open>
  C30. Refinement of both operations to a list of at most 99 elements, on every branch: a put
  into a queue of 99 is refused and changes nothing, otherwise it appends; a poll of an
  empty queue reports \<open>-1\<close>, otherwise it removes the head.
\<close>

theorem queue_refines_list:
  assumes "ring_inv Q"
  shows "\<exists>Q1 Q2. ring_inv Q1 \<and> ring_inv Q2
    \<and> Q_Put e Q = Ok (if length (ring_list Q) < 99 then 1 else -1, Q1)
    \<and> ring_list Q1 = (if length (ring_list Q) < 99 then ring_list Q @ [e] else ring_list Q)
    \<and> Q_Poll Q = (case ring_list Q of [] \<Rightarrow> Ok (None, -1, Q2) | x # _ \<Rightarrow> Ok (Some x, 1, Q2))
    \<and> ring_list Q2 = tl (ring_list Q)"
proof -
  have "\<exists>Q1. ring_inv Q1 \<and> Q_Put e Q = Ok (if length (ring_list Q) < 99 then 1 else -1, Q1)
      \<and> ring_list Q1 = (if length (ring_list Q) < 99 then ring_list Q @ [e] else ring_list Q)"
  proof (cases "Suc (Q_Length Q) = MAX_QSIZE")
    case True
    with assms show ?thesis by (simp add: Q_Put_full) (simp add: MAX_QSIZE_def)
  next
    case False
    with Q_Length_less [of Q] have r: "Suc (Q_Length Q) < MAX_QSIZE" by simp
    then have "Q_Length Q < 99" by (simp add: MAX_QSIZE_def)
    with Q_Put_room [OF assms r, of e] show ?thesis by auto
  qed
  moreover have "\<exists>Q2. ring_inv Q2 \<and> ring_list Q2 = tl (ring_list Q)
      \<and> Q_Poll Q = (case ring_list Q of [] \<Rightarrow> Ok (None, -1, Q2) | x # _ \<Rightarrow> Ok (Some x, 1, Q2))"
    using assms Q_Poll_empty [OF assms] Q_Poll_some [OF assms] by (cases "ring_list Q") auto
  ultimately show ?thesis by blast
qed

theorem queue_refines_list_witness:
  "\<exists>Q1 Q2. ring_inv Q1 \<and> ring_inv Q2
    \<and> Q_Put 7 (Q_Init (Some (replicate MAX_QSIZE 0)) \<lparr>base = None, front = 0, rear = 0\<rparr>) = Ok (1, Q1)
    \<and> ring_list Q1 = [7]
    \<and> Q_Poll (Q_Init (Some (replicate MAX_QSIZE 0)) \<lparr>base = None, front = 0, rear = 0\<rparr>) = Ok (None, -1, Q2)"
proof -
  let ?Q = "Q_Init (Some (replicate MAX_QSIZE 0)) \<lparr>base = None, front = 0, rear = 0\<rparr>"
  have "ring_inv ?Q" "ring_list ?Q = []" by (simp_all add: Q_Init_ring)
  with queue_refines_list [of ?Q 7] show ?thesis by auto
qed

text \<open>
  C31. The pointer interface: a pointer put into an empty queue comes back as it was exactly
  when it survives the two casts, that is when it is the sign extension of its low 32
  bits. A pointer from the 64-bit heap above 2 GiB comes back as a different address.
\<close>

theorem queue_pointer_roundtrip_iff:
  assumes "ring_inv Q" and "ring_list Q = []"
  shows "\<exists>Q1 p' Q2. queue_try_put p Q = Ok (True, Q1) \<and> queue_try_get Q1 = Ok (p', Q2)
    \<and> (p' = p \<longleftrightarrow> - (2 ^ 31) \<le> sint p \<and> sint p < 2 ^ 31)"
proof -
  from assms(2) have "Q_Length Q = 0" by (metis length_ring_list list.size(3))
  then have "Suc (Q_Length Q) < MAX_QSIZE" by (simp add: MAX_QSIZE_def)
  from Q_Put_room [OF assms(1) this, of "ucast p"] assms(2) obtain Q1 where
    Q1: "Q_Put (ucast p) Q = Ok (1, Q1)" "ring_inv Q1" "ring_list Q1 = [ucast p]" by auto
  from Q_Poll_some [OF Q1(2,3)] obtain Q2 where "Q_Poll Q1 = Ok (Some (ucast p), 1, Q2)" by blast
  moreover have "scast (ucast p :: u32) = p \<longleftrightarrow> - (2 ^ 31) \<le> sint p \<and> sint p < 2 ^ 31"
  proof -
    have "scast (ucast p :: u32) = p \<longleftrightarrow> sint (scast (ucast p :: u32) :: 64 word) = sint p"
      by (auto intro: signed_word_eqI)
    also have "sint (scast (ucast p :: u32) :: 64 word) = signed_take_bit 31 (sint p)"
      by (rule bit_eqI) (auto simp: bit_simps min_def)
    also have "signed_take_bit 31 (sint p) = sint p \<longleftrightarrow> - (2 ^ 31) \<le> sint p \<and> sint p < 2 ^ 31"
      by (auto simp: signed_take_bit_int_eq_self_iff)
    finally show ?thesis .
  qed
  ultimately show ?thesis
    using Q1 by (auto simp: queue_try_put_def queue_try_get_def)
qed

theorem queue_pointer_roundtrip_iff_witness:
  "\<exists>Q1 p' Q2. queue_try_put 0x7f0000001000 (Q_Init (Some (replicate MAX_QSIZE 0)) \<lparr>base = None, front = 0, rear = 0\<rparr>) = Ok (True, Q1)
    \<and> queue_try_get Q1 = Ok (p', Q2) \<and> p' \<noteq> 0x7f0000001000"
proof -
  let ?Q = "Q_Init (Some (replicate MAX_QSIZE 0)) \<lparr>base = None, front = 0, rear = 0\<rparr>"
  have "ring_inv ?Q" "ring_list ?Q = []" by (simp_all add: Q_Init_ring)
  with queue_pointer_roundtrip_iff [of ?Q "0x7f0000001000"] show ?thesis by auto
qed

end
