(* ===== verification/Wlan_Api.thy ===== *)
theory Wlan_Api
  imports Frame_Checksum
begin

text \<open>
  The control protocol between host and firmware, carried in Ethernet frames of type
  \<open>0xffff\<close>: the firmware side \<^verbatim>\<open>src/wlan_api.c\<close> (\<open>wlan_api_pack_proc\<close>) and the host side
  \<^verbatim>\<open>tools/ethoslip_lwip/src/wlan_api.c\<close> (\<open>wlan_api_connect\<close>, \<open>wlan_api_get_hwaddr\<close>,
  \<open>wlan_api_rx_proc\<close>). The packed structures of \<^verbatim>\<open>wlan_api.h\<close> are byte strings with the
  field offsets below; a frame handed to \<open>send_packet\<close> is the result of the host functions.
\<close>

section \<open>Frame layout\<close>

definition WLAN_API_TYPE_FREE :: u8 where "WLAN_API_TYPE_FREE = 0x00"
definition WLAN_API_TYPE_CONNECT :: u8 where "WLAN_API_TYPE_CONNECT = 0x01"
definition WLAN_API_TYPE_GET_HWADDR :: u8 where "WLAN_API_TYPE_GET_HWADDR = 0x02"
definition WLAN_API_TYPE_GET_HWADDR_RET :: u8 where
  "WLAN_API_TYPE_GET_HWADDR_RET = WLAN_API_TYPE_GET_HWADDR OR 0x80"

definition WLAN_API_SSID_MAX_LEN :: nat where "WLAN_API_SSID_MAX_LEN = 33"
definition WLAN_API_PASSWORD_MAX_LEN :: nat where "WLAN_API_PASSWORD_MAX_LEN = 65"

definition IS_WLAN_API_FRAME_LEN :: "int \<Rightarrow> bool" where
  "IS_WLAN_API_FRAME_LEN len \<longleftrightarrow> len > 14"

definition IS_WLAN_API_FRAME :: "bytes \<Rightarrow> bool" where
  "IS_WLAN_API_FRAME p \<longleftrightarrow> p ! 12 = 0xff \<and> p ! 13 = 0xff"

text \<open>Offsets and sizes of \<open>wlan_api_default_t\<close> and \<open>wlan_api_wifi_connect_t\<close> (packed).\<close>

definition off_src :: nat where "off_src = 6"
definition off_type :: nat where "off_type = 14"
definition off_buf :: nat where "off_buf = 15"
definition off_ssid_len :: nat where "off_ssid_len = 15"
definition off_ssid :: nat where "off_ssid = 16"
definition off_password_len :: nat where "off_password_len = off_ssid + 33"
definition off_password :: nat where "off_password = off_password_len + 1"
definition sizeof_default :: nat where "sizeof_default = 16"
definition sizeof_connect :: nat where "sizeof_connect = off_password + 65"

lemmas wlan_consts = WLAN_API_TYPE_FREE_def WLAN_API_TYPE_CONNECT_def WLAN_API_TYPE_GET_HWADDR_def
  WLAN_API_TYPE_GET_HWADDR_RET_def WLAN_API_SSID_MAX_LEN_def WLAN_API_PASSWORD_MAX_LEN_def
lemmas wlan_layout = off_src_def off_type_def off_buf_def off_ssid_len_def off_ssid_def
  off_password_len_def off_password_def sizeof_default_def sizeof_connect_def

section \<open>Firmware side\<close>

datatype security = RTW_SECURITY_OPEN | RTW_SECURITY_WPA2_AES_PSK | RTW_SECURITY_OTHER

text \<open>
  The globals \<open>gs_ssid\<close>, \<open>gs_passwd\<close> and \<open>gs_security_type\<close>, with the arrays at their real
  sizes, and the number of times \<open>wlan_connect_wifi\<close> has been called.
\<close>

record wifi_conf =
  gs_ssid_val :: bytes
  gs_ssid_len :: nat
  gs_passwd :: bytes
  gs_security_type :: security
  wlan_connect_wifi_calls :: nat

definition strlen :: "bytes \<Rightarrow> nat" where
  "strlen s = length (takeWhile (\<lambda>c. c \<noteq> 0) s)"

definition memcmp_eq :: "bytes \<Rightarrow> bytes \<Rightarrow> nat \<Rightarrow> bool" where
  "memcmp_eq a b n \<longleftrightarrow> take n a = take n b"

definition configured :: "bytes \<Rightarrow> wifi_conf \<Rightarrow> bool" where
  "configured buf s \<longleftrightarrow>
     memcmp_eq (gs_ssid_val s) (drop off_ssid buf) (gs_ssid_len s)
     \<and> memcmp_eq (gs_passwd s) (drop off_password buf) (strlen (gs_passwd s))"

text \<open>\<open>copy_string dst src n\<close>: \<open>memcpy(dst, src, n); dst[n] = 0\<close>.\<close>

definition copy_string :: "bytes \<Rightarrow> bytes \<Rightarrow> nat \<Rightarrow> bytes outcome" where
  "copy_string dst src n =
     (if n < length dst \<and> n \<le> length src then Ok (blit dst 0 (take n src @ [0])) else Fault)"

text \<open>
  \<open>wlan_api_pack_proc\<close> returns the length of the reply that is now in the buffer, 0 for no
  reply, \<open>-1\<close> for an error. \<open>hwaddr\<close> is the address of \<open>xnetif[0]\<close>. The buffer holds at
  least the \<open>len\<close> bytes it is said to hold, otherwise the reads would fault.
\<close>

definition wlan_api_pack_proc ::
  "bytes \<Rightarrow> bytes \<Rightarrow> nat \<Rightarrow> wifi_conf \<Rightarrow> (int \<times> bytes \<times> wifi_conf) outcome" where
  "wlan_api_pack_proc hwaddr buf len s =
     (if len < sizeof_default then Ok (-1, buf, s)
      else if length buf < len then Fault
      else if buf ! off_type = WLAN_API_TYPE_CONNECT then
        (if sizeof_connect \<noteq> len then Ok (-1, buf, s)
         else
           let ssid_len = unat (buf ! off_ssid_len); password_len = unat (buf ! off_password_len) in
           if ssid_len \<ge> WLAN_API_SSID_MAX_LEN \<or> password_len \<ge> WLAN_API_PASSWORD_MAX_LEN
           then Ok (-1, buf, s)
           else if configured buf s then Ok (0, buf, s)
           else
             obind (copy_string (gs_ssid_val s) (drop off_ssid buf) ssid_len) (\<lambda>ssid_val.
             obind (copy_string (gs_passwd s) (drop off_password buf) password_len) (\<lambda>passwd.
               Ok (0, buf, s\<lparr>gs_ssid_val := ssid_val, gs_ssid_len := ssid_len, gs_passwd := passwd,
                 gs_security_type := (if password_len = 0 then RTW_SECURITY_OPEN
                                      else RTW_SECURITY_WPA2_AES_PSK),
                 wlan_connect_wifi_calls := wlan_connect_wifi_calls s + 1\<rparr>))))
      else if buf ! off_type = WLAN_API_TYPE_GET_HWADDR then
        (let buf = blit buf off_src hwaddr;
             buf = buf[off_type := WLAN_API_TYPE_GET_HWADDR_RET];
             buf = buf[off_buf := 0x01]
         in Ok (int sizeof_default, buf, s))
      else Ok (-1, buf, s))"

section \<open>Host side\<close>

definition ether_header :: bytes where
  "ether_header = [0xff, 0xff, 0xff, 0xff, 0xff, 0xff, 0x00, 0x00, 0x00, 0x00, 0x00, 0x00, 0xff, 0xff]"

text \<open>
  \<open>wlan_api_connect\<close> builds the request in zeroed memory with two spare bytes for the check
  sequence; \<open>Inl\<close> is the result \<open>-1\<close>, \<open>Inr\<close> the bytes handed to \<open>send_packet\<close>.
\<close>

definition connect_frame :: "bytes \<Rightarrow> bytes \<Rightarrow> u8 \<Rightarrow> u8 \<Rightarrow> bytes" where
  "connect_frame ssid passwd ssid_len passwd_len =
     (let f = replicate (sizeof_connect + 2) 0;
          f = blit f 0 ether_header;
          f = f[off_type := WLAN_API_TYPE_CONNECT];
          f = blit f off_ssid (take (unat ssid_len) ssid);
          f = blit f off_password (take (unat passwd_len) passwd);
          f = f[off_ssid_len := ssid_len]
      in f[off_password_len := passwd_len])"

definition wlan_api_connect ::
  "bool \<Rightarrow> bytes \<Rightarrow> bytes \<Rightarrow> u8 \<Rightarrow> u8 \<Rightarrow> (int + bytes) outcome" where
  "wlan_api_connect malloc_ok ssid passwd ssid_len passwd_len =
     (if unat ssid_len \<ge> WLAN_API_SSID_MAX_LEN \<or> unat passwd_len \<ge> WLAN_API_PASSWORD_MAX_LEN
      then Ok (Inl (-1))
      else if \<not> malloc_ok then Ok (Inl (-1))
      else if length ssid < unat ssid_len \<or> length passwd < unat passwd_len then Fault
      else obind (if_api_calculate_checksum (connect_frame ssid passwd ssid_len passwd_len) sizeof_connect)
        (\<lambda>(total_len, f). Ok (Inr (take total_len f))))"

text \<open>
  The host's request state: the status byte and the callback pointer (\<open>None\<close> for NULL).
\<close>

record 'cb host_api =
  gs_wlan_api_status :: u8
  gs_get_hwaddr_success_callback :: "'cb option"

definition hwaddr_frame :: bytes where
  "hwaddr_frame =
     (let f = replicate (sizeof_default + 2) 0;
          f = blit f 0 ether_header;
          f = f[off_type := WLAN_API_TYPE_GET_HWADDR]
      in f[off_buf := 0x00])"

definition wlan_api_get_hwaddr ::
  "bool \<Rightarrow> 'cb option \<Rightarrow> 'cb host_api \<Rightarrow> ((int + bytes) \<times> 'cb host_api) outcome" where
  "wlan_api_get_hwaddr malloc_ok success_callback h =
     (let h = h\<lparr>gs_get_hwaddr_success_callback := success_callback\<rparr> in
      if \<not> malloc_ok then Ok (Inl (-1), h)
      else obind (if_api_calculate_checksum hwaddr_frame sizeof_default) (\<lambda>(total_len, f).
        Ok (Inr (take total_len f), h\<lparr>gs_wlan_api_status := WLAN_API_TYPE_GET_HWADDR\<rparr>)))"

text \<open>
  \<open>wlan_api_rx_proc\<close>: the result code, the call it makes (callback and the six address
  bytes), and the new state.
\<close>

definition wlan_api_rx_proc ::
  "bytes \<Rightarrow> int \<Rightarrow> 'cb host_api \<Rightarrow> int \<times> ('cb \<times> bytes) option \<times> 'cb host_api" where
  "wlan_api_rx_proc buf len h =
     (if gs_wlan_api_status h = WLAN_API_TYPE_FREE then (-1, None, h)
      else if \<not> IS_WLAN_API_FRAME_LEN len then (-1, None, h)
      else if \<not> IS_WLAN_API_FRAME buf then (-1, None, h)
      else if buf ! off_type = WLAN_API_TYPE_GET_HWADDR_RET
              \<and> gs_wlan_api_status h = WLAN_API_TYPE_GET_HWADDR then
        (case gs_get_hwaddr_success_callback h of
           None \<Rightarrow> (0, None, h)
         | Some cb \<Rightarrow> (0, Some (cb, take 6 (drop off_src buf)),
             h\<lparr>gs_wlan_api_status := WLAN_API_TYPE_FREE\<rparr>))
      else (0, None, h))"

section \<open>The frames, byte by byte\<close>

lemma connect_frame_eq:
  assumes "length ssid = unat sl" and "length pw = unat pl" and "unat sl < 33" and "unat pl < 65"
  shows "connect_frame ssid pw sl pl =
    ether_header @ [WLAN_API_TYPE_CONNECT, sl] @ (ssid @ replicate (33 - unat sl) 0) @
    [pl] @ (pw @ replicate (65 - unat pl) 0) @ [0, 0]"
proof -
  let ?n = "unat sl" and ?m = "unat pl"
  define A where "A = ether_header @ [WLAN_API_TYPE_CONNECT]"
  have A: "length A = 15" by (simp add: A_def ether_header_def)
  have r: "replicate a x @ replicate b x @ ys = replicate (a + b) x @ ys" for a b :: nat and x :: u8 and ys
    by (simp add: replicate_add)
  have one: "[x] = replicate 1 x" for x :: u8 by simp
  have z: "replicate 117 (0 :: u8) = [] @ replicate 14 0 @ [0] @ replicate 102 0"
    by (simp add: numeral_eq_Suc)
  have z1: "replicate 102 (0 :: u8) = [0] @ replicate ?n 0 @ replicate (33 - ?n) 0 @ [0] @ replicate ?m 0 @
      replicate (65 - ?m) 0 @ [0, 0]"
  proof -
    have "[0] @ replicate ?n 0 @ replicate (33 - ?n) 0 @ [0] @ replicate ?m 0 @ replicate (65 - ?m) 0 @ [0, 0]
        = replicate (1 + (?n + (33 - ?n)) + 1 + (?m + (65 - ?m)) + 2) (0 :: u8)"
      unfolding replicate_add by (simp add: numeral_2_eq_2)
    also have "1 + (?n + (33 - ?n)) + 1 + (?m + (65 - ?m)) + 2 = 102" using assms(3,4) by simp
    finally show ?thesis by simp
  qed
  have s1: "(blit (replicate 117 0) 0 ether_header)[14 := WLAN_API_TYPE_CONNECT] = A @ replicate 102 0"
    unfolding z by (subst blit_append) (simp_all add: ether_header_def A_def)
  have s2: "blit (A @ replicate 102 0) 16 ssid = A @ [0] @ ssid @ replicate (33 - ?n) 0 @ [0] @ replicate ?m 0 @
      replicate (65 - ?m) 0 @ [0, 0]"
    unfolding z1 using blit_append [of 16 "A @ [0]" ssid "replicate ?n 0"] A assms(1) by simp
  have s3: "blit (A @ [0] @ ssid @ replicate (33 - ?n) 0 @ [0] @ replicate ?m 0 @ replicate (65 - ?m) 0 @ [0, 0]) 50 pw
      = A @ [0] @ ssid @ replicate (33 - ?n) 0 @ [0] @ pw @ replicate (65 - ?m) 0 @ [0, 0]"
    using blit_append [of 50 "A @ [0] @ ssid @ replicate (33 - ?n) 0 @ [0]" pw "replicate ?m 0"] A assms by simp
  have offs: "off_type = 14" "off_ssid_len = 15" "off_ssid = 16" "off_password_len = 49"
    "off_password = 50" "sizeof_connect + 2 = 117" by (simp_all add: wlan_layout)
  have all: "take ?n ssid = ssid" "take ?m pw = pw" using assms(1,2) by simp_all
  show ?thesis
    unfolding connect_frame_def Let_def offs all s1 s2 s3
    using A assms by (simp add: list_update_append) (simp add: A_def)
qed

lemma hwaddr_frame_eq: "hwaddr_frame = ether_header @ [WLAN_API_TYPE_GET_HWADDR, 0, 0, 0]"
  by (simp add: hwaddr_frame_def wlan_layout ether_header_def Let_def blit_def numeral_eq_Suc)

text \<open>What the firmware reads out of a connect request.\<close>

lemma connect_frame_fields:
  assumes "length ssid = unat sl" and "length pw = unat pl" and "unat sl < 33" and "unat pl < 65"
  defines "f \<equiv> take sizeof_connect (connect_frame ssid pw sl pl)"
  shows "length f = sizeof_connect" "f ! off_type = WLAN_API_TYPE_CONNECT" "f ! off_ssid_len = sl"
    "f ! off_password_len = pl" "take 33 (drop off_ssid f) = ssid @ replicate (33 - unat sl) 0"
    "drop off_password f = pw @ replicate (65 - unat pl) 0"
proof -
  have "f = ether_header @ [WLAN_API_TYPE_CONNECT, sl] @ (ssid @ replicate (33 - unat sl) 0) @
      [pl] @ (pw @ replicate (65 - unat pl) 0)"
    using assms(1-4) by (simp add: f_def connect_frame_eq [OF assms(1-4)] wlan_layout ether_header_def)
  then show "length f = sizeof_connect" "f ! off_type = WLAN_API_TYPE_CONNECT" "f ! off_ssid_len = sl"
    "f ! off_password_len = pl" "take 33 (drop off_ssid f) = ssid @ replicate (33 - unat sl) 0"
    "drop off_password f = pw @ replicate (65 - unat pl) 0"
    using assms(1-4) by (simp_all add: wlan_layout ether_header_def nth_append)
qed

lemma wlan_api_connect_sends:
  assumes "length ssid = unat sl" and "length pw = unat pl" and "unat sl < 33" and "unat pl < 65"
  defines "f \<equiv> take sizeof_connect (connect_frame ssid pw sl pl)"
  shows "wlan_api_connect True ssid pw sl pl = Ok (Inr (f @ trailer f))"
proof -
  have len: "length (connect_frame ssid pw sl pl) = sizeof_connect + 2"
    unfolding connect_frame_eq [OF assms(1-4)] using assms(1-4) by (simp add: wlan_layout ether_header_def)
  then have "take (sizeof_connect + 2) (blit (connect_frame ssid pw sl pl) sizeof_connect (trailer f)) =
      f @ trailer f"
    by (simp add: f_def blit_def)
  then show ?thesis
    using assms(1-4) len
    by (simp add: wlan_api_connect_def if_api_calculate_checksum_eq f_def wlan_consts)
qed

lemma take_drop_ssid:
  "n \<le> 33 \<Longrightarrow> take n (drop off_ssid f) = take n (take 33 (drop off_ssid f))"
  by (simp add: min_def)

text \<open>The address request and its answer, as byte strings.\<close>

definition hwaddr_request :: bytes where
  "hwaddr_request = ether_header @ [WLAN_API_TYPE_GET_HWADDR, 0]"

definition hwaddr_answer :: "bytes \<Rightarrow> bytes" where
  "hwaddr_answer hwaddr = take 6 ether_header @ hwaddr @ [0xff, 0xff, WLAN_API_TYPE_GET_HWADDR_RET, 1]"

lemma length_hwaddr_request [simp]: "length hwaddr_request = 16"
  by (simp add: hwaddr_request_def ether_header_def)

lemma length_hwaddr_answer [simp]: "length hwaddr = 6 \<Longrightarrow> length (hwaddr_answer hwaddr) = 16"
  by (simp add: hwaddr_answer_def ether_header_def)

lemma wlan_api_get_hwaddr_sends:
  "wlan_api_get_hwaddr True cb h = Ok (Inr (hwaddr_request @ trailer hwaddr_request),
     h\<lparr>gs_get_hwaddr_success_callback := cb, gs_wlan_api_status := WLAN_API_TYPE_GET_HWADDR\<rparr>)"
  by (simp add: wlan_api_get_hwaddr_def if_api_calculate_checksum_eq hwaddr_frame_eq wlan_layout
      blit_def ether_header_def hwaddr_request_def Let_def)

lemma wlan_api_pack_proc_answers:
  assumes "length hwaddr = 6"
  shows "wlan_api_pack_proc hwaddr (hwaddr_request @ tail) 16 s = Ok (16, hwaddr_answer hwaddr @ tail, s)"
proof -
  obtain a0 a1 a2 a3 a4 a5 where hw: "hwaddr = [a0, a1, a2, a3, a4, a5]"
    using assms by (auto simp: length_Suc_conv numeral_eq_Suc)
  show ?thesis
    by (simp add: wlan_api_pack_proc_def hwaddr_request_def hwaddr_answer_def wlan_layout wlan_consts hw
        blit_def ether_header_def Let_def)
qed

lemma wlan_api_rx_proc_answer:
  assumes "length hwaddr = 6" and "gs_wlan_api_status h = WLAN_API_TYPE_GET_HWADDR"
    and "gs_get_hwaddr_success_callback h = Some cb"
  shows "wlan_api_rx_proc (hwaddr_answer hwaddr @ tail) 16 h =
    (0, Some (cb, hwaddr), h\<lparr>gs_wlan_api_status := WLAN_API_TYPE_FREE\<rparr>)"
proof -
  obtain a0 a1 a2 a3 a4 a5 where hw: "hwaddr = [a0, a1, a2, a3, a4, a5]"
    using assms(1) by (auto simp: length_Suc_conv numeral_eq_Suc)
  show ?thesis
    using assms(2,3) by (simp add: wlan_api_rx_proc_def IS_WLAN_API_FRAME_LEN_def IS_WLAN_API_FRAME_def wlan_layout
        wlan_consts hw ether_header_def hwaddr_answer_def)
qed

section \<open>Properties\<close>

text \<open>
  \<open>conf_ok s\<close>: the firmware's arrays are large enough for the longest name and password;
  \<open>conf_is s ssid pw\<close>: the network that is configured.
\<close>

definition conf_ok :: "wifi_conf \<Rightarrow> bool" where
  "conf_ok s \<longleftrightarrow> length (gs_ssid_val s) \<ge> 33 \<and> length (gs_passwd s) \<ge> 65"

definition conf_is :: "wifi_conf \<Rightarrow> bytes \<Rightarrow> bytes \<Rightarrow> bool" where
  "conf_is s ssid pw \<longleftrightarrow> gs_ssid_len s = length ssid \<and> take (length ssid) (gs_ssid_val s) = ssid
     \<and> takeWhile (\<lambda>c. c \<noteq> 0) (gs_passwd s) = pw"



text \<open>
  C32. Address request: the frame \<open>wlan_api_get_hwaddr\<close> sends carries a valid check sequence;
  the firmware answers it with its interface address, and \<open>wlan_api_rx_proc\<close> on that
  answer calls the registered callback with exactly that address and ends the request.
\<close>

theorem hwaddr_request_reply:
  assumes "length hwaddr = 6"
  shows "\<exists>f h1 reply. wlan_api_get_hwaddr True (Some cb) h = Ok (Inr (f @ trailer f), h1)
    \<and> length f = 16
    \<and> wlan_api_pack_proc hwaddr (f @ tail) 16 s = Ok (16, reply @ tail, s)
    \<and> wlan_api_rx_proc reply 16 h1 =
        (0, Some (cb, hwaddr), h1\<lparr>gs_wlan_api_status := WLAN_API_TYPE_FREE\<rparr>)"
proof -
  let ?h = "h\<lparr>gs_get_hwaddr_success_callback := Some cb, gs_wlan_api_status := WLAN_API_TYPE_GET_HWADDR\<rparr>"
  have "wlan_api_rx_proc (hwaddr_answer hwaddr) 16 ?h =
      (0, Some (cb, hwaddr), ?h\<lparr>gs_wlan_api_status := WLAN_API_TYPE_FREE\<rparr>)"
    using wlan_api_rx_proc_answer [OF assms, of ?h cb "[]"] by simp
  then show ?thesis
    using wlan_api_get_hwaddr_sends [of "Some cb" h] wlan_api_pack_proc_answers [OF assms]
      length_hwaddr_request by blast
qed

theorem hwaddr_request_reply_witness:
  "\<exists>f h1 reply. wlan_api_get_hwaddr True (Some ()) \<lparr>gs_wlan_api_status = 0, gs_get_hwaddr_success_callback = None\<rparr>
      = Ok (Inr (f @ trailer f), h1)
    \<and> length f = 16
    \<and> wlan_api_pack_proc [2, 0, 0, 0, 0, 1] (f @ []) 16 \<lparr>gs_ssid_val = [], gs_ssid_len = 0, gs_passwd = [],
        gs_security_type = RTW_SECURITY_OPEN, wlan_connect_wifi_calls = 0\<rparr>
      = Ok (16, reply @ [], \<lparr>gs_ssid_val = [], gs_ssid_len = 0, gs_passwd = [],
        gs_security_type = RTW_SECURITY_OPEN, wlan_connect_wifi_calls = 0\<rparr>)
    \<and> wlan_api_rx_proc reply 16 h1 =
        (0, Some ((), [2, 0, 0, 0, 0, 1]), h1\<lparr>gs_wlan_api_status := WLAN_API_TYPE_FREE\<rparr>)"
  by (rule hwaddr_request_reply) simp

text \<open>
  Connect request: a request for a new network, as \<open>wlan_api_connect\<close> builds it, makes the
  firmware store exactly that name and password (zero terminated, inside the arrays), set
  the security type from the password length, and start one connection attempt.
\<close>

theorem connect_request_configures:
  assumes "length ssid = unat sl" and "length pw = unat pl" and "unat sl < 33" and "unat pl < 65"
    and "0 \<notin> set pw" and "conf_ok s"
    and "\<not> configured (take sizeof_connect (connect_frame ssid pw sl pl)) s"
  shows "\<exists>f s'. wlan_api_connect True ssid pw sl pl = Ok (Inr (f @ trailer f))
    \<and> wlan_api_pack_proc hwaddr f (length f) s = Ok (0, f, s')
    \<and> conf_ok s' \<and> conf_is s' ssid pw
    \<and> gs_security_type s' = (if pw = [] then RTW_SECURITY_OPEN else RTW_SECURITY_WPA2_AES_PSK)
    \<and> wlan_connect_wifi_calls s' = wlan_connect_wifi_calls s + 1"
proof -
  note four = assms(1-4)
  let ?f = "take sizeof_connect (connect_frame ssid pw sl pl)"
  note flds = connect_frame_fields [OF four]
  let ?s = "s\<lparr>gs_ssid_val := blit (gs_ssid_val s) 0 (ssid @ [0]), gs_ssid_len := unat sl,
      gs_passwd := blit (gs_passwd s) 0 (pw @ [0]),
      gs_security_type := (if unat pl = 0 then RTW_SECURITY_OPEN else RTW_SECURITY_WPA2_AES_PSK),
      wlan_connect_wifi_calls := wlan_connect_wifi_calls s + 1\<rparr>"
  have ssid: "take (unat sl) (drop off_ssid ?f) = ssid"
    using take_drop_ssid [of "unat sl" ?f] flds(5) four(1,3) by simp
  have fl: "length (drop off_ssid ?f) \<ge> unat sl" "length (drop off_password ?f) \<ge> unat pl"
    using flds(1,6) four by (simp_all add: wlan_layout)
  have "wlan_api_pack_proc hwaddr ?f (length ?f) s = Ok (0, ?f, ?s)"
    using assms(7) flds fl ssid four assms(6)
    by (simp add: wlan_api_pack_proc_def copy_string_def conf_ok_def wlan_consts wlan_layout Let_def)
  moreover have "conf_ok ?s" using assms(6) four by (simp add: conf_ok_def)
  moreover have "conf_is ?s ssid pw"
    using four assms(5) by (auto simp: conf_is_def blit_def takeWhile_append takeWhile_eq_all_conv)
  moreover have "(unat pl = 0) = (pw = [])" using four(2) by auto
  ultimately show ?thesis
    using wlan_api_connect_sends [OF four] by auto
qed

theorem connect_request_configures_witness:
  "\<exists>f s'. wlan_api_connect True [77, 84, 75] [49, 50] 3 2 = Ok (Inr (f @ trailer f))
    \<and> wlan_api_pack_proc [] f (length f) \<lparr>gs_ssid_val = 65 # replicate 32 0, gs_ssid_len = 1, gs_passwd = replicate 100 0,
        gs_security_type = RTW_SECURITY_OPEN, wlan_connect_wifi_calls = 0\<rparr> = Ok (0, f, s')
    \<and> conf_ok s' \<and> conf_is s' [77, 84, 75] [49, 50]
    \<and> gs_security_type s' = RTW_SECURITY_WPA2_AES_PSK \<and> wlan_connect_wifi_calls s' = 1"
proof -
  let ?s = "\<lparr>gs_ssid_val = 65 # replicate 32 0, gs_ssid_len = 1, gs_passwd = replicate 100 0,
        gs_security_type = RTW_SECURITY_OPEN, wlan_connect_wifi_calls = 0\<rparr>"
  have "\<not> configured (take sizeof_connect (connect_frame [77, 84, 75] [49, 50] 3 2)) ?s"
    by (simp add: configured_def memcmp_eq_def connect_frame_eq wlan_layout ether_header_def)
  then show ?thesis
    using connect_request_configures [of "[77, 84, 75]" 3 "[49, 50]" 2 ?s "[]"]
    by (simp add: conf_ok_def)
qed



text \<open>
  C34. No frame makes the firmware write outside its arrays: for every buffer and every
  length up to the buffer's, \<open>wlan_api_pack_proc\<close> returns normally, the configuration
  arrays keep their sizes and stay zero terminated within them, and the reply, if there is
  one, fits the buffer.
\<close>

theorem pack_proc_safe:
  assumes "len \<le> length buf" and "length hwaddr = 6" and "conf_ok s"
  shows "\<exists>r buf' s'. wlan_api_pack_proc hwaddr buf len s = Ok (r, buf', s')
    \<and> conf_ok s' \<and> length buf' = length buf \<and> r \<le> int len
    \<and> length (gs_ssid_val s') = length (gs_ssid_val s) \<and> length (gs_passwd s') = length (gs_passwd s)"
proof -
  have ssid: "copy_string (gs_ssid_val s) (drop off_ssid buf) n = Ok (blit (gs_ssid_val s) 0 (take n (drop off_ssid buf) @ [0]))"
    if "n < 33" "len = sizeof_connect" for n
    using that assms(1,3) by (simp add: copy_string_def conf_ok_def wlan_layout)
  have pass: "copy_string (gs_passwd s) (drop off_password buf) m = Ok (blit (gs_passwd s) 0 (take m (drop off_password buf) @ [0]))"
    if "m < 65" "len = sizeof_connect" for m
    using that assms(1,3) by (simp add: copy_string_def conf_ok_def wlan_layout)
  show ?thesis
    using assms ssid pass
    by (auto simp: wlan_api_pack_proc_def wlan_consts Let_def conf_ok_def wlan_layout not_le split: if_splits)
qed

theorem pack_proc_safe_witness:
  "\<exists>r buf' s'. wlan_api_pack_proc [1, 2, 3, 4, 5, 6] (replicate 2000 0xff) 115 \<lparr>gs_ssid_val = replicate 33 0, gs_ssid_len = 0,
      gs_passwd = replicate 100 0, gs_security_type = RTW_SECURITY_OPEN, wlan_connect_wifi_calls = 0\<rparr> = Ok (r, buf', s')
    \<and> conf_ok s' \<and> length buf' = length (replicate 2000 (0xff :: u8)) \<and> r \<le> int 115
    \<and> length (gs_ssid_val s') = length (gs_ssid_val \<lparr>gs_ssid_val = replicate 33 0, gs_ssid_len = 0,
      gs_passwd = replicate 100 0, gs_security_type = RTW_SECURITY_OPEN, wlan_connect_wifi_calls = 0\<rparr>)
    \<and> length (gs_passwd s') = length (gs_passwd \<lparr>gs_ssid_val = replicate 33 0, gs_ssid_len = 0,
      gs_passwd = replicate 100 0, gs_security_type = RTW_SECURITY_OPEN, wlan_connect_wifi_calls = 0\<rparr>)"
  by (rule pack_proc_safe) (simp_all add: conf_ok_def)

end
