(* ===== verification/Soft_Timer.thy ===== *)
theory Soft_Timer
  imports Prelude
begin

text \<open>
  \<^verbatim>\<open>soft_timer.c\<close>: the table of ten millisecond timers the host program polls from its main
  loop. A callback is a value of type \<open>'cb\<close>; what running it does to the table and to the
  rest of the program (\<open>'w\<close>) is the argument \<open>run_cb\<close>, and \<open>tick\<close> is the processor clock
  behind \<open>SOFT_TIMER_GET_TICK_COUNT\<close>, so that callbacks may create and delete timers and
  time may pass between two readings.
\<close>

section \<open>The code\<close>

definition MAX_TIMER :: nat where "MAX_TIMER = 10"

record 'cb SOFT_TIMER =
  is_circle :: int
  on :: int
  timeout :: u32
  timer_cb :: 'cb
  count :: "64 word"

type_synonym 'cb timers = "'cb SOFT_TIMER list"

text \<open>\<open>soft_timer_init\<close> resets every entry; \<open>dflt\<close> is \<open>soft_timer_default\<close>.\<close>

definition soft_timer_init :: "'cb \<Rightarrow> 'cb timers \<Rightarrow> 'cb timers" where
  "soft_timer_init dflt ts =
     map (\<lambda>t. \<lparr>is_circle = 0, on = 0, timeout = 1000, timer_cb = dflt, count = 0\<rparr>) ts"

text \<open>
  \<open>soft_timer_create\<close>: the id is only checked against the upper bound. The clock is read
  when the entry is written.
\<close>

definition soft_timer_create ::
  "('w \<Rightarrow> 64 word \<times> 'w) \<Rightarrow> int \<Rightarrow> int \<Rightarrow> int \<Rightarrow> 'cb \<Rightarrow> u32 \<Rightarrow> 'cb timers \<times> 'w \<Rightarrow> (int \<times> 'cb timers \<times> 'w) outcome" where
  "soft_timer_create tick tid on' circle cb tmo s =
     (case s of (ts, w) \<Rightarrow>
      if tid \<ge> int MAX_TIMER then Ok (-1, ts, w)
      else if tid < 0 then Fault
      else (case tick w of (now, w) \<Rightarrow>
        obind (store ts (nat tid) \<lparr>is_circle = circle, on = on', timeout = tmo, timer_cb = cb, count = now\<rparr>)
          (\<lambda>ts. Ok (tid, ts, w))))"

definition soft_timer_delete :: "int \<Rightarrow> 'cb timers \<Rightarrow> (int \<times> 'cb timers) outcome" where
  "soft_timer_delete tid ts =
     (if tid \<ge> int MAX_TIMER then Ok (-1, ts)
      else if tid < 0 then Fault
      else obind (load ts (nat tid)) (\<lambda>t.
        if on t = 0 then Ok (-1, ts)
        else Ok (0, ts[nat tid := t\<lparr>on := 0\<rparr>])))"

text \<open>One iteration of the loop of \<open>soft_timer_proc\<close>; the subtraction is on 64-bit words.\<close>

definition proc_entry ::
  "('w \<Rightarrow> 64 word \<times> 'w) \<Rightarrow> ('cb \<Rightarrow> 'cb timers \<times> 'w \<Rightarrow> 'cb timers \<times> 'w) \<Rightarrow> nat \<Rightarrow> 'cb timers \<times> 'w \<Rightarrow> 'cb timers \<times> 'w" where
  "proc_entry tick run_cb i s =
     (case s of (ts, w) \<Rightarrow>
      if on (ts ! i) = 1 then
        (case tick w of (now, w) \<Rightarrow>
         if now - count (ts ! i) \<ge> ucast (timeout (ts ! i)) then
           (let ts = (if is_circle (ts ! i) = 0 then ts[i := (ts ! i)\<lparr>on := 0\<rparr>] else ts) in
            case run_cb (timer_cb (ts ! i)) (ts, w) of (ts, w) \<Rightarrow>
            case tick w of (now, w) \<Rightarrow> (ts[i := (ts ! i)\<lparr>count := now\<rparr>], w))
         else (ts, w))
      else (ts, w))"

definition soft_timer_proc ::
  "('w \<Rightarrow> 64 word \<times> 'w) \<Rightarrow> ('cb \<Rightarrow> 'cb timers \<times> 'w \<Rightarrow> 'cb timers \<times> 'w) \<Rightarrow> 'cb timers \<times> 'w \<Rightarrow> 'cb timers \<times> 'w" where
  "soft_timer_proc tick run_cb s = fold (proc_entry tick run_cb) [0..<MAX_TIMER] s"

section \<open>What a pass over the table does\<close>

definition due :: "64 word \<Rightarrow> 'cb SOFT_TIMER \<Rightarrow> bool" where
  "due now t \<longleftrightarrow> on t = 1 \<and> now - count t \<ge> ucast (timeout t)"

definition expire :: "64 word \<Rightarrow> 'cb SOFT_TIMER \<Rightarrow> 'cb SOFT_TIMER" where
  "expire now t =
     (if due now t then (if is_circle t = 0 then t\<lparr>on := 0\<rparr> else t)\<lparr>count := now\<rparr> else t)"

text \<open>
  A pass during which the clock stands still and the callbacks leave the table alone:
  \<open>effect\<close> is what a callback does to the rest of the program.
\<close>

lemma proc_entry_quiet:
  assumes "i < length ts"
  shows "proc_entry (\<lambda>w. (now, w)) (\<lambda>cb (ts, w). (ts, effect cb w)) i (ts, w) =
    (ts[i := expire now (ts ! i)], if due now (ts ! i) then effect (timer_cb (ts ! i)) w else w)"
  using assms by (auto simp: proc_entry_def due_def expire_def Let_def list_update_same_conv [THEN iffD2])

lemma fold_proc_entry_quiet:
  assumes "n \<le> length ts"
  shows "fold (proc_entry (\<lambda>w. (now, w)) (\<lambda>cb (ts, w). (ts, effect cb w))) [0..<n] (ts, w) =
    (map (expire now) (take n ts) @ drop n ts,
     fold (\<lambda>t. effect (timer_cb t)) (filter (due now) (take n ts)) w)"
  using assms
proof (induction n)
  case 0
  then show ?case by simp
next
  case (Suc n)
  let ?ts = "map (expire now) (take n ts) @ drop n ts"
  have n: "n < length ts" using Suc.prems by simp
  then have at: "?ts ! n = ts ! n" and len: "n < length ?ts" by (simp_all add: nth_append)
  have upd: "?ts[n := expire now (ts ! n)] = map (expire now) (take (Suc n) ts) @ drop (Suc n) ts"
    using n by (simp add: take_Suc_nth list_update_append Cons_nth_drop_Suc [symmetric])
  show ?case
    using Suc n by (simp add: proc_entry_quiet [OF len] at upd take_Suc_nth)
qed

section \<open>Properties\<close>

text \<open>
  A pass of \<open>soft_timer_proc\<close> over the table: with the clock at \<open>now\<close> and callbacks
  that do not touch the table, the callbacks of exactly the timers that are on and due run
  once each, in index order; a due one-shot timer is switched off, a due periodic one is
  rearmed from \<open>now\<close>, and every other entry is unchanged.
\<close>

theorem soft_timer_proc_spec:
  assumes "length ts = MAX_TIMER"
  shows "soft_timer_proc (\<lambda>w. (now, w)) (\<lambda>cb (ts, w). (ts, effect cb w)) (ts, w) =
    (map (expire now) ts, fold (\<lambda>t. effect (timer_cb t)) (filter (due now) ts) w)"
  using fold_proc_entry_quiet [of MAX_TIMER ts now effect w] assms
  by (simp add: soft_timer_proc_def)

theorem soft_timer_proc_spec_witness:
  "soft_timer_proc (\<lambda>w. (5000, w)) (\<lambda>cb (ts, w). (ts, cb # w))
     (\<lparr>is_circle = 0, on = 1, timeout = 1000, timer_cb = ''f'', count = 0\<rparr> #
      replicate 9 \<lparr>is_circle = 0, on = 0, timeout = 1000, timer_cb = ''g'', count = 0\<rparr>, []) =
   (\<lparr>is_circle = 0, on = 0, timeout = 1000, timer_cb = ''f'', count = 5000\<rparr> #
      replicate 9 \<lparr>is_circle = 0, on = 0, timeout = 1000, timer_cb = ''g'', count = 0\<rparr>, [''f''])"
  using soft_timer_proc_spec [of "\<lparr>is_circle = 0, on = 1, timeout = 1000, timer_cb = ''f'', count = 0\<rparr> #
      replicate 9 \<lparr>is_circle = 0, on = 0, timeout = 1000, timer_cb = ''g'', count = 0\<rparr>" 5000 "(#)" "[]"]
  by (simp add: expire_def due_def MAX_TIMER_def filter_replicate)

text \<open>
  C14. The identifier is only checked from above: ids of 10 and more are refused without any
  change, ids 0 to 9 arm the entry, and a negative id writes in front of the array.
\<close>

theorem soft_timer_create_cases:
  assumes "length ts = MAX_TIMER"
  shows "soft_timer_create tick tid on' circle cb tmo (ts, w) =
    (if tid \<ge> 10 then Ok (-1, ts, w)
     else if tid \<ge> 0 then
       Ok (tid, ts[nat tid := \<lparr>is_circle = circle, on = on', timeout = tmo, timer_cb = cb, count = fst (tick w)\<rparr>],
           snd (tick w))
     else Fault)"
  using assms by (auto simp: soft_timer_create_def MAX_TIMER_def store_def split: prod.split)

theorem soft_timer_create_cases_witness:
  "soft_timer_create (\<lambda>w. (w, w)) (-1) 1 0 () 5 (replicate MAX_TIMER \<lparr>is_circle = 0, on = 1, timeout = 2000, timer_cb = (), count = 0\<rparr>, 0) = Fault"
  using soft_timer_create_cases [of "replicate MAX_TIMER \<lparr>is_circle = 0, on = 1, timeout = 2000, timer_cb = (), count = 0\<rparr>" "\<lambda>w. (w, w)" "-1"]
  by simp

end
