(* ===== verification/User_Main.thy ===== *)
theory User_Main
  imports Wlan_Api Soft_Timer
begin

text \<open>
  \<^verbatim>\<open>user/user_main.c\<close>, the application of the lwIP host: the state machine of \<open>user_loop\<close> that
  asks the firmware for its address, joins the network, runs DHCP and starts the services, with
  the callbacks of the address request and of the timers. The state is the timer table and the
  rest of the program; \<open>acts\<close> records the start-up calls into lwIP and the firmware in order.
  The step relation interleaves the parts of the main loop that touch this state: \<open>user_loop\<close>,
  received frames, the timer pass, and the clock.
\<close>

section \<open>State\<close>

definition WIFI_NOT_HWADDR :: u8 where "WIFI_NOT_HWADDR = 0"
definition WIFI_GOT_HWADDR :: u8 where "WIFI_GOT_HWADDR = 1"
definition WIFI_CONNECTED :: u8 where "WIFI_CONNECTED = 2"
definition WIFI_DHCP_NOT_IP :: u8 where "WIFI_DHCP_NOT_IP = 3"
definition WIFI_DHCP_GOT_IP :: u8 where "WIFI_DHCP_GOT_IP = 4"
definition WIFI_RUNING :: u8 where "WIFI_RUNING = 5"
definition WIFI_FREE :: u8 where "WIFI_FREE = 255"

lemmas wifi_states = WIFI_NOT_HWADDR_def WIFI_GOT_HWADDR_def WIFI_CONNECTED_def WIFI_DHCP_NOT_IP_def
  WIFI_DHCP_GOT_IP_def WIFI_RUNING_def WIFI_FREE_def

datatype timer_fn = Soft_timer_default | Get_hwaddr_timeout_callback | Udp_debug_callback

datatype act = Create_ip6_linklocal | Wlan_connect bytes | Dhcp_start | Show_ipv6_addr | Udp_open | Httpd_init

record user =
  wifi_status :: u8
  api :: "unit host_api"
  netif_hwaddr :: bytes
  requests :: "bytes list"   \<comment> \<open>frames of \<open>wlan_api_get_hwaddr\<close> given to \<open>send_packet\<close>\<close>
  hellos :: nat              \<comment> \<open>calls of \<open>udp_debug_callback\<close>\<close>
  acts :: "act list"
  clock :: "64 word"

type_synonym app = "timer_fn timers \<times> user"

text \<open>What the calls of an iteration find: memory for a frame, an address from DHCP, a UDP pcb.\<close>

record app_env =
  malloc_ok :: bool
  dhcp_supplied :: bool
  udp_new_ok :: bool

definition tick :: "user \<Rightarrow> 64 word \<times> user" where
  "tick u = (clock u, u)"

section \<open>Callbacks and the loop\<close>

definition get_hwaddr_callback :: "bytes \<Rightarrow> app \<Rightarrow> app outcome" where
  "get_hwaddr_callback hwaddr s = (case s of (ts, u) \<Rightarrow>
     (let u = u\<lparr>netif_hwaddr := blit (netif_hwaddr u) 0 hwaddr\<rparr> in
      obind (soft_timer_delete 1 ts) (\<lambda>(_, ts).
        Ok (ts, u\<lparr>wifi_status := WIFI_GOT_HWADDR\<rparr>))))"

text \<open>\<open>if(wlan_api_get_hwaddr(get_hwaddr_callback) >= 0) soft_timer_create(1, 1, 0, \<dots>, 2000)\<close>.\<close>

definition request_hwaddr :: "app_env \<Rightarrow> app \<Rightarrow> app outcome" where
  "request_hwaddr e s = (case s of (ts, u) \<Rightarrow>
     obind (wlan_api_get_hwaddr (malloc_ok e) (Some ()) (api u)) (\<lambda>(r, a).
       let u = u\<lparr>api := a\<rparr> in
       case r of
         Inl _ \<Rightarrow> Ok (ts, u)
       | Inr f \<Rightarrow>
           obind (soft_timer_create tick 1 1 0 Get_hwaddr_timeout_callback 2000
                    (ts, u\<lparr>requests := requests u @ [f]\<rparr>)) (\<lambda>(_, s). Ok s)))"

definition get_hwaddr_timeout_callback :: "app_env \<Rightarrow> app \<Rightarrow> app outcome" where
  "get_hwaddr_timeout_callback e s = request_hwaddr e s"

text \<open>
  \<open>udp_test\<close> opens the socket and starts the sender timer. \<open>udp_new\<close> may return NULL; the code
  only reports that, and the next call aborts on the NULL argument.
\<close>

definition udp_test :: "app_env \<Rightarrow> app \<Rightarrow> app outcome" where
  "udp_test e s = (case s of (ts, u) \<Rightarrow>
     if \<not> udp_new_ok e then Fault
     else obind (soft_timer_create tick 0 1 1 Udp_debug_callback 2000 (ts, u\<lparr>acts := acts u @ [Udp_open]\<rparr>))
       (\<lambda>(_, s). Ok s))"

definition ssid_2 :: bytes where "ssid_2 = [77, 84, 75]"
definition passwd_2 :: bytes where "passwd_2 = [49, 50, 51, 52, 53, 54, 55, 56]"

definition user_loop :: "app_env \<Rightarrow> app \<Rightarrow> app outcome" where
  "user_loop e s = (case s of (ts, u) \<Rightarrow>
     if wifi_status u = WIFI_NOT_HWADDR then
       obind (request_hwaddr e (ts, u)) (\<lambda>(ts, u). Ok (ts, u\<lparr>wifi_status := WIFI_FREE\<rparr>))
     else if wifi_status u = WIFI_GOT_HWADDR then
       obind (wlan_api_connect (malloc_ok e) ssid_2 passwd_2 3 8) (\<lambda>r.
         let f = (case r of Inl _ \<Rightarrow> [] | Inr f \<Rightarrow> f) in
         Ok (ts, u\<lparr>acts := acts u @ [Create_ip6_linklocal, Wlan_connect f], wifi_status := WIFI_CONNECTED\<rparr>))
     else if wifi_status u = WIFI_CONNECTED then
       Ok (ts, u\<lparr>acts := acts u @ [Dhcp_start], wifi_status := WIFI_DHCP_NOT_IP\<rparr>)
     else if wifi_status u = WIFI_DHCP_NOT_IP then
       Ok (ts, if dhcp_supplied e then u\<lparr>wifi_status := WIFI_DHCP_GOT_IP\<rparr> else u)
     else if wifi_status u = WIFI_DHCP_GOT_IP then
       obind (udp_test e (ts, u\<lparr>acts := acts u @ [Show_ipv6_addr]\<rparr>)) (\<lambda>(ts, u).
         Ok (ts, u\<lparr>acts := acts u @ [Httpd_init], wifi_status := WIFI_RUNING\<rparr>))
     else Ok (ts, u))"

text \<open>The timer callbacks as \<open>soft_timer_proc\<close> runs them; a callback that faults ends the program.\<close>

definition run_cb :: "app_env \<Rightarrow> timer_fn \<Rightarrow> app \<Rightarrow> app" where
  "run_cb e f s =
     (case f of
        Soft_timer_default \<Rightarrow> s
      | Get_hwaddr_timeout_callback \<Rightarrow> (case get_hwaddr_timeout_callback e s of Ok s \<Rightarrow> s | _ \<Rightarrow> s)
      | Udp_debug_callback \<Rightarrow> (case s of (ts, u) \<Rightarrow> (ts, u\<lparr>hellos := hellos u + 1\<rparr>)))"

text \<open>A frame taken from the queue by the main loop, as far as this state is concerned.\<close>

definition rx_frame :: "bytes \<Rightarrow> int \<Rightarrow> app \<Rightarrow> app outcome" where
  "rx_frame buf len s = (case s of (ts, u) \<Rightarrow>
     (case wlan_api_rx_proc buf len (api u) of
        (_, Some (_, hw), a) \<Rightarrow> get_hwaddr_callback hw (ts, u\<lparr>api := a\<rparr>)
      | (_, None, a) \<Rightarrow> Ok (ts, u\<lparr>api := a\<rparr>)))"

definition app_start :: app where
  "app_start = (soft_timer_init Soft_timer_default
       (replicate MAX_TIMER \<lparr>is_circle = 0, on = 0, timeout = 0, timer_cb = Soft_timer_default, count = 0\<rparr>),
     \<lparr>wifi_status = WIFI_NOT_HWADDR,
      api = \<lparr>gs_wlan_api_status = WLAN_API_TYPE_FREE, gs_get_hwaddr_success_callback = None\<rparr>,
      netif_hwaddr = [0, 0, 0, 0, 0, 0], requests = [], hellos = 0, acts = [], clock = 0\<rparr>)"

inductive app_step :: "app \<Rightarrow> app \<Rightarrow> bool" where
  loop: "user_loop e s = Ok s' \<Longrightarrow> app_step s s'"
| frame: "rx_frame buf len s = Ok s' \<Longrightarrow> app_step s s'"
| timers: "app_step s (soft_timer_proc tick (run_cb e) s)"
| time: "app_step (ts, u) (ts, u\<lparr>clock := c\<rparr>)"

section \<open>The start-up invariant\<close>

text \<open>The calls that have been made when the machine is in a state.\<close>

definition progress :: "u8 \<Rightarrow> act list \<Rightarrow> bool" where
  "progress st as \<longleftrightarrow>
     (if st \<in> {WIFI_NOT_HWADDR, WIFI_FREE, WIFI_GOT_HWADDR} then as = []
      else if st = WIFI_CONNECTED then \<exists>f. as = [Create_ip6_linklocal, Wlan_connect f]
      else if st \<in> {WIFI_DHCP_NOT_IP, WIFI_DHCP_GOT_IP} then \<exists>f. as = [Create_ip6_linklocal, Wlan_connect f, Dhcp_start]
      else st = WIFI_RUNING \<and> (\<exists>f. as = [Create_ip6_linklocal, Wlan_connect f, Dhcp_start, Show_ipv6_addr, Udp_open, Httpd_init]))"

definition retry_armed :: "timer_fn timers \<Rightarrow> nat \<Rightarrow> bool" where
  "retry_armed ts i \<longleftrightarrow> on (ts ! i) = 1 \<and> timer_cb (ts ! i) = Get_hwaddr_timeout_callback"

definition app_inv :: "app \<Rightarrow> bool" where
  "app_inv s \<longleftrightarrow> (case s of (ts, u) \<Rightarrow> length ts = MAX_TIMER
     \<and> progress (wifi_status u) (acts u)
     \<and> (\<forall>i < MAX_TIMER. retry_armed ts i \<longrightarrow> i = 1 \<and> wifi_status u = WIFI_FREE)
     \<and> (gs_wlan_api_status (api u) \<noteq> WLAN_API_TYPE_FREE \<longrightarrow>
          wifi_status u = WIFI_FREE \<and> gs_get_hwaddr_success_callback (api u) \<noteq> None)
     \<and> length (netif_hwaddr u) = 6)"

lemma length_soft_timer_init [simp]: "length (soft_timer_init d ts) = length ts"
  by (simp add: soft_timer_init_def)

lemma app_inv_start: "app_inv app_start"
  by (auto simp: app_inv_def app_start_def progress_def retry_armed_def soft_timer_init_def)

lemma request_hwaddr_cases:
  assumes "length ts = MAX_TIMER"
  shows "request_hwaddr e (ts, u) = Ok (if malloc_ok e
    then (ts[1 := \<lparr>is_circle = 0, on = 1, timeout = 2000, timer_cb = Get_hwaddr_timeout_callback, count = clock u\<rparr>],
          u\<lparr>api := \<lparr>gs_wlan_api_status = WLAN_API_TYPE_GET_HWADDR, gs_get_hwaddr_success_callback = Some ()\<rparr>,
            requests := requests u @ [hwaddr_request @ trailer hwaddr_request]\<rparr>)
    else (ts, u\<lparr>api := (api u)\<lparr>gs_get_hwaddr_success_callback := Some ()\<rparr>\<rparr>))"
proof (cases "malloc_ok e")
  case True
  have "api u\<lparr>gs_get_hwaddr_success_callback := Some (), gs_wlan_api_status := WLAN_API_TYPE_GET_HWADDR\<rparr> =
      \<lparr>gs_wlan_api_status = WLAN_API_TYPE_GET_HWADDR, gs_get_hwaddr_success_callback = Some ()\<rparr>" by simp
  with True assms wlan_api_get_hwaddr_sends [of "Some ()" "api u"] show ?thesis
    by (simp add: request_hwaddr_def soft_timer_create_def tick_def MAX_TIMER_def store_def)
next
  case False
  then show ?thesis by (simp add: request_hwaddr_def wlan_api_get_hwaddr_def)
qed

lemma retry_armed_update:
  "j < length ts \<Longrightarrow> retry_armed (ts[i := t]) j \<longleftrightarrow>
     (if i = j then on t = 1 \<and> timer_cb t = Get_hwaddr_timeout_callback else retry_armed ts j)"
  by (cases "i = j") (simp_all add: retry_armed_def)

text \<open>Changing one timer to a value that is not an armed retry keeps the invariant.\<close>

lemma app_inv_update:
  assumes "app_inv (ts, u)" and "on t = 1 \<longrightarrow> timer_cb t = Get_hwaddr_timeout_callback \<longrightarrow> i = 1 \<and> wifi_status u = WIFI_FREE"
  shows "app_inv (ts[i := t], u)"
  using assms by (auto simp: app_inv_def retry_armed_update split: if_splits)

lemma app_inv_quiet:
  assumes "app_inv (ts, u)" and "wifi_status v = wifi_status u" and "acts v = acts u" and "api v = api u"
    and "netif_hwaddr v = netif_hwaddr u"
  shows "app_inv (ts, v)"
  using assms by (simp add: app_inv_def)

lemma request_hwaddr_inv:
  assumes "app_inv (ts, u)" and "wifi_status u \<in> {WIFI_NOT_HWADDR, WIFI_FREE}"
  shows "\<exists>ts' v. request_hwaddr e (ts, u) = Ok (ts', v) \<and> wifi_status v = wifi_status u \<and> acts v = acts u
    \<and> length ts' = MAX_TIMER \<and> (\<forall>i < MAX_TIMER. retry_armed ts' i \<longrightarrow> i = 1)
    \<and> (gs_wlan_api_status (api v) \<noteq> WLAN_API_TYPE_FREE \<longrightarrow> gs_get_hwaddr_success_callback (api v) \<noteq> None)
    \<and> length (netif_hwaddr v) = 6"
proof -
  have len: "length ts = MAX_TIMER" using assms(1) by (simp add: app_inv_def)
  from assms(1) show ?thesis
    unfolding request_hwaddr_cases [OF len] by (auto simp: app_inv_def retry_armed_update split: if_splits)
qed

lemma app_inv_FREE:
  assumes "length ts = MAX_TIMER" and "\<forall>i < MAX_TIMER. retry_armed ts i \<longrightarrow> i = 1" and "wifi_status u = WIFI_FREE"
    and "acts u = []" and "length (netif_hwaddr u) = 6"
    and "gs_wlan_api_status (api u) \<noteq> WLAN_API_TYPE_FREE \<longrightarrow> gs_get_hwaddr_success_callback (api u) \<noteq> None"
  shows "app_inv (ts, u)"
  using assms by (auto simp: app_inv_def progress_def)

lemma progress_early: "st \<in> {WIFI_NOT_HWADDR, WIFI_FREE, WIFI_GOT_HWADDR} \<Longrightarrow> progress st as \<longleftrightarrow> as = []"
  by (simp add: progress_def)

lemma user_loop_inv:
  assumes "app_inv s" and "user_loop e s = Ok s'"
  shows "app_inv s'"
proof -
  obtain ts u where s: "s = (ts, u)" by (cases s)
  show ?thesis
  proof (cases "wifi_status u = WIFI_NOT_HWADDR")
    case True
    from request_hwaddr_inv [of ts u e] assms(1) s True obtain ts' v where v: "request_hwaddr e (ts, u) = Ok (ts', v)"
      "wifi_status v = WIFI_NOT_HWADDR" "acts v = acts u" "length ts' = MAX_TIMER" "\<forall>i < MAX_TIMER. retry_armed ts' i \<longrightarrow> i = 1"
      "gs_wlan_api_status (api v) \<noteq> WLAN_API_TYPE_FREE \<longrightarrow> gs_get_hwaddr_success_callback (api v) \<noteq> None"
      "length (netif_hwaddr v) = 6" by auto
    moreover have "acts u = []" using assms(1) s True by (simp add: app_inv_def progress_def)
    ultimately show ?thesis
      using assms(2) s True by (auto simp: user_loop_def intro!: app_inv_FREE)
  next
    case False
    let ?t = "\<lparr>is_circle = 1, on = 1, timeout = 2000, timer_cb = Udp_debug_callback, count = clock u\<rparr>"
    have len: "length ts = MAX_TIMER" using assms(1) s by (simp add: app_inv_def)
    have inv: "app_inv (ts[0 := ?t], u)"
      using assms(1) s by (intro app_inv_update) auto
    show ?thesis
      using False assms s inv len
      by (auto simp: user_loop_def udp_test_def soft_timer_create_def tick_def store_def outcome_simps MAX_TIMER_def Let_def
          app_inv_def progress_def wifi_states split: if_splits)
  qed
qed

lemma get_hwaddr_callback_inv:
  assumes "app_inv (ts, u)" and "wifi_status u = WIFI_FREE" and "length hw \<le> 6"
  shows "\<exists>ts' v. get_hwaddr_callback hw (ts, u\<lparr>api := a\<rparr>) = Ok (ts', v) \<and> wifi_status v = WIFI_GOT_HWADDR \<and> api v = a
    \<and> acts v = [] \<and> length ts' = MAX_TIMER \<and> (\<forall>i < MAX_TIMER. \<not> retry_armed ts' i)
    \<and> netif_hwaddr v = blit (netif_hwaddr u) 0 hw \<and> length (netif_hwaddr v) = 6"
proof -
  have ts: "length ts = MAX_TIMER" "\<forall>i < MAX_TIMER. retry_armed ts i \<longrightarrow> i = 1" "acts u = []" "length (netif_hwaddr u) = 6"
    using assms by (auto simp: app_inv_def progress_def)
  from ts(1,2) have "\<exists>r ts'. soft_timer_delete 1 ts = Ok (r, ts') \<and> length ts' = MAX_TIMER \<and> (\<forall>i < MAX_TIMER. \<not> retry_armed ts' i)"
    by (auto simp: soft_timer_delete_def load_def MAX_TIMER_def retry_armed_def nth_list_update)
  then obtain r ts' where "soft_timer_delete 1 ts = Ok (r, ts')" "length ts' = MAX_TIMER" "\<forall>i < MAX_TIMER. \<not> retry_armed ts' i"
    by blast
  with ts(3,4) assms(3) show ?thesis by (simp add: get_hwaddr_callback_def)
qed

lemma rx_frame_cases:
  "rx_frame buf len (ts, u) =
     (if gs_wlan_api_status (api u) = WLAN_API_TYPE_GET_HWADDR \<and> IS_WLAN_API_FRAME_LEN len \<and> IS_WLAN_API_FRAME buf
         \<and> buf ! off_type = WLAN_API_TYPE_GET_HWADDR_RET \<and> gs_get_hwaddr_success_callback (api u) \<noteq> None
      then get_hwaddr_callback (take 6 (drop off_src buf)) (ts, u\<lparr>api := (api u)\<lparr>gs_wlan_api_status := WLAN_API_TYPE_FREE\<rparr>\<rparr>)
      else Ok (ts, u))"
  by (auto simp: rx_frame_def wlan_api_rx_proc_def wlan_consts split: option.splits)

lemma rx_frame_inv:
  assumes "app_inv s" and "rx_frame buf len s = Ok s'"
  shows "app_inv s'"
proof -
  obtain ts u where s: "s = (ts, u)" by (cases s)
  show ?thesis
  proof (cases "s' = (ts, u)")
    case False
    let ?a = "(api u)\<lparr>gs_wlan_api_status := WLAN_API_TYPE_FREE\<rparr>"
    from False assms(2) s have r: "get_hwaddr_callback (take 6 (drop off_src buf)) (ts, u\<lparr>api := ?a\<rparr>) = Ok s'"
      and "gs_wlan_api_status (api u) = WLAN_API_TYPE_GET_HWADDR"
      by (auto simp: rx_frame_cases split: if_splits)
    then have "wifi_status u = WIFI_FREE" using assms(1) s by (simp add: app_inv_def wlan_consts)
    from get_hwaddr_callback_inv [of ts u "take 6 (drop off_src buf)" ?a, OF _ this] assms(1) s r obtain ts' v where
      v: "s' = (ts', v)" "wifi_status v = WIFI_GOT_HWADDR" "api v = ?a" "acts v = []" "length ts' = MAX_TIMER"
        "\<forall>i < MAX_TIMER. \<not> retry_armed ts' i" "length (netif_hwaddr v) = 6" by auto
    then show ?thesis by (simp add: app_inv_def progress_def)
  qed (use assms(1) s in simp)
qed

lemma run_cb_inv:
  assumes "app_inv (ts, u)" and "f = Get_hwaddr_timeout_callback \<longrightarrow> wifi_status u = WIFI_FREE"
  shows "\<exists>ts' v. run_cb e f (ts, u) = (ts', v) \<and> app_inv (ts', v) \<and> wifi_status v = wifi_status u"
proof (cases f)
  case Get_hwaddr_timeout_callback
  with assms(2) have "wifi_status u = WIFI_FREE" by simp
  moreover from this request_hwaddr_inv [OF assms(1), of e] obtain ts' v where "request_hwaddr e (ts, u) = Ok (ts', v)"
    "wifi_status v = wifi_status u" "acts v = acts u" "length ts' = MAX_TIMER" "\<forall>i < MAX_TIMER. retry_armed ts' i \<longrightarrow> i = 1"
    "gs_wlan_api_status (api v) \<noteq> WLAN_API_TYPE_FREE \<longrightarrow> gs_get_hwaddr_success_callback (api v) \<noteq> None"
    "length (netif_hwaddr v) = 6" by auto
  moreover have "acts u = []" using assms(1) \<open>wifi_status u = WIFI_FREE\<close> by (simp add: app_inv_def progress_def)
  ultimately show ?thesis
    using Get_hwaddr_timeout_callback by (simp add: run_cb_def get_hwaddr_timeout_callback_def app_inv_FREE)
next
  case Udp_debug_callback
  then show ?thesis using app_inv_quiet [OF assms(1), of "u\<lparr>hellos := hellos u + 1\<rparr>"] by (simp add: run_cb_def)
qed (use assms(1) in \<open>simp add: run_cb_def\<close>)

lemma proc_entry_inv:
  assumes "app_inv s" and "i < MAX_TIMER"
  shows "app_inv (proc_entry tick (run_cb e) i s)"
proof -
  obtain ts u where s: "s = (ts, u)" by (cases s)
  have armed: "on (ts ! j) = 1 \<Longrightarrow> timer_cb (ts ! j) = Get_hwaddr_timeout_callback \<Longrightarrow> j < MAX_TIMER \<Longrightarrow> j = 1 \<and> wifi_status u = WIFI_FREE"
    if "app_inv (ts, u)" for j ts u using that by (auto simp: app_inv_def retry_armed_def)
  show ?thesis
  proof (cases "on (ts ! i) = 1 \<and> clock u - count (ts ! i) \<ge> ucast (timeout (ts ! i))")
    case False
    then show ?thesis using assms(1) s by (auto simp: proc_entry_def tick_def)
  next
    case True
    define ts1 where "ts1 = (if is_circle (ts ! i) = 0 then ts[i := (ts ! i)\<lparr>on := 0\<rparr>] else ts)"
    have len: "length ts = MAX_TIMER" using assms(1) s by (simp add: app_inv_def)
    have f: "timer_cb (ts1 ! i) = timer_cb (ts ! i)" using len assms(2) by (simp add: ts1_def)
    have inv1: "app_inv (ts1, u)" using assms(1) s by (auto simp: ts1_def intro!: app_inv_update)
    have "timer_cb (ts1 ! i) = Get_hwaddr_timeout_callback \<longrightarrow> wifi_status u = WIFI_FREE"
      using armed [of ts u i] assms s True f by auto
    from run_cb_inv [OF inv1 this, of e] obtain ts2 v where
      v: "run_cb e (timer_cb (ts1 ! i)) (ts1, u) = (ts2, v)" "app_inv (ts2, v)" by blast
    have "proc_entry tick (run_cb e) i s = (ts2[i := (ts2 ! i)\<lparr>count := clock v\<rparr>], v)"
      using True s v(1) by (simp add: proc_entry_def tick_def ts1_def [symmetric])
    moreover have "app_inv (ts2[i := (ts2 ! i)\<lparr>count := clock v\<rparr>], v)"
      using v(2) armed [OF v(2), of i] assms(2) by (intro app_inv_update) auto
    ultimately show ?thesis by simp
  qed
qed

lemma fold_proc_entry_inv:
  "app_inv s \<Longrightarrow> \<forall>i \<in> set is. i < MAX_TIMER \<Longrightarrow> app_inv (fold (proc_entry tick (run_cb e)) is s)"
  by (induction "is" arbitrary: s) (auto simp: proc_entry_inv)

lemma app_step_inv: "app_step s s' \<Longrightarrow> app_inv s \<Longrightarrow> app_inv s'"
proof (induction rule: app_step.induct)
  case (loop e s s')
  then show ?case by (blast intro: user_loop_inv)
next
  case (frame buf len s s')
  then show ?case by (blast intro: rx_frame_inv)
next
  case (timers s e)
  then show ?case by (auto simp: soft_timer_proc_def intro!: fold_proc_entry_inv)
next
  case (time ts u c)
  then show ?case by (rule app_inv_quiet) simp_all
qed

lemma app_reachable_inv: "app_step\<^sup>*\<^sup>* app_start s \<Longrightarrow> app_inv s"
  by (induction rule: rtranclp_induct) (auto simp: app_inv_start app_step_inv)

section \<open>A request that was never sent\<close>

text \<open>Waiting for an answer, with no request under way and no retry armed.\<close>

definition app_dead :: "app \<Rightarrow> bool" where
  "app_dead s \<longleftrightarrow> (case s of (ts, u) \<Rightarrow> length ts = MAX_TIMER \<and> wifi_status u = WIFI_FREE
     \<and> gs_wlan_api_status (api u) = WLAN_API_TYPE_FREE \<and> acts u = []
     \<and> (\<forall>i < MAX_TIMER. \<not> retry_armed ts i))"

lemma run_cb_dead:
  assumes "app_dead (ts, u)" and "f \<noteq> Get_hwaddr_timeout_callback"
  shows "\<exists>v. run_cb e f (ts, u) = (ts, v) \<and> app_dead (ts, v)"
  using assms by (cases f) (auto simp: run_cb_def app_dead_def)

lemma proc_entry_dead:
  assumes "app_dead s" and "i < MAX_TIMER"
  shows "app_dead (proc_entry tick (run_cb e) i s)"
proof -
  obtain ts u where s: "s = (ts, u)" by (cases s)
  have keep: "app_dead (ts[i := t], u)"
    if "app_dead (ts, u)" "on t = 1 \<longrightarrow> timer_cb t \<noteq> Get_hwaddr_timeout_callback" for ts t u
    using that by (auto simp: app_dead_def retry_armed_update split: if_splits)
  show ?thesis
  proof (cases "on (ts ! i) = 1 \<and> clock u - count (ts ! i) \<ge> ucast (timeout (ts ! i))")
    case False
    then show ?thesis using assms(1) s by (auto simp: proc_entry_def tick_def)
  next
    case True
    have cb: "timer_cb (ts ! i) \<noteq> Get_hwaddr_timeout_callback" and len: "i < length ts"
      using assms s True by (auto simp: app_dead_def retry_armed_def)
    define ts1 where "ts1 = (if is_circle (ts ! i) = 0 then ts[i := (ts ! i)\<lparr>on := 0\<rparr>] else ts)"
    have d1: "app_dead (ts1, u)" "timer_cb (ts1 ! i) \<noteq> Get_hwaddr_timeout_callback"
      using assms(1) s cb len by (auto simp: ts1_def intro!: keep)
    from run_cb_dead [OF this, of e] obtain v where v: "run_cb e (timer_cb (ts1 ! i)) (ts1, u) = (ts1, v)" "app_dead (ts1, v)"
      by blast
    have "proc_entry tick (run_cb e) i s = (ts1[i := (ts1 ! i)\<lparr>count := clock v\<rparr>], v)"
      using True s v(1) by (simp add: proc_entry_def tick_def ts1_def [symmetric])
    with keep [OF v(2)] d1(2) show ?thesis by simp
  qed
qed

lemma app_step_dead: "app_step s s' \<Longrightarrow> app_dead s \<Longrightarrow> app_dead s'"
proof (induction rule: app_step.induct)
  case (loop e s s')
  then show ?case by (cases s) (auto simp: user_loop_def app_dead_def wifi_states)
next
  case (frame buf len s s')
  then show ?case by (cases s) (auto simp: rx_frame_cases app_dead_def wlan_consts)
next
  case (timers s e)
  have "app_dead (fold (proc_entry tick (run_cb e)) is t)" if "app_dead t" "\<forall>i \<in> set is. i < MAX_TIMER" for "is" t
    using that by (induction "is" arbitrary: t) (auto simp: proc_entry_dead)
  with timers show ?case by (simp add: soft_timer_proc_def)
next
  case (time ts u c)
  then show ?case by (simp add: app_dead_def)
qed

section \<open>Properties\<close>



text \<open>
  C13. Start-up completes. Whenever a request is outstanding in a reachable state, the firmware's
  answer is accepted: the interface gets exactly that address, and five rounds of \<open>user_loop\<close>
  with memory, a UDP socket and an address from DHCP bring the program to \<open>WIFI_RUNING\<close>.
\<close>

theorem startup_completes:
  assumes "app_step\<^sup>*\<^sup>* app_start (ts, u)" and "gs_wlan_api_status (api u) = WLAN_API_TYPE_GET_HWADDR"
    and "length hw = 6" and "malloc_ok e" and "dhcp_supplied e" and "udp_new_ok e"
  shows "\<exists>s1 ts5 v. rx_frame (hwaddr_answer hw @ tail) 16 (ts, u) = Ok s1
    \<and> wifi_status (snd s1) = WIFI_GOT_HWADDR \<and> netif_hwaddr (snd s1) = hw
    \<and> ((\<lambda>m. obind m (user_loop e)) ^^ 5) (Ok s1) = Ok (ts5, v)
    \<and> wifi_status v = WIFI_RUNING \<and> netif_hwaddr v = hw"
proof -
  note inv = app_reachable_inv [OF assms(1)]
  then have w: "wifi_status u = WIFI_FREE" and cb: "gs_get_hwaddr_success_callback (api u) = Some ()" and n: "length (netif_hwaddr u) = 6"
    using assms(2) by (auto simp: app_inv_def wlan_consts)
  let ?a = "(api u)\<lparr>gs_wlan_api_status := WLAN_API_TYPE_FREE\<rparr>"
  have "rx_frame (hwaddr_answer hw @ tail) 16 (ts, u) = get_hwaddr_callback hw (ts, u\<lparr>api := ?a\<rparr>)"
    using wlan_api_rx_proc_answer [OF assms(3,2) cb, of tail] by (simp add: rx_frame_def)
  with get_hwaddr_callback_inv [OF inv w, of hw ?a] assms(3) n obtain ts1 v where
    r: "rx_frame (hwaddr_answer hw @ tail) 16 (ts, u) = Ok (ts1, v)" and v: "wifi_status v = WIFI_GOT_HWADDR"
      "length ts1 = MAX_TIMER" "netif_hwaddr v = hw" by (auto simp: blit_0_full)
  have c: "\<exists>f. wlan_api_connect True ssid_2 passwd_2 3 8 = Ok (Inr f)"
    using wlan_api_connect_sends [of ssid_2 3 passwd_2 8] by (simp add: ssid_2_def passwd_2_def)
  have five: "(F ^^ 5) m = F (F (F (F (F m))))" for F :: "app outcome \<Rightarrow> app outcome" and m
    by (simp add: numeral_eq_Suc)
  have "\<exists>ts5 x. ((\<lambda>m. obind m (user_loop e)) ^^ 5) (Ok (ts1, v)) = Ok (ts5, x) \<and> wifi_status x = WIFI_RUNING \<and> netif_hwaddr x = hw"
    using c v assms(4-6) unfolding five
    by (auto simp: user_loop_def udp_test_def soft_timer_create_def tick_def store_def MAX_TIMER_def wifi_states)
  with r v show ?thesis by fastforce
qed

theorem startup_completes_witness:
  "\<exists>ts u. app_step app_start (ts, u) \<and> (\<exists>s1 ts5 v. rx_frame (hwaddr_answer [2, 0, 0, 0, 0, 1] @ []) 16 (ts, u) = Ok s1
    \<and> ((\<lambda>m. obind m (user_loop \<lparr>malloc_ok = True, dhcp_supplied = True, udp_new_ok = True\<rparr>)) ^^ 5) (Ok s1) = Ok (ts5, v)
    \<and> wifi_status v = WIFI_RUNING \<and> netif_hwaddr v = [2, 0, 0, 0, 0, 1])"
proof -
  let ?e = "\<lparr>malloc_ok = True, dhcp_supplied = True, udp_new_ok = True\<rparr>"
  obtain ts0 u0 where st: "app_start = (ts0, u0)" "length ts0 = MAX_TIMER" "wifi_status u0 = WIFI_NOT_HWADDR"
    by (simp add: app_start_def)
  have "\<exists>ts u. user_loop ?e (ts0, u0) = Ok (ts, u) \<and> gs_wlan_api_status (api u) = WLAN_API_TYPE_GET_HWADDR"
    using request_hwaddr_cases [OF st(2), of ?e u0] st(3) by (simp add: user_loop_def)
  then obtain ts u where l: "user_loop ?e app_start = Ok (ts, u)" "gs_wlan_api_status (api u) = WLAN_API_TYPE_GET_HWADDR"
    unfolding st(1) by blast
  have step: "app_step app_start (ts, u)" by (rule app_step.loop [OF l(1)])
  have "length [2, 0, 0, 0, 0, 1 :: u8] = 6" "malloc_ok ?e" "dhcp_supplied ?e" "udp_new_ok ?e" by simp_all
  from startup_completes [OF r_into_rtranclp [of app_step, OF step] l(2) this, of "[]"] step show ?thesis by blast
qed

text \<open>
  C39. No retry after a failed first request. When \<open>malloc\<close> fails in the very first round,
  \<open>user_loop\<close> still moves to \<open>WIFI_FREE\<close> but arms no timer: from then on, whatever frames
  arrive and however much memory there is again, no start-up call is ever made.
\<close>

theorem failed_request_is_final:
  assumes "\<not> malloc_ok e" and "user_loop e app_start = Ok s1" and "app_step\<^sup>*\<^sup>* s1 (ts, u)"
  shows "wifi_status u = WIFI_FREE \<and> acts u = [] \<and> (\<forall>i < MAX_TIMER. \<not> retry_armed ts i)"
proof -
  have "app_dead s1"
    using assms(1,2) request_hwaddr_cases [of "fst app_start" e "snd app_start"]
    by (auto simp: app_start_def user_loop_def app_dead_def wifi_states retry_armed_def soft_timer_init_def)
  with assms(3) have "app_dead (ts, u)"
    by (induction "(ts, u)" arbitrary: ts u rule: rtranclp_induct) (auto dest: app_step_dead)
  then show ?thesis by (simp add: app_dead_def)
qed

theorem failed_request_is_final_witness:
  "\<exists>ts u. user_loop \<lparr>malloc_ok = False, dhcp_supplied = True, udp_new_ok = True\<rparr> app_start = Ok (ts, u)
    \<and> wifi_status u = WIFI_FREE \<and> acts u = [] \<and> (\<forall>i < MAX_TIMER. \<not> retry_armed ts i)"
proof -
  let ?e = "\<lparr>malloc_ok = False, dhcp_supplied = True, udp_new_ok = True\<rparr>"
  obtain ts u where "user_loop ?e app_start = Ok (ts, u)"
    using request_hwaddr_cases [of "fst app_start" ?e "snd app_start"] by (auto simp: app_start_def user_loop_def)
  with failed_request_is_final [of ?e _ ts u] show ?thesis by auto
qed

end
