(* ===== verification/Host_Main.thy ===== *)
theory Host_Main
  imports Ethoslipif Ring_Queue User_Main
begin

text \<open>
  \<^verbatim>\<open>ethoslip_main.c\<close> of the lwIP host: the SLIP thread that turns packets from the line into
  pbufs and queues them (\<open>slip_out_task_proc\<close>), and the main loop that takes them from the
  queue, offers them to the control protocol and passes the rest to the network stack. The
  queue operations are the critical sections the mutex protects, so a run is a sequence of
  whole operations. \<open>netif.input\<close> is a function pointer and an argument here.
\<close>

section \<open>The SLIP thread\<close>

record host =
  slip_out_buffer :: bytes
  dev :: uart
  heap :: pheap
  rxq :: SqQueue

definition slip_out_round :: "host \<Rightarrow> host outcome option" where
  "slip_out_round s =
     (case recv_packet recv_char (slip_out_buffer s) (int BUF_SIZE) (dev s) of
        None \<Rightarrow> None
      | Some r \<Rightarrow> Some (obind r (\<lambda>(n, buf, u). obind (if_api_check buf n) (\<lambda>(total_len, buf).
          let s = s\<lparr>slip_out_buffer := buf, dev := u\<rparr> in
          if total_len < 0 then Ok s
          else
            (case pbuf_alloc PBUF_RAW (u16 (nat total_len)) PBUF_POOL (heap s) of
               None \<Rightarrow> Fault
             | Some (None, h) \<Rightarrow> Ok (s\<lparr>heap := h\<rparr>)
             | Some (Some p, h) \<Rightarrow>
                 (case pbuf_take (Some p) buf (u16 (nat total_len)) h of
                    None \<Rightarrow> Fault
                  | Some (_, h) \<Rightarrow>
                      obind (queue_try_put (of_nat p) (rxq s)) (\<lambda>(queued, q).
                        if queued then Ok (s\<lparr>heap := h, rxq := q\<rparr>)
                        else (case pbuf_free (Some p) h of
                                None \<Rightarrow> Fault
                              | Some (_, h) \<Rightarrow> Ok (s\<lparr>heap := h, rxq := q\<rparr>)))))))))"

section \<open>The main loop\<close>

text \<open>
  One round. \<open>netif_input p h\<close> is \<open>netif.input(p, &netif)\<close>: whether it returned \<open>ERR_OK\<close>, and the
  new heap; \<open>None\<close> when it aborts. \<open>app\<close> is the state of the timers and of the user code,
  \<open>sys_check_timeouts\<close> the pass over lwIP's own timers.
\<close>

definition handle_packet ::
  "(nat \<Rightarrow> pheap \<Rightarrow> (bool \<times> pheap) option) \<Rightarrow> nat \<Rightarrow> pheap \<times> app \<Rightarrow> (bool \<times> pheap \<times> app) outcome" where
  "handle_packet netif_input p s = (case s of (h, ts, u) \<Rightarrow>
     case cells h p of None \<Rightarrow> Fault
     | Some c \<Rightarrow>
       (let buf = drop (nat (payload c)) (area c); n = int (len c) in
        if fst (wlan_api_rx_proc buf n (api u)) = 0 then
          obind (rx_frame buf n (ts, u)) (\<lambda>a.
            case pbuf_free (Some p) h of None \<Rightarrow> Fault | Some (_, h) \<Rightarrow> Ok (True, h, a))
        else
          (case netif_input p h of None \<Rightarrow> Fault
           | Some (True, h) \<Rightarrow> Ok (False, h, ts, u)
           | Some (False, h) \<Rightarrow> (case pbuf_free (Some p) h of None \<Rightarrow> Fault | Some (_, h) \<Rightarrow> Ok (False, h, ts, u)))))"

definition main_round ::
  "(nat \<Rightarrow> pheap \<Rightarrow> (bool \<times> pheap) option) \<Rightarrow> (pheap \<Rightarrow> pheap) \<Rightarrow> app_env \<Rightarrow> host \<times> app \<Rightarrow> (host \<times> app) outcome" where
  "main_round netif_input sys_check_timeouts e st = (case st of (s, a) \<Rightarrow>
     obind (queue_try_get (rxq s)) (\<lambda>(p, q).
     let s = s\<lparr>rxq := q\<rparr> in
     obind (if p \<noteq> 0 then handle_packet netif_input (unat p) (heap s, a) else Ok (False, heap s, a)) (\<lambda>(again, h, a).
       if again then Ok (s\<lparr>heap := h\<rparr>, a)
       else
         obind (user_loop e (soft_timer_proc tick (run_cb e) a)) (\<lambda>a.
           Ok (s\<lparr>heap := sys_check_timeouts h\<rparr>, a)))))"

section \<open>What a round of the SLIP thread does to the heap\<close>

text \<open>Writing packet data changes nothing but the data.\<close>

definition shape :: "pheap \<Rightarrow> nat \<Rightarrow> pbuf option" where
  "shape h a = map_option (\<lambda>c. c\<lparr>area := []\<rparr>) (cells h a)"

lemma take_loop_shape:
  assumes "take_loop p n cp dt h = Some h'"
  shows "shape h' = shape h"
proof (rule take_loop.raw_induct [where P = "\<lambda>p n cp dt h h'. shape h' = shape h", OF _ assms], goal_cases)
  case (1 f p n cp dt h h')
  show ?case
  proof (cases "n = 0 \<or> p = None")
    case False
    then obtain a where p: "p = Some a" by auto
    with False 1(2) obtain c c' where c: "cells h a = Some c" "wr c 0 (take (min n (len c)) (drop cp dt)) = Some c'"
      and r: "f (nxt c) (n - min n (len c)) (cp + min n (len c)) dt (put a c' h) = Some h'"
      by (auto simp: Let_def assert_def bind_eq_Some_conv split: if_splits)
    have "c'\<lparr>area := []\<rparr> = c\<lparr>area := []\<rparr>" using c(2) by (auto simp: wr_def split: if_splits)
    then have "shape (put a c' h) = shape h" using c(1) by (auto simp: shape_def fun_eq_iff)
    with 1(1) [OF r] show ?thesis by simp
  qed (use 1(2) in \<open>auto split: if_splits\<close>)
qed

lemma sole_shape: "shape h' = shape h \<Longrightarrow> sole h a \<Longrightarrow> sole h' a"
proof -
  assume e: "shape h' = shape h" and "sole h a"
  then obtain c where c: "cells h a = Some c" "ref c = 1" "releasable c" by (auto simp: sole_def)
  with fun_cong [OF e, of a] obtain c' where c': "cells h' a = Some c'" "c'\<lparr>area := []\<rparr> = c\<lparr>area := []\<rparr>"
    by (auto simp: shape_def)
  then have "ref c' = ref c" "flags c' = flags c" "type_internal c' = type_internal c"
    by (metis pbuf.select_convs pbuf.surjective pbuf.update_convs(2))+
  with c c'(1) show "sole h' a" by (auto simp: sole_def releasable_def)
qed

lemma queue_try_put_spec:
  "ring_inv q \<Longrightarrow> \<exists>q'. ring_inv q' \<and> queue_try_put p q = Ok (length (ring_list q) < 99, q')
    \<and> ring_list q' = (if length (ring_list q) < 99 then ring_list q @ [ucast p] else ring_list q)"
  using ring.put_spec [of q "ucast p"] by (simp add: queue_try_put_def ring_put_def MAX_QSIZE_def)

text \<open>Allocation for the receiver: a fresh packet nobody else refers to, or nothing.\<close>

lemma pool_packet:
  assumes "pool_ok h" and "n < 65536" and "pbuf_alloc PBUF_RAW n PBUF_POOL h = Some (r, h')"
  shows "(case r of None \<Rightarrow> cells h' = cells h \<and> free_cells h' = free_cells h
    | Some p \<Rightarrow> \<exists>as. packet h' (Some p) as \<and> plen h' as = n \<and> (\<forall>a \<in> set as. sole h' a \<and> cells h a = None)
        \<and> (\<forall>a. a \<notin> set as \<longrightarrow> cells h' a = cells h a) \<and> free_cells h = mset as + free_cells h')"
proof -
  from alloc_pool_loop_spec [OF assms(1), of None "[]" n None 0] assms(2,3) have res: "alloc_result [] n h (r, h')"
    by (auto simp: pbuf_alloc_def PBUF_POOL_BUFSIZE_def)
  show ?thesis
  proof (cases r)
    case None
    with res show ?thesis by (auto simp: alloc_result_def gave_back_def)
  next
    case (Some p)
    with res obtain as where as: "growing h' (Some p) as 0" "plen h' as = n" "\<forall>y \<in> set as. cells h y = None"
      "\<forall>a. a \<notin> set as \<longrightarrow> cells h' a = cells h a" "free_cells h = mset as + free_cells h'"
      by (auto simp: alloc_result_def extended_def)
    from Some as growing_packet [OF as(1)] growing_sole [OF as(1)] show ?thesis by auto
  qed
qed

lemma alloc_returns:
  "pool_ok h \<Longrightarrow> n < 65536 \<Longrightarrow> \<exists>r h'. pbuf_alloc PBUF_RAW n PBUF_POOL h = Some (r, h')"
  using alloc_pool_loop_spec [of h None "[]" n None 0] by (auto simp: pbuf_alloc_def PBUF_POOL_BUFSIZE_def)

text \<open>Storing the received bytes, then queueing or dropping the packet.\<close>

lemma store_received:
  assumes "packet h (Some p) as" and "plen h as = length bs" and "\<forall>a \<in> set as. sole h a" and "take (length bs) buf = bs"
  shows "\<exists>h'. pbuf_take (Some p) buf (length bs) h = Some (ERR_OK, h') \<and> packet h' (Some p) as \<and> contents h' as = bs
    \<and> only_cells as h h' \<and> (\<forall>a \<in> set as. sole h' a) \<and> free_cells h' = free_cells h"
proof -
  from assms(1) obtain c where c: "cells h p = Some c" "tot_len c = plen h as" by (cases as) auto
  have "length bs \<le> length buf" using assms(4) by (metis length_take min.cobounded1)
  with take_loop_spec [OF assms(1), of "length bs" 0 buf] assms(2,4) length_contents [OF assms(1)] obtain h' where
    h': "take_loop (Some p) (length bs) 0 buf h = Some h'" "packet h' (Some p) as" "only_cells as h h'" "contents h' as = bs"
    by auto
  moreover have "sole h' a" if "a \<in> set as" for a
    using sole_shape [OF take_loop_shape [OF h'(1)]] assms(3) that by blast
  moreover have "free_cells h' = free_cells h"
  proof -
    have "h' = h\<lparr>cells := cells h'\<rparr>" using h'(3) by (simp add: only_cells_def)
    then have "pool h' = pool h" "refs h' = refs h" "ram h' = ram h" "custom_freed h' = custom_freed h"
      by (metis pheap.select_convs pheap.surjective pheap.update_convs(1))+
    then show ?thesis by (simp add: free_cells_def)
  qed
  moreover have "pbuf_take (Some p) buf (length bs) h = Some (ERR_OK, h')"
    using c assms(2) h'(1) by (simp add: pbuf_take_def deref_def)
  ultimately show ?thesis by blast
qed

text \<open>A packet just allocated and filled, and what is left when it is freed again.\<close>

definition built_packet :: "pheap \<Rightarrow> nat \<Rightarrow> nat list \<Rightarrow> bytes \<Rightarrow> pheap \<Rightarrow> bool" where
  "built_packet h p as bs h' \<longleftrightarrow> packet h' (Some p) as \<and> contents h' as = bs \<and> (\<forall>a \<in> set as. sole h' a)
    \<and> (\<forall>a \<in> set as. cells h a = None) \<and> (\<forall>a. a \<notin> set as \<longrightarrow> cells h' a = cells h a) \<and> free_cells h = mset as + free_cells h'"

lemma build_received:
  assumes "pool_ok h" and "length bs < 65536" and "pbuf_alloc PBUF_RAW (length bs) PBUF_POOL h = Some (Some p, h1)" and "take (length bs) buf = bs"
  shows "\<exists>as h2. pbuf_take (Some p) buf (length bs) h1 = Some (ERR_OK, h2) \<and> built_packet h p as bs h2"
proof -
  from pool_packet [OF assms(1-3)] obtain as where as: "packet h1 (Some p) as" "plen h1 as = length bs" "\<forall>a \<in> set as. sole h1 a"
    "\<forall>a \<in> set as. cells h a = None" "\<forall>a. a \<notin> set as \<longrightarrow> cells h1 a = cells h a" "free_cells h = mset as + free_cells h1" by auto
  from store_received [OF as(1-3) assms(4)] obtain h2 where
    h2: "pbuf_take (Some p) buf (length bs) h1 = Some (ERR_OK, h2)" "packet h2 (Some p) as" "contents h2 as = bs"
      "only_cells as h1 h2" "\<forall>a \<in> set as. sole h2 a" "free_cells h2 = free_cells h1" by blast
  have "\<forall>a. a \<notin> set as \<longrightarrow> cells h2 a = cells h a" using h2(4) as(5) by (simp add: only_cells_def)
  then have "built_packet h p as bs h2" using h2(2,3,5,6) as(4,6) by (simp add: built_packet_def)
  with h2(1) show ?thesis by blast
qed

lemma free_built:
  assumes "built_packet h p as bs h2"
  shows "\<exists>k h3. pbuf_free (Some p) h2 = Some (k, h3) \<and> cells h3 = cells h \<and> free_cells h3 = free_cells h"
proof -
  have "packet h2 (Some p) as" "\<forall>a \<in> set as. sole h2 a" using assms by (simp_all add: built_packet_def)
  with pbuf_free_spec [of h2 p as "[]"] packet_chain [of h2 "Some p" as] obtain k h3 where
    "pbuf_free (Some p) h2 = Some (k, h3)" "cells h3 = (\<lambda>a. if a \<in> set as then None else cells h2 a)"
    "free_cells h3 = mset as + free_cells h2" by (auto simp: shared_def)
  moreover have "(\<lambda>a. if a \<in> set as then None else cells h2 a) = cells h" using assms by (auto simp: built_packet_def)
  ultimately show ?thesis using assms by (simp add: built_packet_def)
qed

section \<open>Properties\<close>

text \<open>
  C11. Reception never leaks and never invents. When a frame of at most 3998 bytes arrives with
  its check sequence, a round of the SLIP thread ends without a fault and either appends to the
  queue the address of a new packet holding exactly the frame, built from cells that were free,
  or (no memory, or 99 frames waiting) drops it with the queue, the cells and the free elements
  as before; the rest of the line is left for the next round.
\<close>

theorem slip_out_round_queues:
  assumes "rx_good (dev s)" and "incoming (dev s) = slip_frame (bs @ trailer bs) @ rest" and "length bs + 2 \<le> BUF_SIZE"
    and "length (slip_out_buffer s) = BUF_SIZE" and "pool_ok (heap s)" and "ring_inv (rxq s)"
  shows "\<exists>s'. slip_out_round s = Some (Ok s') \<and> ring_inv (rxq s') \<and> incoming (dev s') = rest
    \<and> ((\<exists>p as. ring_list (rxq s') = ring_list (rxq s) @ [ucast (of_nat p :: 64 word)]
          \<and> packet (heap s') (Some p) as \<and> contents (heap s') as = bs
          \<and> (\<forall>a \<in> set as. cells (heap s) a = None) \<and> free_cells (heap s) = mset as + free_cells (heap s')
          \<and> (\<forall>a. a \<notin> set as \<longrightarrow> cells (heap s') a = cells (heap s) a))
      \<or> (ring_list (rxq s') = ring_list (rxq s) \<and> cells (heap s') = cells (heap s)
          \<and> free_cells (heap s') = free_cells (heap s)))"
proof -
  let ?n = "length bs"
  have small: "?n < 65536" using assms(3) by (simp add: BUF_SIZE_def)
  from recv_checked [OF assms(1-4)] obtain buf1 buf v where
    v: "recv_packet recv_char (slip_out_buffer s) (int BUF_SIZE) (dev s) = Some (Ok (?n + 2, buf1, v))"
      "if_api_check buf1 (?n + 2) = Ok (int ?n, buf)" "take ?n buf = bs" "incoming v = rest" by blast
  from alloc_returns [OF assms(5) small] obtain r h1 where r: "pbuf_alloc PBUF_RAW ?n PBUF_POOL (heap s) = Some (r, h1)" by blast
  show ?thesis
  proof (cases r)
    case None
    with pool_packet [OF assms(5) small r] r v small assms(6) show ?thesis by (simp add: slip_out_round_def)
  next
    case (Some p)
    from build_received [OF assms(5) small r [unfolded Some] v(3)] obtain as h2 where
      h2: "pbuf_take (Some p) buf ?n h1 = Some (ERR_OK, h2)" "built_packet (heap s) p as bs h2" by blast
    from queue_try_put_spec [OF assms(6), of "of_nat p"] obtain q where
      q: "ring_inv q" "queue_try_put (of_nat p) (rxq s) = Ok (length (ring_list (rxq s)) < 99, q)"
        "ring_list q = (if length (ring_list (rxq s)) < 99 then ring_list (rxq s) @ [ucast (of_nat p :: 64 word)] else ring_list (rxq s))"
      by blast
    show ?thesis
    proof (cases "length (ring_list (rxq s)) < 99")
      case True
      with v r Some h2 q small have "slip_out_round s =
          Some (Ok (s\<lparr>slip_out_buffer := buf, dev := v, heap := h2, rxq := q\<rparr>))"
        by (simp add: slip_out_round_def)
      with True q v(4) h2(2) show ?thesis by (auto simp: built_packet_def)
    next
      case False
      from free_built [OF h2(2)] obtain k h3 where
        h3: "pbuf_free (Some p) h2 = Some (k, h3)" "cells h3 = cells (heap s)" "free_cells h3 = free_cells (heap s)" by blast
      with False v r Some h2 q small have "slip_out_round s =
          Some (Ok (s\<lparr>slip_out_buffer := buf, dev := v, heap := h3, rxq := q\<rparr>))"
        by (simp add: slip_out_round_def)
      then show ?thesis using False q v(4) h3(2,3) by simp
    qed
  qed
qed

theorem slip_out_round_queues_witness:
  "\<exists>s'. slip_out_round \<lparr>slip_out_buffer = replicate 4000 0, dev = uart_start [Data (slip_frame ([7] @ trailer [7]))],
       heap = sample_heap, rxq = Q_Init (Some (replicate MAX_QSIZE 0)) \<lparr>base = None, front = 0, rear = 0\<rparr>\<rparr> = Some (Ok s')
    \<and> incoming (dev s') = []"
proof -
  let ?w = "slip_frame ([7] @ trailer [7])"
  let ?s = "\<lparr>slip_out_buffer = replicate 4000 0, dev = uart_start [Data ?w],
       heap = sample_heap, rxq = Q_Init (Some (replicate MAX_QSIZE 0)) \<lparr>base = None, front = 0, rear = 0\<rparr>\<rparr>"
  have w: "length ?w \<le> QUEUE_MAX_NUM" "?w \<noteq> []"
    using length_slip_encode [of "[7] @ trailer [7]"] by (simp_all add: slip_frame_def QUEUE_MAX_NUM_def)
  then have 1: "rx_good (dev ?s)" by (simp add: rx_good_start)
  have 2: "incoming (dev ?s) = ?w @ []" "length [7 :: u8] + 2 \<le> BUF_SIZE" "length (slip_out_buffer ?s) = BUF_SIZE"
    by (simp_all add: BUF_SIZE_def)
  have 3: "pool_ok (heap ?s)" "ring_inv (rxq ?s)" by (simp_all add: sample_pool Q_Init_ring)
  from slip_out_round_queues [OF 1 2 3] show ?thesis by blast
qed

end
