(* ===== verification/Tunnel.thy ===== *)
theory Tunnel
  imports Prelude
begin

text \<open>
  \<^verbatim>\<open>src/tun.c\<close>, the UDP tunnel of the firmware: the XOR key stream (\<open>key_init\<close>, \<open>key_xor\<close>,
  \<open>sbuf_key_xor\<close>) and the two packet handlers with their counters. The packet buffers are
  those of the firmware's SDK; the code walks them through \<open>next\<close>, \<open>payload\<close> and \<open>len\<close>, so a
  packet is its \<open>tot_len\<close> and the list of payloads. \<open>udp_sendto_if\<close> and \<open>low_level_output\<close>
  are calls that leave the state: the packets handed to them are recorded in order.
\<close>

section \<open>The key stream\<close>

definition BUF_SIZE :: nat where "BUF_SIZE = 2000"

fun key_init_loop :: "nat \<Rightarrow> nat \<Rightarrow> bytes \<Rightarrow> bytes outcome" where
  "key_init_loop 0 i key = Ok key"
| "key_init_loop (Suc n) i key =
     obind (store key i (of_nat (i * i + 128))) (key_init_loop n (i + 1))"

definition key_init :: "bytes \<Rightarrow> bytes outcome" where
  "key_init key = key_init_loop BUF_SIZE 0 key"

text \<open>\<open>j\<close> is an \<open>int\<close> that starts at \<open>BUF_SIZE - len\<close>; a negative index is outside the key.\<close>

definition load_int :: "bytes \<Rightarrow> int \<Rightarrow> u8 outcome" where
  "load_int key j = (if j < 0 then Fault else load key (nat j))"

fun key_xor_loop :: "nat \<Rightarrow> nat \<Rightarrow> int \<Rightarrow> bytes \<Rightarrow> bytes \<Rightarrow> bytes outcome" where
  "key_xor_loop 0 i j key buff = Ok buff"
| "key_xor_loop (Suc n) i j key buff =
     obind (load buff i) (\<lambda>b. obind (load_int key j) (\<lambda>k.
       obind (store buff i (b XOR k)) (key_xor_loop n (i + 1) (j + 1) key)))"

definition key_xor :: "bytes \<Rightarrow> nat \<Rightarrow> bytes \<Rightarrow> bytes outcome" where
  "key_xor buff len key = key_xor_loop len 0 (int BUF_SIZE - int len) key buff"

record sbuf =
  tot_len :: nat
  segs :: "bytes list"

text \<open>The inner loop over one payload; \<open>j\<close> is a \<open>u16_t\<close> here and wraps.\<close>

fun seg_xor :: "nat \<Rightarrow> nat \<Rightarrow> nat \<Rightarrow> bytes \<Rightarrow> bytes \<Rightarrow> bytes outcome" where
  "seg_xor 0 k j key buff = Ok buff"
| "seg_xor (Suc n) k j key buff =
     obind (load buff k) (\<lambda>b. obind (load key j) (\<lambda>x.
       obind (store buff k (b XOR x)) (seg_xor n (k + 1) ((j + 1) mod 65536) key)))"

fun sbuf_loop :: "bytes list \<Rightarrow> nat \<Rightarrow> nat \<Rightarrow> nat \<Rightarrow> bytes \<Rightarrow> (nat \<times> bytes list) outcome" where
  "sbuf_loop [] len j total_len key = Ok (total_len, [])"
| "sbuf_loop (b # bs) len j total_len key =
     (if len = 0 then Ok (total_len, b # bs)
      else let n = (if length b > len then len else length b) in
        obind (seg_xor n 0 j key b) (\<lambda>b.
        obind (sbuf_loop bs (len - n) ((j + n) mod 65536) ((total_len + n) mod 65536) key) (\<lambda>(total_len, bs).
          Ok (total_len, b # bs))))"

definition sbuf_key_xor :: "sbuf \<Rightarrow> bytes \<Rightarrow> (nat \<times> sbuf) outcome" where
  "sbuf_key_xor p key =
     (let len = tot_len p; j = (BUF_SIZE + 65536 - len) mod 65536 in
      obind (sbuf_loop (segs p) len j 0 key) (\<lambda>(total_len, bs). Ok (total_len, p\<lparr>segs := bs\<rparr>)))"

section \<open>The packet handlers\<close>

record tunnel =
  total_pack_up :: u32
  lost_pack_up :: u32
  total_pack_down :: u32
  lost_pack_down :: u32
  udp_sent :: "sbuf list"    \<comment> \<open>calls of \<open>udp_sendto_if\<close>\<close>
  ap_sent :: "sbuf list"     \<comment> \<open>calls of \<open>low_level_output (&xnetif[1], p)\<close>\<close>
  frees :: nat               \<comment> \<open>calls of \<open>pbuf_free\<close> on the handled packets\<close>

definition tun_task_start :: "tunnel \<Rightarrow> tunnel" where
  "tun_task_start s = s\<lparr>total_pack_up := 0, lost_pack_up := 0, total_pack_down := 0, lost_pack_down := 0\<rparr>"

record skb_usage =
  skbbuf_used_num :: int
  max_local_skb_num :: int
  max_skb_buf_num :: int
  skbdata_used_num :: int

definition skb_busy :: "skb_usage \<Rightarrow> bool" where
  "skb_busy k \<longleftrightarrow> max_local_skb_num k - 2 \<le> skbbuf_used_num k \<or> max_skb_buf_num k - 2 \<le> skbdata_used_num k"

definition set_source :: "bytes \<Rightarrow> sbuf \<Rightarrow> sbuf outcome" where
  "set_source hwaddr p =
     (case segs p of
        [] \<Rightarrow> Fault
      | b # bs \<Rightarrow>
          if length b \<ge> 12 then
            (if 6 + length hwaddr \<le> length b then Ok (p\<lparr>segs := blit b 6 hwaddr # bs\<rparr>) else Fault)
          else Ok p)"

definition udp_input_cb :: "skb_usage \<Rightarrow> bytes \<Rightarrow> bytes \<Rightarrow> sbuf \<Rightarrow> tunnel \<Rightarrow> tunnel outcome" where
  "udp_input_cb k hwaddr key p s =
     (let s = s\<lparr>total_pack_down := total_pack_down s + 1\<rparr> in
      if skb_busy k then Ok (s\<lparr>frees := frees s + 1, lost_pack_down := lost_pack_down s + 1\<rparr>)
      else
        obind (sbuf_key_xor p key) (\<lambda>(_, p).
        obind (set_source hwaddr p) (\<lambda>p.
          Ok (s\<lparr>ap_sent := ap_sent s @ [p], frees := frees s + 1\<rparr>))))"

definition tun_input :: "skb_usage \<Rightarrow> bytes \<Rightarrow> sbuf \<Rightarrow> tunnel \<Rightarrow> tunnel outcome" where
  "tun_input k key p s =
     (let s = s\<lparr>total_pack_up := total_pack_up s + 1\<rparr> in
      if skb_busy k then Ok (s\<lparr>frees := frees s + 1, lost_pack_up := lost_pack_up s + 1\<rparr>)
      else
        obind (sbuf_key_xor p key) (\<lambda>(_, p).
          Ok (s\<lparr>udp_sent := udp_sent s @ [p], frees := frees s + 1\<rparr>)))"

section \<open>The key stream as a function\<close>

definition key_byte :: "nat \<Rightarrow> u8" where
  "key_byte i = of_nat (i * i + 128)"

definition key_stream :: bytes where
  "key_stream = map key_byte [0..<BUF_SIZE]"

definition xor_with :: "bytes \<Rightarrow> bytes \<Rightarrow> bytes" where
  "xor_with xs ys = map2 (XOR) xs ys"

lemma length_key_stream [simp]: "length key_stream = BUF_SIZE"
  by (simp add: key_stream_def)

lemma length_xor_with [simp]: "length (xor_with xs ys) = min (length xs) (length ys)"
  by (simp add: xor_with_def)

lemma xor_with_Nil [simp]: "xor_with [] ys = []"
  by (simp add: xor_with_def)

lemma xor_with_Cons: "xor_with (x # xs) (y # ys) = (x XOR y) # xor_with xs ys"
  by (simp add: xor_with_def)

lemma xor_with_involution: "length xs \<le> length ys \<Longrightarrow> xor_with (xor_with xs ys) ys = xs"
proof (induction xs arbitrary: ys)
  case (Cons x xs)
  then obtain y ys' where "ys = y # ys'" by (cases ys) auto
  with Cons show ?case by (simp add: xor_with_Cons xor.assoc)
qed simp

lemma xor_with_append:
  "length xs \<le> length ks \<Longrightarrow> xor_with (xs @ ys) ks = xor_with xs ks @ xor_with ys (drop (length xs) ks)"
proof (induction xs arbitrary: ks)
  case (Cons x xs)
  then obtain k ks' where "ks = k # ks'" by (cases ks) auto
  with Cons show ?case by (simp add: xor_with_Cons)
qed simp

lemma xor_with_take: "length xs \<le> n \<Longrightarrow> xor_with xs (take n ks) = xor_with xs ks"
proof (induction xs arbitrary: n ks)
  case (Cons x xs)
  then show ?case by (cases ks; cases n) (auto simp: xor_with_Cons xor_with_def)
qed simp

lemma key_init_loop_eq:
  "i + n \<le> length key \<Longrightarrow> key_init_loop n i key = Ok (blit key i (map key_byte [i..<i + n]))"
proof (induction n arbitrary: i key)
  case (Suc n)
  have "blit (blit key i [key_byte i]) (i + 1) (map key_byte [i + 1..<i + 1 + n]) =
      blit key i (map key_byte [i..<i + Suc n])"
    using Suc.prems by (subst blit_blit) (simp_all add: upt_conv_Cons del: upt_Suc)
  moreover have "key_init_loop (Suc n) i key = key_init_loop n (i + 1) (blit key i [key_byte i])"
    using Suc.prems by (simp add: store_def blit_single key_byte_def)
  ultimately show ?case using Suc.IH [of "i + 1" "blit key i [key_byte i]"] Suc.prems
    by (simp del: key_init_loop.simps upt_Suc)
qed simp

lemma key_xor_loop_eq:
  "i + n \<le> length buff \<Longrightarrow> j + n \<le> length key \<Longrightarrow>
   key_xor_loop n i (int j) key buff = Ok (blit buff i (xor_with (take n (drop i buff)) (drop j key)))"
proof (induction n arbitrary: i j buff)
  case (Suc n)
  let ?b = "buff[i := buff ! i XOR key ! j]"
  have "key_xor_loop (Suc n) i (int j) key buff = key_xor_loop n (i + 1) (int (j + 1)) key ?b"
    using Suc.prems by (simp add: load_def store_def load_int_def add.commute)
  also have "\<dots> = Ok (blit ?b (i + 1) (xor_with (take n (drop (i + 1) ?b)) (drop (j + 1) key)))"
    by (rule Suc.IH) (use Suc.prems in auto)
  also have "blit ?b (i + 1) (xor_with (take n (drop (i + 1) ?b)) (drop (j + 1) key)) =
      blit buff i ((buff ! i XOR key ! j) # xor_with (take n (drop (i + 1) buff)) (drop (j + 1) key))"
    using Suc.prems blit_blit [of "i + 1" i "[buff ! i XOR key ! j]" buff] by (simp add: blit_single)
  also have "(buff ! i XOR key ! j) # xor_with (take n (drop (i + 1) buff)) (drop (j + 1) key) =
      xor_with (take (Suc n) (drop i buff)) (drop j key)"
    using Suc.prems by (simp add: Cons_nth_drop_Suc [symmetric, of i] Cons_nth_drop_Suc [symmetric, of j] xor_with_Cons)
  finally show ?case .
qed simp

lemma seg_xor_eq:
  "k + n \<le> length buff \<Longrightarrow> j + n \<le> length key \<Longrightarrow> j + n < 65536 \<Longrightarrow>
   seg_xor n k j key buff = key_xor_loop n k (int j) key buff"
proof (induction n arbitrary: k j buff)
  case (Suc n)
  have "seg_xor n (k + 1) (j + 1) key b = key_xor_loop n (k + 1) (int j + 1) key b" if "length b = length buff" for b
    using Suc.IH [of "k + 1" b "j + 1"] Suc.prems that by (simp add: add.commute)
  with Suc.prems show ?case by (simp add: load_def load_int_def store_def)
qed simp

lemma key_init_eq: "length key = BUF_SIZE \<Longrightarrow> key_init key = Ok key_stream"
  by (simp add: key_init_def key_init_loop_eq key_stream_def blit_0_full)

lemma key_xor_eq:
  assumes "len \<le> length buff" and "len \<le> BUF_SIZE" and "length key = BUF_SIZE"
  shows "key_xor buff len key = Ok (xor_with (take len buff) (drop (BUF_SIZE - len) key) @ drop len buff)"
proof -
  have "int BUF_SIZE - int len = int (BUF_SIZE - len)" using assms(2) by simp
  then show ?thesis
    using key_xor_loop_eq [of 0 len buff "BUF_SIZE - len" key] assms by (simp add: key_xor_def blit_def)
qed

lemma key_xor_fault: "len > BUF_SIZE \<Longrightarrow> key_xor buff len key = Fault"
  by (cases len) (simp_all add: key_xor_def load_int_def load_def)

lemma sbuf_loop_eq:
  assumes "length (concat bs) = len" and "j + len = length key" and "length key < 65536" and "total_len + len < 65536"
  shows "\<exists>bs'. sbuf_loop bs len j total_len key = Ok (total_len + len, bs') \<and> map length bs' = map length bs
    \<and> concat bs' = xor_with (concat bs) (drop j key)"
  using assms
proof (induction bs arbitrary: len j total_len)
  case (Cons b bs)
  show ?case
  proof (cases "len = 0")
    case True
    then have e: "concat (b # bs) = []" using Cons.prems(1) by simp
    show ?thesis unfolding e using True by (intro exI [of _ "b # bs"]) (simp add: e del: concat.simps)
  next
    case False
    let ?n = "length b"
    let ?b = "xor_with b (drop j key)"
    have "seg_xor ?n 0 j key b = Ok ?b"
      using Cons.prems seg_xor_eq [of 0 ?n b j key] key_xor_loop_eq [of 0 ?n b j key] by (simp add: blit_def)
    moreover from Cons.IH [of "len - ?n" "j + ?n" "total_len + ?n"] Cons.prems obtain bs' where
      bs': "sbuf_loop bs (len - ?n) (j + ?n) (total_len + ?n) key = Ok (total_len + len, bs')"
        "map length bs' = map length bs" "concat bs' = xor_with (concat bs) (drop (j + ?n) key)" by auto
    ultimately show ?thesis
      using False Cons.prems by (simp add: xor_with_append drop_drop add.commute [of ?n])
  qed
qed simp

text \<open>A packet whose \<open>tot_len\<close> is the length of its payloads.\<close>

definition sbuf_ok :: "sbuf \<Rightarrow> bool" where
  "sbuf_ok p \<longleftrightarrow> length (concat (segs p)) = tot_len p"

definition frame_of :: "sbuf \<Rightarrow> bytes" where
  "frame_of p = concat (segs p)"

lemma sbuf_key_xor_eq:
  assumes "sbuf_ok p" and "tot_len p \<le> BUF_SIZE" and "length key = BUF_SIZE"
  shows "\<exists>q. sbuf_key_xor p key = Ok (tot_len p, q) \<and> map length (segs q) = map length (segs p)
    \<and> tot_len q = tot_len p \<and> frame_of q = xor_with (frame_of p) (drop (BUF_SIZE - tot_len p) key)"
proof -
  have "(BUF_SIZE + 65536 - tot_len p) mod 65536 = BUF_SIZE - tot_len p"
    using assms(2) mod_add_self2 [of "2000 - tot_len p" 65536] by (simp add: BUF_SIZE_def)
  moreover from sbuf_loop_eq [of "segs p" "tot_len p" "BUF_SIZE - tot_len p" key 0] assms
  obtain bs where "sbuf_loop (segs p) (tot_len p) (BUF_SIZE - tot_len p) 0 key = Ok (tot_len p, bs)"
    "map length bs = map length (segs p)" "concat bs = xor_with (concat (segs p)) (drop (BUF_SIZE - tot_len p) key)"
    by (auto simp: sbuf_ok_def BUF_SIZE_def)
  ultimately show ?thesis by (simp add: sbuf_key_xor_def frame_of_def)
qed

lemma sbuf_ok_same_lengths:
  "map length (segs q) = map length (segs p) \<Longrightarrow> tot_len q = tot_len p \<Longrightarrow> sbuf_ok p \<Longrightarrow> sbuf_ok q"
  by (simp add: sbuf_ok_def length_concat)

section \<open>Properties\<close>

text \<open>
  C36. The tunnel is transparent. A frame of at most 2000 bytes in any chain of buffers that
  \<open>tun_input\<close> sends is, after the same bytes have come back through \<open>udp_input_cb\<close> on a
  device with the same key, put out on the access point with only its source address
  replaced (when its first buffer holds the 12 address bytes); every packet handled is freed
  once on each side, and nothing is counted as lost.
\<close>

theorem tunnel_transparent:
  assumes "\<not> skb_busy k" and "\<not> skb_busy k'" and "sbuf_ok p" and "tot_len p \<le> BUF_SIZE"
    and "key_init key0 = Ok key" and "length key0 = BUF_SIZE" and "segs p = b # bs" and "12 \<le> length b"
    and "length hwaddr = 6"
  shows "\<exists>s q t r. tun_input k key p s0 = Ok s \<and> udp_sent s = udp_sent s0 @ [q]
    \<and> udp_input_cb k' hwaddr key q t0 = Ok t \<and> ap_sent t = ap_sent t0 @ [r]
    \<and> frame_of r = blit (frame_of p) 6 hwaddr
    \<and> frees s = frees s0 + 1 \<and> frees t = frees t0 + 1
    \<and> lost_pack_up s = lost_pack_up s0 \<and> lost_pack_down t = lost_pack_down t0"
proof -
  have key: "length key = BUF_SIZE" using assms(5,6) key_init_eq [of key0] by auto
  from sbuf_key_xor_eq [OF assms(3,4) key] obtain q where q: "sbuf_key_xor p key = Ok (tot_len p, q)"
    "map length (segs q) = map length (segs p)" "tot_len q = tot_len p"
    "frame_of q = xor_with (frame_of p) (drop (BUF_SIZE - tot_len p) key)" by blast
  have qok: "sbuf_ok q" by (rule sbuf_ok_same_lengths [OF q(2,3) assms(3)])
  from sbuf_key_xor_eq [OF qok _ key] assms(4) q(3) obtain r where r: "sbuf_key_xor q key = Ok (tot_len q, r)"
    "map length (segs r) = map length (segs q)" "frame_of r = xor_with (frame_of q) (drop (BUF_SIZE - tot_len p) key)" by auto
  have "length (frame_of p) = tot_len p" using assms(3) by (simp add: frame_of_def sbuf_ok_def)
  then have fr: "frame_of r = frame_of p"
    using q(4) r(3) key assms(4) by (simp add: xor_with_involution)
  from r(2) q(2) assms(7) obtain c cs where c: "segs r = c # cs" "length c = length b" by (cases "segs r") auto
  let ?r = "r\<lparr>segs := blit c 6 hwaddr # cs\<rparr>"
  have "set_source hwaddr r = Ok ?r" using c assms(8,9) by (simp add: set_source_def)
  moreover have "frame_of ?r = blit (frame_of p) 6 hwaddr"
    unfolding fr [symmetric] using c assms(8,9) by (simp add: frame_of_def blit_def)
  ultimately show ?thesis
    using assms(1,2) q(1) r(1) by (simp add: tun_input_def udp_input_cb_def Let_def)
qed

text \<open>
  The two forms of the key stream agree, and key and length limits are exact:
  \<open>sbuf_key_xor\<close> on a chain holds the bytes \<open>key_xor\<close> computes on the flat frame, while a flat
  frame longer than the key makes \<open>key_xor\<close> read before the start of the key array.
\<close>

theorem sbuf_key_xor_agrees:
  assumes "sbuf_ok p" and "length key = BUF_SIZE"
  shows "(tot_len p \<le> BUF_SIZE \<longrightarrow> (\<exists>q. sbuf_key_xor p key = Ok (tot_len p, q)
      \<and> key_xor (frame_of p) (tot_len p) key = Ok (frame_of q)))
    \<and> (tot_len p > BUF_SIZE \<longrightarrow> key_xor (frame_of p) (tot_len p) key = Fault)"
proof -
  have "length (frame_of p) = tot_len p" using assms(1) by (simp add: frame_of_def sbuf_ok_def)
  then show ?thesis
    using sbuf_key_xor_eq [OF assms(1) _ assms(2)] key_xor_eq [of "tot_len p" "frame_of p" key]
      key_xor_fault [of "tot_len p" "frame_of p" key] assms(2) by auto
qed

theorem tunnel_transparent_witness:
  "\<exists>key s q t r. key_init (replicate 2000 0) = Ok key
    \<and> tun_input \<lparr>skbbuf_used_num = 0, max_local_skb_num = 22, max_skb_buf_num = 20, skbdata_used_num = 0\<rparr> key
        \<lparr>tot_len = 14, segs = [[1, 2, 3, 4, 5, 6, 7, 8, 9, 10, 11, 12], [8, 0]]\<rparr>
        \<lparr>total_pack_up = 0, lost_pack_up = 0, total_pack_down = 0, lost_pack_down = 0, udp_sent = [], ap_sent = [], frees = 0\<rparr> = Ok s
    \<and> udp_sent s = [q]
    \<and> udp_input_cb \<lparr>skbbuf_used_num = 0, max_local_skb_num = 22, max_skb_buf_num = 20, skbdata_used_num = 0\<rparr>
        [21, 22, 23, 24, 25, 26] key q
        \<lparr>total_pack_up = 0, lost_pack_up = 0, total_pack_down = 0, lost_pack_down = 0, udp_sent = [], ap_sent = [], frees = 0\<rparr> = Ok t
    \<and> ap_sent t = [r] \<and> frame_of r = [1, 2, 3, 4, 5, 6, 21, 22, 23, 24, 25, 26, 8, 0]"
proof -
  let ?k = "\<lparr>skbbuf_used_num = 0, max_local_skb_num = 22, max_skb_buf_num = 20, skbdata_used_num = 0\<rparr>"
  let ?p = "\<lparr>tot_len = 14, segs = [[1, 2, 3, 4, 5, 6, 7, 8, 9, 10, 11, 12], [8, 0]]\<rparr>"
  let ?s = "\<lparr>total_pack_up = 0, lost_pack_up = 0, total_pack_down = 0, lost_pack_down = 0, udp_sent = [], ap_sent = [], frees = 0\<rparr>"
  have b: "\<not> skb_busy ?k" "sbuf_ok ?p" "tot_len ?p \<le> BUF_SIZE" by (simp_all add: skb_busy_def sbuf_ok_def BUF_SIZE_def)
  have key: "key_init (replicate 2000 0) = Ok key_stream" by (rule key_init_eq) (simp add: BUF_SIZE_def)
  have "blit (frame_of ?p) 6 [21, 22, 23, 24, 25, 26] = [1, 2, 3, 4, 5, 6, 21, 22, 23, 24, 25, 26, 8, 0]"
    by (simp add: frame_of_def blit_def)
  with tunnel_transparent [OF b(1,1,2,3) key, of "[1, 2, 3, 4, 5, 6, 7, 8, 9, 10, 11, 12]" "[[8, 0]]" "[21, 22, 23, 24, 25, 26]" ?s ?s]
  show ?thesis unfolding key by (simp add: BUF_SIZE_def) blast
qed

theorem sbuf_key_xor_agrees_witness:
  "(\<exists>q. sbuf_key_xor \<lparr>tot_len = 3, segs = [[1], [2, 3]]\<rparr> key_stream = Ok (3, q)
      \<and> key_xor [1, 2, 3] 3 key_stream = Ok (frame_of q))
   \<and> key_xor (replicate 2001 0) 2001 key_stream = Fault"
proof -
  have "sbuf_ok \<lparr>tot_len = 3, segs = [[1], [2, 3]]\<rparr>" "sbuf_ok \<lparr>tot_len = 2001, segs = [replicate 2001 0]\<rparr>"
    "frame_of \<lparr>tot_len = 3, segs = [[1], [2, 3]]\<rparr> = [1, 2, 3]"
    "frame_of \<lparr>tot_len = 2001, segs = [replicate 2001 0]\<rparr> = replicate 2001 0"
    by (simp_all add: sbuf_ok_def frame_of_def)
  with sbuf_key_xor_agrees [of "\<lparr>tot_len = 3, segs = [[1], [2, 3]]\<rparr>" key_stream]
    sbuf_key_xor_agrees [of "\<lparr>tot_len = 2001, segs = [replicate 2001 0]\<rparr>" key_stream]
  show ?thesis by (simp add: BUF_SIZE_def)
qed

end
