(* ===== verification/Firmware.thy ===== *)
theory Firmware
  imports Slip Wlan_Api Tunnel
begin

text \<open>
  The firmware's own device and tasks: \<^verbatim>\<open>src/uart2.c\<close> (characters through a FreeRTOS queue
  filled by the receive interrupt), \<^verbatim>\<open>src/slip2ip_task.c\<close> (the task that turns SLIP packets into
  radio frames and back, direct and tunnelled variant) and the reconnect loop of
  \<^verbatim>\<open>src/main.c\<close>. The FreeRTOS queue, the serial driver and the SDK's packet buffers and radio
  are not part of the repository: they are arguments, and the laws the code relies on are
  named hypotheses of the theorems.
\<close>

section \<open>uart2.c: characters through a queue\<close>

text \<open>
  \<open>xQueueReceive\<close> with a time limit: \<open>None\<close> when the time is up (not \<open>pdPASS\<close>). The loop asks
  again until it gets a character.
\<close>

partial_function (option) fw_recv_loop :: "('s \<Rightarrow> u8 option \<times> 's) \<Rightarrow> 's \<Rightarrow> (u8 \<times> 's) option" where
  "fw_recv_loop xQueueReceive s =
     (case xQueueReceive s of
        (Some ch, s) \<Rightarrow> Some (ch, s)
      | (None, s) \<Rightarrow> fw_recv_loop xQueueReceive s)"

definition fw_recv_char :: "('s \<Rightarrow> u8 option \<times> 's) \<Rightarrow> 's \<Rightarrow> (u8 \<times> 's) outcome" where
  "fw_recv_char xQueueReceive s =
     (case fw_recv_loop xQueueReceive s of None \<Rightarrow> Blocked | Some r \<Rightarrow> Ok r)"

definition fw_send_char :: "(u8 \<Rightarrow> 's \<Rightarrow> 's) \<Rightarrow> u8 \<Rightarrow> 's \<Rightarrow> 's" where
  "fw_send_char serial_putc ch s = serial_putc ch s"

definition fw_send_char_do :: "'s \<Rightarrow> 's" where
  "fw_send_char_do s = s"

fun fw_write_string :: "(u8 \<Rightarrow> 's \<Rightarrow> 's) \<Rightarrow> bytes \<Rightarrow> 's \<Rightarrow> 's" where
  "fw_write_string serial_putc [] s = s"
| "fw_write_string serial_putc (c # pstr) s =
     (if c = 0 then s else fw_write_string serial_putc pstr (serial_putc c s))"

datatype SerialIrq = RxIrq | TxIrq

definition uart2_irq_handler ::
  "('s \<Rightarrow> u8 \<times> 's) \<Rightarrow> (u8 \<Rightarrow> 's \<Rightarrow> 's) \<Rightarrow> SerialIrq \<Rightarrow> 's \<Rightarrow> 's" where
  "uart2_irq_handler serial_getc xQueueSendFromISR event s =
     (if event = RxIrq then (case serial_getc s of (ch, s) \<Rightarrow> xQueueSendFromISR ch s) else s)"

section \<open>slip2ip\_task.c\<close>

text \<open>The SDK services the task calls: packet buffers and radio output, acting on a state \<open>'e\<close>.\<close>

record ('p, 'e) sdk =
  sdk_pbuf_alloc :: "nat \<Rightarrow> 'e \<Rightarrow> 'p option \<times> 'e"
  sdk_pbuf_take :: "'p \<Rightarrow> bytes \<Rightarrow> 'e \<Rightarrow> bool \<times> 'e"
  sdk_output :: "'p \<Rightarrow> 'e \<Rightarrow> 'e"
  sdk_pbuf_free :: "'p \<Rightarrow> 'e \<Rightarrow> 'e"

record ('s, 'e) slip_task =
  slip_out_buffer :: bytes
  slip_used :: bool
  wifi :: wifi_conf
  dev :: 's
  env :: 'e

text \<open>The last part of an iteration: hand a frame of \<open>n\<close> bytes to the radio.\<close>

definition forward_frame :: "('p, 'e) sdk \<Rightarrow> bytes \<Rightarrow> nat \<Rightarrow> 'e \<Rightarrow> 'e" where
  "forward_frame k buf n e =
     (case sdk_pbuf_alloc k n e of
        (None, e) \<Rightarrow> e
      | (Some p, e) \<Rightarrow>
          (case sdk_pbuf_take k p (take n buf) e of
             (False, e) \<Rightarrow> sdk_pbuf_free k p e
           | (True, e) \<Rightarrow> sdk_pbuf_free k p (sdk_output k p e)))"

text \<open>
  What an iteration does with a frame that passed the check. \<open>crypt\<close> is the step between the
  control frames and the radio: nothing in the direct variant, \<open>key_xor\<close> in the tunnelled one.
\<close>

definition handle_frame ::
  "('p, 'e) sdk \<Rightarrow> (u8 \<Rightarrow> 's \<Rightarrow> 's) \<Rightarrow> bytes \<Rightarrow> (bytes \<Rightarrow> nat \<Rightarrow> bytes outcome) \<Rightarrow>
   nat \<Rightarrow> bytes \<Rightarrow> ('s, 'e) slip_task \<Rightarrow> ('s, 'e) slip_task outcome" where
  "handle_frame k putc hwaddr crypt n buf t =
     (if IS_WLAN_API_FRAME_LEN (int n) \<and> IS_WLAN_API_FRAME buf then
        obind (wlan_api_pack_proc hwaddr buf n (wifi t)) (\<lambda>(len, buf, w).
          if len > 0 then
            obind (if_api_calculate_checksum buf (nat len)) (\<lambda>(len, buf).
              let t = t\<lparr>slip_out_buffer := buf, wifi := w, slip_used := True\<rparr> in
              obind (send_packet (fw_send_char putc) fw_send_char_do buf (int len) (dev t)) (\<lambda>d.
                Ok (t\<lparr>dev := d, slip_used := False\<rparr>)))
          else Ok (t\<lparr>slip_out_buffer := buf, wifi := w\<rparr>))
      else
        obind (crypt buf n) (\<lambda>buf.
          Ok (t\<lparr>slip_out_buffer := buf, env := forward_frame k buf n (env t)\<rparr>)))"

definition slip2ip_iteration ::
  "('p, 'e) sdk \<Rightarrow> ('s \<Rightarrow> u8 option \<times> 's) \<Rightarrow> (u8 \<Rightarrow> 's \<Rightarrow> 's) \<Rightarrow> bytes \<Rightarrow> (bytes \<Rightarrow> nat \<Rightarrow> bytes outcome) \<Rightarrow>
   ('s, 'e) slip_task \<Rightarrow> ('s, 'e) slip_task outcome option" where
  "slip2ip_iteration k rcv putc hwaddr crypt t =
     (case recv_packet (fw_recv_char rcv) (slip_out_buffer t) (int BUF_SIZE) (dev t) of
        None \<Rightarrow> None
      | Some r \<Rightarrow> Some (obind r (\<lambda>(n, buf, d).
          let t = t\<lparr>dev := d\<rparr> in
          obind (if_api_check buf n) (\<lambda>(total_len, buf).
            if total_len < 0 then Ok (t\<lparr>slip_out_buffer := buf\<rparr>)
            else handle_frame k putc hwaddr crypt (nat total_len) buf t))))"

definition slip2ip_task_proc ::
  "('p, 'e) sdk \<Rightarrow> ('s \<Rightarrow> u8 option \<times> 's) \<Rightarrow> (u8 \<Rightarrow> 's \<Rightarrow> 's) \<Rightarrow> bytes \<Rightarrow>
   ('s, 'e) slip_task \<Rightarrow> ('s, 'e) slip_task outcome option" where
  "slip2ip_task_proc k rcv putc hwaddr t = slip2ip_iteration k rcv putc hwaddr (\<lambda>buf n. Ok buf) t"

definition slip2ip_task_proc_tunnel ::
  "('p, 'e) sdk \<Rightarrow> ('s \<Rightarrow> u8 option \<times> 's) \<Rightarrow> (u8 \<Rightarrow> 's \<Rightarrow> 's) \<Rightarrow> bytes \<Rightarrow> bytes \<Rightarrow>
   ('s, 'e) slip_task \<Rightarrow> ('s, 'e) slip_task outcome option" where
  "slip2ip_task_proc_tunnel k rcv putc hwaddr key t =
     slip2ip_iteration k rcv putc hwaddr (\<lambda>buf n. key_xor buf n key) t"

text \<open>
  \<open>from_ap_input\<close>: a radio frame \<open>p\<close> goes out on the serial line, unless a reply is being sent
  or the radio is short of buffers. Result: the staging buffer, the device, and whether
  \<open>pbuf_free\<close> was called. \<open>copy_to\<close> is \<open>pbuf_copy_partial\<close> with the packet's \<open>tot_len\<close>; it
  does not know the size of the buffer.
\<close>

definition copy_to :: "bytes \<Rightarrow> sbuf \<Rightarrow> bytes outcome" where
  "copy_to buf p = (if tot_len p \<le> length buf then Ok (blit buf 0 (take (tot_len p) (frame_of p))) else Fault)"

definition from_ap_input ::
  "(u8 \<Rightarrow> 's \<Rightarrow> 's) \<Rightarrow> bool \<Rightarrow> skb_usage \<Rightarrow> sbuf \<Rightarrow> bytes \<times> 's \<times> nat \<Rightarrow> (bytes \<times> 's \<times> nat) outcome" where
  "from_ap_input putc used k p st = (case st of (buf, d, freed) \<Rightarrow>
     if used then Ok (buf, d, freed + 1)
     else if skb_busy k then Ok (buf, d, freed + 1)
     else
       obind (copy_to buf p) (\<lambda>buf.
       obind (if_api_calculate_checksum buf (tot_len p)) (\<lambda>(total_len, buf).
       obind (send_packet (fw_send_char putc) fw_send_char_do buf (int (total_len mod 65536)) d) (\<lambda>d.
         Ok (buf, d, freed + 1)))))"

definition udp_data_input_cb ::
  "(u8 \<Rightarrow> 's \<Rightarrow> 's) \<Rightarrow> bool \<Rightarrow> bytes \<Rightarrow> sbuf \<Rightarrow> bytes \<times> 's \<times> nat \<Rightarrow> (bytes \<times> 's \<times> nat) outcome" where
  "udp_data_input_cb putc used key p st = (case st of (buf, d, freed) \<Rightarrow>
     if used then Ok (buf, d, freed + 1)
     else
       obind (copy_to buf p) (\<lambda>buf.
       obind (key_xor buf (tot_len p) key) (\<lambda>buf.
       obind (if_api_calculate_checksum buf (tot_len p)) (\<lambda>(total_len, buf).
       obind (send_packet (fw_send_char putc) fw_send_char_do buf (int (total_len mod 65536)) d) (\<lambda>d.
         Ok (buf, d, freed + 1))))))"

text \<open>\<^verbatim>\<open>src/main.c\<close>: one round of the reconnect loop, counting \<open>wlan_connect_wifi\<close> calls.\<close>

definition network_connected_round :: "bool \<Rightarrow> wifi_conf \<Rightarrow> wifi_conf" where
  "network_connected_round connected w =
     (if \<not> connected then w\<lparr>wlan_connect_wifi_calls := wlan_connect_wifi_calls w + 1\<rparr> else w)"

section \<open>The queue delivers the line\<close>

text \<open>
  What the code relies on: while characters \<open>avail s\<close> are still to come, \<open>xQueueReceive\<close>
  delivers them in order, after finitely many time-outs (\<open>patience\<close> decreases on each); it
  sends nothing (\<open>sent s\<close> is what \<open>serial_putc\<close> has put on the line).
\<close>

definition queue_law ::
  "('s \<Rightarrow> u8 option \<times> 's) \<Rightarrow> ('s \<Rightarrow> bytes) \<Rightarrow> ('s \<Rightarrow> bytes) \<Rightarrow> ('s \<Rightarrow> nat) \<Rightarrow> bool" where
  "queue_law rcv avail sent patience \<longleftrightarrow> (\<forall>s c cs. avail s = c # cs \<longrightarrow>
     sent (snd (rcv s)) = sent s \<and>
     (case fst (rcv s) of Some d \<Rightarrow> d = c \<and> avail (snd (rcv s)) = cs
      | None \<Rightarrow> avail (snd (rcv s)) = c # cs \<and> patience (snd (rcv s)) < patience s))"

lemma fw_recv_loop_head:
  assumes "queue_law rcv avail sent patience" and "avail s = c # cs"
  shows "\<exists>s'. fw_recv_loop rcv s = Some (c, s') \<and> avail s' = cs \<and> sent s' = sent s"
  using assms(2)
proof (induction "patience s" arbitrary: s rule: less_induct)
  case less
  obtain r s1 where r: "rcv s = (r, s1)" by (cases "rcv s")
  have law: "sent s1 = sent s \<and> (case r of Some d \<Rightarrow> d = c \<and> avail s1 = cs
      | None \<Rightarrow> avail s1 = c # cs \<and> patience s1 < patience s)"
    using assms(1) less.prems r unfolding queue_law_def by (metis fst_conv snd_conv)
  show ?case
  proof (cases r)
    case None
    with law less.hyps [of s1] obtain s' where "fw_recv_loop rcv s1 = Some (c, s')" "avail s' = cs" "sent s' = sent s"
      by auto
    with r None show ?thesis by (subst fw_recv_loop.simps) simp
  next
    case (Some d)
    with r law show ?thesis by (subst fw_recv_loop.simps) simp
  qed
qed

lemma fw_char_source:
  assumes "queue_law rcv avail sent patience"
  shows "char_source (fw_recv_char rcv) avail (\<lambda>s. sent s = w)"
proof
  fix s c cs
  assume "sent s = w" and "avail s = c # cs"
  with fw_recv_loop_head [OF assms, of s c cs]
  show "\<exists>s'. fw_recv_char rcv s = Ok (c, s') \<and> avail s' = cs \<and> sent s' = w"
    by (auto simp: fw_recv_char_def)
qed

definition wire_law :: "(u8 \<Rightarrow> 's \<Rightarrow> 's) \<Rightarrow> ('s \<Rightarrow> bytes) \<Rightarrow> bool" where
  "wire_law putc sent \<longleftrightarrow> (\<forall>c s. sent (putc c s) = sent s @ [c])"

lemma fw_char_sink:
  "wire_law putc sent \<Longrightarrow> char_sink (fw_send_char putc) fw_send_char_do sent (\<lambda>_ _. True)"
  by unfold_locales (auto simp: wire_law_def fw_send_char_def fw_send_char_do_def)


lemma fw_send_packet:
  assumes "wire_law putc sent"
  shows "\<exists>d'. send_packet (fw_send_char putc) fw_send_char_do (bs @ tail) (int (length bs)) d = Ok d'
    \<and> sent d' = sent d @ slip_frame bs"
  using char_sink.send_packet_wire [OF fw_char_sink [OF assms]] by blast

lemma fw_recv_frame:
  assumes "queue_law rcv avail sent patience" and "avail d = slip_frame bs @ rest" and "bs \<noteq> []"
    and "length bs \<le> BUF_SIZE" and "length buf = BUF_SIZE"
  shows "\<exists>d'. recv_packet (fw_recv_char rcv) buf (int BUF_SIZE) d = Some (Ok (length bs, blit buf 0 bs, d'))
    \<and> avail d' = rest \<and> sent d' = sent d"
  using char_source.recv_packet_frame [OF fw_char_source [OF assms(1), of "sent d"], of d 0 bs rest BUF_SIZE buf] assms(2-5)
  by (auto simp: min_absorb2 BUF_SIZE_def)

text \<open>The buffer after reception and check: the frame, its check sequence and old bytes.\<close>

lemma received_frame_checks:
  assumes "length buf = BUF_SIZE" and "length bs + 2 \<le> BUF_SIZE"
  shows "\<exists>buf'. if_api_check (blit buf 0 (bs @ trailer bs)) (length bs + 2) = Ok (int (length bs), buf')
    \<and> take (length bs) buf' = bs \<and> length buf' = BUF_SIZE"
proof -
  let ?b = "blit buf 0 (bs @ trailer bs)"
  have b: "?b = bs @ trailer bs @ drop (length bs + 2) buf" using assms by (simp add: blit_def)
  have l: "length ?b = BUF_SIZE" using assms by simp
  have "if_api_check ?b (length bs + 2) = Ok (int (length bs), blit ?b (length bs) (trailer bs))"
    using l assms by (subst if_api_check_eq) (simp_all add: b)
  then show ?thesis using l assms by (auto simp: take_blit b)
qed

lemma slip2ip_receives:
  assumes "queue_law rcv avail sent patience" and "avail (dev t) = slip_frame (bs @ trailer bs) @ rest"
    and "length bs + 2 \<le> BUF_SIZE" and "length (slip_out_buffer t) = BUF_SIZE"
  shows "\<exists>buf d. slip2ip_iteration k rcv putc hwaddr crypt t =
      Some (handle_frame k putc hwaddr crypt (length bs) buf (t\<lparr>dev := d\<rparr>))
    \<and> take (length bs) buf = bs \<and> length buf = BUF_SIZE \<and> avail d = rest \<and> sent d = sent (dev t)"
proof -
  have ne: "bs @ trailer bs \<noteq> []" by (simp add: trailer_def)
  from fw_recv_frame [OF assms(1,2) ne _ assms(4)] assms(3) obtain d where
    d: "recv_packet (fw_recv_char rcv) (slip_out_buffer t) (int BUF_SIZE) (dev t) =
      Some (Ok (length bs + 2, blit (slip_out_buffer t) 0 (bs @ trailer bs), d))" "avail d = rest" "sent d = sent (dev t)" by auto
  from received_frame_checks [OF assms(4,3)] obtain buf where
    "if_api_check (blit (slip_out_buffer t) 0 (bs @ trailer bs)) (length bs + 2) = Ok (int (length bs), buf)"
    "take (length bs) buf = bs" "length buf = BUF_SIZE" by blast
  with d show ?thesis by (auto simp: slip2ip_iteration_def)
qed

definition api_frame :: "bytes \<Rightarrow> bool" where
  "api_frame bs \<longleftrightarrow> 14 < length bs \<and> bs ! 12 = 0xff \<and> bs ! 13 = 0xff"

lemma api_frame_take:
  assumes "take (length bs) buf = bs"
  shows "IS_WLAN_API_FRAME_LEN (int (length bs)) \<and> IS_WLAN_API_FRAME buf \<longleftrightarrow> api_frame bs"
proof (cases "14 < length bs")
  case True
  then have "buf ! i = bs ! i" if "i < 14" for i using assms that nth_take [of i "length bs" buf] by simp
  then show ?thesis by (simp add: IS_WLAN_API_FRAME_LEN_def IS_WLAN_API_FRAME_def api_frame_def)
next
  case False
  then show ?thesis by (simp add: IS_WLAN_API_FRAME_LEN_def api_frame_def)
qed


section \<open>Properties\<close>


text \<open>
  A control frame with a reply. The address request of the host, arriving on the line, is
  answered in the same iteration: the serial line receives one SLIP packet holding the reply
  frame (the firmware's address, the reply type) with a valid check sequence; nothing goes to
  the radio and the configuration is unchanged.
\<close>

theorem hwaddr_request_answered:
  assumes "queue_law rcv avail sent patience" and "wire_law putc sent"
    and "avail (dev t) = slip_frame (hwaddr_request @ trailer hwaddr_request) @ rest"
    and "length (slip_out_buffer t) = BUF_SIZE" and "length hwaddr = 6"
  shows "\<exists>t'. slip2ip_task_proc k rcv putc hwaddr t = Some (Ok t')
    \<and> sent (dev t') = sent (dev t) @ slip_frame (hwaddr_answer hwaddr @ trailer (hwaddr_answer hwaddr))
    \<and> env t' = env t \<and> wifi t' = wifi t \<and> \<not> slip_used t'"
proof -
  let ?a = "hwaddr_answer hwaddr"
  from slip2ip_receives [OF assms(1,3) _ assms(4), of k putc hwaddr "\<lambda>buf n. Ok buf"] obtain buf d where
    b: "slip2ip_task_proc k rcv putc hwaddr t = Some (handle_frame k putc hwaddr (\<lambda>buf n. Ok buf) 16 buf (t\<lparr>dev := d\<rparr>))"
      "take 16 buf = hwaddr_request" "length buf = BUF_SIZE" "sent d = sent (dev t)"
    by (auto simp: slip2ip_task_proc_def BUF_SIZE_def)
  have api: "IS_WLAN_API_FRAME_LEN (int 16) \<and> IS_WLAN_API_FRAME buf"
  proof -
    have "api_frame hwaddr_request" by (simp add: api_frame_def hwaddr_request_def ether_header_def)
    then show ?thesis using api_frame_take [of hwaddr_request buf] b(2) by simp
  qed
  have "buf = hwaddr_request @ drop 16 buf" using b(2) append_take_drop_id [of 16 buf] by simp
  then have ans: "wlan_api_pack_proc hwaddr buf 16 (wifi t) = Ok (16, ?a @ drop 16 buf, wifi t)"
    using wlan_api_pack_proc_answers [OF assms(5)] by metis
  have sum: "if_api_calculate_checksum (?a @ drop 16 buf) 16 = Ok (18, (?a @ trailer ?a) @ drop 18 buf)"
    using b(3) assms(5) by (simp add: if_api_calculate_checksum_eq BUF_SIZE_def blit_def drop_drop)
  have "length (?a @ trailer ?a) = 18" using assms(5) by simp
  with fw_send_packet [OF assms(2), of "?a @ trailer ?a" "drop 18 buf" d] obtain d' where
    "send_packet (fw_send_char putc) fw_send_char_do ((?a @ trailer ?a) @ drop 18 buf) (int 18) d = Ok d'"
    "sent d' = sent d @ slip_frame (?a @ trailer ?a)" by metis
  with api ans sum b(1,4) show ?thesis by (simp add: handle_frame_def Let_def)
qed

text \<open>
  A queue that holds the characters still to come and times out \<open>n\<close> times first, a line that
  records what is sent, and an SDK whose only state is the list of frames put out.
\<close>

definition demo_rcv :: "nat \<times> bytes \<times> bytes \<Rightarrow> u8 option \<times> (nat \<times> bytes \<times> bytes)" where
  "demo_rcv = (\<lambda>(n, q, out). if n > 0 then (None, (n - 1, q, out))
     else case q of [] \<Rightarrow> (None, (n, q, out)) | c # cs \<Rightarrow> (Some c, (n, cs, out)))"

definition demo_putc :: "u8 \<Rightarrow> nat \<times> bytes \<times> bytes \<Rightarrow> nat \<times> bytes \<times> bytes" where
  "demo_putc c = (\<lambda>(n, q, out). (n, q, out @ [c]))"

definition demo_sdk :: "(bytes, bytes list) sdk" where
  "demo_sdk = \<lparr>sdk_pbuf_alloc = (\<lambda>n e. (Some (replicate n 0), e)), sdk_pbuf_take = (\<lambda>p bs e. (True, bs # e)),
     sdk_output = (\<lambda>p e. e), sdk_pbuf_free = (\<lambda>p e. e)\<rparr>"

definition demo_task :: "bytes \<Rightarrow> (nat \<times> bytes \<times> bytes, bytes list) slip_task" where
  "demo_task line = \<lparr>slip_out_buffer = replicate 2000 0, slip_used = False,
     wifi = \<lparr>gs_ssid_val = [], gs_ssid_len = 0, gs_passwd = [], gs_security_type = RTW_SECURITY_OPEN,
       wlan_connect_wifi_calls = 0\<rparr>, dev = (3, line, []), env = []\<rparr>"

lemma demo_laws:
  "queue_law demo_rcv (\<lambda>(n, q, out). q) (\<lambda>(n, q, out). out) fst" "wire_law demo_putc (\<lambda>(n, q, out). out)"
  by (auto simp: queue_law_def wire_law_def demo_rcv_def demo_putc_def)

lemma demo_task_fields:
  "length (slip_out_buffer (demo_task l)) = BUF_SIZE" "(\<lambda>(n, q, out). q) (dev (demo_task l)) = l" "env (demo_task l) = []"
  by (simp_all add: demo_task_def BUF_SIZE_def)


theorem hwaddr_request_answered_witness:
  "\<exists>t'. slip2ip_task_proc demo_sdk demo_rcv demo_putc [2, 0, 0, 0, 0, 1]
      (demo_task (slip_frame (hwaddr_request @ trailer hwaddr_request) @ [])) = Some (Ok t')
    \<and> snd (snd (dev t')) = slip_frame (hwaddr_answer [2, 0, 0, 0, 0, 1] @ trailer (hwaddr_answer [2, 0, 0, 0, 0, 1]))"
proof -
  let ?t = "demo_task (slip_frame (hwaddr_request @ trailer hwaddr_request) @ [])"
  have "(\<lambda>(n, q, out). out) (dev ?t) = []" "(\<lambda>(n, q, out). out) = (\<lambda>s :: nat \<times> bytes \<times> bytes. snd (snd s))"
    by (auto simp: demo_task_def)
  with hwaddr_request_answered [OF demo_laws demo_task_fields(2,1), where rest = "[]" and hwaddr = "[2, 0, 0, 0, 0, 1]"
      and k = demo_sdk] show ?thesis by auto
qed

end
