(* ===== verification/Lwip_Timeouts.thy ===== *)
theory Lwip_Timeouts
  imports Prelude "HOL-Library.Multiset" "HOL-Library.Monad_Syntax"
begin

text \<open>
  \<^verbatim>\<open>core/timeouts.c\<close> of lwIP: the sorted list of pending timeouts that \<open>main\<close> polls with
  \<open>sys_check_timeouts\<close>, and the cyclic timers of the protocols on top of it. Times are 32-bit
  milliseconds that wrap around. The list owns its elements, so the pointers \<open>next\<close> are a list
  here; the pool \<open>MEMP_SYS_TIMEOUT\<close> is the number of its free elements. \<open>sys_now\<close> reads the
  field \<open>sys_clock\<close>; the protocol timers and application callbacks are arguments that may change
  the whole state, the sys_clock included. \<open>None\<close> is a failed \<open>LWIP_ASSERT\<close>.
\<close>

section \<open>State\<close>

text \<open>The functions that occur as handlers; \<open>USER\<close> stands for those of applications.\<close>

datatype handler = LWIP_CYCLIC_TIMER | TCPIP_TCP_TIMER | USER nat

record sys_timeo =
  timeo_time :: u32
  timeo_h :: "handler option"
  timeo_arg :: nat

record 'w timers =
  next_timeout :: "sys_timeo list"
  current_timeout_due_time :: u32
  tcpip_tcp_timer_active :: bool
  timeo_free :: nat
  sys_clock :: u32
  sys_world :: 'w

datatype cyclic_handler = TCP_TMR | IP_REASS_TMR | ETHARP_TMR | DHCP_COARSE_TMR | DHCP_FINE_TMR
  | AUTOIP_TMR | IGMP_TMR | ND6_TMR | IP6_REASS_TMR | MLD6_TMR

definition TCP_TMR_INTERVAL :: u32 where "TCP_TMR_INTERVAL = 250"

definition lwip_cyclic_timers :: "(u32 \<times> cyclic_handler) list" where
  "lwip_cyclic_timers =
     [(TCP_TMR_INTERVAL, TCP_TMR), (1000, IP_REASS_TMR), (1000, ETHARP_TMR), (60 * 1000, DHCP_COARSE_TMR),
      (500, DHCP_FINE_TMR), (100, AUTOIP_TMR), (100, IGMP_TMR), (1000, ND6_TMR), (1000, IP6_REASS_TMR), (100, MLD6_TMR)]"

definition MEMP_NUM_SYS_TIMEOUT :: nat where "MEMP_NUM_SYS_TIMEOUT = 10 + 8"

definition LWIP_MAX_TIMEOUT :: u32 where "LWIP_MAX_TIMEOUT = 0x7fffffff"

definition TIME_LESS_THAN :: "u32 \<Rightarrow> u32 \<Rightarrow> bool" where
  "TIME_LESS_THAN t compare_to \<longleftrightarrow> t - compare_to > LWIP_MAX_TIMEOUT"

definition SYS_TIMEOUTS_SLEEPTIME_INFINITE :: u32 where "SYS_TIMEOUTS_SLEEPTIME_INFINITE = 0xffffffff"

section \<open>Operations\<close>

text \<open>The loop starts at an element that is not later than the new one.\<close>

fun insert_loop :: "sys_timeo \<Rightarrow> sys_timeo list \<Rightarrow> sys_timeo list" where
  "insert_loop new [] = []"
| "insert_loop new [t] = [t, new]"
| "insert_loop new (t # n # rest) =
     (if TIME_LESS_THAN (timeo_time new) (timeo_time n) then t # new # n # rest else t # insert_loop new (n # rest))"

definition sys_timeout_abs :: "u32 \<Rightarrow> handler option \<Rightarrow> nat \<Rightarrow> 'w timers \<Rightarrow> 'w timers option" where
  "sys_timeout_abs abs_time handler a s =
     (if timeo_free s = 0 then None
      else let timeout = \<lparr>timeo_time = abs_time, timeo_h = handler, timeo_arg = a\<rparr>; s = s\<lparr>timeo_free := timeo_free s - 1\<rparr> in
        case next_timeout s of
          [] \<Rightarrow> Some (s\<lparr>next_timeout := [timeout]\<rparr>)
        | n # rest \<Rightarrow>
            if TIME_LESS_THAN (timeo_time timeout) (timeo_time n) then Some (s\<lparr>next_timeout := timeout # n # rest\<rparr>)
            else Some (s\<lparr>next_timeout := insert_loop timeout (n # rest)\<rparr>))"

definition sys_timeout :: "u32 \<Rightarrow> handler option \<Rightarrow> nat \<Rightarrow> 'w timers \<Rightarrow> 'w timers option" where
  "sys_timeout msecs handler a s =
     (if msecs \<le> 0xffffffff div 4 then sys_timeout_abs (sys_clock s + msecs) handler a s else None)"

text \<open>\<open>tcp_tmr\<close> and the test for connections are code of the TCP part.\<close>

definition tcpip_tcp_timer ::
  "('w timers \<Rightarrow> 'w timers option) \<Rightarrow> ('w timers \<Rightarrow> bool) \<Rightarrow> 'w timers \<Rightarrow> 'w timers option" where
  "tcpip_tcp_timer tmr pcbs s =
     do { s \<leftarrow> tmr s;
          if pcbs s then sys_timeout TCP_TMR_INTERVAL (Some TCPIP_TCP_TIMER) 0 s
          else Some (s\<lparr>tcpip_tcp_timer_active := False\<rparr>) }"

definition tcp_timer_needed :: "('w timers \<Rightarrow> bool) \<Rightarrow> 'w timers \<Rightarrow> 'w timers option" where
  "tcp_timer_needed pcbs s =
     (if \<not> tcpip_tcp_timer_active s \<and> pcbs s
      then sys_timeout TCP_TMR_INTERVAL (Some TCPIP_TCP_TIMER) 0 (s\<lparr>tcpip_tcp_timer_active := True\<rparr>)
      else Some s)"

text \<open>The argument is the address of an entry of the table, here its index.\<close>

definition lwip_cyclic_timer ::
  "(cyclic_handler \<Rightarrow> 'w timers \<Rightarrow> 'w timers option) \<Rightarrow> nat \<Rightarrow> 'w timers \<Rightarrow> 'w timers option" where
  "lwip_cyclic_timer tmr a s =
     (if a < length lwip_cyclic_timers then
        let (interval_ms, handler) = lwip_cyclic_timers ! a in
        do { s \<leftarrow> tmr handler s;
             let now = sys_clock s; next_timeout_time = current_timeout_due_time s + interval_ms in
             if TIME_LESS_THAN next_timeout_time now
             then sys_timeout_abs (now + interval_ms) (Some LWIP_CYCLIC_TIMER) a s
             else sys_timeout_abs next_timeout_time (Some LWIP_CYCLIC_TIMER) a s }
      else None)"

fun init_loop :: "nat list \<Rightarrow> 'w timers \<Rightarrow> 'w timers option" where
  "init_loop [] s = Some s"
| "init_loop (i # is) s =
     do { s \<leftarrow> sys_timeout (fst (lwip_cyclic_timers ! i)) (Some LWIP_CYCLIC_TIMER) i s; init_loop is s }"

text \<open>The TCP timer, entry 0, is started when the first connection needs it.\<close>

definition sys_timeouts_init :: "'w timers \<Rightarrow> 'w timers option" where
  "sys_timeouts_init s = init_loop [1..<length lwip_cyclic_timers] s"

fun untimeout_loop :: "handler option \<Rightarrow> nat \<Rightarrow> sys_timeo list \<Rightarrow> sys_timeo list option" where
  "untimeout_loop handler a [] = None"
| "untimeout_loop handler a (t # ts) =
     (if timeo_h t = handler \<and> timeo_arg t = a then Some ts else map_option ((#) t) (untimeout_loop handler a ts))"

definition sys_untimeout :: "handler option \<Rightarrow> nat \<Rightarrow> 'w timers \<Rightarrow> 'w timers" where
  "sys_untimeout handler a s =
     (case untimeout_loop handler a (next_timeout s) of
        None \<Rightarrow> s
      | Some ts \<Rightarrow> s\<lparr>next_timeout := ts, timeo_free := timeo_free s + 1\<rparr>)"

text \<open>What the loop calls: \<open>ooseq\<close> is \<open>PBUF_CHECK_FREE_OOSEQ\<close>, \<open>call\<close> runs a handler.\<close>

partial_function (option) check_loop ::
  "('w timers \<Rightarrow> 'w timers option) \<Rightarrow> (handler \<Rightarrow> nat \<Rightarrow> 'w timers \<Rightarrow> 'w timers option) \<Rightarrow> u32
     \<Rightarrow> 'w timers \<Rightarrow> 'w timers option" where
  "check_loop ooseq call now s =
     do { s \<leftarrow> ooseq s;
          case next_timeout s of
            [] \<Rightarrow> Some s
          | t # rest \<Rightarrow>
              if TIME_LESS_THAN now (timeo_time t) then Some s
              else do { s \<leftarrow> (let s = s\<lparr>next_timeout := rest, current_timeout_due_time := timeo_time t, timeo_free := timeo_free s + 1\<rparr> in
                              case timeo_h t of None \<Rightarrow> Some s | Some f \<Rightarrow> call f (timeo_arg t) s);
                        check_loop ooseq call now s } }"

definition sys_check_timeouts ::
  "('w timers \<Rightarrow> 'w timers option) \<Rightarrow> (handler \<Rightarrow> nat \<Rightarrow> 'w timers \<Rightarrow> 'w timers option) \<Rightarrow> 'w timers
     \<Rightarrow> 'w timers option" where
  "sys_check_timeouts ooseq call s = check_loop ooseq call (sys_clock s) s"

definition sys_restart_timeouts :: "'w timers \<Rightarrow> 'w timers" where
  "sys_restart_timeouts s =
     (case next_timeout s of
        [] \<Rightarrow> s
      | n # _ \<Rightarrow> let now = sys_clock s; base = timeo_time n in
          s\<lparr>next_timeout := map (\<lambda>t. t\<lparr>timeo_time := (timeo_time t - base) + now\<rparr>) (next_timeout s)\<rparr>)"

definition sys_timeouts_sleeptime :: "'w timers \<Rightarrow> u32 option" where
  "sys_timeouts_sleeptime s =
     (case next_timeout s of
        [] \<Rightarrow> Some SYS_TIMEOUTS_SLEEPTIME_INFINITE
      | n # _ \<Rightarrow> let now = sys_clock s in
          if TIME_LESS_THAN (timeo_time n) now then Some 0
          else let ret = timeo_time n - now in if ret \<le> LWIP_MAX_TIMEOUT then Some ret else None)"

text \<open>Handlers as the host program has them: \<open>tmr\<close> the protocol timers, \<open>user\<close> the applications.\<close>

definition call_handler ::
  "(cyclic_handler \<Rightarrow> 'w timers \<Rightarrow> 'w timers option) \<Rightarrow> ('w timers \<Rightarrow> bool)
     \<Rightarrow> (nat \<Rightarrow> nat \<Rightarrow> 'w timers \<Rightarrow> 'w timers option) \<Rightarrow> handler \<Rightarrow> nat \<Rightarrow> 'w timers \<Rightarrow> 'w timers option" where
  "call_handler tmr pcbs user f a s =
     (case f of
        LWIP_CYCLIC_TIMER \<Rightarrow> lwip_cyclic_timer tmr a s
      | TCPIP_TCP_TIMER \<Rightarrow> tcpip_tcp_timer (tmr TCP_TMR) pcbs s
      | USER k \<Rightarrow> user k a s)"

section \<open>Order in a window of half the clock range\<close>

text \<open>Times are compared by their distance from a base; \<open>TIME_LESS_THAN\<close> is meaningful below 2^31.\<close>

definition due :: "u32 \<Rightarrow> u32 \<Rightarrow> nat" where
  "due base t = unat (t - base)"

definition timers_ok :: "u32 \<Rightarrow> 'w timers \<Rightarrow> bool" where
  "timers_ok base s \<longleftrightarrow> (\<forall>t \<in> set (next_timeout s). due base (timeo_time t) < 2 ^ 31)
     \<and> sorted (map (due base \<circ> timeo_time) (next_timeout s))"

definition insert_due :: "u32 \<Rightarrow> sys_timeo \<Rightarrow> sys_timeo list \<Rightarrow> sys_timeo list" where
  "insert_due base new ts =
     takeWhile (\<lambda>t. due base (timeo_time t) \<le> due base (timeo_time new)) ts @ new #
     dropWhile (\<lambda>t. due base (timeo_time t) \<le> due base (timeo_time new)) ts"

lemma TIME_LESS_THAN_due:
  assumes "due base t < 2 ^ 31" and "due base u < 2 ^ 31"
  shows "TIME_LESS_THAN t u \<longleftrightarrow> due base t < due base u"
proof -
  have "t - u = (t - base) - (u - base)" by simp
  then have "unat (t - u) = (if due base u \<le> due base t then due base t - due base u else due base t + 2 ^ 32 - due base u)"
    using unat_sub_if_size [of "t - base" "u - base"] by (simp add: due_def word_size)
  moreover have "TIME_LESS_THAN t u \<longleftrightarrow> 0x7fffffff < unat (t - u)"
    by (simp add: TIME_LESS_THAN_def LWIP_MAX_TIMEOUT_def word_less_nat_alt)
  ultimately show ?thesis using assms by (auto split: if_splits)
qed

lemma due_add:
  assumes "due base t + unat i < 2 ^ 32"
  shows "due base (t + i) = due base t + unat i"
proof -
  have e: "t + i - base = (t - base) + i" by simp
  show ?thesis using assms unfolding due_def e by (simp add: unat_add_lem [THEN iffD1])
qed

lemma insert_loop_due:
  assumes "ts \<noteq> []" and "\<forall>t \<in> set ts. due base (timeo_time t) < 2 ^ 31" and "due base (timeo_time new) < 2 ^ 31"
    and "due base (timeo_time (hd ts)) \<le> due base (timeo_time new)"
  shows "insert_loop new ts = insert_due base new ts"
  using assms
proof (induction new ts rule: insert_loop.induct)
  case (3 new t n rest)
  then show ?case by (auto simp: insert_due_def TIME_LESS_THAN_due not_less)
qed (auto simp: insert_due_def)

lemma sys_timeout_abs_due:
  assumes "timers_ok base s" and "due base abs_time < 2 ^ 31" and "timeo_free s \<noteq> 0"
  shows "sys_timeout_abs abs_time f a s = Some (s\<lparr>timeo_free := timeo_free s - 1,
     next_timeout := insert_due base \<lparr>timeo_time = abs_time, timeo_h = f, timeo_arg = a\<rparr> (next_timeout s)\<rparr>)"
proof (cases "next_timeout s")
  case (Cons n rest)
  let ?new = "\<lparr>timeo_time = abs_time, timeo_h = f, timeo_arg = a\<rparr>"
  have w: "due base (timeo_time n) < 2 ^ 31" "\<forall>t \<in> set (n # rest). due base (timeo_time t) < 2 ^ 31"
    using assms(1) Cons by (auto simp: timers_ok_def)
  show ?thesis
  proof (cases "due base abs_time < due base (timeo_time n)")
    case True
    then show ?thesis using assms w Cons by (simp add: sys_timeout_abs_def TIME_LESS_THAN_due [OF assms(2)] insert_due_def)
  next
    case False
    then show ?thesis
      using assms w Cons insert_loop_due [of "n # rest" base ?new]
      by (simp add: sys_timeout_abs_def TIME_LESS_THAN_due [OF assms(2)])
  qed
qed (use assms in \<open>simp add: sys_timeout_abs_def insert_due_def\<close>)

lemma mset_insert_due: "mset (insert_due base new ts) = add_mset new (mset ts)"
proof -
  let ?P = "\<lambda>t. due base (timeo_time t) \<le> due base (timeo_time new)"
  have "mset (takeWhile ?P ts) + mset (dropWhile ?P ts) = mset ts" by (simp flip: mset_append)
  then show ?thesis by (simp add: insert_due_def)
qed

lemma set_insert_due: "set (insert_due base new ts) = insert new (set ts)"
  using mset_insert_due [of base new ts] by (metis set_mset_add_mset_insert set_mset_mset)

lemma insert_due_Cons:
  "insert_due base new (t # ts) =
     (if due base (timeo_time t) \<le> due base (timeo_time new) then t # insert_due base new ts else new # t # ts)"
  by (simp add: insert_due_def)

lemma insert_due_sorted:
  "sorted (map (due base \<circ> timeo_time) ts) \<Longrightarrow> sorted (map (due base \<circ> timeo_time) (insert_due base new ts))"
proof (induction ts)
  case (Cons t ts)
  then show ?case by (auto simp: insert_due_Cons set_insert_due)
qed (simp add: insert_due_def)

lemma timers_ok_insert:
  assumes "timers_ok base s" and "due base (timeo_time new) < 2 ^ 31"
  shows "timers_ok base (s\<lparr>timeo_free := k, next_timeout := insert_due base new (next_timeout s)\<rparr>)"
  using assms insert_due_sorted by (auto simp: timers_ok_def set_insert_due)

text \<open>
  \<open>sys_timeout\<close> with a free element of the pool arms the timeout: it is inserted behind all
  pending ones that are due no later and before all that are due later, whether or not the clock
  wraps around in between, and the list stays sorted. An empty pool stops the program.
\<close>

theorem sys_timeout_inserts:
  assumes "timers_ok (sys_clock s) s" and "msecs \<le> 0x3fffffff"
    and "new = \<lparr>timeo_time = sys_clock s + msecs, timeo_h = f, timeo_arg = a\<rparr>"
    and "s' = s\<lparr>timeo_free := timeo_free s - 1, next_timeout := insert_due (sys_clock s) new (next_timeout s)\<rparr>"
  shows "sys_timeout msecs f a s = (if timeo_free s = 0 then None else Some s') \<and> timers_ok (sys_clock s) s'"
proof
  have "unat msecs \<le> 0x3fffffff" using assms(2) by (simp add: word_le_nat_alt)
  then have d: "due (sys_clock s) (sys_clock s + msecs) < 2 ^ 31" by (simp add: due_def)
  have "(0xffffffff :: u32) div 4 = 0x3fffffff" by simp
  then have "sys_timeout msecs f a s = sys_timeout_abs (sys_clock s + msecs) f a s"
    using assms(2) by (simp only: sys_timeout_def if_True)
  then show "sys_timeout msecs f a s = (if timeo_free s = 0 then None else Some s')"
    using sys_timeout_abs_due [OF assms(1) d, of f a] by (simp add: assms(3,4) sys_timeout_abs_def)
  show "timers_ok (sys_clock s) s'"
    unfolding assms(4) using d by (intro timers_ok_insert [OF assms(1)]) (simp add: assms(3))
qed

definition no_timers :: "unit timers" where
  "no_timers = \<lparr>next_timeout = [], current_timeout_due_time = 0, tcpip_tcp_timer_active = False,
     timeo_free = MEMP_NUM_SYS_TIMEOUT, sys_clock = 0xfffffff0, sys_world = ()\<rparr>"

definition one_timer :: "unit timers" where
  "one_timer = no_timers\<lparr>next_timeout := [\<lparr>timeo_time = 0xfffffff8, timeo_h = Some (USER 0), timeo_arg = 0\<rparr>], timeo_free := 17\<rparr>"

theorem sys_timeout_inserts_witness:
  "timers_ok (sys_clock one_timer) one_timer \<and>
   (\<exists>s'. sys_timeout 100 (Some LWIP_CYCLIC_TIMER) 5 one_timer = Some s' \<and> timers_ok 0xfffffff0 s' \<and>
     next_timeout s' = [\<lparr>timeo_time = 0xfffffff8, timeo_h = Some (USER 0), timeo_arg = 0\<rparr>,
       \<lparr>timeo_time = 84, timeo_h = Some LWIP_CYCLIC_TIMER, timeo_arg = 5\<rparr>])"
proof -
  have ok: "timers_ok (sys_clock one_timer) one_timer" by (simp add: timers_ok_def one_timer_def no_timers_def due_def)
  from sys_timeout_inserts [OF this _ refl refl, of 100 "Some LWIP_CYCLIC_TIMER" 5] ok show ?thesis
    by (simp add: one_timer_def no_timers_def insert_due_def due_def)
qed

section \<open>A pass over the pending timeouts\<close>

text \<open>
  Code outside this file returns, leaves the list of timeouts alone and lets some time go by,
  but does not run past the window.
\<close>

definition keeps_timers :: "u32 \<Rightarrow> ('w timers \<Rightarrow> 'w timers option) \<Rightarrow> bool" where
  "keeps_timers base g \<longleftrightarrow> (\<forall>s. due base (sys_clock s) < 2 ^ 30 \<longrightarrow>
     (\<exists>c w. g s = Some (s\<lparr>sys_clock := c, sys_world := w\<rparr>) \<and> due base (sys_clock s) \<le> due base c \<and> due base c < 2 ^ 30))"

definition timeo_ok :: "sys_timeo \<Rightarrow> bool" where
  "timeo_ok t \<longleftrightarrow> (timeo_h t = Some LWIP_CYCLIC_TIMER \<longrightarrow> timeo_arg t < length lwip_cyclic_timers)"

text \<open>The indices of the armed cyclic timers.\<close>

definition cyclic_args :: "sys_timeo list \<Rightarrow> nat multiset" where
  "cyclic_args ts = image_mset timeo_arg (filter_mset (\<lambda>t. timeo_h t = Some LWIP_CYCLIC_TIMER) (mset ts))"

lemma cyclic_interval:
  assumes "a < length lwip_cyclic_timers"
  shows "0 < unat (fst (lwip_cyclic_timers ! a)) \<and> unat (fst (lwip_cyclic_timers ! a)) \<le> 60000"
proof -
  have "\<forall>e \<in> set lwip_cyclic_timers. 0 < unat (fst e) \<and> unat (fst e) \<le> 60000"
    by (simp add: lwip_cyclic_timers_def TCP_TMR_INTERVAL_def)
  then show ?thesis using assms by (meson nth_mem)
qed

text \<open>The effect of one handler: at most one new timeout, due after the one being handled.\<close>

definition rearmed :: "u32 \<Rightarrow> handler \<Rightarrow> nat \<Rightarrow> 'w timers \<Rightarrow> 'w timers \<Rightarrow> bool" where
  "rearmed base f a s s' \<longleftrightarrow> timers_ok base s' \<and> due base (sys_clock s) \<le> due base (sys_clock s') \<and> due base (sys_clock s') < 2 ^ 30
     \<and> (\<exists>ks. mset (next_timeout s') = mset (ks @ next_timeout s) \<and> length ks \<le> 1
          \<and> timeo_free s' + length ks = timeo_free s
          \<and> (\<forall>t \<in> set ks. due base (current_timeout_due_time s) < due base (timeo_time t) \<and> timeo_ok t)
          \<and> cyclic_args ks = (if f = LWIP_CYCLIC_TIMER then {#a#} else {#}))"

lemma rearmed_one:
  assumes "timers_ok base s" and "due base abs_time < 2 ^ 31" and "timeo_free s \<noteq> 0"
    and "due base (sys_clock s) < 2 ^ 30" and "due base (current_timeout_due_time s) < due base abs_time"
    and "timeo_ok \<lparr>timeo_time = abs_time, timeo_h = Some f, timeo_arg = a\<rparr>"
  shows "\<exists>s'. sys_timeout_abs abs_time (Some f) a s = Some s' \<and> rearmed base f a s s'"
  unfolding sys_timeout_abs_due [OF assms(1-3)] rearmed_def using assms timers_ok_insert [OF assms(1), of "\<lparr>timeo_time = abs_time, timeo_h = Some f, timeo_arg = a\<rparr>"]
  by (auto simp: mset_insert_due cyclic_args_def intro!: exI [of _ "[\<lparr>timeo_time = abs_time, timeo_h = Some f, timeo_arg = a\<rparr>]"])

lemma rearmed_none:
  "timers_ok base s \<Longrightarrow> due base (sys_clock s) < 2 ^ 30 \<Longrightarrow> f \<noteq> LWIP_CYCLIC_TIMER
    \<Longrightarrow> rearmed base f a s (s\<lparr>tcpip_tcp_timer_active := b\<rparr>)"
  by (auto simp: rearmed_def timers_ok_def cyclic_args_def intro!: exI [of _ "[]"])

text \<open>A change of clock and world before the step can be ignored.\<close>

lemma rearmed_after:
  "due base (sys_clock s) \<le> due base c \<Longrightarrow> rearmed base f a (s\<lparr>sys_clock := c, sys_world := w\<rparr>) s' \<Longrightarrow> rearmed base f a s s'"
  by (auto simp: rearmed_def)

lemma timers_ok_world [simp]: "timers_ok base (s\<lparr>sys_clock := c, sys_world := w\<rparr>) = timers_ok base s"
  by (simp add: timers_ok_def)

lemma keepsE:
  assumes "keeps_timers base g" and "due base (sys_clock s) < 2 ^ 30"
  obtains c w where "g s = Some (s\<lparr>sys_clock := c, sys_world := w\<rparr>)" "due base (sys_clock s) \<le> due base c" "due base c < 2 ^ 30"
  using assms unfolding keeps_timers_def by blast

lemma cyclic_rearms:
  assumes "\<forall>f. keeps_timers base (tmr f)" and "timers_ok base s" and "timeo_free s \<noteq> 0"
    and "due base (sys_clock s) < 2 ^ 30" and "due base (current_timeout_due_time s) \<le> due base (sys_clock s)"
    and "a < length lwip_cyclic_timers"
  shows "\<exists>s'. lwip_cyclic_timer tmr a s = Some s' \<and> rearmed base LWIP_CYCLIC_TIMER a s s'"
proof -
  obtain i f where i: "lwip_cyclic_timers ! a = (i, f)" by fastforce
  have b: "0 < unat i" "unat i \<le> 60000" using cyclic_interval [OF assms(6)] i by simp_all
  from keepsE [OF assms(1) [rule_format, of f] assms(4)] obtain c w where
    g: "tmr f s = Some (s\<lparr>sys_clock := c, sys_world := w\<rparr>)" "due base (sys_clock s) \<le> due base c" "due base c < 2 ^ 30" .
  let ?s = "s\<lparr>sys_clock := c, sys_world := w\<rparr>" and ?n = "current_timeout_due_time s + i"
  let ?t = "if TIME_LESS_THAN ?n c then c + i else ?n"
  have n: "due base ?n = due base (current_timeout_due_time s) + unat i" using assms(4,5) b by (intro due_add) simp
  have c: "due base (c + i) = due base c + unat i" using b g(3) by (intro due_add) simp
  have "\<exists>s'. sys_timeout_abs ?t (Some LWIP_CYCLIC_TIMER) a ?s = Some s' \<and> rearmed base LWIP_CYCLIC_TIMER a ?s s'"
    using assms b g n c by (intro rearmed_one) (auto simp: timeo_ok_def)
  moreover have "lwip_cyclic_timer tmr a s = sys_timeout_abs ?t (Some LWIP_CYCLIC_TIMER) a ?s"
    using g(1) assms(6) i by (simp add: lwip_cyclic_timer_def Let_def)
  ultimately show ?thesis using rearmed_after [OF g(2)] by auto
qed

lemma tcp_rearms:
  assumes "keeps_timers base tmr" and "timers_ok base s" and "timeo_free s \<noteq> 0"
    and "due base (sys_clock s) < 2 ^ 30" and "due base (current_timeout_due_time s) \<le> due base (sys_clock s)"
  shows "\<exists>s'. tcpip_tcp_timer tmr pcbs s = Some s' \<and> rearmed base TCPIP_TCP_TIMER a s s'"
proof -
  from keepsE [OF assms(1,4)] obtain c w where
    g: "tmr s = Some (s\<lparr>sys_clock := c, sys_world := w\<rparr>)" "due base (sys_clock s) \<le> due base c" "due base c < 2 ^ 30" .
  let ?s = "s\<lparr>sys_clock := c, sys_world := w\<rparr>"
  have c: "due base (c + TCP_TMR_INTERVAL) = due base c + 250"
    using g(3) due_add [of base c TCP_TMR_INTERVAL] by (simp add: TCP_TMR_INTERVAL_def)
  have "\<exists>s'. sys_timeout_abs (c + TCP_TMR_INTERVAL) (Some TCPIP_TCP_TIMER) 0 ?s = Some s' \<and> rearmed base TCPIP_TCP_TIMER 0 ?s s'"
    using assms g c by (intro rearmed_one) (auto simp: timeo_ok_def)
  moreover have "rearmed base TCPIP_TCP_TIMER a ?s s' \<longleftrightarrow> rearmed base TCPIP_TCP_TIMER 0 ?s s'" for s'
    by (simp add: rearmed_def)
  moreover have "rearmed base TCPIP_TCP_TIMER a ?s (?s\<lparr>tcpip_tcp_timer_active := False\<rparr>)"
    using assms(2) g(3) by (intro rearmed_none) simp_all
  ultimately show ?thesis
    using g(1) rearmed_after [OF g(2), of TCPIP_TCP_TIMER a w] 
    by (auto simp: tcpip_tcp_timer_def sys_timeout_def TCP_TMR_INTERVAL_def)
qed

lemma call_rearms:
  assumes "\<forall>f. keeps_timers base (tmr f)" and "\<forall>k a. keeps_timers base (user k a)"
    and "timers_ok base s" and "timeo_free s \<noteq> 0"
    and "due base (sys_clock s) < 2 ^ 30" and "due base (current_timeout_due_time s) \<le> due base (sys_clock s)"
    and "f = LWIP_CYCLIC_TIMER \<longrightarrow> a < length lwip_cyclic_timers"
  shows "\<exists>s'. call_handler tmr pcbs user f a s = Some s' \<and> rearmed base f a s s'"
proof (cases f)
  case (USER k)
  from keepsE [OF assms(2) [rule_format, of k a] assms(5)] obtain c w where
    g: "user k a s = Some (s\<lparr>sys_clock := c, sys_world := w\<rparr>)" "due base (sys_clock s) \<le> due base c" "due base c < 2 ^ 30" .
  let ?s = "s\<lparr>sys_clock := c, sys_world := w\<rparr>"
  have "rearmed base f a ?s (?s\<lparr>tcpip_tcp_timer_active := tcpip_tcp_timer_active ?s\<rparr>)"
    using assms(3) g(3) USER by (intro rearmed_none) simp_all
  then have "rearmed base f a ?s ?s" by simp
  then show ?thesis using g USER rearmed_after [OF g(2)] by (auto simp: call_handler_def)
qed (use assms cyclic_rearms [of base tmr s a] tcp_rearms [of base "tmr TCP_TMR" s pcbs a] in \<open>auto simp: call_handler_def\<close>)

text \<open>One iteration for a timeout \<open>t\<close> that is due, from the state \<open>r\<close> in which it has been removed.\<close>

lemma handle_due:
  fixes r :: "'w timers"
  assumes "\<forall>f. keeps_timers base (tmr f)" and "\<forall>k a. keeps_timers base (user k a)"
    and "timers_ok base r" and "timeo_free r \<noteq> 0" and "due base (sys_clock r) < 2 ^ 30"
    and "due base (current_timeout_due_time r) \<le> due base (sys_clock r)"
    and "current_timeout_due_time r = timeo_time t" and "timeo_ok t"
  shows "\<exists>s' ks. (case timeo_h t of None \<Rightarrow> Some r | Some f \<Rightarrow> call_handler tmr pcbs user f (timeo_arg t) r) = Some s'
     \<and> timers_ok base s' \<and> due base (sys_clock r) \<le> due base (sys_clock s') \<and> due base (sys_clock s') < 2 ^ 30
     \<and> mset (next_timeout s') = mset (ks @ next_timeout r) \<and> length ks \<le> 1 \<and> timeo_free s' + length ks = timeo_free r
     \<and> (\<forall>u \<in> set ks. due base (timeo_time t) < due base (timeo_time u) \<and> timeo_ok u)
     \<and> cyclic_args ks = cyclic_args [t]"
proof (cases "timeo_h t")
  case None
  then show ?thesis using assms(3,5) by (auto simp: cyclic_args_def intro!: exI [of _ "[]"])
next
  case (Some f)
  with assms(8) have f: "f = LWIP_CYCLIC_TIMER \<longrightarrow> timeo_arg t < length lwip_cyclic_timers" by (simp add: timeo_ok_def)
  from call_rearms [OF assms(1-6) f, of pcbs] Some assms(7) show ?thesis
    by (auto simp: rearmed_def cyclic_args_def)
qed

lemma check_loop_returns:
  fixes s :: "'w timers"
  assumes "\<forall>f. keeps_timers base (tmr f)" and "\<forall>k a. keeps_timers base (user k a)" and "keeps_timers base ooseq"
    and "timers_ok base s" and "\<forall>t \<in> set (next_timeout s). timeo_ok t"
    and "due base now \<le> due base (sys_clock s)" and "due base (sys_clock s) < 2 ^ 30"
  shows "\<exists>s'. check_loop ooseq (call_handler tmr pcbs user) now s = Some s' \<and> timers_ok base s'
    \<and> (\<forall>t \<in> set (next_timeout s'). due base now < due base (timeo_time t))
    \<and> cyclic_args (next_timeout s') = cyclic_args (next_timeout s)
    \<and> timeo_free s' + length (next_timeout s') = timeo_free s + length (next_timeout s)"
  using assms(4-)
proof (induction "\<Sum>t \<in># mset (next_timeout s). Suc (due base now) - due base (timeo_time t)" arbitrary: s rule: less_induct)
  case less
  let ?call = "call_handler tmr pcbs user" and ?m = "\<lambda>t. Suc (due base now) - due base (timeo_time t)"
  from keepsE [OF assms(3) less.prems(4)] obtain c w where
    g: "ooseq s = Some (s\<lparr>sys_clock := c, sys_world := w\<rparr>)" "due base (sys_clock s) \<le> due base c" "due base c < 2 ^ 30" .
  have now: "due base now < 2 ^ 31" using less.prems(3,4) by simp
  consider (idle) "\<forall>u \<in> set (next_timeout s). due base now < due base (timeo_time u)"
      "next_timeout s = [] \<or> TIME_LESS_THAN now (timeo_time (hd (next_timeout s)))"
    | (step) t rest where "next_timeout s = t # rest" "\<not> TIME_LESS_THAN now (timeo_time t)" "due base (timeo_time t) \<le> due base now"
    using less.prems(1) TIME_LESS_THAN_due [OF now] by (cases "next_timeout s") (fastforce simp: timers_ok_def not_less)+
  then show ?case
  proof cases
    case idle
    then show ?thesis using g(1) less.prems(1) by (subst check_loop.simps) (cases "next_timeout s"; simp)
  next
    case (step t rest)
    let ?r = "s\<lparr>sys_clock := c, sys_world := w, next_timeout := rest, current_timeout_due_time := timeo_time t,
        timeo_free := Suc (timeo_free s)\<rparr>"
    have "timers_ok base ?r" "timeo_ok t" "due base (timeo_time t) \<le> due base c"
      using less.prems step g(2) by (simp_all add: timers_ok_def)
    with handle_due [OF assms(1,2), of ?r t pcbs] g(3) obtain s' ks where
      s': "(case timeo_h t of None \<Rightarrow> Some ?r | Some f \<Rightarrow> ?call f (timeo_arg t) ?r) = Some s'" "timers_ok base s'"
        "due base c \<le> due base (sys_clock s')" "due base (sys_clock s') < 2 ^ 30"
      and ks: "mset (next_timeout s') = mset (ks @ rest)" "length ks \<le> 1" "timeo_free s' + length ks = Suc (timeo_free s)"
        "\<forall>u \<in> set ks. due base (timeo_time t) < due base (timeo_time u) \<and> timeo_ok u" "cyclic_args ks = cyclic_args [t]"
      by auto
    have set': "set (next_timeout s') = set ks \<union> set rest" using ks(1) by (metis set_append set_mset_mset)
    have len': "length (next_timeout s') = length ks + length rest" using ks(1) by (metis length_append size_mset)
    have "(\<Sum>u \<in># mset ks. ?m u) < ?m t" using ks(2,4) step(3) by (cases ks) auto
    then have "(\<Sum>u \<in># mset (next_timeout s'). ?m u) < (\<Sum>u \<in># mset (next_timeout s). ?m u)" using ks(1) step by simp
    from less.hyps [OF this s'(2)] ks(4) set' step less.prems(2,3) g(2) s'(3,4)
    obtain s'' where "check_loop ooseq ?call now s' = Some s''" "timers_ok base s''"
      "\<forall>t \<in> set (next_timeout s''). due base now < due base (timeo_time t)"
      "cyclic_args (next_timeout s'') = cyclic_args (next_timeout s')"
      "timeo_free s'' + length (next_timeout s'') = timeo_free s' + length (next_timeout s')" by auto
    moreover have "cyclic_args (next_timeout s') = cyclic_args (next_timeout s)" using ks(1,5) step by (simp add: cyclic_args_def)
    moreover have "check_loop ooseq ?call now s = check_loop ooseq ?call now s'"
      using g(1) step s'(1) by (subst check_loop.simps) (simp add: Let_def)
    ultimately show ?thesis using len' ks(3) step by auto
  qed
qed

text \<open>The start: \<open>sys_timeouts_init\<close> arms each cyclic timer but that of TCP once.\<close>

lemma init_loop_armed:
  fixes s :: "'w timers"
  assumes "\<forall>i \<in> set is. i < length lwip_cyclic_timers" and "length is \<le> timeo_free s"
    and "timers_ok (sys_clock s) s" and "\<forall>t \<in> set (next_timeout s). timeo_ok t"
  shows "\<exists>s'. init_loop is s = Some s' \<and> sys_clock s' = sys_clock s \<and> timers_ok (sys_clock s) s'
    \<and> (\<forall>t \<in> set (next_timeout s'). timeo_ok t) \<and> cyclic_args (next_timeout s') = mset is + cyclic_args (next_timeout s)"
  using assms
proof (induction "is" arbitrary: s)
  case (Cons i "is")
  let ?m = "fst (lwip_cyclic_timers ! i)"
  let ?new = "\<lparr>timeo_time = sys_clock s + ?m, timeo_h = Some LWIP_CYCLIC_TIMER, timeo_arg = i\<rparr>"
  let ?s = "s\<lparr>timeo_free := timeo_free s - 1, next_timeout := insert_due (sys_clock s) ?new (next_timeout s)\<rparr>"
  have i: "i < length lwip_cyclic_timers" "timeo_free s \<noteq> 0" using Cons.prems(1,2) by auto
  have m: "unat ?m \<le> 60000" using cyclic_interval [OF i(1)] by blast
  then have d: "due (sys_clock s) (sys_clock s + ?m) < 2 ^ 31" by (simp add: due_def)
  have "?m \<le> 0xffffffff div 4" using m by (simp add: word_le_nat_alt)
  then have "sys_timeout ?m (Some LWIP_CYCLIC_TIMER) i s = Some ?s"
    using sys_timeout_abs_due [OF Cons.prems(3) d i(2)] by (simp only: sys_timeout_def if_True)
  moreover have "timers_ok (sys_clock s) ?s" using d by (intro timers_ok_insert [OF Cons.prems(3)]) simp
  ultimately show ?case
    using Cons.IH [of ?s] Cons.prems i(1) by (auto simp: set_insert_due timeo_ok_def mset_insert_due cyclic_args_def)
qed simp

lemma sys_timeouts_init_armed:
  assumes "next_timeout s = []" and "9 \<le> timeo_free s"
  shows "\<exists>s'. sys_timeouts_init s = Some s' \<and> sys_clock s' = sys_clock s \<and> timers_ok (sys_clock s) s'
    \<and> (\<forall>t \<in> set (next_timeout s'). timeo_ok t) \<and> cyclic_args (next_timeout s') = mset [1..<10]"
proof -
  have l: "length lwip_cyclic_timers = 10" by (simp add: lwip_cyclic_timers_def)
  have "timers_ok (sys_clock s) s" "cyclic_args (next_timeout s) = {#}" using assms(1) by (simp_all add: timers_ok_def cyclic_args_def)
  with init_loop_armed [of "[1..<10]" s] assms l show ?thesis unfolding sys_timeouts_init_def l by auto
qed

text \<open>
  C18. Every pass over the pending timeouts ends, although each cyclic timer re-arms itself during
  the pass and the handlers take time: \<open>sys_check_timeouts\<close> returns, the list is sorted, nothing
  that was due at the start of the pass is left, each cyclic timer is still armed exactly as often
  as before, and no element of the pool is lost.
\<close>

theorem sys_check_timeouts_returns:
  assumes "\<forall>f. keeps_timers base (tmr f)" and "\<forall>k a. keeps_timers base (user k a)" and "keeps_timers base ooseq"
    and "timers_ok base s" and "\<forall>t \<in> set (next_timeout s). timeo_ok t" and "due base (sys_clock s) < 2 ^ 30"
  shows "\<exists>s'. sys_check_timeouts ooseq (call_handler tmr pcbs user) s = Some s' \<and> timers_ok base s'
    \<and> (\<forall>t \<in> set (next_timeout s'). due base (sys_clock s) < due base (timeo_time t))
    \<and> cyclic_args (next_timeout s') = cyclic_args (next_timeout s)
    \<and> timeo_free s' + length (next_timeout s') = timeo_free s + length (next_timeout s)"
  unfolding sys_check_timeouts_def by (rule check_loop_returns [OF assms(1-5) order_refl assms(6)])

definition cyclic_due :: "unit timers" where
  "cyclic_due = no_timers\<lparr>next_timeout := [\<lparr>timeo_time = 0xfffffff4, timeo_h = Some LWIP_CYCLIC_TIMER, timeo_arg = 5\<rparr>],
     timeo_free := 17, sys_clock := 300\<rparr>"

theorem sys_check_timeouts_returns_witness:
  "timers_ok 0xfffffff0 cyclic_due \<and>
   (\<exists>s'. sys_check_timeouts Some (call_handler (\<lambda>_. Some) (\<lambda>_. False) (\<lambda>_ _. Some)) cyclic_due = Some s'
     \<and> timers_ok 0xfffffff0 s' \<and> cyclic_args (next_timeout s') = {#5#})"
proof -
  have k: "keeps_timers 0xfffffff0 (Some :: unit timers \<Rightarrow> _)"
    unfolding keeps_timers_def
  proof (intro allI impI)
    fix s :: "unit timers" assume "due 0xfffffff0 (sys_clock s) < 2 ^ 30"
    then show "\<exists>c w. Some s = Some (s\<lparr>sys_clock := c, sys_world := w\<rparr>) \<and> due 0xfffffff0 (sys_clock s) \<le> due 0xfffffff0 c \<and> due 0xfffffff0 c < 2 ^ 30"
      by (intro exI [of _ "sys_clock s"] exI [of _ "sys_world s"]) simp
  qed
  have ok: "timers_ok 0xfffffff0 cyclic_due" "\<forall>t \<in> set (next_timeout cyclic_due). timeo_ok t"
    "due 0xfffffff0 (sys_clock cyclic_due) < 2 ^ 30" "cyclic_args (next_timeout cyclic_due) = {#5#}"
    by (simp_all add: timers_ok_def timeo_ok_def cyclic_due_def no_timers_def due_def cyclic_args_def lwip_cyclic_timers_def)
  show ?thesis
    using sys_check_timeouts_returns [of "0xfffffff0" "\<lambda>_. Some" "\<lambda>_ _. Some" Some cyclic_due "\<lambda>_. False"] k ok by auto
qed

end
