(* ===== verification/Lwip_Def.thy ===== *)
theory Lwip_Def
  imports Prelude
begin

text \<open>
  \<^verbatim>\<open>core/def.c\<close> of lwIP: byte order (the host is little endian), string search, caseless
  comparison and decimal output. A C string is the list of its characters with the terminating
  zero where the code can see it; reading behind the end of a list is a \<open>Fault\<close>.
\<close>

section \<open>Byte order\<close>

definition lwip_htons :: "u16 \<Rightarrow> u16" where
  "lwip_htons n = push_bit 8 (n AND 0x00ff) OR drop_bit 8 (n AND 0xff00)"

definition lwip_htonl :: "u32 \<Rightarrow> u32" where
  "lwip_htonl n = push_bit 24 (n AND 0x000000ff) OR push_bit 8 (n AND 0x0000ff00)
     OR drop_bit 8 (n AND 0x00ff0000) OR drop_bit 24 (n AND 0xff000000)"

lemma byte_masks:
  "(0x00ff :: u16) = mask 8" "(0xff00 :: u16) = push_bit 8 (mask 8)"
  "(0x000000ff :: u32) = mask 8" "(0x0000ff00 :: u32) = push_bit 8 (mask 8)"
  "(0x00ff0000 :: u32) = push_bit 16 (mask 8)" "(0xff000000 :: u32) = push_bit 24 (mask 8)"
  by (simp_all add: mask_eq_exp_minus_1 push_bit_eq_mult)

lemma bit_lwip_htons:
  "i < 16 \<Longrightarrow> bit (lwip_htons n) i = bit n (if i < 8 then i + 8 else i - 8)"
  unfolding lwip_htons_def byte_masks by (auto simp: bit_simps add.commute dest: bit_imp_le_length)

lemma bit_lwip_htonl:
  "i < 32 \<Longrightarrow> bit (lwip_htonl n) i =
     bit n (if i < 8 then i + 24 else if i < 16 then i + 8 else if i < 24 then i - 8 else i - 24)"
  unfolding lwip_htonl_def byte_masks by (auto simp: bit_simps add.commute dest: bit_imp_le_length)

lemma lwip_htons_involution: "lwip_htons (lwip_htons n) = n"
  by (rule bit_word_eqI) (auto simp: bit_lwip_htons)

lemma lwip_htonl_involution: "lwip_htonl (lwip_htonl n) = n"
  by (rule bit_word_eqI) (auto simp: bit_lwip_htonl)

section \<open>Strings\<close>

text \<open>\<open>buffer\<close> and \<open>token\<close> without their terminating zeros; the result is the offset of the match.\<close>

fun strnstr_loop :: "bytes \<Rightarrow> bytes \<Rightarrow> nat \<Rightarrow> nat \<Rightarrow> nat option" where
  "strnstr_loop [] token i n = None"
| "strnstr_loop (c # p) token i n =
     (if i + length token \<le> n then
        (if c = hd token \<and> take (length token) (c # p) = token then Some i
         else strnstr_loop p token (i + 1) n)
      else None)"

definition lwip_strnstr :: "bytes \<Rightarrow> bytes \<Rightarrow> nat \<Rightarrow> nat option" where
  "lwip_strnstr buffer token n = (if length token = 0 then Some 0 else strnstr_loop buffer token 0 n)"

definition letter :: "u8 \<Rightarrow> bool" where
  "letter c \<longleftrightarrow> 0x61 \<le> c \<and> c \<le> 0x7a"

fun lwip_stricmp :: "bytes \<Rightarrow> bytes \<Rightarrow> int outcome" where
  "lwip_stricmp (c1 # str1) (c2 # str2) =
     (if c1 \<noteq> c2 \<and> \<not> (letter (c1 OR 0x20) \<and> c1 OR 0x20 = c2 OR 0x20) then Ok 1
      else if c1 \<noteq> 0 then lwip_stricmp str1 str2 else Ok 0)"
| "lwip_stricmp _ _ = Fault"

text \<open>\<open>len\<close> is decremented before it is tested, so that a length of 0 does not stop the loop.\<close>

fun lwip_strnicmp :: "bytes \<Rightarrow> bytes \<Rightarrow> 64 word \<Rightarrow> int outcome" where
  "lwip_strnicmp (c1 # str1) (c2 # str2) len =
     (if c1 \<noteq> c2 \<and> \<not> (letter (c1 OR 0x20) \<and> c1 OR 0x20 = c2 OR 0x20) then Ok 1
      else if len - 1 \<noteq> 0 \<and> c1 \<noteq> 0 then lwip_strnicmp str1 str2 (len - 1) else Ok 0)"
| "lwip_strnicmp _ _ len = Fault"

text \<open>
  \<open>lwip_itoa\<close>: the digits are written from the end of the buffer down to \<open>res\<close>, then moved to
  the front. \<open>itoa_loop\<close> returns what is left of the number and the digits written.
\<close>

fun itoa_loop :: "nat \<Rightarrow> nat \<Rightarrow> bytes \<Rightarrow> nat \<times> bytes" where
  "itoa_loop 0 n ds = (n, ds)"
| "itoa_loop (Suc room) n ds = (if n = 0 then (n, ds) else itoa_loop room (n div 10) (of_nat (48 + n mod 10) # ds))"

definition lwip_itoa :: "nat \<Rightarrow> int \<Rightarrow> bytes" where
  "lwip_itoa bufsize number =
     (if bufsize < 2 then (if bufsize = 1 then [0] else [])
      else
        let sign = (if number < 0 then [0x2d] else []);
            (n, ds) = itoa_loop (bufsize - 1 - length sign) (nat (abs number)) []
        in if n \<noteq> 0 then [0]
           else if ds = [] then sign @ [48, 0]
           else sign @ ds @ [0])"

section \<open>What they compute\<close>

text \<open>The first occurrence of the token that lies within the first \<open>n\<close> characters.\<close>

lemma strnstr_loop_spec:
  assumes "token \<noteq> []"
  shows "strnstr_loop s token i n = Some k \<longleftrightarrow>
    i \<le> k \<and> k + length token \<le> n \<and> take (length token) (drop (k - i) s) = token
    \<and> (\<forall>j. i \<le> j \<and> j < k \<longrightarrow> take (length token) (drop (j - i) s) \<noteq> token)"
proof (induction s arbitrary: i)
  case Nil
  then show ?case using assms by auto
next
  case (Cons c s)
  have hd: "c = hd token" if "take (length token) (c # s) = token" using that assms by (cases token) auto
  have step: "drop (j - i) (c # s) = drop (j - Suc i) s" if "Suc i \<le> j" for j
    using that by (metis Suc_diff_le diff_Suc_Suc drop_Suc_Cons)
  show ?case
  proof (cases "i + length token \<le> n")
    case False
    then show ?thesis by auto
  next
    case room: True
    show ?thesis
    proof (cases "take (length token) (c # s) = token")
      case True
      have "strnstr_loop (c # s) token i n = Some i" using room True hd by simp
      moreover have "(i \<le> k \<and> k + length token \<le> n \<and> take (length token) (drop (k - i) (c # s)) = token
          \<and> (\<forall>j. i \<le> j \<and> j < k \<longrightarrow> take (length token) (drop (j - i) (c # s)) \<noteq> token)) \<longleftrightarrow> k = i"
      proof (cases "k = i")
        case False
        then have "i \<le> k \<Longrightarrow> i < k" by simp
        then show ?thesis using False True by fastforce
      qed (use True room in auto)
      ultimately show ?thesis by auto
    next
      case False
      then have e1: "strnstr_loop (c # s) token i n = strnstr_loop s token (Suc i) n" using room by simp
      have e2: "(\<forall>j. i \<le> j \<and> j < k \<longrightarrow> take (length token) (drop (j - i) (c # s)) \<noteq> token) \<longleftrightarrow>
          (\<forall>j. Suc i \<le> j \<and> j < k \<longrightarrow> take (length token) (drop (j - Suc i) s) \<noteq> token)" (is "?A \<longleftrightarrow> ?B")
      proof
        show ?B if ?A using that step by (metis Suc_leD)
        show ?A if ?B using that step False by (metis diff_self_eq_0 drop0 le_antisym not_less_eq_eq)
      qed
      have e3: "(i \<le> k \<and> take (length token) (drop (k - i) (c # s)) = token) =
          (Suc i \<le> k \<and> take (length token) (drop (k - Suc i) s) = token)"
        using False step [of k] by (cases "i = k") auto
      show ?thesis unfolding e1 Cons.IH [of "Suc i"] e2 using e3 by argo
    qed
  qed
qed

end
