(* ===== verification/Ip4_Addr.thy ===== *)
theory Ip4_Addr
  imports Lwip_Def
begin

text \<open>
  \<^verbatim>\<open>core/ipv4/ip4_addr.c\<close> of lwIP: broadcast addresses, net masks, and the conversion between
  addresses (in network byte order, on a little-endian host) and their text. A C string is the
  list of its characters; \<open>peek\<close> reads the current character, which is 0 at the end.
\<close>

section \<open>Broadcast addresses and net masks\<close>

definition IPADDR_NONE :: u32 where "IPADDR_NONE = 0xffffffff"
definition IPADDR_ANY :: u32 where "IPADDR_ANY = 0"
definition IPADDR_BROADCAST :: u32 where "IPADDR_BROADCAST = 0xffffffff"

record if_addr =
  can_broadcast :: bool   \<comment> \<open>\<open>flags & NETIF_FLAG_BROADCAST\<close>\<close>
  if_ip :: u32
  if_netmask :: u32

definition ip4_addr_netcmp :: "u32 \<Rightarrow> u32 \<Rightarrow> u32 \<Rightarrow> bool" where
  "ip4_addr_netcmp a b m \<longleftrightarrow> a AND m = b AND m"

definition ip4_addr_isbroadcast_u32 :: "u32 \<Rightarrow> if_addr \<Rightarrow> bool" where
  "ip4_addr_isbroadcast_u32 addr n =
     (if NOT addr = IPADDR_ANY \<or> addr = IPADDR_ANY then True
      else if \<not> can_broadcast n then False
      else if addr = if_ip n then False
      else if ip4_addr_netcmp addr (if_ip n) (if_netmask n)
              \<and> addr AND NOT (if_netmask n) = IPADDR_BROADCAST AND NOT (if_netmask n) then True
      else False)"

text \<open>The two loops of \<open>ip4_addr_netmask_valid\<close>; each ends because \<open>mask\<close> is halved.\<close>

lemma unat_half_less: "m \<noteq> 0 \<Longrightarrow> unat (drop_bit (Suc 0) m) < unat (m :: u32)"
proof -
  assume "m \<noteq> 0"
  moreover have "drop_bit (Suc 0) m = m div 2" by (simp add: drop_bit_eq_div)
  ultimately show ?thesis by (simp add: unat_div unat_gt_0)
qed

function skip_ones :: "u32 \<Rightarrow> u32 \<Rightarrow> u32" where
  "skip_ones nm m = (if m = 0 then m else if nm AND m = 0 then m else skip_ones nm (drop_bit 1 m))"
  by pat_completeness auto
termination by (relation "measure (\<lambda>(nm, m). unat m)") (auto simp: unat_half_less)

function only_zeros :: "u32 \<Rightarrow> u32 \<Rightarrow> bool" where
  "only_zeros nm m = (if m = 0 then True else if nm AND m \<noteq> 0 then False else only_zeros nm (drop_bit 1 m))"
  by pat_completeness auto
termination by (relation "measure (\<lambda>(nm, m). unat m)") (auto simp: unat_half_less)

declare skip_ones.simps [simp del] only_zeros.simps [simp del]

definition ip4_addr_netmask_valid :: "u32 \<Rightarrow> bool" where
  "ip4_addr_netmask_valid netmask =
     (let nm_hostorder = lwip_htonl netmask in
      only_zeros nm_hostorder (skip_ones nm_hostorder (push_bit 31 1)))"

section \<open>Text to address\<close>

definition lwip_isdigit :: "u8 \<Rightarrow> bool" where "lwip_isdigit c \<longleftrightarrow> 48 \<le> c \<and> c \<le> 57"
definition lwip_islower :: "u8 \<Rightarrow> bool" where "lwip_islower c \<longleftrightarrow> 97 \<le> c \<and> c \<le> 122"
definition lwip_isxdigit :: "u8 \<Rightarrow> bool" where
  "lwip_isxdigit c \<longleftrightarrow> lwip_isdigit c \<or> (97 \<le> c \<and> c \<le> 102) \<or> (65 \<le> c \<and> c \<le> 70)"
definition lwip_isspace :: "u8 \<Rightarrow> bool" where
  "lwip_isspace c \<longleftrightarrow> c = 32 \<or> c = 12 \<or> c = 10 \<or> c = 13 \<or> c = 9 \<or> c = 11"

definition peek :: "bytes \<Rightarrow> u8" where
  "peek s = (case s of [] \<Rightarrow> 0 | c # _ \<Rightarrow> c)"

fun aton_digits :: "u32 \<Rightarrow> u32 \<Rightarrow> bytes \<Rightarrow> u32 \<times> bytes" where
  "aton_digits val base [] = (val, [])"
| "aton_digits val base (c # cp) =
     (if lwip_isdigit c then aton_digits (val * base + ucast (c - 48)) base cp
      else if base = 16 \<and> lwip_isxdigit c
      then aton_digits (push_bit 4 val OR ucast (c + 10 - (if lwip_islower c then 97 else 65))) base cp
      else (val, c # cp))"

definition aton_number :: "bytes \<Rightarrow> u32 \<times> bytes" where
  "aton_number cp =
     (if peek cp = 48
      then (let cp = tl cp in
            if peek cp = 120 \<or> peek cp = 88 then aton_digits 0 16 (tl cp) else aton_digits 0 8 cp)
      else aton_digits 0 10 cp)"

text \<open>\<open>k\<close> is the number of dots that may still come (\<open>pp >= parts + 3\<close> refuses a fourth).\<close>

fun aton_loop :: "nat \<Rightarrow> bytes \<Rightarrow> u32 list \<Rightarrow> (u32 list \<times> u32 \<times> bytes) option" where
  "aton_loop k cp parts =
     (if \<not> lwip_isdigit (peek cp) then None
      else case aton_number cp of (val, cp) \<Rightarrow>
        if peek cp = 46 then (case k of 0 \<Rightarrow> None | Suc k \<Rightarrow> aton_loop k (tl cp) (parts @ [val]))
        else Some (parts, val, cp))"

definition aton_value :: "u32 list \<Rightarrow> u32 \<Rightarrow> u32 option" where
  "aton_value parts val =
     (case parts of
        [] \<Rightarrow> Some val
      | [a] \<Rightarrow> if val > 0xffffff \<or> a > 0xff then None else Some (val OR push_bit 24 a)
      | [a, b] \<Rightarrow> if val > 0xffff \<or> a > 0xff \<or> b > 0xff then None
          else Some (val OR (push_bit 24 a OR push_bit 16 b))
      | [a, b, c] \<Rightarrow> if val > 0xff \<or> a > 0xff \<or> b > 0xff \<or> c > 0xff then None
          else Some (val OR (push_bit 24 a OR push_bit 16 b OR push_bit 8 c))
      | _ \<Rightarrow> None)"

definition ip4addr_aton :: "bytes \<Rightarrow> u32 option" where
  "ip4addr_aton cp =
     (case aton_loop 3 cp [] of
        None \<Rightarrow> None
      | Some (parts, val, cp) \<Rightarrow>
          if peek cp \<noteq> 0 \<and> \<not> lwip_isspace (peek cp) then None
          else map_option lwip_htonl (aton_value parts val))"

definition ipaddr_addr :: "bytes \<Rightarrow> u32" where
  "ipaddr_addr cp = (case ip4addr_aton cp of Some a \<Rightarrow> a | None \<Rightarrow> IPADDR_NONE)"

section \<open>Address to text\<close>

text \<open>The digits of one octet in the order the inner \<open>do-while\<close> produces them.\<close>

fun inv_digits :: "nat \<Rightarrow> nat list" where
  "inv_digits n = (n mod 10) # (if n div 10 = 0 then [] else inv_digits (n div 10))"

declare inv_digits.simps [simp del]

text \<open>\<open>emit\<close> is \<open>if (len++ >= buflen) return NULL; *rp++ = c\<close>; \<open>out\<close> is what has been written.\<close>

fun emit :: "nat \<Rightarrow> bytes \<Rightarrow> bytes \<Rightarrow> bytes option" where
  "emit buflen out [] = Some out"
| "emit buflen out (c # cs) = (if length out \<ge> buflen then None else emit buflen (out @ [c]) cs)"

definition octet_text :: "u8 \<Rightarrow> bytes" where
  "octet_text b = map (\<lambda>d. of_nat (48 + d)) (rev (inv_digits (unat b)))"

fun ntoa_loop :: "nat \<Rightarrow> bytes \<Rightarrow> bytes \<Rightarrow> bytes option" where
  "ntoa_loop buflen out [] = Some out"
| "ntoa_loop buflen out (b # bs) =
     (case emit buflen out (octet_text b @ [46]) of None \<Rightarrow> None | Some out \<Rightarrow> ntoa_loop buflen out bs)"

text \<open>The octets of \<open>s_addr\<close> as they lie in memory, lowest address first.\<close>

definition octets :: "u32 \<Rightarrow> bytes" where
  "octets a = [ucast a, ucast (drop_bit 8 a), ucast (drop_bit 16 a), ucast (drop_bit 24 a)]"

definition ip4addr_ntoa_r :: "u32 \<Rightarrow> nat \<Rightarrow> bytes option" where
  "ip4addr_ntoa_r addr buflen = map_option (\<lambda>out. butlast out @ [0]) (ntoa_loop buflen [] (octets addr))"

definition IP4ADDR_STRLEN_MAX :: nat where "IP4ADDR_STRLEN_MAX = 16"

definition ip4addr_ntoa :: "u32 \<Rightarrow> bytes option" where
  "ip4addr_ntoa addr = ip4addr_ntoa_r addr IP4ADDR_STRLEN_MAX"

section \<open>Net masks are runs of ones\<close>

lemma drop_bit_exp: "Suc i < 32 \<Longrightarrow> drop_bit 1 (2 ^ Suc i :: u32) = 2 ^ i"
  by (rule bit_word_eqI) (auto simp: bit_simps)

lemma exp_not_0: "i < 32 \<Longrightarrow> (2 :: u32) ^ i \<noteq> 0"
  using bit_exp_iff [where 'a = u32, of i i] by (auto simp del: bit_exp_iff)

lemma only_zeros_exp: "i < 32 \<Longrightarrow> only_zeros nm (2 ^ i) \<longleftrightarrow> (\<forall>j \<le> i. \<not> bit nm j)"
proof (induction i)
  case 0
  have "only_zeros nm (drop_bit 1 (1 :: u32))" by (simp add: only_zeros.simps)
  then show ?case
    using and_exp_eq_0_iff_not_bit [of nm 0] by (subst only_zeros.simps) simp
next
  case (Suc i)
  then show ?case
    using and_exp_eq_0_iff_not_bit [of nm "Suc i"] drop_bit_exp [of i] exp_not_0 [of "Suc i"]
    by (subst only_zeros.simps) (auto simp: le_Suc_eq simp del: power_Suc)
qed

lemma valid_exp:
  "i < 32 \<Longrightarrow> only_zeros nm (skip_ones nm (2 ^ i)) \<longleftrightarrow> (\<exists>k \<le> Suc i. \<forall>j \<le> i. bit nm j \<longleftrightarrow> k \<le> j)"
proof (induction i)
  case 0
  have z: "only_zeros nm (skip_ones nm (drop_bit 1 (1 :: u32)))"
    by (simp add: only_zeros.simps skip_ones.simps)
  show ?case
  proof (cases "bit nm 0")
    case True
    then have "skip_ones nm (2 ^ 0) = skip_ones nm (drop_bit 1 (1 :: u32))"
      using and_exp_eq_0_iff_not_bit [of nm 0] by (subst skip_ones.simps) simp
    with True z show ?thesis by auto
  next
    case False
    then have "skip_ones nm (2 ^ 0) = 2 ^ 0"
      using and_exp_eq_0_iff_not_bit [of nm 0] by (subst skip_ones.simps) simp
    with False only_zeros_exp [of 0 nm] show ?thesis by (auto intro: exI [of _ "1 :: nat"])
  qed
next
  case (Suc i)
  show ?case
  proof (cases "bit nm (Suc i)")
    case True
    then have "skip_ones nm (2 ^ Suc i) = skip_ones nm (2 ^ i)"
      using Suc.prems and_exp_eq_0_iff_not_bit [of nm "Suc i"] drop_bit_exp [of i] exp_not_0 [of "Suc i"]
      by (subst skip_ones.simps) (simp del: power_Suc)
    moreover have "(\<exists>k \<le> Suc i. \<forall>j \<le> i. bit nm j \<longleftrightarrow> k \<le> j) \<longleftrightarrow> (\<exists>k \<le> Suc (Suc i). \<forall>j \<le> Suc i. bit nm j \<longleftrightarrow> k \<le> j)"
      using True by (metis le_Suc_eq order_refl)
    ultimately show ?thesis using Suc by simp
  next
    case False
    then have "skip_ones nm (2 ^ Suc i) = 2 ^ Suc i"
      using Suc.prems and_exp_eq_0_iff_not_bit [of nm "Suc i"] exp_not_0 [of "Suc i"]
      by (subst skip_ones.simps) (simp del: power_Suc)
    moreover have "(\<exists>k \<le> Suc (Suc i). \<forall>j \<le> Suc i. bit nm j \<longleftrightarrow> k \<le> j) \<longleftrightarrow> (\<forall>j \<le> Suc i. \<not> bit nm j)"
    proof
      assume "\<exists>k \<le> Suc (Suc i). \<forall>j \<le> Suc i. bit nm j \<longleftrightarrow> k \<le> j"
      with False show "\<forall>j \<le> Suc i. \<not> bit nm j" by (meson order_refl order_trans)
    next
      assume "\<forall>j \<le> Suc i. \<not> bit nm j"
      then show "\<exists>k \<le> Suc (Suc i). \<forall>j \<le> Suc i. bit nm j \<longleftrightarrow> k \<le> j"
        by (intro exI [of _ "Suc (Suc i)"]) auto
    qed
    ultimately show ?thesis using only_zeros_exp [OF Suc.prems, of nm] by simp
  qed
qed

section \<open>Digits\<close>

lemma inv_digits_small: "d \<in> set (inv_digits n) \<Longrightarrow> d < 10"
proof (induction n rule: inv_digits.induct)
  case (1 n)
  then show ?case using inv_digits.simps [of n] by (auto split: if_splits)
qed

lemma inv_digits_last: "n > 0 \<Longrightarrow> last (inv_digits n) \<noteq> 0"
proof (induction n rule: inv_digits.induct)
  case (1 n)
  then show ?case by (subst inv_digits.simps) (auto simp: inv_digits.simps [of "n div 10"])
qed

lemma inv_digits_value: "foldl (\<lambda>v d. v * 10 + of_nat d) (0 :: u32) (rev (inv_digits n)) = of_nat n"
proof (induction n rule: inv_digits.induct)
  case (1 n)
  have n: "(of_nat n :: u32) = of_nat (n div 10) * 10 + of_nat (n mod 10)"
    by (metis div_mult_mod_eq of_nat_add of_nat_mult of_nat_numeral)
  show ?case
  proof (cases "n div 10 = 0")
    case True
    with n show ?thesis by (subst inv_digits.simps) simp
  next
    case False
    with 1 n show ?thesis by (subst inv_digits.simps) (simp add: foldl_append)
  qed
qed

lemma digit_char:
  assumes "d < 10"
  shows "lwip_isdigit (of_nat (48 + d))" "ucast (of_nat (48 + d) - 48 :: u8) = (of_nat d :: u32)"
    "(of_nat (48 + d) :: u8) = 48 \<longleftrightarrow> d = 0" "(of_nat (48 + d) :: u8) \<noteq> 0"
proof -
  from assms have "d \<in> {0, 1, 2, 3, 4, 5, 6, 7, 8, 9}" by auto
  then show "lwip_isdigit (of_nat (48 + d))" "ucast (of_nat (48 + d) - 48 :: u8) = (of_nat d :: u32)"
    "(of_nat (48 + d) :: u8) = 48 \<longleftrightarrow> d = 0" "(of_nat (48 + d) :: u8) \<noteq> 0"
    by (auto simp: lwip_isdigit_def)
qed

lemma aton_digits_run:
  assumes "\<forall>d \<in> set ds. d < 10"
  shows "aton_digits val base (map (\<lambda>d. of_nat (48 + d)) ds @ rest) =
    aton_digits (foldl (\<lambda>v d. v * base + of_nat d) val ds) base rest"
  using assms by (induction ds arbitrary: val) (simp_all add: digit_char del: of_nat_add)

lemma aton_digits_stop:
  "\<not> lwip_isdigit (peek rest) \<Longrightarrow> base \<noteq> 16 \<Longrightarrow> aton_digits val base rest = (val, rest)"
  by (cases rest) (simp_all add: peek_def)

lemma octet_text_0: "octet_text 0 = [48]"
  by (simp add: octet_text_def inv_digits.simps)

lemma octet_text_head:
  assumes "b \<noteq> 0"
  shows "\<exists>c cs. octet_text b = c # cs \<and> lwip_isdigit c \<and> c \<noteq> 48"
proof -
  let ?ds = "inv_digits (unat b)"
  have ne: "?ds \<noteq> []" by (subst inv_digits.simps) simp
  then have "rev ?ds = last ?ds # rev (butlast ?ds)" by (cases ?ds rule: rev_cases) simp_all
  then have "octet_text b = of_nat (48 + last ?ds) # map (\<lambda>d. of_nat (48 + d)) (rev (butlast ?ds))"
    unfolding octet_text_def by (simp only: list.map)
  moreover have "last ?ds < 10" "last ?ds \<noteq> 0"
    using inv_digits_small [OF last_in_set [OF ne]] inv_digits_last [of "unat b"] assms by (simp_all add: unat_gt_0)
  ultimately show ?thesis using digit_char(1,3) [of "last ?ds"] by metis
qed

lemma aton_number_octet:
  assumes "\<not> lwip_isdigit (peek rest)" and "peek rest \<noteq> 120" and "peek rest \<noteq> 88"
  shows "aton_number (octet_text b @ rest) = (ucast b, rest)"
proof (cases "b = 0")
  case True
  then show ?thesis using assms by (simp add: octet_text_0 aton_number_def peek_def [of "_ # _"] aton_digits_stop)
next
  case False
  with octet_text_head obtain c cs where c: "octet_text b = c # cs" "c \<noteq> 48" by blast
  have "aton_number (octet_text b @ rest) = aton_digits 0 10 (octet_text b @ rest)"
    using c by (simp add: aton_number_def peek_def)
  also have "\<dots> = (of_nat (unat b), rest)"
    unfolding octet_text_def using aton_digits_run [of "rev (inv_digits (unat b))"] inv_digits_small inv_digits_value [of "unat b"]
    by (simp add: aton_digits_stop [OF assms(1)] del: of_nat_add)
  finally show ?thesis by simp
qed

section \<open>The text of an address\<close>

lemma octet_text_no_zero: "0 \<notin> set (octet_text b)"
proof
  assume "0 \<in> set (octet_text b)"
  then obtain d where "d \<in> set (inv_digits (unat b))" "(0 :: u8) = of_nat (48 + d)" unfolding octet_text_def by auto
  with digit_char(4) [OF inv_digits_small] show False by metis
qed

lemma length_inv_digits: "n < 1000 \<Longrightarrow> length (inv_digits n) \<le> 3"
  using inv_digits.simps [of n] inv_digits.simps [of "n div 10"] inv_digits.simps [of "n div 10 div 10"] by auto

lemma length_octet_text: "length (octet_text b) \<le> 3"
  using length_inv_digits [of "unat b"] unat_u8_less [of b] by (simp add: octet_text_def)

lemma emit_fits: "length out + length cs \<le> buflen \<Longrightarrow> emit buflen out cs = Some (out @ cs)"
  by (induction cs arbitrary: out) auto

lemma emit_full: "cs \<noteq> [] \<Longrightarrow> length out + length cs > buflen \<Longrightarrow> emit buflen out cs = None"
proof (induction cs arbitrary: out)
  case (Cons c cs)
  note IH = Cons.IH and prems = Cons.prems
  show ?case
  proof (cases cs)
    case (Cons d ds)
    then show ?thesis using IH [of "out @ [c]"] prems by simp
  qed (use prems in simp)
qed simp

definition dotted :: "bytes \<Rightarrow> bytes" where
  "dotted bs = concat (map (\<lambda>b. octet_text b @ [46]) bs)"

lemma ntoa_loop_eq:
  "ntoa_loop buflen out bs = (if bs = [] \<or> length out + length (dotted bs) \<le> buflen then Some (out @ dotted bs) else None)"
proof (induction bs arbitrary: out)
  case (Cons b bs)
  show ?case
  proof (cases "length out + length (octet_text b @ [46 :: u8]) \<le> buflen")
    case True
    then show ?thesis using Cons emit_fits [OF True] by (auto simp: dotted_def)
  next
    case False
    then show ?thesis using emit_full [of "octet_text b @ [46]" buflen out] by (simp add: dotted_def)
  qed
qed (simp add: dotted_def)

lemma octets_value:
  "lwip_htonl (ucast (ucast (drop_bit 24 a) :: u8) OR (push_bit 24 (ucast (ucast a :: u8)) OR
     push_bit 16 (ucast (ucast (drop_bit 8 a) :: u8)) OR push_bit 8 (ucast (ucast (drop_bit 16 a) :: u8)))) = a"
  by (rule bit_word_eqI) (auto simp: bit_lwip_htonl bit_simps dest: bit_imp_le_length)

lemma ucast_u8_le: "(ucast (b :: u8) :: u32) \<le> 0xff"
proof -
  have "unat (ucast b :: u32) = take_bit 32 (unat b)" by (simp add: unsigned_ucast_eq)
  also have "\<dots> \<le> unat b" by (rule take_bit_nat_less_eq_self)
  finally have "unat (ucast b :: u32) \<le> 255" using unat_u8_less [of b] by linarith
  then show ?thesis by (simp add: word_le_nat_alt)
qed

text \<open>Parsing three dotted octets and a last one.\<close>

lemma octet_peek: "lwip_isdigit (peek (octet_text b @ rest))"
  using octet_text_head [of b] by (cases "b = 0") (auto simp: octet_text_0 peek_def lwip_isdigit_def)

lemma aton_loop_dot:
  "aton_loop (Suc k) (octet_text b @ 46 # rest) parts = aton_loop k rest (parts @ [ucast b])"
  using aton_number_octet [of "46 # rest" b] octet_peek [of b "46 # rest"]
  by (subst aton_loop.simps) (simp add: peek_def [of "46 # rest"] lwip_isdigit_def [of 46])

lemma aton_loop_end: "aton_loop k (octet_text b) parts = Some (parts, ucast b, [])"
  using aton_number_octet [of "[]" b] octet_peek [of b "[]"]
  by (subst aton_loop.simps) (simp add: peek_def [of "[]"] lwip_isdigit_def [of 0])

section \<open>Properties\<close>

text \<open>
  Address text round trip: for every address, \<open>ip4addr_ntoa\<close> fits its static buffer of 16
  characters and yields a zero-terminated string of at most 15 characters that \<open>ip4addr_aton\<close>
  reads back as exactly that address.
\<close>

theorem ip4addr_text_roundtrip:
  "\<exists>s. ip4addr_ntoa a = Some (s @ [0]) \<and> 0 \<notin> set s \<and> length s \<le> 15 \<and> ip4addr_aton s = Some a"
proof -
  let ?b1 = "ucast a :: u8" and ?b2 = "ucast (drop_bit 8 a) :: u8"
  let ?b3 = "ucast (drop_bit 16 a) :: u8" and ?b4 = "ucast (drop_bit 24 a) :: u8"
  let ?s = "octet_text ?b1 @ 46 # octet_text ?b2 @ 46 # octet_text ?b3 @ 46 # octet_text ?b4"
  have len: "length ?s \<le> 15"
    using length_octet_text [of ?b1] length_octet_text [of ?b2] length_octet_text [of ?b3] length_octet_text [of ?b4] by simp
  have d: "dotted (octets a) = ?s @ [46]" by (simp add: dotted_def octets_def)
  have "ip4addr_ntoa a = Some (?s @ [0])"
    using len by (simp add: ip4addr_ntoa_def ip4addr_ntoa_r_def ntoa_loop_eq d IP4ADDR_STRLEN_MAX_def butlast_append)
  moreover have "0 \<notin> set ?s" using octet_text_no_zero by simp
  moreover have "aton_loop 3 ?s [] = Some ([ucast ?b1, ucast ?b2, ucast ?b3], ucast ?b4, [])"
    by (simp only: numeral_3_eq_3 aton_loop_dot aton_loop_end append.simps)
  then have "ip4addr_aton ?s = Some a"
    using octets_value [of a] ucast_u8_le by (simp add: ip4addr_aton_def aton_value_def peek_def not_less)
  ultimately show ?thesis using len by blast
qed

text \<open>
  \<open>ip4_addr_netmask_valid\<close> accepts exactly the contiguous net masks: those whose bits, in
  host order, are all set from some position \<open>k\<close> upwards and clear below it (both
  \<open>0.0.0.0\<close> and \<open>255.255.255.255\<close> included). Its two loops always end.
\<close>

theorem netmask_valid_iff:
  "ip4_addr_netmask_valid netmask \<longleftrightarrow> (\<exists>k \<le> 32. \<forall>j \<le> 31. bit (lwip_htonl netmask) j \<longleftrightarrow> k \<le> j)"
proof -
  have "push_bit 31 (1 :: u32) = 2 ^ 31" by (simp add: push_bit_eq_mult)
  then show ?thesis
    using valid_exp [of 31 "lwip_htonl netmask"] by (simp only: ip4_addr_netmask_valid_def Let_def) simp
qed

end
