(* ===== verification/Udp_Pcb.thy ===== *)
theory Udp_Pcb
  imports Pbuf Ip4_Addr
begin

text \<open>
  The protocol control blocks of \<^verbatim>\<open>core/udp.c\<close>: creating, binding, connecting and removing them,
  and the choice of local ports. A \<open>struct udp_pcb *\<close> is an address in the store \<open>udp_store\<close>, the
  list \<open>udp_pcbs\<close> is the chain through the \<open>next\<close> pointers, \<open>udp_pool\<close> the free elements of the
  pool \<open>MEMP_UDP_PCB\<close>. Options of this build: IPv4 and IPv6, no \<open>SO_REUSE\<close>, no UDP-Lite, no source of
  random numbers. What \<open>ip6_route\<close> returns is an argument.
\<close>

section \<open>Addresses\<close>

datatype ip_type = IPADDR_TYPE_V4 | IPADDR_TYPE_V6 | IPADDR_TYPE_ANY

text \<open>The union of both versions: an IPv4 address is the first word.\<close>

record ip_addr_t =
  ip_type :: ip_type
  addr0 :: u32
  addr1 :: u32
  addr2 :: u32
  addr3 :: u32
  zone :: u8

definition ip4 :: "u32 \<Rightarrow> ip_addr_t" where
  "ip4 a = \<lparr>ip_type = IPADDR_TYPE_V4, addr0 = a, addr1 = 0, addr2 = 0, addr3 = 0, zone = 0\<rparr>"

definition IP_ANY_TYPE :: ip_addr_t where
  "IP_ANY_TYPE = \<lparr>ip_type = IPADDR_TYPE_ANY, addr0 = 0, addr1 = 0, addr2 = 0, addr3 = 0, zone = 0\<rparr>"

definition IP_IS_V6 :: "ip_addr_t \<Rightarrow> bool" where
  "IP_IS_V6 a \<longleftrightarrow> ip_type a = IPADDR_TYPE_V6"

definition ip_clear_no4 :: "ip_addr_t \<Rightarrow> ip_addr_t" where
  "ip_clear_no4 a = a\<lparr>addr1 := 0, addr2 := 0, addr3 := 0, zone := 0\<rparr>"

text \<open>\<open>ip_addr_set\<close> and \<open>ip_addr_copy\<close> overwrite every part of the destination.\<close>

definition ip_addr_set :: "ip_addr_t \<Rightarrow> ip_addr_t" where
  "ip_addr_set src = (if IP_IS_V6 src then src else ip_clear_no4 src)"

definition ip_addr_set_any :: "bool \<Rightarrow> ip_addr_t" where
  "ip_addr_set_any is_ipv6 = (ip4 0)\<lparr>ip_type := (if is_ipv6 then IPADDR_TYPE_V6 else IPADDR_TYPE_V4)\<rparr>"

definition ip6_addr_isany :: "ip_addr_t \<Rightarrow> bool" where
  "ip6_addr_isany a \<longleftrightarrow> addr0 a = 0 \<and> addr1 a = 0 \<and> addr2 a = 0 \<and> addr3 a = 0"

definition ip_addr_isany :: "ip_addr_t \<Rightarrow> bool" where
  "ip_addr_isany a = (if IP_IS_V6 a then ip6_addr_isany a else addr0 a = IPADDR_ANY)"

definition ip_addr_cmp :: "ip_addr_t \<Rightarrow> ip_addr_t \<Rightarrow> bool" where
  "ip_addr_cmp a b =
     (if ip_type a \<noteq> ip_type b then False
      else if IP_IS_V6 a then addr0 a = addr0 b \<and> addr1 a = addr1 b \<and> addr2 a = addr2 b \<and> addr3 a = addr3 b \<and> zone a = zone b
      else addr0 a = addr0 b)"

text \<open>Addresses with a scope, for the type \<open>IP6_UNKNOWN\<close>, and the zone that is selected for them.\<close>

definition ip6_addr_has_scope :: "ip_addr_t \<Rightarrow> bool" where
  "ip6_addr_has_scope a \<longleftrightarrow> addr0 a AND lwip_htonl 0xffc00000 = lwip_htonl 0xfe800000
     \<or> addr0 a AND lwip_htonl 0xff8f0000 = lwip_htonl 0xff010000 \<or> addr0 a AND lwip_htonl 0xff8f0000 = lwip_htonl 0xff020000"

definition ip6_addr_lacks_zone :: "ip_addr_t \<Rightarrow> bool" where
  "ip6_addr_lacks_zone a \<longleftrightarrow> zone a = 0 \<and> ip6_addr_has_scope a"

text \<open>\<open>route6 src dest\<close> is the index of the interface that \<open>ip6_route\<close> returns.\<close>

definition ip6_addr_select_zone :: "(ip_addr_t \<Rightarrow> ip_addr_t \<Rightarrow> u8 option) \<Rightarrow> ip_addr_t \<Rightarrow> ip_addr_t \<Rightarrow> ip_addr_t" where
  "ip6_addr_select_zone route6 dest src =
     (case route6 src dest of
        None \<Rightarrow> dest
      | Some idx \<Rightarrow> dest\<lparr>zone := (if ip6_addr_has_scope dest then idx else 0)\<rparr>)"

section \<open>Control blocks\<close>

definition UDP_LOCAL_PORT_RANGE_START :: u16 where "UDP_LOCAL_PORT_RANGE_START = 0xc000"
definition UDP_LOCAL_PORT_RANGE_END :: u16 where "UDP_LOCAL_PORT_RANGE_END = 0xffff"
definition UDP_TTL :: u8 where "UDP_TTL = 255"
definition UDP_FLAGS_NOCHKSUM :: u8 where "UDP_FLAGS_NOCHKSUM = 0x01"
definition UDP_FLAGS_CONNECTED :: u8 where "UDP_FLAGS_CONNECTED = 0x04"
definition UDP_FLAGS_MULTICAST_LOOP :: u8 where "UDP_FLAGS_MULTICAST_LOOP = 0x08"
definition NETIF_NO_INDEX :: u8 where "NETIF_NO_INDEX = 0"

record udp_pcb =
  local_ip :: ip_addr_t
  remote_ip :: ip_addr_t
  netif_idx :: u8
  so_options :: u8
  u_tos :: u8
  u_ttl :: u8
  u_flags :: u8
  local_port :: u16
  remote_port :: u16
  mcast_ip4 :: u32
  mcast_ifindex :: u8
  mcast_ttl :: u8
  recv :: "nat option"     \<comment> \<open>the callback, a function pointer\<close>
  recv_arg :: nat

record udp_state =
  udp_pcbs :: "nat list"
  udp_store :: "nat \<Rightarrow> udp_pcb option"
  udp_pool :: "nat list"
  udp_port :: u16

text \<open>The initial values of the variables, with the free control blocks \<open>as\<close>; \<open>udp_init\<close> changes nothing.\<close>

definition udp_start :: "nat list \<Rightarrow> udp_state" where
  "udp_start as = \<lparr>udp_pcbs = [], udp_store = \<lambda>_. None, udp_pool = as, udp_port = UDP_LOCAL_PORT_RANGE_START\<rparr>"

definition upd_pcb :: "nat \<Rightarrow> udp_pcb \<Rightarrow> udp_state \<Rightarrow> udp_state" where
  "upd_pcb a c s = s\<lparr>udp_store := (udp_store s)(a \<mapsto> c)\<rparr>"

subsection \<open>Local ports\<close>

fun port_taken :: "u16 \<Rightarrow> nat list \<Rightarrow> (nat \<Rightarrow> udp_pcb option) \<Rightarrow> bool option" where
  "port_taken port [] m = Some False"
| "port_taken port (a # as) m = do { c \<leftarrow> m a; if local_port c = port then Some True else port_taken port as m }"

definition next_port :: "u16 \<Rightarrow> u16" where
  "next_port port = (if port = UDP_LOCAL_PORT_RANGE_END then UDP_LOCAL_PORT_RANGE_START else port + 1)"

text \<open>\<open>n\<close> counts the ports found in use.\<close>

function new_port_loop :: "nat \<Rightarrow> udp_state \<Rightarrow> (u16 \<times> udp_state) option" where
  "new_port_loop n s =
     (let s = s\<lparr>udp_port := next_port (udp_port s)\<rparr> in
      case port_taken (udp_port s) (udp_pcbs s) (udp_store s) of
        None \<Rightarrow> None
      | Some t \<Rightarrow>
          if t then if n + 1 > unat (UDP_LOCAL_PORT_RANGE_END - UDP_LOCAL_PORT_RANGE_START) then Some (0, s) else new_port_loop (n + 1) s
          else Some (udp_port s, s))"
  by pat_completeness auto
termination
  by (relation "measure (\<lambda>(n, s). Suc (unat (UDP_LOCAL_PORT_RANGE_END - UDP_LOCAL_PORT_RANGE_START)) - n)") auto

declare new_port_loop.simps [simp del]

definition udp_new_port :: "udp_state \<Rightarrow> (u16 \<times> udp_state) option" where
  "udp_new_port s = new_port_loop 0 s"

subsection \<open>Binding\<close>

text \<open>The search for another control block with this port and an address that cannot be told apart.\<close>

fun bind_conflict :: "nat \<Rightarrow> ip_addr_t \<Rightarrow> u16 \<Rightarrow> nat list \<Rightarrow> (nat \<Rightarrow> udp_pcb option) \<Rightarrow> bool option" where
  "bind_conflict pcb ipaddr port [] m = Some False"
| "bind_conflict pcb ipaddr port (a # as) m =
     (if pcb = a then bind_conflict pcb ipaddr port as m
      else do { c \<leftarrow> m a;
        if local_port c = port \<and> (ip_addr_cmp (local_ip c) ipaddr \<or> ip_addr_isany ipaddr \<or> ip_addr_isany (local_ip c)) then Some True
        else bind_conflict pcb ipaddr port as m })"

definition bind_store :: "nat \<Rightarrow> ip_addr_t \<Rightarrow> u16 \<Rightarrow> udp_state \<Rightarrow> udp_state option" where
  "bind_store pcb ipaddr port s =
     do { c \<leftarrow> udp_store s pcb;
       let s' = upd_pcb pcb (c\<lparr>local_ip := ip_addr_set ipaddr, local_port := port\<rparr>) s in
       Some (if pcb \<in> set (udp_pcbs s) then s' else s'\<lparr>udp_pcbs := pcb # udp_pcbs s\<rparr>) }"

text \<open>The address is \<open>None\<close> for the null pointer.\<close>

definition udp_bind ::
  "(ip_addr_t \<Rightarrow> ip_addr_t \<Rightarrow> u8 option) \<Rightarrow> nat \<Rightarrow> ip_addr_t option \<Rightarrow> u16 \<Rightarrow> udp_state \<Rightarrow> (err \<times> udp_state) option" where
  "udp_bind route6 pcb ipaddr port s =
     (let ipaddr = (case ipaddr of None \<Rightarrow> ip4 0 | Some a \<Rightarrow> a);
          ipaddr = (if IP_IS_V6 ipaddr \<and> ip6_addr_lacks_zone ipaddr then ip6_addr_select_zone route6 ipaddr ipaddr else ipaddr) in
      if port = 0 then
        do { (port, s) \<leftarrow> udp_new_port s;
          if port = 0 then Some (ERR_USE, s) else do { s \<leftarrow> bind_store pcb ipaddr port s; Some (ERR_OK, s) } }
      else
        do { t \<leftarrow> bind_conflict pcb ipaddr port (udp_pcbs s) (udp_store s);
          if t then Some (ERR_USE, s) else do { s \<leftarrow> bind_store pcb ipaddr port s; Some (ERR_OK, s) } })"

text \<open>\<open>None\<close> is the null pointer, otherwise the argument is the index of the interface.\<close>

definition udp_bind_netif :: "nat \<Rightarrow> u8 option \<Rightarrow> udp_state \<Rightarrow> udp_state option" where
  "udp_bind_netif pcb idx s =
     do { c \<leftarrow> udp_store s pcb;
       Some (upd_pcb pcb (c\<lparr>netif_idx := (case idx of Some i \<Rightarrow> i | None \<Rightarrow> NETIF_NO_INDEX)\<rparr>) s) }"

subsection \<open>Connecting\<close>

definition udp_connect ::
  "(ip_addr_t \<Rightarrow> ip_addr_t \<Rightarrow> u8 option) \<Rightarrow> nat \<Rightarrow> ip_addr_t \<Rightarrow> u16 \<Rightarrow> udp_state \<Rightarrow> (err \<times> udp_state) option" where
  "udp_connect route6 pcb ipaddr port s =
     do { c \<leftarrow> udp_store s pcb;
       (err, s) \<leftarrow> (if local_port c = 0 then udp_bind route6 pcb (Some (local_ip c)) (local_port c) s else Some (ERR_OK, s));
       if err \<noteq> ERR_OK then Some (err, s)
       else do { c \<leftarrow> udp_store s pcb;
         let r = ip_addr_set ipaddr;
             r = (if IP_IS_V6 r \<and> ip6_addr_lacks_zone r then ip6_addr_select_zone route6 r (local_ip c) else r);
             s = upd_pcb pcb (c\<lparr>remote_ip := r, remote_port := port, u_flags := u_flags c OR UDP_FLAGS_CONNECTED\<rparr>) s in
         Some (ERR_OK, if pcb \<in> set (udp_pcbs s) then s else s\<lparr>udp_pcbs := pcb # udp_pcbs s\<rparr>) } }"

definition udp_disconnect :: "nat \<Rightarrow> udp_state \<Rightarrow> udp_state option" where
  "udp_disconnect pcb s =
     do { c \<leftarrow> udp_store s pcb;
       let r = (if ip_type (local_ip c) = IPADDR_TYPE_ANY then ip_addr_set IP_ANY_TYPE else ip_addr_set_any (IP_IS_V6 (remote_ip c))) in
       Some (upd_pcb pcb (c\<lparr>remote_ip := r, remote_port := 0, netif_idx := NETIF_NO_INDEX,
         u_flags := u_flags c AND NOT UDP_FLAGS_CONNECTED\<rparr>) s) }"

definition udp_recv :: "nat \<Rightarrow> nat option \<Rightarrow> nat \<Rightarrow> udp_state \<Rightarrow> udp_state option" where
  "udp_recv pcb fn arg s = do { c \<leftarrow> udp_store s pcb; Some (upd_pcb pcb (c\<lparr>recv := fn, recv_arg := arg\<rparr>) s) }"

subsection \<open>Creating and removing\<close>

definition udp_new :: "udp_state \<Rightarrow> nat option \<times> udp_state" where
  "udp_new s =
     (case udp_pool s of
        [] \<Rightarrow> (None, s)
      | a # as \<Rightarrow>
          (Some a, upd_pcb a \<lparr>local_ip = ip4 0, remote_ip = ip4 0, netif_idx = 0, so_options = 0, u_tos = 0, u_ttl = UDP_TTL,
             u_flags = 0, local_port = 0, remote_port = 0, mcast_ip4 = 0, mcast_ifindex = 0, mcast_ttl = UDP_TTL,
             recv = None, recv_arg = 0\<rparr> (s\<lparr>udp_pool := as\<rparr>)))"

definition udp_new_ip_type :: "ip_type \<Rightarrow> udp_state \<Rightarrow> (nat option \<times> udp_state) option" where
  "udp_new_ip_type t s =
     (case udp_new s of
        (None, s) \<Rightarrow> Some (None, s)
      | (Some a, s) \<Rightarrow>
          do { c \<leftarrow> udp_store s a;
            Some (Some a, upd_pcb a (c\<lparr>local_ip := (local_ip c)\<lparr>ip_type := t\<rparr>, remote_ip := (remote_ip c)\<lparr>ip_type := t\<rparr>\<rparr>) s) })"

text \<open>The settings an application makes through macros.\<close>

definition udp_setflags :: "nat \<Rightarrow> u8 \<Rightarrow> udp_state \<Rightarrow> udp_state option" where
  "udp_setflags pcb f s = do { c \<leftarrow> udp_store s pcb; Some (upd_pcb pcb (c\<lparr>u_flags := f\<rparr>) s) }"

definition udp_set_multicast_netif_addr :: "nat \<Rightarrow> u32 \<Rightarrow> udp_state \<Rightarrow> udp_state option" where
  "udp_set_multicast_netif_addr pcb ip4addr s = do { c \<leftarrow> udp_store s pcb; Some (upd_pcb pcb (c\<lparr>mcast_ip4 := ip4addr\<rparr>) s) }"

definition udp_set_multicast_netif_index :: "nat \<Rightarrow> u8 \<Rightarrow> udp_state \<Rightarrow> udp_state option" where
  "udp_set_multicast_netif_index pcb idx s = do { c \<leftarrow> udp_store s pcb; Some (upd_pcb pcb (c\<lparr>mcast_ifindex := idx\<rparr>) s) }"

definition udp_set_multicast_ttl :: "nat \<Rightarrow> u8 \<Rightarrow> udp_state \<Rightarrow> udp_state option" where
  "udp_set_multicast_ttl pcb v s = do { c \<leftarrow> udp_store s pcb; Some (upd_pcb pcb (c\<lparr>mcast_ttl := v\<rparr>) s) }"

text \<open>Removing a control block that is not in the list changes nothing but the pool.\<close>

definition udp_remove :: "nat \<Rightarrow> udp_state \<Rightarrow> udp_state option" where
  "udp_remove pcb s =
     do { c \<leftarrow> udp_store s pcb;
       Some (s\<lparr>udp_pcbs := remove1 pcb (udp_pcbs s), udp_store := (udp_store s)(pcb := None), udp_pool := pcb # udp_pool s\<rparr>) }"

text \<open>What \<open>udp_input\<close> does with a control block that matches perfectly: it is moved to the front.\<close>

definition udp_to_front :: "nat \<Rightarrow> udp_state \<Rightarrow> udp_state" where
  "udp_to_front pcb s = s\<lparr>udp_pcbs := pcb # remove1 pcb (udp_pcbs s)\<rparr>"

text \<open>The address of an interface has changed.\<close>

fun addr_changed_loop :: "ip_addr_t \<Rightarrow> ip_addr_t \<Rightarrow> nat list \<Rightarrow> udp_state \<Rightarrow> udp_state option" where
  "addr_changed_loop old_addr new_addr [] s = Some s"
| "addr_changed_loop old_addr new_addr (a # as) s =
     do { c \<leftarrow> udp_store s a;
       addr_changed_loop old_addr new_addr as
         (if ip_addr_cmp (local_ip c) old_addr then upd_pcb a (c\<lparr>local_ip := ip_addr_set new_addr\<rparr>) s else s) }"

definition udp_netif_ip_addr_changed :: "ip_addr_t \<Rightarrow> ip_addr_t \<Rightarrow> udp_state \<Rightarrow> udp_state option" where
  "udp_netif_ip_addr_changed old_addr new_addr s =
     (if \<not> ip_addr_isany old_addr \<and> \<not> ip_addr_isany new_addr then addr_changed_loop old_addr new_addr (udp_pcbs s) s else Some s)"

section \<open>No two control blocks are bound alike\<close>

text \<open>
  A control block is in the list exactly when it has a local port; two of them never share a port
  unless both have an address of their own and the addresses differ.
\<close>

definition apart :: "udp_pcb \<Rightarrow> udp_pcb \<Rightarrow> bool" where
  "apart c d \<longleftrightarrow> local_port c \<noteq> local_port d
     \<or> \<not> ip_addr_cmp (local_ip c) (local_ip d) \<and> \<not> ip_addr_isany (local_ip c) \<and> \<not> ip_addr_isany (local_ip d)"

definition bound_apart :: "udp_state \<Rightarrow> bool" where
  "bound_apart s \<longleftrightarrow> (\<forall>a b c d. a \<in> set (udp_pcbs s) \<and> b \<in> set (udp_pcbs s) \<and> a \<noteq> b
     \<and> udp_store s a = Some c \<and> udp_store s b = Some d \<longrightarrow> apart c d)"

definition udp_wf :: "udp_state \<Rightarrow> bool" where
  "udp_wf s \<longleftrightarrow> distinct (udp_pcbs s) \<and> distinct (udp_pool s) \<and> (\<forall>a \<in> set (udp_pool s). udp_store s a = None)
     \<and> (\<forall>a \<in> set (udp_pcbs s). udp_store s a \<noteq> None)
     \<and> (\<forall>a c. udp_store s a = Some c \<longrightarrow> (local_port c \<noteq> 0 \<longleftrightarrow> a \<in> set (udp_pcbs s)))
     \<and> UDP_LOCAL_PORT_RANGE_START \<le> udp_port s \<and> bound_apart s"

lemma udp_wfI:
  assumes "distinct (udp_pcbs s)" and "distinct (udp_pool s)" and "\<And>a. a \<in> set (udp_pool s) \<Longrightarrow> udp_store s a = None"
    and "\<And>a. a \<in> set (udp_pcbs s) \<Longrightarrow> udp_store s a \<noteq> None"
    and "\<And>a c. udp_store s a = Some c \<Longrightarrow> local_port c \<noteq> 0 \<longleftrightarrow> a \<in> set (udp_pcbs s)"
    and "UDP_LOCAL_PORT_RANGE_START \<le> udp_port s"
    and "\<And>a b c d. a \<in> set (udp_pcbs s) \<Longrightarrow> b \<in> set (udp_pcbs s) \<Longrightarrow> a \<noteq> b
      \<Longrightarrow> udp_store s a = Some c \<Longrightarrow> udp_store s b = Some d \<Longrightarrow> apart c d"
  shows "udp_wf s"
  using assms unfolding udp_wf_def bound_apart_def by blast

lemma udp_wfD:
  assumes "udp_wf s"
  shows "distinct (udp_pcbs s)" and "distinct (udp_pool s)" and "a \<in> set (udp_pool s) \<Longrightarrow> udp_store s a = None"
    and "a \<in> set (udp_pcbs s) \<Longrightarrow> \<exists>c. udp_store s a = Some c"
    and "udp_store s a = Some c \<Longrightarrow> local_port c \<noteq> 0 \<longleftrightarrow> a \<in> set (udp_pcbs s)"
    and "UDP_LOCAL_PORT_RANGE_START \<le> udp_port s"
    and "a \<in> set (udp_pcbs s) \<Longrightarrow> b \<in> set (udp_pcbs s) \<Longrightarrow> a \<noteq> b
      \<Longrightarrow> udp_store s a = Some c \<Longrightarrow> udp_store s b = Some d \<Longrightarrow> apart c d"
  using assms unfolding udp_wf_def bound_apart_def by blast+

lemma apart_sym: "apart c d \<Longrightarrow> apart d c"
  by (auto simp: apart_def ip_addr_cmp_def IP_IS_V6_def split: if_splits)

lemma upd_pcb_fields [simp]:
  "udp_pcbs (upd_pcb a c s) = udp_pcbs s" "udp_pool (upd_pcb a c s) = udp_pool s" "udp_port (upd_pcb a c s) = udp_port s"
  "udp_store (upd_pcb a c s) b = (if b = a then Some c else udp_store s b)"
  by (simp_all add: upd_pcb_def)

subsection \<open>New ports\<close>

lemma port_taken_spec:
  assumes "\<forall>a \<in> set as. m a \<noteq> None"
  shows "\<exists>t. port_taken port as m = Some t \<and> (t \<longleftrightarrow> (\<exists>a c. a \<in> set as \<and> m a = Some c \<and> local_port c = port))"
  using assms
proof (induction as)
  case (Cons a as)
  then obtain c t where *: "m a = Some c" "port_taken port as m = Some t" "t \<longleftrightarrow> (\<exists>a c. a \<in> set as \<and> m a = Some c \<and> local_port c = port)"
    by auto
  show ?case
  proof (cases "local_port c = port")
    case True
    then show ?thesis using *(1) by auto
  next
    case False
    then have "port_taken port (a # as) m = Some t" using *(1,2) by simp
    moreover have "(\<exists>b c. b \<in> set (a # as) \<and> m b = Some c \<and> local_port c = port) \<longleftrightarrow> t" using False *(1,3) by auto
    ultimately show ?thesis by blast
  qed
qed (auto intro: exI [of _ False])

lemma port_index: "UDP_LOCAL_PORT_RANGE_START \<le> p \<Longrightarrow> unat p - 0xc000 < 0x4000 \<and> unat p = 0xc000 + (unat p - 0xc000)"
  using unat_u16_less [of p] word_le_nat_alt [of "0xc000" p] unfolding UDP_LOCAL_PORT_RANGE_START_def by (simp del: unat_u16_less)

lemma next_port_index:
  assumes "UDP_LOCAL_PORT_RANGE_START \<le> p"
  shows "unat (next_port p) = 0xc000 + (unat p - 0xc000 + 1) mod 0x4000"
proof (cases "p = UDP_LOCAL_PORT_RANGE_END")
  case True
  then show ?thesis by (simp add: next_port_def UDP_LOCAL_PORT_RANGE_START_def UDP_LOCAL_PORT_RANGE_END_def)
next
  case False
  have "unat p \<noteq> 65535"
  proof
    assume "unat p = 65535"
    then have "unat p = unat UDP_LOCAL_PORT_RANGE_END" by (simp add: UDP_LOCAL_PORT_RANGE_END_def)
    with False show False by (simp add: word_unat_eq_iff)
  qed
  then have l: "unat p < 65535" using unat_u16_less [of p] by linarith
  then have "unat (p + 1) = unat p + 1" by (simp add: unat_word_ariths)
  moreover have "(unat p - 0xc000 + 1) mod 0x4000 = unat p - 0xc000 + 1" using l by simp
  ultimately show ?thesis using False port_index [OF assms] by (simp add: next_port_def)
qed

lemma next_port_range: "UDP_LOCAL_PORT_RANGE_START \<le> p \<Longrightarrow> UDP_LOCAL_PORT_RANGE_START \<le> next_port p"
  using next_port_index [of p] by (simp add: UDP_LOCAL_PORT_RANGE_START_def word_le_nat_alt)

lemma next_ports:
  assumes "UDP_LOCAL_PORT_RANGE_START \<le> p"
  shows "UDP_LOCAL_PORT_RANGE_START \<le> (next_port ^^ k) p \<and> unat ((next_port ^^ k) p) = 0xc000 + (unat p - 0xc000 + k) mod 0x4000"
proof (induction k)
  case 0
  then show ?case using assms port_index [OF assms] by simp
next
  case (Suc k)
  then show ?case
    using next_port_index [of "(next_port ^^ k) p"] next_port_range [of "(next_port ^^ k) p"] by (simp add: mod_Suc_eq)
qed

text \<open>Every port of the range is reached within one round.\<close>

lemma next_ports_all:
  assumes "UDP_LOCAL_PORT_RANGE_START \<le> p" and "UDP_LOCAL_PORT_RANGE_START \<le> q"
  shows "\<exists>k \<le> 0x3fff. (next_port ^^ Suc k) p = q"
proof -
  let ?i = "unat p - 0xc000" and ?j = "unat q - 0xc000"
  have r: "?i < 0x4000" "?j < 0x4000" using port_index assms by blast+
  let ?k = "(?j + 0x3fff - ?i) mod 0x4000"
  have "(?i + Suc ?k) mod 0x4000 = (?i + Suc (?j + 0x3fff - ?i)) mod 0x4000" by (metis add_Suc_right mod_Suc_eq mod_add_right_eq)
  also have "?i + Suc (?j + 0x3fff - ?i) = ?j + 0x4000" using r by linarith
  also have "(?j + 0x4000) mod 0x4000 = ?j" using r by simp
  finally have "unat ((next_port ^^ Suc ?k) p) = unat q"
    using next_ports [OF assms(1), of "Suc ?k"] port_index [OF assms(2)] by linarith
  then have "(next_port ^^ Suc ?k) p = q" by (simp only: word_unat_eq_iff)
  moreover have "?k < 0x4000" by simp
  then have "?k \<le> 0x3fff" by linarith
  ultimately show ?thesis by blast
qed

definition port_used :: "u16 \<Rightarrow> udp_state \<Rightarrow> bool" where
  "port_used port s \<longleftrightarrow> (\<exists>a c. a \<in> set (udp_pcbs s) \<and> udp_store s a = Some c \<and> local_port c = port)"

lemma port_used_cong [simp]: "port_used q (s\<lparr>udp_port := p\<rparr>) = port_used q s"
  by (simp add: port_used_def)

lemma new_port_loop_spec:
  assumes "\<forall>a \<in> set (udp_pcbs s). udp_store s a \<noteq> None" and "UDP_LOCAL_PORT_RANGE_START \<le> udp_port s" and "n \<le> 0x3fff"
  shows "\<exists>port p'. new_port_loop n s = Some (port, s\<lparr>udp_port := p'\<rparr>) \<and> UDP_LOCAL_PORT_RANGE_START \<le> p'
    \<and> (port = p' \<and> \<not> port_used port s \<or> port = 0 \<and> (\<forall>k. n + k \<le> 0x3fff \<longrightarrow> port_used ((next_port ^^ Suc k) (udp_port s)) s))"
  using assms
proof (induction n s rule: new_port_loop.induct)
  case (1 n s)
  let ?s = "s\<lparr>udp_port := next_port (udp_port s)\<rparr>"
  have r: "UDP_LOCAL_PORT_RANGE_START \<le> next_port (udp_port s)" using next_port_range [OF "1.prems"(2)] .
  obtain t where t: "port_taken (udp_port ?s) (udp_pcbs ?s) (udp_store ?s) = Some t" "t \<longleftrightarrow> port_used (next_port (udp_port s)) s"
    using port_taken_spec [OF "1.prems"(1), of "udp_port ?s"] by (auto simp: port_used_def)
  have e: "unat (UDP_LOCAL_PORT_RANGE_END - UDP_LOCAL_PORT_RANGE_START) = 0x3fff"
    by (simp add: UDP_LOCAL_PORT_RANGE_START_def UDP_LOCAL_PORT_RANGE_END_def)
  consider "\<not> t" | "t" "n = 0x3fff" | "t" "n < 0x3fff" using "1.prems"(3) by linarith
  then show ?case
  proof cases
    case 1
    then show ?thesis using t r new_port_loop.simps [of n s] by auto
  next
    case 2
    then have "new_port_loop n s = Some (0, ?s)" using t(1) e new_port_loop.simps [of n s] by simp
    then show ?thesis using t(2) r 2 by auto
  next
    case 3
    have step: "new_port_loop n s = new_port_loop (n + 1) ?s" using t(1) e 3 new_port_loop.simps [of n s] by simp
    have "\<exists>port p'. new_port_loop (n + 1) ?s = Some (port, ?s\<lparr>udp_port := p'\<rparr>) \<and> UDP_LOCAL_PORT_RANGE_START \<le> p'
        \<and> (port = p' \<and> \<not> port_used port ?s
           \<or> port = 0 \<and> (\<forall>k. n + 1 + k \<le> 0x3fff \<longrightarrow> port_used ((next_port ^^ Suc k) (udp_port ?s)) ?s))"
      by (rule "1.IH" [OF refl t(1)]) (use 3 e "1.prems" r in simp_all)
    then obtain port p' where o: "new_port_loop (n + 1) ?s = Some (port, ?s\<lparr>udp_port := p'\<rparr>)" "UDP_LOCAL_PORT_RANGE_START \<le> p'"
      "port = p' \<and> \<not> port_used port s
        \<or> port = 0 \<and> (\<forall>k. n + 1 + k \<le> 0x3fff \<longrightarrow> port_used ((next_port ^^ Suc k) (next_port (udp_port s))) s)" by auto
    have all: "port_used ((next_port ^^ Suc k) (udp_port s)) s"
      if k: "n + k \<le> 0x3fff" and a: "\<forall>k. n + 1 + k \<le> 0x3fff \<longrightarrow> port_used ((next_port ^^ Suc k) (next_port (udp_port s))) s" for k
    proof (cases k)
      case 0
      then show ?thesis using t(2) 3(1) by simp
    next
      case (Suc j)
      then show ?thesis using spec [OF a, of j] k by (simp add: funpow_Suc_right del: funpow.simps)
    qed
    from o(3) show ?thesis
    proof
      assume "port = p' \<and> \<not> port_used port s"
      then show ?thesis using o(1,2) step by auto
    next
      assume "port = 0 \<and> (\<forall>k. n + 1 + k \<le> 0x3fff \<longrightarrow> port_used ((next_port ^^ Suc k) (next_port (udp_port s))) s)"
      then show ?thesis using o(1,2) step all by (simp del: funpow.simps) blast
    qed
  qed
qed

lemma udp_new_port_spec:
  assumes "udp_wf s"
  shows "\<exists>port p'. udp_new_port s = Some (port, s\<lparr>udp_port := p'\<rparr>) \<and> UDP_LOCAL_PORT_RANGE_START \<le> p'
    \<and> (port \<noteq> 0 \<and> port = p' \<and> \<not> port_used port s \<or> port = 0 \<and> (\<forall>q \<ge> UDP_LOCAL_PORT_RANGE_START. port_used q s))"
proof -
  have "\<forall>a \<in> set (udp_pcbs s). udp_store s a \<noteq> None" using udp_wfD(4) [OF assms] by auto
  from new_port_loop_spec [OF this udp_wfD(6) [OF assms], of 0] obtain port p' where
    o: "udp_new_port s = Some (port, s\<lparr>udp_port := p'\<rparr>)" "UDP_LOCAL_PORT_RANGE_START \<le> p'"
      "port = p' \<and> \<not> port_used port s \<or> port = 0 \<and> (\<forall>k \<le> 0x3fff. port_used ((next_port ^^ Suc k) (udp_port s)) s)"
    unfolding udp_new_port_def by auto
  have "p' \<noteq> 0" using o(2) by (auto simp: UDP_LOCAL_PORT_RANGE_START_def)
  then show ?thesis using o next_ports_all [OF udp_wfD(6) [OF assms]] by metis
qed

subsection \<open>Binding keeps them apart\<close>

lemma ip_addr_set_same [simp]:
  "ip_addr_cmp a (ip_addr_set b) = ip_addr_cmp a b" "ip_addr_isany (ip_addr_set b) = ip_addr_isany b" "IP_IS_V6 (ip_addr_set b) = IP_IS_V6 b"
  by (simp_all add: ip_addr_set_def ip_addr_cmp_def ip_addr_isany_def ip_clear_no4_def IP_IS_V6_def)

definition alike :: "ip_addr_t \<Rightarrow> ip_addr_t \<Rightarrow> bool" where
  "alike a b \<longleftrightarrow> ip_addr_cmp a b \<or> ip_addr_isany b \<or> ip_addr_isany a"

lemma apart_alike: "apart c d \<longleftrightarrow> local_port c \<noteq> local_port d \<or> \<not> alike (local_ip c) (local_ip d)"
  by (auto simp: apart_def alike_def)

lemma bind_conflict_spec:
  assumes "\<forall>a \<in> set as. m a \<noteq> None"
  shows "\<exists>t. bind_conflict pcb ipaddr port as m = Some t
    \<and> (t \<longleftrightarrow> (\<exists>a c. a \<in> set as \<and> a \<noteq> pcb \<and> m a = Some c \<and> local_port c = port \<and> alike (local_ip c) ipaddr))"
  using assms
proof (induction as)
  case (Cons a as)
  then obtain c t where *: "m a = Some c" "bind_conflict pcb ipaddr port as m = Some t"
    "t \<longleftrightarrow> (\<exists>a c. a \<in> set as \<and> a \<noteq> pcb \<and> m a = Some c \<and> local_port c = port \<and> alike (local_ip c) ipaddr)" by auto
  show ?case
  proof (cases "pcb \<noteq> a \<and> local_port c = port \<and> alike (local_ip c) ipaddr")
    case True
    then show ?thesis using *(1) by (auto simp: alike_def)
  next
    case False
    then have "bind_conflict pcb ipaddr port (a # as) m = Some t" using *(1,2) by (auto simp: alike_def)
    moreover have "(\<exists>b c. b \<in> set (a # as) \<and> b \<noteq> pcb \<and> m b = Some c \<and> local_port c = port \<and> alike (local_ip c) ipaddr) \<longleftrightarrow> t"
      using False *(1,3) by auto
    ultimately show ?thesis by blast
  qed
qed (auto intro: exI [of _ False])

text \<open>Replacing one control block keeps the rest; the new one must be apart from all others.\<close>

lemma udp_wf_put:
  assumes "udp_wf s" and "udp_store s pcb = Some c" and "local_port d \<noteq> 0" and "ps = (if pcb \<in> set (udp_pcbs s) then udp_pcbs s else pcb # udp_pcbs s)"
    and "\<And>a e. a \<in> set (udp_pcbs s) \<Longrightarrow> a \<noteq> pcb \<Longrightarrow> udp_store s a = Some e \<Longrightarrow> apart e d"
  shows "udp_wf ((upd_pcb pcb d s)\<lparr>udp_pcbs := ps\<rparr>)"
proof (rule udp_wfI)
  note w = udp_wfD [OF assms(1)]
  show "distinct (udp_pcbs ((upd_pcb pcb d s)\<lparr>udp_pcbs := ps\<rparr>))" using w(1) assms(4) by simp
  show "distinct (udp_pool ((upd_pcb pcb d s)\<lparr>udp_pcbs := ps\<rparr>))" using w(2) by simp
  show "udp_store ((upd_pcb pcb d s)\<lparr>udp_pcbs := ps\<rparr>) a = None" if "a \<in> set (udp_pool ((upd_pcb pcb d s)\<lparr>udp_pcbs := ps\<rparr>))" for a
    using that w(3) [of a] assms(2) by (auto simp: upd_pcb_def)
  show "udp_store ((upd_pcb pcb d s)\<lparr>udp_pcbs := ps\<rparr>) a \<noteq> None" if "a \<in> set (udp_pcbs ((upd_pcb pcb d s)\<lparr>udp_pcbs := ps\<rparr>))" for a
    using that w(4) [of a] assms(4) by (auto simp: upd_pcb_def split: if_splits)
  show "local_port e \<noteq> 0 \<longleftrightarrow> a \<in> set (udp_pcbs ((upd_pcb pcb d s)\<lparr>udp_pcbs := ps\<rparr>))"
    if "udp_store ((upd_pcb pcb d s)\<lparr>udp_pcbs := ps\<rparr>) a = Some e" for a e
    using that w(5) [of a e] assms(3,4) by (auto simp: upd_pcb_def split: if_splits)
  show "UDP_LOCAL_PORT_RANGE_START \<le> udp_port ((upd_pcb pcb d s)\<lparr>udp_pcbs := ps\<rparr>)" using w(6) by simp
  show "apart x y" if "a \<in> set (udp_pcbs ((upd_pcb pcb d s)\<lparr>udp_pcbs := ps\<rparr>))" "b \<in> set (udp_pcbs ((upd_pcb pcb d s)\<lparr>udp_pcbs := ps\<rparr>))" "a \<noteq> b"
    "udp_store ((upd_pcb pcb d s)\<lparr>udp_pcbs := ps\<rparr>) a = Some x" "udp_store ((upd_pcb pcb d s)\<lparr>udp_pcbs := ps\<rparr>) b = Some y" for a b x y
    using that w(7) [of a b x y] assms(4) assms(5) [of a x] apart_sym [OF assms(5) [of b y]]
    by (auto simp: upd_pcb_def split: if_splits)
qed

lemma upd_pcb_same_list: "(upd_pcb a c s)\<lparr>udp_pcbs := udp_pcbs s\<rparr> = upd_pcb a c s"
  by (simp add: upd_pcb_def)

text \<open>What a successful bind has done.\<close>

definition bound_to :: "nat \<Rightarrow> udp_pcb \<Rightarrow> udp_state \<Rightarrow> udp_state \<Rightarrow> bool" where
  "bound_to pcb d s t \<longleftrightarrow> udp_wf t \<and> udp_store t pcb = Some d \<and> pcb \<in> set (udp_pcbs t) \<and> udp_pool t = udp_pool s
     \<and> (\<forall>a. a \<noteq> pcb \<longrightarrow> udp_store t a = udp_store s a \<and> (a \<in> set (udp_pcbs t) \<longleftrightarrow> a \<in> set (udp_pcbs s)))"

lemma bind_store_spec:
  assumes "udp_wf s" and "udp_store s pcb = Some c" and "port \<noteq> 0"
    and "\<And>a e. a \<in> set (udp_pcbs s) \<Longrightarrow> a \<noteq> pcb \<Longrightarrow> udp_store s a = Some e \<Longrightarrow> local_port e = port \<Longrightarrow> \<not> alike (local_ip e) ipaddr"
  shows "\<exists>t. bind_store pcb ipaddr port s = Some t \<and> bound_to pcb (c\<lparr>local_ip := ip_addr_set ipaddr, local_port := port\<rparr>) s t"
proof -
  let ?d = "c\<lparr>local_ip := ip_addr_set ipaddr, local_port := port\<rparr>"
  let ?ps = "if pcb \<in> set (udp_pcbs s) then udp_pcbs s else pcb # udp_pcbs s"
  have "udp_wf ((upd_pcb pcb ?d s)\<lparr>udp_pcbs := ?ps\<rparr>)"
    by (rule udp_wf_put [OF assms(1,2)]) (use assms(3,4) in \<open>auto simp: apart_alike alike_def\<close>)
  moreover have "bind_store pcb ipaddr port s = Some ((upd_pcb pcb ?d s)\<lparr>udp_pcbs := ?ps\<rparr>)"
    using assms(2) by (simp add: bind_store_def upd_pcb_same_list)
  ultimately show ?thesis by (auto simp: bound_to_def)
qed

lemma udp_wf_port: "udp_wf s \<Longrightarrow> UDP_LOCAL_PORT_RANGE_START \<le> p \<Longrightarrow> udp_wf (s\<lparr>udp_port := p\<rparr>)"
  by (simp add: udp_wf_def bound_apart_def)

lemma bound_to_port: "bound_to pcb d (s\<lparr>udp_port := p\<rparr>) t = bound_to pcb d s t"
  by (simp add: bound_to_def)

definition zoned :: "(ip_addr_t \<Rightarrow> ip_addr_t \<Rightarrow> u8 option) \<Rightarrow> ip_addr_t \<Rightarrow> ip_addr_t" where
  "zoned route6 a = (if IP_IS_V6 a \<and> ip6_addr_lacks_zone a then ip6_addr_select_zone route6 a a else a)"

text \<open>Every call returns; it fails exactly when the address is taken or no port is left, and then binds nothing.\<close>

lemma udp_bind_spec:
  assumes "udp_wf s" and "udp_store s pcb = Some c"
  shows "\<exists>err t. udp_bind route6 pcb (Some ipaddr) port s = Some (err, t)
    \<and> (err = ERR_OK \<and> (\<exists>p. (if port = 0 then UDP_LOCAL_PORT_RANGE_START \<le> p \<and> \<not> port_used p s else p = port)
           \<and> bound_to pcb (c\<lparr>local_ip := ip_addr_set (zoned route6 ipaddr), local_port := p\<rparr>) s t)
       \<or> err = ERR_USE \<and> (\<exists>p'. t = s\<lparr>udp_port := p'\<rparr> \<and> UDP_LOCAL_PORT_RANGE_START \<le> p')
         \<and> (if port = 0 then \<forall>q \<ge> UDP_LOCAL_PORT_RANGE_START. port_used q s
            else \<exists>a d. a \<in> set (udp_pcbs s) \<and> a \<noteq> pcb \<and> udp_store s a = Some d \<and> local_port d = port
              \<and> alike (local_ip d) (zoned route6 ipaddr)))"
proof (cases "port = 0")
  case True
  obtain q p' where n: "udp_new_port s = Some (q, s\<lparr>udp_port := p'\<rparr>)" "UDP_LOCAL_PORT_RANGE_START \<le> p'"
    "q \<noteq> 0 \<and> q = p' \<and> \<not> port_used q s \<or> q = 0 \<and> (\<forall>q \<ge> UDP_LOCAL_PORT_RANGE_START. port_used q s)"
    using udp_new_port_spec [OF assms(1)] by blast
  show ?thesis
  proof (cases "q = 0")
    case True
    then show ?thesis using n \<open>port = 0\<close> by (auto simp: udp_bind_def)
  next
    case False
    let ?s = "s\<lparr>udp_port := p'\<rparr>"
    obtain t where "bind_store pcb (zoned route6 ipaddr) q ?s = Some t"
      "bound_to pcb (c\<lparr>local_ip := ip_addr_set (zoned route6 ipaddr), local_port := q\<rparr>) ?s t"
      using bind_store_spec [OF udp_wf_port [OF assms(1) n(2)], of pcb c q "zoned route6 ipaddr"] assms(2) False n(3)
      by (auto simp: port_used_def)
    then show ?thesis using n \<open>port = 0\<close> False by (auto simp: udp_bind_def zoned_def bound_to_port)
  qed
next
  case False
  have "\<forall>a \<in> set (udp_pcbs s). udp_store s a \<noteq> None" using udp_wfD(4) [OF assms(1)] by auto
  from bind_conflict_spec [OF this, of pcb "zoned route6 ipaddr" port] obtain t where
    t: "bind_conflict pcb (zoned route6 ipaddr) port (udp_pcbs s) (udp_store s) = Some t"
      "t \<longleftrightarrow> (\<exists>a c. a \<in> set (udp_pcbs s) \<and> a \<noteq> pcb \<and> udp_store s a = Some c \<and> local_port c = port \<and> alike (local_ip c) (zoned route6 ipaddr))"
    by blast
  show ?thesis
  proof (cases t)
    case True
    have "udp_bind route6 pcb (Some ipaddr) port s = Some (ERR_USE, s)" using t(1) True False by (simp add: udp_bind_def zoned_def)
    moreover have "s = s\<lparr>udp_port := udp_port s\<rparr>" by simp
    ultimately show ?thesis using t(2) True False udp_wfD(6) [OF assms(1)] by metis
  next
    case no: False
    obtain u where "bind_store pcb (zoned route6 ipaddr) port s = Some u"
      "bound_to pcb (c\<lparr>local_ip := ip_addr_set (zoned route6 ipaddr), local_port := port\<rparr>) s u"
      using bind_store_spec [OF assms(1,2) False, of "zoned route6 ipaddr"] t(2) no by blast
    then show ?thesis using t(1) no False by (auto simp: udp_bind_def zoned_def)
  qed
qed

section \<open>Every run\<close>

inductive udp_step :: "(ip_addr_t \<Rightarrow> ip_addr_t \<Rightarrow> u8 option) \<Rightarrow> udp_state \<Rightarrow> udp_state \<Rightarrow> bool" for route6 where
  create: "udp_new s = (q, t) \<Longrightarrow> udp_step route6 s t"
| create_type: "udp_new_ip_type ty s = Some (q, t) \<Longrightarrow> udp_step route6 s t"
| bind: "udp_bind route6 pcb ipaddr port s = Some (err, t) \<Longrightarrow> udp_step route6 s t"
| bind_netif: "udp_bind_netif pcb idx s = Some t \<Longrightarrow> udp_step route6 s t"
| connect: "udp_connect route6 pcb ip port s = Some (err, t) \<Longrightarrow> udp_step route6 s t"
| disconnect: "udp_disconnect pcb s = Some t \<Longrightarrow> udp_step route6 s t"
| set_recv: "udp_recv pcb fn arg s = Some t \<Longrightarrow> udp_step route6 s t"
| set_flags: "udp_setflags pcb f s = Some t \<Longrightarrow> udp_step route6 s t"
| set_mcast_addr: "udp_set_multicast_netif_addr pcb addr s = Some t \<Longrightarrow> udp_step route6 s t"
| set_mcast_index: "udp_set_multicast_netif_index pcb idx s = Some t \<Longrightarrow> udp_step route6 s t"
| set_mcast_ttl: "udp_set_multicast_ttl pcb v s = Some t \<Longrightarrow> udp_step route6 s t"
| remove: "udp_remove pcb s = Some t \<Longrightarrow> udp_step route6 s t"
| to_front: "pcb \<in> set (udp_pcbs s) \<Longrightarrow> udp_step route6 s (udp_to_front pcb s)"

lemma udp_wf_unbound:
  assumes "udp_wf s" and "udp_store s a = Some c" and "a \<notin> set (udp_pcbs s)" and "local_port d = 0"
  shows "udp_wf (upd_pcb a d s)"
  by (rule udp_wfI) (use assms(2-4) udp_wfD [OF assms(1)] in \<open>auto split: if_splits\<close>)

text \<open>Changing anything but the local address and port.\<close>

lemma udp_wf_upd:
  assumes "udp_wf s" and "udp_store s a = Some c" and "local_ip d = local_ip c" and "local_port d = local_port c"
  shows "udp_wf (upd_pcb a d s)"
proof (cases "a \<in> set (udp_pcbs s)")
  case True
  have "udp_wf ((upd_pcb a d s)\<lparr>udp_pcbs := udp_pcbs s\<rparr>)"
  proof (rule udp_wf_put [OF assms(1,2)])
    show "local_port d \<noteq> 0" using True udp_wfD(5) [OF assms(1,2)] assms(4) by simp
    show "apart e d" if "b \<in> set (udp_pcbs s)" "b \<noteq> a" "udp_store s b = Some e" for b e
      using udp_wfD(7) [OF assms(1) that(1) True that(2,3) assms(2)] assms(3,4) by (simp add: apart_def)
  qed (use True in simp)
  then show ?thesis by (simp add: upd_pcb_same_list)
next
  case False
  then have "local_port d = 0" using udp_wfD(5) [OF assms(1,2)] assms(4) by simp
  with udp_wf_unbound [OF assms(1,2) False] show ?thesis by blast
qed

lemma udp_new_wf: "udp_wf s \<Longrightarrow> udp_new s = (q, t) \<Longrightarrow> udp_wf t \<and> (\<forall>a. q = Some a \<longrightarrow> udp_store s a = None
    \<and> (\<exists>c. udp_store t a = Some c \<and> local_port c = 0 \<and> local_ip c = ip4 0 \<and> remote_ip c = ip4 0))"
proof (cases "udp_pool s")
  case (Cons a as)
  assume w: "udp_wf s" and "udp_new s = (q, t)"
  then obtain c where t: "q = Some a" "t = upd_pcb a c (s\<lparr>udp_pool := as\<rparr>)" "local_port c = 0" "local_ip c = ip4 0" "remote_ip c = ip4 0"
    using Cons by (auto simp: udp_new_def)
  have "udp_store s a = None" "a \<notin> set as" using Cons udp_wfD(2,3) [OF w] by auto
  moreover from this have "a \<notin> set (udp_pcbs s)" using udp_wfD(4) [OF w] by fastforce
  moreover have "udp_wf t"
    by (rule udp_wfI) (use t Cons calculation udp_wfD [OF w] in \<open>auto simp: upd_pcb_def split: if_splits\<close>)
  ultimately show ?thesis using t by simp
qed (auto simp: udp_new_def)

lemma udp_remove_wf: "udp_wf s \<Longrightarrow> udp_remove a s = Some t \<Longrightarrow> udp_wf t"
proof (rule udp_wfI)
  assume w: "udp_wf s" and r: "udp_remove a s = Some t"
  then obtain c where t: "udp_store s a = Some c" "t = s\<lparr>udp_pcbs := remove1 a (udp_pcbs s), udp_store := (udp_store s)(a := None), udp_pool := a # udp_pool s\<rparr>"
    by (auto simp: udp_remove_def bind_eq_Some_conv)
  note d = udp_wfD [OF w]
  show "distinct (udp_pcbs t)" "distinct (udp_pool t)" using t d(1,2,3) by fastforce+
  show "udp_store t b = None" if "b \<in> set (udp_pool t)" for b using that t d(3) [of b] by auto
  show "udp_store t b \<noteq> None" if "b \<in> set (udp_pcbs t)" for b using that t d(1) d(4) [of b] by (auto simp: set_remove1_eq)
  show "local_port e \<noteq> 0 \<longleftrightarrow> b \<in> set (udp_pcbs t)" if "udp_store t b = Some e" for b e
    using that t d(1) d(5) [of b e] by (auto simp: set_remove1_eq split: if_splits)
  show "UDP_LOCAL_PORT_RANGE_START \<le> udp_port t" using t d(6) by simp
  show "apart x y" if "b \<in> set (udp_pcbs t)" "b' \<in> set (udp_pcbs t)" "b \<noteq> b'" "udp_store t b = Some x" "udp_store t b' = Some y" for b b' x y
    using that t d(1) d(7) [of b b' x y] by (auto simp: set_remove1_eq split: if_splits)
qed

lemma udp_to_front_wf: "udp_wf s \<Longrightarrow> a \<in> set (udp_pcbs s) \<Longrightarrow> udp_wf (udp_to_front a s)"
proof -
  assume w: "udp_wf s" and a: "a \<in> set (udp_pcbs s)"
  have "set (udp_pcbs (udp_to_front a s)) = set (udp_pcbs s)" "distinct (udp_pcbs (udp_to_front a s))"
    using a udp_wfD(1) [OF w] by (auto simp: udp_to_front_def set_remove1_eq)
  then show ?thesis using w by (simp add: udp_wf_def bound_apart_def udp_to_front_def)
qed

lemma udp_bind_wf:
  assumes "udp_wf s" and "udp_bind route6 pcb ipaddr port s = Some (err, t)"
  shows "udp_wf t"
proof (cases "udp_store s pcb")
  case None
  show ?thesis
  proof (cases "port = 0")
    case True
    then show ?thesis
      using None assms(2) udp_new_port_spec [OF assms(1)] udp_wf_port [OF assms(1)] by (auto simp: udp_bind_def bind_store_def)
  next
    case False
    then show ?thesis
      using None assms by (auto simp: udp_bind_def bind_store_def Let_def bind_eq_Some_conv split: if_splits)
  qed
next
  case (Some c)
  have "udp_bind route6 pcb ipaddr port s = udp_bind route6 pcb (Some (case ipaddr of None \<Rightarrow> ip4 0 | Some a \<Rightarrow> a)) port s"
    by (simp add: udp_bind_def split: option.split)
  then show ?thesis
    using udp_bind_spec [OF assms(1) Some, of route6 "case ipaddr of None \<Rightarrow> ip4 0 | Some a \<Rightarrow> a" port] assms udp_wf_port
    by (auto simp: bound_to_def)
qed

text \<open>What a successful connect has done.\<close>

definition connected_to :: "nat \<Rightarrow> ip_addr_t \<Rightarrow> u16 \<Rightarrow> udp_state \<Rightarrow> udp_state \<Rightarrow> bool" where
  "connected_to pcb ip port s t \<longleftrightarrow> (\<exists>d. bound_to pcb d s t \<and> remote_port d = port \<and> u_flags d AND UDP_FLAGS_CONNECTED \<noteq> 0
     \<and> (\<not> IP_IS_V6 ip \<longrightarrow> remote_ip d = ip_addr_set ip))"

lemma connected_flag: "UDP_FLAGS_CONNECTED \<noteq> 0"
  by (simp add: UDP_FLAGS_CONNECTED_def)

lemma connect_bound:
  assumes "udp_wf s" and "udp_store s pcb = Some c" and "local_port c \<noteq> 0"
  shows "\<exists>t. udp_connect route6 pcb ip port s = Some (ERR_OK, t) \<and> connected_to pcb ip port s t"
proof -
  have l: "pcb \<in> set (udp_pcbs s)" using udp_wfD(5) [OF assms(1,2)] assms(3) by simp
  define r where "r = (if IP_IS_V6 (ip_addr_set ip) \<and> ip6_addr_lacks_zone (ip_addr_set ip)
    then ip6_addr_select_zone route6 (ip_addr_set ip) (local_ip c) else ip_addr_set ip)"
  then have "\<not> IP_IS_V6 ip \<longrightarrow> r = ip_addr_set ip" by simp
  moreover have "udp_connect route6 pcb ip port s
      = Some (ERR_OK, upd_pcb pcb (c\<lparr>remote_ip := r, remote_port := port, u_flags := u_flags c OR UDP_FLAGS_CONNECTED\<rparr>) s)"
    using assms(2,3) l by (simp add: udp_connect_def Let_def r_def)
  moreover have "udp_wf (upd_pcb pcb (c\<lparr>remote_ip := r, remote_port := port, u_flags := u_flags c OR UDP_FLAGS_CONNECTED\<rparr>) s)"
    by (rule udp_wf_upd [OF assms(1,2)]) simp_all
  ultimately show ?thesis using l by (auto simp: connected_to_def bound_to_def connected_flag)
qed

lemma udp_connect_spec:
  assumes "udp_wf s" and "udp_store s pcb = Some c"
  shows "\<exists>err t. udp_connect route6 pcb ip port s = Some (err, t)
    \<and> (err = ERR_OK \<and> connected_to pcb ip port s t
       \<or> err = ERR_USE \<and> local_port c = 0 \<and> (\<exists>p'. t = s\<lparr>udp_port := p'\<rparr> \<and> UDP_LOCAL_PORT_RANGE_START \<le> p'))"
proof (cases "local_port c = 0")
  case True
  from udp_bind_spec [OF assms, of route6 "local_ip c" 0] obtain err u where
    b: "udp_bind route6 pcb (Some (local_ip c)) 0 s = Some (err, u)"
      "err = ERR_OK \<and> (\<exists>d. bound_to pcb d s u)
       \<or> err = ERR_USE \<and> (\<exists>p'. u = s\<lparr>udp_port := p'\<rparr> \<and> UDP_LOCAL_PORT_RANGE_START \<le> p')"
    by blast
  show ?thesis
  proof (cases "err = ERR_OK")
    case ok: True
    then obtain d where d: "bound_to pcb d s u" using b(2) by auto
    then have "udp_wf u" "udp_store u pcb = Some d" "local_port d \<noteq> 0"
      using udp_wfD(5) [of u pcb d] by (auto simp: bound_to_def)
    from connect_bound [OF this] obtain t where
      t: "udp_connect route6 pcb ip port u = Some (ERR_OK, t)" "connected_to pcb ip port u t" by blast
    have "udp_connect route6 pcb ip port s = udp_connect route6 pcb ip port u"
      using b(1) ok True assms(2) \<open>udp_store u pcb = Some d\<close> \<open>local_port d \<noteq> 0\<close> by (simp add: udp_connect_def)
    moreover have "connected_to pcb ip port s t" using t(2) d unfolding connected_to_def bound_to_def by auto
    ultimately show ?thesis using t(1) by auto
  next
    case False
    then show ?thesis using b True assms(2) by (auto simp: udp_connect_def)
  qed
next
  case False
  then show ?thesis using connect_bound [OF assms] by blast
qed

lemma udp_connect_wf:
  assumes "udp_wf s" and "udp_connect route6 pcb ip port s = Some (err, t)"
  shows "udp_wf t"
proof -
  obtain c where "udp_store s pcb = Some c" using assms(2) by (auto simp: udp_connect_def bind_eq_Some_conv)
  then show ?thesis
    using udp_connect_spec [OF assms(1), of pcb c route6 ip port] assms(2) udp_wf_port [OF assms(1)] by (auto simp: connected_to_def bound_to_def)
qed

lemma udp_new_type_wf: "udp_wf s \<Longrightarrow> udp_new_ip_type ty s = Some (q, t) \<Longrightarrow> udp_wf t"
proof -
  assume w: "udp_wf s" and r: "udp_new_ip_type ty s = Some (q, t)"
  obtain q' u where n: "udp_new s = (q', u)" by fastforce
  show ?thesis
  proof (cases q')
    case (Some a)
    then obtain c where c: "udp_store u a = Some c" "local_port c = 0" "udp_wf u" using udp_new_wf [OF w n] by blast
    then have "a \<notin> set (udp_pcbs u)" using udp_wfD(5) [OF c(3,1)] by simp
    then show ?thesis using r n Some c udp_wf_unbound [OF c(3,1)] by (auto simp: udp_new_ip_type_def)
  qed (use r n udp_new_wf [OF w n] in \<open>auto simp: udp_new_ip_type_def\<close>)
qed

lemmas udp_wf_calls = udp_bind_wf udp_connect_wf udp_new_type_wf udp_remove_wf udp_to_front_wf

lemma udp_step_wf: "udp_step route6 s t \<Longrightarrow> udp_wf s \<Longrightarrow> udp_wf t"
proof (induction rule: udp_step.induct)
  case (create s q t)
  then show ?case using udp_new_wf by blast
qed (auto simp: udp_bind_netif_def udp_disconnect_def udp_recv_def udp_setflags_def udp_set_multicast_netif_addr_def
  udp_set_multicast_netif_index_def udp_set_multicast_ttl_def bind_eq_Some_conv intro!: udp_wf_upd intro: udp_wf_calls)

lemma udp_start_wf: "distinct as \<Longrightarrow> udp_wf (udp_start as)"
  by (simp add: udp_wf_def bound_apart_def udp_start_def)

lemma udp_reachable_wf: "(udp_step route6)\<^sup>*\<^sup>* (udp_start as) s \<Longrightarrow> distinct as \<Longrightarrow> udp_wf s"
  by (induction rule: rtranclp_induct) (auto intro: udp_step_wf udp_start_wf)


text \<open>Two blocks on port 5000 with different addresses; a third one cannot be bound to the wildcard.\<close>

definition demo_pcb :: "u32 \<Rightarrow> u16 \<Rightarrow> udp_pcb" where
  "demo_pcb addr port = \<lparr>local_ip = ip4 addr, remote_ip = ip4 0, netif_idx = 0, so_options = 0, u_tos = 0, u_ttl = UDP_TTL, u_flags = 0,
     local_port = port, remote_port = 0, mcast_ip4 = 0, mcast_ifindex = 0, mcast_ttl = UDP_TTL, recv = None, recv_arg = 0\<rparr>"

definition demo_udp :: udp_state where
  "demo_udp = \<lparr>udp_pcbs = [2, 1], udp_store = [1 \<mapsto> demo_pcb 0x0100000a 5000, 2 \<mapsto> demo_pcb 0x0200000a 5000], udp_pool = [3],
     udp_port = UDP_LOCAL_PORT_RANGE_START\<rparr>"

lemmas udp_eval = udp_new_def upd_pcb_def udp_bind_def bind_store_def udp_start_def demo_pcb_def ip4_def IP_IS_V6_def ip_addr_set_def
  ip_clear_no4_def ip_addr_cmp_def ip_addr_isany_def IPADDR_ANY_def Let_def

lemma demo_udp_reached: "(udp_step r)\<^sup>*\<^sup>* (udp_start [1, 2, 3]) demo_udp"
proof -
  let ?s1 = "udp_start [2, 3]\<lparr>udp_store := [1 \<mapsto> demo_pcb 0 0]\<rparr>"
  let ?s2 = "?s1\<lparr>udp_pool := [3], udp_store := [1 \<mapsto> demo_pcb 0 0, 2 \<mapsto> demo_pcb 0 0]\<rparr>"
  let ?s3 = "?s2\<lparr>udp_pcbs := [1], udp_store := [1 \<mapsto> demo_pcb 0x0100000a 5000, 2 \<mapsto> demo_pcb 0 0]\<rparr>"
  have "udp_step r (udp_start [1, 2, 3]) ?s1" by (rule udp_step.create [of _ "Some 1"]) (simp add: udp_eval)
  moreover have "udp_step r ?s1 ?s2" by (rule udp_step.create [of _ "Some 2"]) (simp add: udp_eval)
  moreover have "udp_step r ?s2 ?s3"
    by (rule udp_step.bind [of _ 1 "Some (ip4 0x0100000a)" 5000 _ ERR_OK]) (simp add: udp_eval fun_upd_twist)
  moreover have "udp_step r ?s3 demo_udp"
    by (rule udp_step.bind [of _ 2 "Some (ip4 0x0200000a)" 5000 _ ERR_OK]) (simp add: udp_eval demo_udp_def)
  ultimately show ?thesis by (meson rtranclp.rtrancl_into_rtrancl rtranclp.rtrancl_refl)
qed


text \<open>
  Changing the address of an interface is not among these calls: it rebinds blocks without
  looking for a conflict.
\<close>

lemma addr_change_binds_alike:
  "\<exists>t. udp_netif_ip_addr_changed (ip4 0x0100000a) (ip4 0x0200000a) demo_udp = Some t \<and> \<not> bound_apart t"
proof -
  let ?t = "demo_udp\<lparr>udp_store := [1 \<mapsto> demo_pcb 0x0200000a 5000, 2 \<mapsto> demo_pcb 0x0200000a 5000]\<rparr>"
  have "udp_netif_ip_addr_changed (ip4 0x0100000a) (ip4 0x0200000a) demo_udp = Some ?t"
    by (simp add: udp_netif_ip_addr_changed_def demo_udp_def udp_eval fun_upd_twist)
  moreover have "\<not> bound_apart ?t"
  proof
    assume "bound_apart ?t"
    from this [unfolded bound_apart_def, rule_format, of 1 2] have "apart (demo_pcb 0x0200000a 5000) (demo_pcb 0x0200000a 5000)"
      by (simp add: demo_udp_def)
    then show False by (simp add: apart_def udp_eval)
  qed
  ultimately show ?thesis by blast
qed

text \<open>
  C20. Binding always returns. It succeeds unless the port is taken by another block with the
  same address or with a wildcard on either side, or, when no port is asked for, every port of the
  local range is taken; a failed call changes no block, a successful one only the block bound.
\<close>

theorem udp_bind_result:
  assumes "udp_wf s" and "udp_store s pcb = Some c" and "\<not> IP_IS_V6 ipaddr"
  shows "\<exists>err t. udp_bind route6 pcb (Some ipaddr) port s = Some (err, t) \<and> (err = ERR_OK \<or> err = ERR_USE)
    \<and> (err = ERR_USE \<longleftrightarrow> (if port = 0 then \<forall>q \<ge> UDP_LOCAL_PORT_RANGE_START. port_used q s
         else \<exists>a d. a \<in> set (udp_pcbs s) \<and> a \<noteq> pcb \<and> udp_store s a = Some d \<and> local_port d = port \<and> alike (local_ip d) ipaddr))
    \<and> (if err = ERR_OK then \<exists>p. (port \<noteq> 0 \<longrightarrow> p = port) \<and> bound_to pcb (c\<lparr>local_ip := ip_addr_set ipaddr, local_port := p\<rparr>) s t
       else udp_pcbs t = udp_pcbs s \<and> udp_store t = udp_store s)"
proof -
  have z: "zoned route6 ipaddr = ipaddr" using assms(3) by (simp add: zoned_def)
  have taken: False if "bound_to pcb (c\<lparr>local_ip := ip_addr_set ipaddr, local_port := port\<rparr>) s t"
    "a \<in> set (udp_pcbs s)" "a \<noteq> pcb" "udp_store s a = Some d" "local_port d = port" "alike (local_ip d) ipaddr" for a d t
    using that udp_wfD(7) [of t a pcb d "c\<lparr>local_ip := ip_addr_set ipaddr, local_port := port\<rparr>"]
    by (auto simp: bound_to_def apart_alike alike_def)
  obtain err t where r: "udp_bind route6 pcb (Some ipaddr) port s = Some (err, t)"
    and o: "err = ERR_OK \<and> (\<exists>p. (if port = 0 then UDP_LOCAL_PORT_RANGE_START \<le> p \<and> \<not> port_used p s else p = port)
           \<and> bound_to pcb (c\<lparr>local_ip := ip_addr_set ipaddr, local_port := p\<rparr>) s t)
       \<or> err = ERR_USE \<and> (\<exists>p'. t = s\<lparr>udp_port := p'\<rparr> \<and> UDP_LOCAL_PORT_RANGE_START \<le> p')
         \<and> (if port = 0 then \<forall>q \<ge> UDP_LOCAL_PORT_RANGE_START. port_used q s
            else \<exists>a d. a \<in> set (udp_pcbs s) \<and> a \<noteq> pcb \<and> udp_store s a = Some d \<and> local_port d = port \<and> alike (local_ip d) ipaddr)"
    using udp_bind_spec [OF assms(1,2), of route6 ipaddr port, unfolded z] by blast
  show ?thesis
  proof (cases "err = ERR_OK")
    case True
    then obtain p where p: "if port = 0 then UDP_LOCAL_PORT_RANGE_START \<le> p \<and> \<not> port_used p s else p = port"
      "bound_to pcb (c\<lparr>local_ip := ip_addr_set ipaddr, local_port := p\<rparr>) s t" using o by auto
    then have "\<not> (if port = 0 then \<forall>q \<ge> UDP_LOCAL_PORT_RANGE_START. port_used q s
         else \<exists>a d. a \<in> set (udp_pcbs s) \<and> a \<noteq> pcb \<and> udp_store s a = Some d \<and> local_port d = port \<and> alike (local_ip d) ipaddr)"
      using taken [of t] by (auto split: if_splits)
    then show ?thesis using r p True by (auto split: if_splits)
  next
    case False
    then show ?thesis using r o by auto
  qed
qed

theorem udp_bind_result_witness:
  "\<exists>t. udp_bind (\<lambda>_ _. None) 3 (Some (ip4 0x0300000a)) 5000 (snd (udp_new demo_udp)) = Some (ERR_OK, t)
    \<and> bound_to 3 (demo_pcb 0x0300000a 5000) (snd (udp_new demo_udp)) t"
proof -
  have "udp_wf (snd (udp_new demo_udp))"
    using udp_new_wf [of demo_udp "fst (udp_new demo_udp)" "snd (udp_new demo_udp)"] udp_reachable_wf [OF demo_udp_reached] by simp
  moreover have "udp_store (snd (udp_new demo_udp)) 3 = Some (demo_pcb 0 0)" by (simp add: demo_udp_def udp_eval)
  ultimately have "\<exists>err t. udp_bind (\<lambda>_ _. None) 3 (Some (ip4 0x0300000a)) 5000 (snd (udp_new demo_udp)) = Some (err, t)
      \<and> (if err = ERR_OK then \<exists>p. (5000 \<noteq> (0 :: u16) \<longrightarrow> p = 5000)
            \<and> bound_to 3 ((demo_pcb 0 0)\<lparr>local_ip := ip_addr_set (ip4 0x0300000a), local_port := p\<rparr>) (snd (udp_new demo_udp)) t
         else udp_pcbs t = udp_pcbs (snd (udp_new demo_udp)) \<and> udp_store t = udp_store (snd (udp_new demo_udp)))"
    using udp_bind_result [of "snd (udp_new demo_udp)" 3 "demo_pcb 0 0" "ip4 0x0300000a" "\<lambda>_ _. None" 5000]
    by (fastforce simp: IP_IS_V6_def ip4_def)
  moreover have "\<exists>t. udp_bind (\<lambda>_ _. None) 3 (Some (ip4 0x0300000a)) 5000 (snd (udp_new demo_udp)) = Some (ERR_OK, t)"
    by (simp add: demo_udp_def udp_eval)
  ultimately show ?thesis by (auto simp: demo_pcb_def ip_addr_set_def ip_clear_no4_def ip4_def IP_IS_V6_def)
qed

end
