(* ===== verification/Ethernet.thy ===== *)
theory Ethernet
  imports Ethoslipif Udp_Pcb
begin

text \<open>
  The Ethernet layer of lwIP, \<^verbatim>\<open>netif/ethernet.c\<close>, output side: \<open>ethernet_output\<close> puts the frame
  header in front of a packet and hands it to the driver. The state has the network interfaces
  (a pointer \<open>struct netif *\<close> is an index into \<open>netifs\<close>), the packet buffers, the ARP table
  and the variables of \<^verbatim>\<open>ip4.c\<close>, \<^verbatim>\<open>ip.c\<close> and \<^verbatim>\<open>udp.c\<close> that later theories work on, and \<open>driver\<close>, the state of the driver. The driver's function
  \<open>netif->linkoutput\<close> is an argument; it reads the packet and changes \<open>driver\<close>.
\<close>

section \<open>State\<close>

record netif =
  n_ip :: u32
  n_netmask :: u32
  n_gw :: u32
  n_hwaddr :: bytes
  n_hwaddr_len :: nat
  n_flags :: u8
  n_num :: u8
  n_mtu :: nat                      \<comment> \<open>\<open>u16_t\<close>\<close>
  loop_first :: pptr
  loop_last :: pptr
  igmp_groups :: "u32 list"         \<comment> \<open>group addresses of the list in the client data\<close>
  autoip_llipaddr :: "u32 option"   \<comment> \<open>of the \<open>struct autoip\<close> in the client data\<close>

datatype etharp_state = ETHARP_STATE_EMPTY | ETHARP_STATE_PENDING | ETHARP_STATE_STABLE
  | ETHARP_STATE_STABLE_REREQUESTING_1 | ETHARP_STATE_STABLE_REREQUESTING_2 | ETHARP_STATE_STATIC

text \<open>The enumeration values are compared as numbers.\<close>

fun state_code :: "etharp_state \<Rightarrow> nat" where
  "state_code ETHARP_STATE_EMPTY = 0"
| "state_code ETHARP_STATE_PENDING = 1"
| "state_code ETHARP_STATE_STABLE = 2"
| "state_code ETHARP_STATE_STABLE_REREQUESTING_1 = 3"
| "state_code ETHARP_STATE_STABLE_REREQUESTING_2 = 4"
| "state_code ETHARP_STATE_STATIC = 5"

lemma state_code_inject: "state_code a = state_code b \<Longrightarrow> a = b"
  by (cases a; cases b) simp_all

instantiation etharp_state :: linorder
begin

definition less_eq_etharp_state :: "etharp_state \<Rightarrow> etharp_state \<Rightarrow> bool" where
  "less_eq_etharp_state a b \<longleftrightarrow> state_code a \<le> state_code b"

definition less_etharp_state :: "etharp_state \<Rightarrow> etharp_state \<Rightarrow> bool" where
  "less_etharp_state a b \<longleftrightarrow> state_code a < state_code b"

instance
  by standard (auto simp: less_eq_etharp_state_def less_etharp_state_def dest: state_code_inject)

end

record etharp_entry =
  arp_q :: pptr
  arp_ipaddr :: u32
  arp_netif :: "nat option"
  arp_ethaddr :: bytes
  arp_ctime :: nat       \<comment> \<open>\<open>u16_t\<close>\<close>
  arp_state :: etharp_state

text \<open>
  \<open>struct ip_globals\<close> without the IPv6 header. A pointer to a header is the cell it lies in and
  its offset in the memory of that cell.
\<close>

record ip_globals =
  current_netif :: "nat option"
  current_input_netif :: "nat option"
  current_ip4_header :: "(nat \<times> int) option"
  current_ip_header_tot_len :: nat   \<comment> \<open>\<open>u16_t\<close>\<close>
  current_iphdr_src :: u32
  current_iphdr_dest :: u32

text \<open>
  The globals of \<^verbatim>\<open>core/ipv4/ip4_frag.c\<close>: the incomplete datagrams with the pool they come from, and the
  pool of the buffers that refer to a part of a datagram being fragmented. Entries are linked in the
  order of \<open>reassdatagrams\<close>.
\<close>

record ip_reassdata =
  r_p :: pptr
  r_iphdr :: bytes       \<comment> \<open>\<open>struct ip_hdr\<close>, twenty bytes\<close>
  r_datagram_len :: nat  \<comment> \<open>\<open>u16_t\<close>\<close>
  r_flags :: u8
  r_timer :: nat         \<comment> \<open>\<open>u8_t\<close>\<close>

record frag_state =
  reassdatagrams :: "nat list"
  reass_store :: "nat \<Rightarrow> ip_reassdata option"
  reass_pool :: "nat list"               \<comment> \<open>free elements of \<open>MEMP_REASSDATA\<close>\<close>
  ip_reass_pbufcount :: nat              \<comment> \<open>\<open>u16_t\<close>\<close>
  frag_pool :: "nat list"                \<comment> \<open>free elements of \<open>MEMP_FRAG_PBUF\<close>\<close>
  frag_original :: "nat \<Rightarrow> pptr"         \<comment> \<open>\<open>original\<close> of the elements in use\<close>

definition frag_start :: "nat list \<Rightarrow> nat list \<Rightarrow> frag_state" where
  "frag_start rs fs = \<lparr>reassdatagrams = [], reass_store = (\<lambda>_. None), reass_pool = rs, ip_reass_pbufcount = 0,
     frag_pool = fs, frag_original = (\<lambda>_. None)\<rparr>"

record 'w net =
  netifs :: "nat \<Rightarrow> netif option"
  netif_list :: "nat list"
  netif_default :: "nat option"
  ip4_default_multicast_netif :: "nat option"
  ip_id :: u16
  ip_data :: ip_globals
  udp :: udp_state
  frag :: frag_state
  arp_table :: "etharp_entry list"
  etharp_cached_entry :: nat
  pbufs :: pheap
  driver :: 'w

type_synonym 'w linkoutput = "nat \<Rightarrow> pheap \<Rightarrow> nat \<Rightarrow> 'w \<Rightarrow> (err \<times> 'w) option"

text \<open>The part of an interface that \<open>ip4_addr_isbroadcast\<close> looks at, and the tests on addresses.\<close>

definition if_of :: "netif \<Rightarrow> if_addr" where
  "if_of n = \<lparr>can_broadcast = n_flags n AND NETIF_FLAG_BROADCAST \<noteq> 0, if_ip = n_ip n, if_netmask = n_netmask n\<rparr>"

definition ip4_addr_ismulticast :: "u32 \<Rightarrow> bool" where
  "ip4_addr_ismulticast a \<longleftrightarrow> a AND lwip_htonl 0xf0000000 = lwip_htonl 0xe0000000"

definition ip4_addr_islinklocal :: "u32 \<Rightarrow> bool" where
  "ip4_addr_islinklocal a \<longleftrightarrow> a AND lwip_htonl 0xffff0000 = lwip_htonl 0xa9fe0000"

section \<open>Frames\<close>

definition ethbroadcast :: bytes where "ethbroadcast = [0xff, 0xff, 0xff, 0xff, 0xff, 0xff]"
definition ethzero :: bytes where "ethzero = [0, 0, 0, 0, 0, 0]"
definition ETHTYPE_IP :: u16 where "ETHTYPE_IP = 0x0800"
definition ETHTYPE_ARP :: u16 where "ETHTYPE_ARP = 0x0806"
definition ETHTYPE_IPV6 :: u16 where "ETHTYPE_IPV6 = 0x86DD"
definition SIZEOF_ETH_HDR :: nat where "SIZEOF_ETH_HDR = 14"

text \<open>A 16-bit store on a little-endian host.\<close>

definition store16 :: "u16 \<Rightarrow> bytes" where
  "store16 w = [ucast w, ucast (drop_bit 8 w)]"

text \<open>A 32-bit load; it reads back what \<open>octets\<close> lays out.\<close>

definition load32 :: "bytes \<Rightarrow> u32" where
  "load32 bs = ucast (bs ! 0) OR push_bit 8 (ucast (bs ! 1)) OR push_bit 16 (ucast (bs ! 2)) OR push_bit 24 (ucast (bs ! 3))"

text \<open>Several stores into one payload, in order.\<close>

fun wr_all :: "(nat \<times> bytes) list \<Rightarrow> pbuf \<Rightarrow> pbuf option" where
  "wr_all [] c = Some c"
| "wr_all ((off, bs) # ws) c = do { c \<leftarrow> wr c off bs; wr_all ws c }"

text \<open>\<open>struct eth_hdr\<close>: destination at 0, source at 6, type at 12.\<close>

definition ethernet_output ::
  "'w linkoutput \<Rightarrow> nat \<Rightarrow> nat \<Rightarrow> bytes \<Rightarrow> bytes \<Rightarrow> u16 \<Rightarrow> 'w net \<Rightarrow> (err \<times> 'w net) option" where
  "ethernet_output lo nif p src dst eth_type s =
     (let eth_type_be = lwip_htons eth_type in
      do { (r, h) \<leftarrow> pbuf_add_header p SIZEOF_ETH_HDR (pbufs s);
           if r \<noteq> 0 then Some (ERR_BUF, s\<lparr>pbufs := h\<rparr>)
           else do { c \<leftarrow> cells h p;
             c \<leftarrow> wr_all [(12, store16 eth_type_be), (0, take ETH_HWADDR_LEN dst), (6, take ETH_HWADDR_LEN src)] c;
             n \<leftarrow> netifs s nif;
             assert (n_hwaddr_len n = ETH_HWADDR_LEN);
             let h = put p c h in
             do { (e, w) \<leftarrow> lo nif h p (driver s);
                  Some (e, s\<lparr>pbufs := h, driver := w\<rparr>) } } })"

section \<open>Frames in memory\<close>

lemma load32_octets: "load32 (octets a) = a"
proof (rule bit_word_eqI)
  fix n assume "n < LENGTH(32)"
  then show "bit (load32 (octets a)) n = bit a n"
    by (cases "n < 8"; cases "n < 16"; cases "n < 24") (auto simp: load32_def octets_def bit_simps)
qed

lemma store16_htons: "store16 (lwip_htons w) = [ucast (drop_bit 8 w), ucast w]"
proof -
  have "ucast (lwip_htons w) = (ucast (drop_bit 8 w) :: u8)"
    by (rule bit_word_eqI) (auto simp: bit_lwip_htons bit_simps add.commute)
  moreover have "ucast (drop_bit 8 (lwip_htons w)) = (ucast w :: u8)"
    by (rule bit_word_eqI) (auto simp: bit_lwip_htons bit_simps)
  ultimately show ?thesis by (simp add: store16_def)
qed

text \<open>Stores inside the packet change its bytes and nothing else of the cell.\<close>

lemma wr_all_ok:
  assumes "cell_ok c" and "\<forall>(off, bs) \<in> set ws. off + length bs \<le> len c"
  shows "\<exists>c'. wr_all ws c = Some c' \<and> cell_ok c' \<and> c' = c\<lparr>area := area c'\<rparr>
     \<and> data_of c' = foldl (\<lambda>d (off, bs). blit d off bs) (data_of c) ws"
  using assms
proof (induction ws arbitrary: c)
  case (Cons w ws)
  obtain off bs where w: "w = (off, bs)" by fastforce
  from wr_ok [OF Cons.prems(1), of off bs] Cons.prems(2) w obtain c1 where
    c1: "wr c off bs = Some c1" "cell_ok c1" "c1 = c\<lparr>area := area c1\<rparr>" "data_of c1 = blit (data_of c) off bs" by auto
  have "len c1 = len c" using arg_cong [OF c1(3), of len] by simp
  with Cons.IH [OF c1(2)] Cons.prems(2) obtain c' where
    c': "wr_all ws c1 = Some c'" "cell_ok c'" "c' = c1\<lparr>area := area c'\<rparr>"
      "data_of c' = foldl (\<lambda>d (off, bs). blit d off bs) (data_of c1) ws" by auto
  have "c' = c\<lparr>area := area c'\<rparr>" using c'(3) c1(3) by (metis pbuf.surjective pbuf.update_convs(2))
  with c' c1 w show ?case by auto
qed simp

text \<open>What \<open>ethernet_output\<close> needs to put a header in front of a packet.\<close>

definition frame_room :: "nat \<Rightarrow> nat list \<Rightarrow> pheap \<Rightarrow> bool" where
  "frame_room p ps h \<longleftrightarrow> packet h (Some p) (p # ps) \<and> plen h (p # ps) + SIZEOF_ETH_HDR < 65536
     \<and> (\<exists>c. cells h p = Some c \<and> type_internal c AND FLAG_CONTIGUOUS \<noteq> 0 \<and> int SIZEOF_ETH_HDR \<le> payload c)"

definition eth_frame :: "bytes \<Rightarrow> bytes \<Rightarrow> u16 \<Rightarrow> bytes \<Rightarrow> bytes" where
  "eth_frame dst src eth_type bs = dst @ src @ store16 (lwip_htons eth_type) @ bs"

lemma add_header_room:
  assumes "cells h p = Some c" and "cell_ok c" and "type_internal c AND FLAG_CONTIGUOUS \<noteq> 0"
    and "int inc \<le> payload c" and "len c \<le> tot_len c" and "tot_len c + inc < 65536" and "0 < inc"
    and "c' = c\<lparr>payload := payload c - int inc, len := len c + inc, tot_len := tot_len c + inc\<rparr>"
  shows "pbuf_add_header p inc h = Some (0, put p c' h) \<and> cell_ok c' \<and> drop inc (data_of c') = data_of c"
proof -
  have "cell_ok c'" using assms(2,4,8) by (auto simp: cell_ok_def nat_diff_distrib)
  moreover have "drop inc (data_of c') = data_of c"
    using assms(2,4,8) by (auto simp: data_of_def drop_take nat_diff_distrib cell_ok_def)
  ultimately show ?thesis
    using assms by (auto simp: pbuf_add_header_def pbuf_add_header_impl_def)
qed

lemma put_put: "put a c (put a d h) = put a c h"
  by (simp add: put_def)

lemma ethernet_output_frame:
  assumes "frame_room p ps (pbufs s)" and "netifs s nif = Some n" and "n_hwaddr_len n = ETH_HWADDR_LEN"
    and "length src = ETH_HWADDR_LEN" and "length dst = ETH_HWADDR_LEN"
  shows "\<exists>c c'. cells (pbufs s) p = Some c \<and> ref c' = ref c \<and> type_internal c' = type_internal c \<and> flags c' = flags c \<and> nxt c' = nxt c
    \<and> packet (put p c' (pbufs s)) (Some p) (p # ps)
    \<and> contents (put p c' (pbufs s)) (p # ps) = eth_frame dst src t (contents (pbufs s) (p # ps))
    \<and> ethernet_output lo nif p src dst t s =
        (case lo nif (put p c' (pbufs s)) p (driver s) of None \<Rightarrow> None
         | Some (e, w) \<Rightarrow> Some (e, s\<lparr>pbufs := put p c' (pbufs s), driver := w\<rparr>))"
proof -
  let ?h = "pbufs s"
  from assms(1) obtain c where c: "cells ?h p = Some c" "cell_ok c" "tot_len c = len c + plen ?h ps" "packet ?h (nxt c) ps"
    "type_internal c AND FLAG_CONTIGUOUS \<noteq> 0" "int SIZEOF_ETH_HDR \<le> payload c" "tot_len c + SIZEOF_ETH_HDR < 65536"
    and p: "p \<notin> set ps" unfolding frame_room_def using packet_distinct by fastforce
  define d where "d = c\<lparr>payload := payload c - int SIZEOF_ETH_HDR, len := len c + SIZEOF_ETH_HDR, tot_len := tot_len c + SIZEOF_ETH_HDR\<rparr>"
  have d: "pbuf_add_header p SIZEOF_ETH_HDR ?h = Some (0, put p d ?h)" "cell_ok d" "drop SIZEOF_ETH_HDR (data_of d) = data_of c"
    using add_header_room [OF c(1,2,5,6) _ c(7) _ d_def] c(3) by (simp_all add: SIZEOF_ETH_HDR_def)
  let ?ws = "[(12, store16 (lwip_htons t)), (0, take ETH_HWADDR_LEN dst), (6, take ETH_HWADDR_LEN src)]"
  have "\<forall>(off, bs) \<in> set ?ws. off + length bs \<le> len d"
    using assms(4,5) by (simp add: d_def SIZEOF_ETH_HDR_def ETH_HWADDR_LEN_def store16_def)
  from wr_all_ok [OF d(2) this] obtain e where
    e: "wr_all ?ws d = Some e" "cell_ok e" "e = d\<lparr>area := area e\<rparr>" "data_of e = foldl (\<lambda>d (off, bs). blit d off bs) (data_of d) ?ws"
    by auto
  have f: "len e = len d" "tot_len e = tot_len d" "nxt e = nxt c" "ref e = ref c" "type_internal e = type_internal c" "flags e = flags c"
    using arg_cong [OF e(3), of len] arg_cong [OF e(3), of tot_len] arg_cong [OF e(3), of nxt] arg_cong [OF e(3), of ref]
      arg_cong [OF e(3), of type_internal] arg_cong [OF e(3), of flags] by (simp_all add: d_def)
  have "14 \<le> length (data_of d)" using d(2) by (simp add: d_def SIZEOF_ETH_HDR_def)
  then have data: "data_of e = eth_frame dst src t (data_of c)"
    using e(4) d(3) assms(4,5) by (simp add: blit_def store16_def eth_frame_def SIZEOF_ETH_HDR_def ETH_HWADDR_LEN_def)
  have same: "same_on ps ?h (put p e ?h)" using p by simp
  have "packet (put p e ?h) (Some p) (p # ps)"
    using e(2) f c(3,7) packet_frame [OF same c(4)] plen_frame [OF same] by (simp add: d_def)
  moreover have "contents (put p e ?h) (p # ps) = eth_frame dst src t (contents ?h (p # ps))"
    using data c(1) contents_frame [OF same] by (simp add: eth_frame_def)
  moreover have "ethernet_output lo nif p src dst t s =
      (case lo nif (put p e ?h) p (driver s) of None \<Rightarrow> None | Some (r, w) \<Rightarrow> Some (r, s\<lparr>pbufs := put p e ?h, driver := w\<rparr>))"
    using d(1) e(1) assms(2,3) by (simp add: ethernet_output_def Let_def put_put del: wr_all.simps split: option.splits)
  ultimately show ?thesis using c(1) f by blast
qed

section \<open>The contract of a driver\<close>

text \<open>
  A driver sends a whole packet: \<open>line\<close> is what it has put on its medium, \<open>encode\<close> how it codes
  a frame, and \<open>ready\<close> an invariant of its state.
\<close>

locale ether_driver =
  fixes lo :: "'w linkoutput" and ready :: "'w \<Rightarrow> bool" and line :: "'w \<Rightarrow> bytes"
    and encode :: "bytes \<Rightarrow> bytes" and max_frame :: nat
  assumes sends: "ready w \<Longrightarrow> packet h (Some p) as \<Longrightarrow> plen h as \<le> max_frame \<Longrightarrow>
    \<exists>w'. lo nif h p w = Some (ERR_OK, w') \<and> ready w' \<and> line w' = line w @ encode (contents h as)"
begin

lemma output_sends:
  assumes "frame_room p ps (pbufs s)" and "netifs s nif = Some n" and "n_hwaddr_len n = ETH_HWADDR_LEN"
    and "length src = ETH_HWADDR_LEN" and "length dst = ETH_HWADDR_LEN"
    and "ready (driver s)" and "plen (pbufs s) (p # ps) + SIZEOF_ETH_HDR \<le> max_frame"
  shows "\<exists>c c' w. cells (pbufs s) p = Some c \<and> ref c' = ref c \<and> type_internal c' = type_internal c \<and> flags c' = flags c \<and> nxt c' = nxt c
    \<and> ethernet_output lo nif p src dst t s = Some (ERR_OK, s\<lparr>pbufs := put p c' (pbufs s), driver := w\<rparr>)
    \<and> ready w \<and> line w = line (driver s) @ encode (eth_frame dst src t (contents (pbufs s) (p # ps)))"
proof -
  from ethernet_output_frame [OF assms(1-5), of t lo] obtain c c' where
    c: "cells (pbufs s) p = Some c" "ref c' = ref c" "type_internal c' = type_internal c" "flags c' = flags c" "nxt c' = nxt c"
      "packet (put p c' (pbufs s)) (Some p) (p # ps)"
      "contents (put p c' (pbufs s)) (p # ps) = eth_frame dst src t (contents (pbufs s) (p # ps))"
      "ethernet_output lo nif p src dst t s = (case lo nif (put p c' (pbufs s)) p (driver s) of None \<Rightarrow> None
         | Some (e, w) \<Rightarrow> Some (e, s\<lparr>pbufs := put p c' (pbufs s), driver := w\<rparr>))" by blast
  have "length (contents (pbufs s) (p # ps)) = plen (pbufs s) (p # ps)"
    using assms(1) unfolding frame_room_def by (intro length_contents) blast
  then have "plen (put p c' (pbufs s)) (p # ps) = plen (pbufs s) (p # ps) + SIZEOF_ETH_HDR"
    using length_contents [OF c(6)] assms(4,5) unfolding c(7)
    by (simp add: eth_frame_def store16_def SIZEOF_ETH_HDR_def ETH_HWADDR_LEN_def del: plen_simps contents_simps)
  then have "plen (put p c' (pbufs s)) (p # ps) \<le> max_frame" using assms(7) by (simp only:)
  from sends [OF assms(6) c(6) this, of nif] c show ?thesis by fastforce
qed

end

text \<open>The driver of the host program; \<open>ethoslipif_mac\<close> makes no difference here.\<close>

definition host_linkoutput :: "(bytes \<Rightarrow> bytes) \<Rightarrow> (bytes \<times> uart) linkoutput" where
  "host_linkoutput tty_write nif h p w =
     (case ethoslipif_low_level_output tty_write h p w of Ok (e, w) \<Rightarrow> Some (e, w) | _ \<Rightarrow> None)"

definition host_ready :: "bytes \<times> uart \<Rightarrow> bool" where
  "host_ready w \<longleftrightarrow> length (fst w) = BUF_SIZE \<and> idle (snd w)"

definition host_line :: "bytes \<times> uart \<Rightarrow> bytes" where
  "host_line w = line_out (snd w)"

definition host_encode :: "(bytes \<Rightarrow> bytes) \<Rightarrow> bytes \<Rightarrow> bytes" where
  "host_encode tty_write bs = tty_write (take QUEUE_MAX_NUM (slip_frame (bs @ trailer bs)))"

interpretation host_driver: ether_driver "host_linkoutput tty_write" host_ready host_line "host_encode tty_write" "BUF_SIZE - 2"
proof
  fix w :: "bytes \<times> uart" and h p as nif
  assume "host_ready w" and p: "packet h (Some p) as" and "plen h as \<le> BUF_SIZE - 2"
  then show "\<exists>w'. host_linkoutput tty_write nif h p w = Some (ERR_OK, w') \<and> host_ready w'
      \<and> host_line w' = host_line w @ host_encode tty_write (contents h as)"
    using low_level_output_line [OF p, of "snd w" "fst w" tty_write]
    by (cases w) (fastforce simp: host_ready_def host_line_def host_encode_def host_linkoutput_def BUF_SIZE_def)
qed

end
