(* ===== verification/Etharp.thy ===== *)
theory Etharp
  imports Ethernet
begin

text \<open>
  \<^verbatim>\<open>core/ipv4/etharp.c\<close> of lwIP: the ARP table of the host, its timer, the resolution of
  outgoing packets and the handling of ARP packets. Options of this build: one packet may
  wait per entry (\<open>ARP_QUEUEING\<close> is 0), entries are matched with their interface, static
  entries are supported, \<open>LWIP_DEBUG\<close> is defined. \<open>None\<close> is a failed assertion or an access
  outside the buffers, as in the pbuf module.
\<close>

section \<open>Table\<close>

definition ARP_TABLE_SIZE :: nat where "ARP_TABLE_SIZE = 10"
definition ARP_MAXAGE :: nat where "ARP_MAXAGE = 300"
definition ARP_AGE_REREQUEST_USED_UNICAST :: nat where "ARP_AGE_REREQUEST_USED_UNICAST = ARP_MAXAGE - 30"
definition ARP_AGE_REREQUEST_USED_BROADCAST :: nat where "ARP_AGE_REREQUEST_USED_BROADCAST = ARP_MAXAGE - 15"
definition ARP_MAXPENDING :: nat where "ARP_MAXPENDING = 5"
definition ETHARP_FLAG_TRY_HARD :: u8 where "ETHARP_FLAG_TRY_HARD = 1"
definition ETHARP_FLAG_FIND_ONLY :: u8 where "ETHARP_FLAG_FIND_ONLY = 2"
definition ETHARP_FLAG_STATIC_ENTRY :: u8 where "ETHARP_FLAG_STATIC_ENTRY = 4"

definition arp_stable :: "etharp_state \<Rightarrow> bool" where
  "arp_stable st \<longleftrightarrow> st \<ge> ETHARP_STATE_STABLE"

lemma arp_stable_iff: "arp_stable st \<longleftrightarrow> st \<noteq> ETHARP_STATE_EMPTY \<and> st \<noteq> ETHARP_STATE_PENDING"
  by (cases st) (simp_all add: arp_stable_def less_eq_etharp_state_def)

lemma less_static_iff: "st < ETHARP_STATE_STATIC \<longleftrightarrow> st \<noteq> ETHARP_STATE_STATIC"
  by (cases st) (simp_all add: less_etharp_state_def)

definition arp_at :: "nat \<Rightarrow> 'w net \<Rightarrow> etharp_entry option" where
  "arp_at i s = (if i < length (arp_table s) then Some (arp_table s ! i) else None)"

definition arp_put :: "nat \<Rightarrow> etharp_entry \<Rightarrow> 'w net \<Rightarrow> 'w net" where
  "arp_put i e s = s\<lparr>arp_table := (arp_table s)[i := e]\<rparr>"

definition free_pbuf :: "nat \<Rightarrow> 'w net \<Rightarrow> 'w net option" where
  "free_pbuf p s = do { (_, h) \<leftarrow> pbuf_free (Some p) (pbufs s); Some (s\<lparr>pbufs := h\<rparr>) }"

definition empty_entry :: etharp_entry where
  "empty_entry = \<lparr>arp_q = None, arp_ipaddr = 0, arp_netif = None, arp_ethaddr = ethzero, arp_ctime = 0,
     arp_state = ETHARP_STATE_EMPTY\<rparr>"

definition etharp_free_entry :: "nat \<Rightarrow> 'w net \<Rightarrow> 'w net option" where
  "etharp_free_entry i s =
     do { e \<leftarrow> arp_at i s;
          s \<leftarrow> (case arp_q e of None \<Rightarrow> Some s | Some p \<Rightarrow> free_pbuf p s);
          Some (arp_put i (e\<lparr>arp_q := None, arp_state := ETHARP_STATE_EMPTY, arp_ctime := 0, arp_netif := None,
                             arp_ipaddr := IPADDR_ANY, arp_ethaddr := ethzero\<rparr>) s) }"

section \<open>Sending ARP packets\<close>

definition SIZEOF_ETHARP_HDR :: nat where "SIZEOF_ETHARP_HDR = 28"
definition LWIP_IANA_HWTYPE_ETHERNET :: u16 where "LWIP_IANA_HWTYPE_ETHERNET = 1"
definition ARP_REQUEST :: u16 where "ARP_REQUEST = 1"
definition ARP_REPLY :: u16 where "ARP_REPLY = 2"

text \<open>
  \<open>struct etharp_hdr\<close>: hwtype 0, proto 2, hwlen 4, protolen 5, opcode 6, shwaddr 8, sipaddr 14,
  dhwaddr 18, dipaddr 24. An address word is stored as its four octets.
\<close>

definition etharp_raw ::
  "'w linkoutput \<Rightarrow> nat \<Rightarrow> bytes \<Rightarrow> bytes \<Rightarrow> bytes \<Rightarrow> u32 \<Rightarrow> bytes \<Rightarrow> u32 \<Rightarrow> u16 \<Rightarrow> 'w net \<Rightarrow> (err \<times> 'w net) option" where
  "etharp_raw lo nif ethsrc_addr ethdst_addr hwsrc_addr ipsrc_addr hwdst_addr ipdst_addr opcode s =
     do { (p, h) \<leftarrow> pbuf_alloc PBUF_LINK SIZEOF_ETHARP_HDR PBUF_RAM (pbufs s);
       case p of
         None \<Rightarrow> Some (ERR_MEM, s\<lparr>pbufs := h\<rparr>)
       | Some a \<Rightarrow>
           do { c \<leftarrow> cells h a; assert (len c \<ge> SIZEOF_ETHARP_HDR);
                c \<leftarrow> wr_all [(6, store16 (lwip_htons opcode))] c;
                n \<leftarrow> netifs s nif; assert (n_hwaddr_len n = ETH_HWADDR_LEN);
                c \<leftarrow> wr_all [(8, take ETH_HWADDR_LEN hwsrc_addr), (18, take ETH_HWADDR_LEN hwdst_addr),
                    (14, octets ipsrc_addr), (24, octets ipdst_addr),
                    (0, store16 (lwip_htons LWIP_IANA_HWTYPE_ETHERNET)), (2, store16 (lwip_htons ETHTYPE_IP)),
                    (4, [of_nat ETH_HWADDR_LEN]), (5, [4])] c;
                let s = s\<lparr>pbufs := put a c h\<rparr> in
                do { (_, s) \<leftarrow> (if ip4_addr_islinklocal ipsrc_addr
                        then ethernet_output lo nif a ethsrc_addr ethbroadcast ETHTYPE_ARP s
                        else ethernet_output lo nif a ethsrc_addr ethdst_addr ETHTYPE_ARP s);
                     s \<leftarrow> free_pbuf a s;
                     Some (ERR_OK, s) } } }"

definition etharp_request_dst :: "'w linkoutput \<Rightarrow> nat \<Rightarrow> u32 \<Rightarrow> bytes \<Rightarrow> 'w net \<Rightarrow> (err \<times> 'w net) option" where
  "etharp_request_dst lo nif ipaddr hw_dst_addr s =
     do { n \<leftarrow> netifs s nif;
          etharp_raw lo nif (n_hwaddr n) hw_dst_addr (n_hwaddr n) (n_ip n) ethzero ipaddr ARP_REQUEST s }"

definition etharp_request :: "'w linkoutput \<Rightarrow> nat \<Rightarrow> u32 \<Rightarrow> 'w net \<Rightarrow> (err \<times> 'w net) option" where
  "etharp_request lo nif ipaddr s = etharp_request_dst lo nif ipaddr ethbroadcast s"

section \<open>The timer\<close>

definition tmr_entry :: "'w linkoutput \<Rightarrow> nat \<Rightarrow> 'w net \<Rightarrow> 'w net option" where
  "tmr_entry lo i s =
     do { e \<leftarrow> arp_at i s;
       if arp_state e \<noteq> ETHARP_STATE_EMPTY \<and> arp_state e \<noteq> ETHARP_STATE_STATIC then
         let e = e\<lparr>arp_ctime := u16 (arp_ctime e + 1)\<rparr>; s = arp_put i e s in
         if arp_ctime e \<ge> ARP_MAXAGE \<or> arp_state e = ETHARP_STATE_PENDING \<and> arp_ctime e \<ge> ARP_MAXPENDING
         then etharp_free_entry i s
         else if arp_state e = ETHARP_STATE_STABLE_REREQUESTING_1
         then Some (arp_put i (e\<lparr>arp_state := ETHARP_STATE_STABLE_REREQUESTING_2\<rparr>) s)
         else if arp_state e = ETHARP_STATE_STABLE_REREQUESTING_2
         then Some (arp_put i (e\<lparr>arp_state := ETHARP_STATE_STABLE\<rparr>) s)
         else if arp_state e = ETHARP_STATE_PENDING
         then do { nif \<leftarrow> arp_netif e; (_, s) \<leftarrow> etharp_request lo nif (arp_ipaddr e) s; Some s }
         else Some s
       else Some s }"

fun tmr_loop :: "'w linkoutput \<Rightarrow> nat list \<Rightarrow> 'w net \<Rightarrow> 'w net option" where
  "tmr_loop lo [] s = Some s"
| "tmr_loop lo (i # is) s = do { s \<leftarrow> tmr_entry lo i s; tmr_loop lo is s }"

definition etharp_tmr :: "'w linkoutput \<Rightarrow> 'w net \<Rightarrow> 'w net option" where
  "etharp_tmr lo s = tmr_loop lo [0..<ARP_TABLE_SIZE] s"

section \<open>Finding an entry\<close>

text \<open>The local variables of the search; an index of \<open>ARP_TABLE_SIZE\<close> means none.\<close>

record arp_search =
  old_pending :: nat
  old_stable :: nat
  empty :: nat
  old_queue :: nat
  age_queue :: nat
  age_pending :: nat
  age_stable :: nat

definition search_start :: arp_search where
  "search_start = \<lparr>old_pending = ARP_TABLE_SIZE, old_stable = ARP_TABLE_SIZE, empty = ARP_TABLE_SIZE,
     old_queue = ARP_TABLE_SIZE, age_queue = 0, age_pending = 0, age_stable = 0\<rparr>"

definition arp_match :: "u32 option \<Rightarrow> nat option \<Rightarrow> etharp_entry \<Rightarrow> bool" where
  "arp_match ipaddr nif e \<longleftrightarrow> ipaddr = Some (arp_ipaddr e) \<and> (nif = None \<or> nif = arp_netif e)"

definition search_note :: "nat \<Rightarrow> etharp_entry \<Rightarrow> arp_search \<Rightarrow> arp_search" where
  "search_note i e v =
     (if arp_state e = ETHARP_STATE_PENDING then
        (if arp_q e \<noteq> None
         then (if arp_ctime e \<ge> age_queue v then v\<lparr>old_queue := i, age_queue := arp_ctime e\<rparr> else v)
         else (if arp_ctime e \<ge> age_pending v then v\<lparr>old_pending := i, age_pending := arp_ctime e\<rparr> else v))
      else if arp_stable (arp_state e) then
        (if arp_state e < ETHARP_STATE_STATIC \<and> arp_ctime e \<ge> age_stable v
         then v\<lparr>old_stable := i, age_stable := arp_ctime e\<rparr> else v)
      else v)"

text \<open>\<open>Inl i\<close> is the early return of a matching entry.\<close>

fun search_loop :: "u32 option \<Rightarrow> nat option \<Rightarrow> nat \<Rightarrow> etharp_entry list \<Rightarrow> arp_search \<Rightarrow> nat + arp_search" where
  "search_loop ipaddr nif i [] v = Inr v"
| "search_loop ipaddr nif i (e # es) v =
     (if empty v = ARP_TABLE_SIZE \<and> arp_state e = ETHARP_STATE_EMPTY
      then search_loop ipaddr nif (i + 1) es (v\<lparr>empty := i\<rparr>)
      else if arp_state e \<noteq> ETHARP_STATE_EMPTY then
        (if arp_match ipaddr nif e then Inl i
         else search_loop ipaddr nif (i + 1) es (search_note i e v))
      else search_loop ipaddr nif (i + 1) es v)"

definition recycle :: "arp_search \<Rightarrow> 'w net \<Rightarrow> (nat \<times> 'w net) option option" where
  "recycle v s =
     (if empty v < ARP_TABLE_SIZE then Some (Some (empty v, s))
      else if old_stable v < ARP_TABLE_SIZE then
        do { e \<leftarrow> arp_at (old_stable v) s; assert (arp_q e = None);
             s \<leftarrow> etharp_free_entry (old_stable v) s; Some (Some (old_stable v, s)) }
      else if old_pending v < ARP_TABLE_SIZE then
        do { s \<leftarrow> etharp_free_entry (old_pending v) s; Some (Some (old_pending v, s)) }
      else if old_queue v < ARP_TABLE_SIZE then
        do { s \<leftarrow> etharp_free_entry (old_queue v) s; Some (Some (old_queue v, s)) }
      else Some None)"

definition etharp_find_entry :: "u32 option \<Rightarrow> u8 \<Rightarrow> nat option \<Rightarrow> 'w net \<Rightarrow> ((err + nat) \<times> 'w net) option" where
  "etharp_find_entry ipaddr flgs nif s =
     (case search_loop ipaddr nif 0 (take ARP_TABLE_SIZE (arp_table s)) search_start of
        Inl i \<Rightarrow> Some (Inr i, s)
      | Inr v \<Rightarrow>
          if flgs AND ETHARP_FLAG_FIND_ONLY \<noteq> 0 \<or> empty v = ARP_TABLE_SIZE \<and> flgs AND ETHARP_FLAG_TRY_HARD = 0
          then Some (Inl ERR_MEM, s)
          else do { r \<leftarrow> recycle v s;
            case r of
              None \<Rightarrow> Some (Inl ERR_MEM, s)
            | Some (i, s) \<Rightarrow>
                do { assert (i < ARP_TABLE_SIZE); e \<leftarrow> arp_at i s; assert (arp_state e = ETHARP_STATE_EMPTY);
                     let e = (case ipaddr of None \<Rightarrow> e | Some a \<Rightarrow> e\<lparr>arp_ipaddr := a\<rparr>) in
                     Some (Inr i, arp_put i (e\<lparr>arp_ctime := 0, arp_netif := nif\<rparr>) s) } })"

section \<open>Updating and static entries\<close>

text \<open>The second half: entry \<open>e\<close> at index \<open>i\<close> gets the address and state, and a waiting packet is sent.\<close>

definition arp_store ::
  "'w linkoutput \<Rightarrow> nat \<Rightarrow> netif \<Rightarrow> bytes \<Rightarrow> etharp_state \<Rightarrow> nat \<Rightarrow> etharp_entry \<Rightarrow> 'w net \<Rightarrow> (err \<times> 'w net) option" where
  "arp_store lo nif n ethaddr st i e s =
     (let s = arp_put i (e\<lparr>arp_state := st, arp_netif := Some nif, arp_ethaddr := take ETH_HWADDR_LEN ethaddr,
                          arp_ctime := 0, arp_q := None\<rparr>) s
      in case arp_q e of
           None \<Rightarrow> Some (ERR_OK, s)
         | Some p \<Rightarrow>
             do { (_, s) \<leftarrow> ethernet_output lo nif p (n_hwaddr n) ethaddr ETHTYPE_IP s;
                  s \<leftarrow> free_pbuf p s;
                  Some (ERR_OK, s) })"

definition etharp_update_arp_entry ::
  "'w linkoutput \<Rightarrow> nat \<Rightarrow> u32 \<Rightarrow> bytes \<Rightarrow> u8 \<Rightarrow> 'w net \<Rightarrow> (err \<times> 'w net) option" where
  "etharp_update_arp_entry lo nif ipaddr ethaddr flgs s =
     do { n \<leftarrow> netifs s nif; assert (n_hwaddr_len n = ETH_HWADDR_LEN);
       if ipaddr = IPADDR_ANY \<or> ip4_addr_isbroadcast_u32 ipaddr (if_of n) \<or> ip4_addr_ismulticast ipaddr
       then Some (ERR_ARG, s)
       else do { (r, s) \<leftarrow> etharp_find_entry (Some ipaddr) flgs (Some nif) s;
         case r of
           Inl err \<Rightarrow> Some (err, s)
         | Inr i \<Rightarrow>
             do { e \<leftarrow> arp_at i s;
               if flgs AND ETHARP_FLAG_STATIC_ENTRY \<noteq> 0 then arp_store lo nif n ethaddr ETHARP_STATE_STATIC i e s
               else if arp_state e = ETHARP_STATE_STATIC then Some (ERR_VAL, s)
               else arp_store lo nif n ethaddr ETHARP_STATE_STABLE i e s } } }"

text \<open>Routing belongs to \<^verbatim>\<open>ip4.c\<close> and is an argument.\<close>

definition etharp_add_static_entry ::
  "'w linkoutput \<Rightarrow> (u32 \<Rightarrow> 'w net \<Rightarrow> nat option) \<Rightarrow> u32 \<Rightarrow> bytes \<Rightarrow> 'w net \<Rightarrow> (err \<times> 'w net) option" where
  "etharp_add_static_entry lo ip4_route ipaddr ethaddr s =
     (case ip4_route ipaddr s of
        None \<Rightarrow> Some (ERR_RTE, s)
      | Some nif \<Rightarrow> etharp_update_arp_entry lo nif ipaddr ethaddr (ETHARP_FLAG_TRY_HARD OR ETHARP_FLAG_STATIC_ENTRY) s)"

definition etharp_remove_static_entry :: "u32 \<Rightarrow> 'w net \<Rightarrow> (err \<times> 'w net) option" where
  "etharp_remove_static_entry ipaddr s =
     do { (r, s) \<leftarrow> etharp_find_entry (Some ipaddr) ETHARP_FLAG_FIND_ONLY None s;
       case r of
         Inl err \<Rightarrow> Some (err, s)
       | Inr i \<Rightarrow> do { e \<leftarrow> arp_at i s;
           if arp_state e \<noteq> ETHARP_STATE_STATIC then Some (ERR_ARG, s)
           else do { s \<leftarrow> etharp_free_entry i s; Some (ERR_OK, s) } } }"

fun cleanup_loop :: "nat \<Rightarrow> nat list \<Rightarrow> 'w net \<Rightarrow> 'w net option" where
  "cleanup_loop nif [] s = Some s"
| "cleanup_loop nif (i # is) s =
     do { e \<leftarrow> arp_at i s;
          s \<leftarrow> (if arp_state e \<noteq> ETHARP_STATE_EMPTY \<and> arp_netif e = Some nif then etharp_free_entry i s else Some s);
          cleanup_loop nif is s }"

definition etharp_cleanup_netif :: "nat \<Rightarrow> 'w net \<Rightarrow> 'w net option" where
  "etharp_cleanup_netif nif s = cleanup_loop nif [0..<ARP_TABLE_SIZE] s"

text \<open>The results behind \<open>eth_ret\<close> and \<open>ip_ret\<close> are returned with the index.\<close>

definition etharp_find_addr :: "nat option \<Rightarrow> u32 \<Rightarrow> 'w net \<Rightarrow> ((nat \<times> bytes \<times> u32) option \<times> 'w net) option" where
  "etharp_find_addr nif ipaddr s =
     do { (r, s) \<leftarrow> etharp_find_entry (Some ipaddr) ETHARP_FLAG_FIND_ONLY nif s;
       case r of
         Inl _ \<Rightarrow> Some (None, s)
       | Inr i \<Rightarrow> do { e \<leftarrow> arp_at i s;
           Some (if arp_stable (arp_state e) then Some (i, arp_ethaddr e, arp_ipaddr e) else None, s) } }"

definition etharp_get_entry :: "nat \<Rightarrow> 'w net \<Rightarrow> (u32 \<times> nat option \<times> bytes) option option" where
  "etharp_get_entry i s =
     (if i < ARP_TABLE_SIZE then
        do { e \<leftarrow> arp_at i s;
             Some (if arp_stable (arp_state e) then Some (arp_ipaddr e, arp_netif e, arp_ethaddr e) else None) }
      else Some None)"

section \<open>Output\<close>

text \<open>An entry in use is asked for again before it expires.\<close>

definition arp_refresh :: "'w linkoutput \<Rightarrow> nat \<Rightarrow> nat \<Rightarrow> etharp_entry \<Rightarrow> 'w net \<Rightarrow> 'w net option" where
  "arp_refresh lo nif arp_idx e s =
     (if arp_state e = ETHARP_STATE_STABLE then
        if arp_ctime e \<ge> ARP_AGE_REREQUEST_USED_BROADCAST then
          do { (r, s) \<leftarrow> etharp_request lo nif (arp_ipaddr e) s;
               Some (if r = ERR_OK then arp_put arp_idx (e\<lparr>arp_state := ETHARP_STATE_STABLE_REREQUESTING_1\<rparr>) s else s) }
        else if arp_ctime e \<ge> ARP_AGE_REREQUEST_USED_UNICAST then
          do { (r, s) \<leftarrow> etharp_request_dst lo nif (arp_ipaddr e) (arp_ethaddr e) s;
               Some (if r = ERR_OK then arp_put arp_idx (e\<lparr>arp_state := ETHARP_STATE_STABLE_REREQUESTING_1\<rparr>) s else s) }
        else Some s
      else Some s)"

definition etharp_output_to_arp_index :: "'w linkoutput \<Rightarrow> nat \<Rightarrow> nat \<Rightarrow> nat \<Rightarrow> 'w net \<Rightarrow> (err \<times> 'w net) option" where
  "etharp_output_to_arp_index lo nif q arp_idx s =
     do { e \<leftarrow> arp_at arp_idx s; assert (arp_stable (arp_state e)); n \<leftarrow> netifs s nif;
          s \<leftarrow> arp_refresh lo nif arp_idx e s;
          ethernet_output lo nif q (n_hwaddr n) (arp_ethaddr e) ETHTYPE_IP s }"

partial_function (option) needs_copy_loop :: "pptr \<Rightarrow> pheap \<Rightarrow> bool option" where
  "needs_copy_loop p h =
     (case p of None \<Rightarrow> Some False
      | Some a \<Rightarrow> do { c \<leftarrow> cells h a; assert (len c \<noteq> tot_len c \<or> nxt c = None);
          if type_internal c AND 0x40 \<noteq> 0 then Some True else needs_copy_loop (nxt c) h })"

text \<open>A packet that already waits is dropped for the new one.\<close>

definition arp_enqueue :: "nat \<Rightarrow> nat \<Rightarrow> 'w net \<Rightarrow> (err \<times> 'w net) option" where
  "arp_enqueue i p s =
     do { e \<leftarrow> arp_at i s;
          s \<leftarrow> (case arp_q e of None \<Rightarrow> Some s | Some b \<Rightarrow> free_pbuf b s);
          Some (ERR_OK, arp_put i (e\<lparr>arp_q := Some p\<rparr>) s) }"

definition queue_packet :: "nat \<Rightarrow> nat \<Rightarrow> 'w net \<Rightarrow> (err \<times> 'w net) option" where
  "queue_packet i q s =
     do { copy_needed \<leftarrow> needs_copy_loop (Some q) (pbufs s);
       (p, h) \<leftarrow> (if copy_needed then pbuf_clone PBUF_LINK PBUF_RAM q (pbufs s)
                  else do { h \<leftarrow> pbuf_ref (Some q) (pbufs s); Some (Some q, h) });
       (case p of
          None \<Rightarrow> Some (ERR_MEM, s\<lparr>pbufs := h\<rparr>)
        | Some a \<Rightarrow> arp_enqueue i a (s\<lparr>pbufs := h\<rparr>)) }"

text \<open>The last part of \<open>etharp_query\<close>, with the result of the request so far.\<close>

definition query_tail ::
  "'w linkoutput \<Rightarrow> nat \<Rightarrow> netif \<Rightarrow> nat \<Rightarrow> pptr \<Rightarrow> err \<Rightarrow> 'w net \<Rightarrow> (err \<times> 'w net) option" where
  "query_tail lo nif n i q result s =
     (case q of
        None \<Rightarrow> Some (result, s)
      | Some p \<Rightarrow>
          do { e \<leftarrow> arp_at i s;
            if arp_stable (arp_state e)
            then ethernet_output lo nif p (n_hwaddr n) (arp_ethaddr e) ETHTYPE_IP (s\<lparr>etharp_cached_entry := i\<rparr>)
            else if arp_state e = ETHARP_STATE_PENDING then queue_packet i p s
            else Some (result, s) })"

text \<open>What \<open>etharp_query\<close> does with the entry it found.\<close>

definition query_entry ::
  "'w linkoutput \<Rightarrow> nat \<Rightarrow> netif \<Rightarrow> u32 \<Rightarrow> pptr \<Rightarrow> nat \<Rightarrow> 'w net \<Rightarrow> (err \<times> 'w net) option" where
  "query_entry lo nif n ipaddr q i s =
     do { e \<leftarrow> arp_at i s;
       (result, s) \<leftarrow>
         (if arp_state e = ETHARP_STATE_EMPTY
          then etharp_request lo nif ipaddr (arp_put i (e\<lparr>arp_state := ETHARP_STATE_PENDING, arp_netif := Some nif\<rparr>) s)
          else if q = None then etharp_request lo nif ipaddr s
          else Some (ERR_MEM, s));
       query_tail lo nif n i q result s }"

definition etharp_query :: "'w linkoutput \<Rightarrow> nat \<Rightarrow> u32 \<Rightarrow> pptr \<Rightarrow> 'w net \<Rightarrow> (err \<times> 'w net) option" where
  "etharp_query lo nif ipaddr q s =
     do { n \<leftarrow> netifs s nif;
       if ip4_addr_isbroadcast_u32 ipaddr (if_of n) \<or> ip4_addr_ismulticast ipaddr \<or> ipaddr = IPADDR_ANY
       then Some (ERR_ARG, s)
       else do { (r, s) \<leftarrow> etharp_find_entry (Some ipaddr) ETHARP_FLAG_TRY_HARD (Some nif) s;
         case r of
           Inl err \<Rightarrow> Some (err, s)
         | Inr i \<Rightarrow> query_entry lo nif n ipaddr q i s } }"

text \<open>The source address in the IP header of the packet, read where the payload pointer points.\<close>

definition iphdr_src :: "nat \<Rightarrow> 'w net \<Rightarrow> u32 option" where
  "iphdr_src q s = do { c \<leftarrow> cells (pbufs s) q; bs \<leftarrow> rd c 12 4; Some (load32 bs) }"

definition arp_usable :: "nat \<Rightarrow> u32 \<Rightarrow> etharp_entry \<Rightarrow> bool" where
  "arp_usable nif dst e \<longleftrightarrow> arp_stable (arp_state e) \<and> arp_netif e = Some nif \<and> dst = arp_ipaddr e"

fun output_loop :: "nat \<Rightarrow> u32 \<Rightarrow> nat \<Rightarrow> etharp_entry list \<Rightarrow> nat option" where
  "output_loop nif dst i [] = None"
| "output_loop nif dst i (e # es) = (if arp_usable nif dst e then Some i else output_loop nif dst (i + 1) es)"

definition mcastaddr :: "u32 \<Rightarrow> bytes" where
  "mcastaddr ipaddr = [0x01, 0x00, 0x5e, octets ipaddr ! 1 AND 0x7f, octets ipaddr ! 2, octets ipaddr ! 3]"

text \<open>The next hop: \<open>Some None\<close> is the return of \<open>ERR_RTE\<close>.\<close>

definition next_hop :: "netif \<Rightarrow> nat \<Rightarrow> u32 \<Rightarrow> 'w net \<Rightarrow> u32 option option" where
  "next_hop n q ipaddr s =
     (if \<not> ip4_addr_netcmp ipaddr (n_ip n) (n_netmask n) \<and> \<not> ip4_addr_islinklocal ipaddr then
        do { src \<leftarrow> iphdr_src q s;
          if \<not> ip4_addr_islinklocal src
          then Some (if n_gw n \<noteq> IPADDR_ANY then Some (n_gw n) else None)
          else Some (Some ipaddr) }
      else Some (Some ipaddr))"

text \<open>Output to a resolved next hop, or resolution: the last entry used, the table, a query.\<close>

definition output_hop :: "'w linkoutput \<Rightarrow> nat \<Rightarrow> nat \<Rightarrow> u32 \<Rightarrow> 'w net \<Rightarrow> (err \<times> 'w net) option" where
  "output_hop lo nif q dst_addr s =
     do { e \<leftarrow> arp_at (etharp_cached_entry s) s;
       if arp_usable nif dst_addr e then etharp_output_to_arp_index lo nif q (etharp_cached_entry s) s
       else case output_loop nif dst_addr 0 (take ARP_TABLE_SIZE (arp_table s)) of
              Some i \<Rightarrow> etharp_output_to_arp_index lo nif q i (s\<lparr>etharp_cached_entry := i\<rparr>)
            | None \<Rightarrow> etharp_query lo nif dst_addr (Some q) s }"

definition etharp_output :: "'w linkoutput \<Rightarrow> nat \<Rightarrow> nat \<Rightarrow> u32 \<Rightarrow> 'w net \<Rightarrow> (err \<times> 'w net) option" where
  "etharp_output lo nif q ipaddr s =
     do { n \<leftarrow> netifs s nif;
       if ip4_addr_isbroadcast_u32 ipaddr (if_of n) then ethernet_output lo nif q (n_hwaddr n) ethbroadcast ETHTYPE_IP s
       else if ip4_addr_ismulticast ipaddr then ethernet_output lo nif q (n_hwaddr n) (mcastaddr ipaddr) ETHTYPE_IP s
       else do { hop \<leftarrow> next_hop n q ipaddr s;
         case hop of
           None \<Rightarrow> Some (ERR_RTE, s)
         | Some dst_addr \<Rightarrow> output_hop lo nif q dst_addr s } }"

section \<open>Input\<close>

text \<open>
  \<open>autoip_arp_reply\<close> and \<open>dhcp_arp_reply\<close> are code of other modules. The header is read where the
  payload pointer points, whatever the length of the packet. \<open>arp_opcode\<close> is the switch on the
  operation.
\<close>

definition arp_opcode ::
  "'w linkoutput \<Rightarrow> (nat \<Rightarrow> u32 \<Rightarrow> 'w net \<Rightarrow> 'w net option) \<Rightarrow> nat \<Rightarrow> bytes \<Rightarrow> bool \<Rightarrow> bytes \<Rightarrow> u32 \<Rightarrow> 'w net \<Rightarrow> 'w net option" where
  "arp_opcode lo dhcp_arp_reply nif opcode for_us shwaddr sipaddr s =
     (if opcode = store16 (lwip_htons ARP_REQUEST) then
        if for_us then
          do { n \<leftarrow> netifs s nif;
               (_, s) \<leftarrow> etharp_raw lo nif (n_hwaddr n) shwaddr (n_hwaddr n) (n_ip n) shwaddr sipaddr ARP_REPLY s;
               Some s }
        else Some s
      else if opcode = store16 (lwip_htons ARP_REPLY) then dhcp_arp_reply nif sipaddr s
      else Some s)"

definition etharp_input ::
  "'w linkoutput \<Rightarrow> (nat \<Rightarrow> bytes \<Rightarrow> 'w net \<Rightarrow> 'w net option) \<Rightarrow> (nat \<Rightarrow> u32 \<Rightarrow> 'w net \<Rightarrow> 'w net option)
     \<Rightarrow> nat \<Rightarrow> nat \<Rightarrow> 'w net \<Rightarrow> 'w net option" where
  "etharp_input lo autoip_arp_reply dhcp_arp_reply p nif s =
     do { c \<leftarrow> cells (pbufs s) p; hdr \<leftarrow> rd c 0 SIZEOF_ETHARP_HDR;
       if take 2 hdr \<noteq> store16 (lwip_htons LWIP_IANA_HWTYPE_ETHERNET) \<or> hdr ! 4 \<noteq> of_nat ETH_HWADDR_LEN
          \<or> hdr ! 5 \<noteq> 4 \<or> take 2 (drop 2 hdr) \<noteq> store16 (lwip_htons ETHTYPE_IP)
       then free_pbuf p s
       else do { s \<leftarrow> autoip_arp_reply nif hdr s;
         n \<leftarrow> netifs s nif;
         let shwaddr = take ETH_HWADDR_LEN (drop 8 hdr);
             sipaddr = load32 (take 4 (drop 14 hdr)); dipaddr = load32 (take 4 (drop 24 hdr));
             for_us = (n_ip n \<noteq> IPADDR_ANY \<and> dipaddr = n_ip n)
         in do { (_, s) \<leftarrow> etharp_update_arp_entry lo nif sipaddr shwaddr
                   (if for_us then ETHARP_FLAG_TRY_HARD else ETHARP_FLAG_FIND_ONLY) s;
           s \<leftarrow> arp_opcode lo dhcp_arp_reply nif (take 2 (drop 6 hdr)) for_us shwaddr sipaddr s;
           free_pbuf p s } } }"

section \<open>The invariant of the table\<close>

definition used :: "etharp_entry \<Rightarrow> bool" where
  "used e \<longleftrightarrow> arp_state e \<noteq> ETHARP_STATE_EMPTY"

text \<open>Only pending entries hold a packet; ages stay below their limits; used entries have an interface.\<close>

definition entry_ok :: "etharp_entry \<Rightarrow> bool" where
  "entry_ok e \<longleftrightarrow> (arp_state e \<noteq> ETHARP_STATE_PENDING \<longrightarrow> arp_q e = None) \<and> arp_ctime e < ARP_MAXAGE
     \<and> (arp_state e = ETHARP_STATE_PENDING \<longrightarrow> arp_ctime e < ARP_MAXPENDING) \<and> (used e \<longrightarrow> arp_netif e \<noteq> None)"

text \<open>No two used entries are for the same address on the same interface.\<close>

definition unique_keys :: "etharp_entry list \<Rightarrow> bool" where
  "unique_keys es \<longleftrightarrow> (\<forall>i < length es. \<forall>j < length es. i \<noteq> j \<longrightarrow> used (es ! i) \<longrightarrow> used (es ! j) \<longrightarrow>
     (arp_ipaddr (es ! i), arp_netif (es ! i)) \<noteq> (arp_ipaddr (es ! j), arp_netif (es ! j)))"

definition table_ok :: "etharp_entry list \<Rightarrow> bool" where
  "table_ok es \<longleftrightarrow> length es = ARP_TABLE_SIZE \<and> (\<forall>e \<in> set es. entry_ok e) \<and> unique_keys es"

definition arp_ok :: "'w net \<Rightarrow> bool" where
  "arp_ok s \<longleftrightarrow> table_ok (arp_table s) \<and> etharp_cached_entry s < ARP_TABLE_SIZE"

named_theorems arp_simps

lemma arp_at_Some [arp_simps]: "arp_at i s = Some e \<longleftrightarrow> i < length (arp_table s) \<and> e = arp_table s ! i"
  by (auto simp: arp_at_def)

lemma arp_put_fields [simp]:
  "arp_table (arp_put i e s) = (arp_table s)[i := e]" "etharp_cached_entry (arp_put i e s) = etharp_cached_entry s"
  "netifs (arp_put i e s) = netifs s" "pbufs (arp_put i e s) = pbufs s" "driver (arp_put i e s) = driver s"
  by (simp_all add: arp_put_def)

lemma arp_put_put: "arp_put i x (arp_put i y s) = arp_put i x s"
  by (simp add: arp_put_def)

text \<open>Replacing an entry keeps the invariant if the new one is unused, keeps its key, or has a key of its own.\<close>

lemma table_ok_update:
  assumes "table_ok es" and "i < ARP_TABLE_SIZE" and "entry_ok e"
    and "used e \<Longrightarrow> \<forall>j < ARP_TABLE_SIZE. j \<noteq> i \<longrightarrow> used (es ! j) \<longrightarrow>
        (arp_ipaddr (es ! j), arp_netif (es ! j)) \<noteq> (arp_ipaddr e, arp_netif e)"
  shows "table_ok (es[i := e])"
proof -
  have "entry_ok f" if "f \<in> set (es[i := e])" for f
    using that assms(1,3) set_update_subset_insert [of es i e] by (auto simp: table_ok_def)
  moreover have "unique_keys (es[i := e])"
    unfolding unique_keys_def
  proof (intro allI impI)
    fix j k assume jk: "j < length (es[i := e])" "k < length (es[i := e])" "j \<noteq> k" "used (es[i := e] ! j)" "used (es[i := e] ! k)"
    then have l: "j < ARP_TABLE_SIZE" "k < ARP_TABLE_SIZE" "length es = ARP_TABLE_SIZE" using assms(1) by (auto simp: table_ok_def)
    consider "j = i" | "k = i" | "j \<noteq> i" "k \<noteq> i" by blast
    then show "(arp_ipaddr (es[i := e] ! j), arp_netif (es[i := e] ! j)) \<noteq> (arp_ipaddr (es[i := e] ! k), arp_netif (es[i := e] ! k))"
    proof cases
      case 3
      then show ?thesis using jk l assms(1) by (simp add: table_ok_def unique_keys_def)
    qed (use jk l assms(2,4) in \<open>auto simp: nth_list_update\<close>)
  qed
  ultimately show ?thesis using assms(1) by (simp add: table_ok_def)
qed

lemma table_ok_key:
  assumes "table_ok es" and "i < ARP_TABLE_SIZE" and "entry_ok e" and "used (es ! i)"
    and "arp_ipaddr e = arp_ipaddr (es ! i)" and "arp_netif e = arp_netif (es ! i)"
  shows "table_ok (es[i := e])"
  using assms by (intro table_ok_update) (auto simp: table_ok_def unique_keys_def)

lemma table_ok_unused:
  "table_ok es \<Longrightarrow> i < ARP_TABLE_SIZE \<Longrightarrow> entry_ok e \<Longrightarrow> \<not> used e \<Longrightarrow> table_ok (es[i := e])"
  by (intro table_ok_update) auto

lemma table_ok_others:
  assumes "table_ok es" and "i < ARP_TABLE_SIZE" and "used (es ! i)" and "j < ARP_TABLE_SIZE" and "j \<noteq> i" and "used (es ! j)"
  shows "(arp_ipaddr (es ! j), arp_netif (es ! j)) \<noteq> (arp_ipaddr (es ! i), arp_netif (es ! i))"
  using assms unfolding table_ok_def unique_keys_def by metis

lemma table_ok_nth: "table_ok es \<Longrightarrow> i < ARP_TABLE_SIZE \<Longrightarrow> entry_ok (es ! i)"
  by (simp add: table_ok_def)

section \<open>What each operation leaves of the table\<close>

lemma free_pbuf_keeps:
  "free_pbuf p s = Some s' \<Longrightarrow> arp_table s' = arp_table s \<and> etharp_cached_entry s' = etharp_cached_entry s \<and> netifs s' = netifs s"
  by (auto simp: free_pbuf_def bind_eq_Some_conv)

lemma ethernet_output_keeps:
  "ethernet_output lo nif p src dst t s = Some (e, s') \<Longrightarrow>
     arp_table s' = arp_table s \<and> etharp_cached_entry s' = etharp_cached_entry s \<and> netifs s' = netifs s"
  by (auto simp: ethernet_output_def bind_eq_Some_conv Let_def simp del: wr_all.simps split: if_splits)

lemma etharp_raw_keeps:
  "etharp_raw lo nif a b c d e f g s = Some (r, s') \<Longrightarrow>
     arp_table s' = arp_table s \<and> etharp_cached_entry s' = etharp_cached_entry s \<and> netifs s' = netifs s"
  by (auto simp: etharp_raw_def bind_eq_Some_conv Let_def simp del: wr_all.simps split: if_splits option.splits
      dest!: ethernet_output_keeps free_pbuf_keeps)

lemma etharp_request_keeps:
  "etharp_request_dst lo nif ip hw s = Some (r, s') \<Longrightarrow>
     arp_table s' = arp_table s \<and> etharp_cached_entry s' = etharp_cached_entry s \<and> netifs s' = netifs s"
  "etharp_request lo nif ip s = Some (r, s') \<Longrightarrow>
     arp_table s' = arp_table s \<and> etharp_cached_entry s' = etharp_cached_entry s \<and> netifs s' = netifs s"
  by (auto simp: etharp_request_def etharp_request_dst_def bind_eq_Some_conv dest!: etharp_raw_keeps)

lemma cleared_entry:
  "e\<lparr>arp_q := None, arp_state := ETHARP_STATE_EMPTY, arp_ctime := 0, arp_netif := None,
     arp_ipaddr := IPADDR_ANY, arp_ethaddr := ethzero\<rparr> = empty_entry"
  by (cases e) (simp add: empty_entry_def IPADDR_ANY_def)

lemma etharp_free_entry_table:
  assumes "etharp_free_entry i s = Some s'"
  shows "i < length (arp_table s) \<and> arp_table s' = (arp_table s)[i := empty_entry]
    \<and> etharp_cached_entry s' = etharp_cached_entry s \<and> netifs s' = netifs s"
  using assms unfolding etharp_free_entry_def cleared_entry
  by (auto simp: bind_eq_Some_conv arp_simps split: option.splits dest!: free_pbuf_keeps)

lemma empty_entry_ok [simp]: "entry_ok empty_entry" "\<not> used empty_entry" "arp_q empty_entry = None" "arp_state empty_entry = ETHARP_STATE_EMPTY"
  by (simp_all add: entry_ok_def empty_entry_def used_def ARP_MAXAGE_def)

lemma free_entry_ok: "arp_ok s \<Longrightarrow> etharp_free_entry i s = Some s' \<Longrightarrow> arp_ok s'"
  using etharp_free_entry_table [of i s s'] table_ok_unused [of "arp_table s" i empty_entry] by (simp add: arp_ok_def table_ok_def)

section \<open>The search\<close>

text \<open>An index kept in the local variables is \<open>ARP_TABLE_SIZE\<close> or that of an entry of the right kind.\<close>

definition search_ok :: "etharp_entry list \<Rightarrow> nat \<Rightarrow> arp_search \<Rightarrow> bool" where
  "search_ok es k v \<longleftrightarrow>
     (empty v = ARP_TABLE_SIZE \<and> (\<forall>j < k. used (es ! j)) \<or> empty v < k \<and> \<not> used (es ! empty v))
   \<and> (old_stable v = ARP_TABLE_SIZE \<or> old_stable v < k \<and> arp_stable (arp_state (es ! old_stable v)) \<and> arp_state (es ! old_stable v) \<noteq> ETHARP_STATE_STATIC)
   \<and> (old_pending v = ARP_TABLE_SIZE \<or> old_pending v < k \<and> arp_state (es ! old_pending v) = ETHARP_STATE_PENDING)
   \<and> (old_queue v = ARP_TABLE_SIZE \<or> old_queue v < k \<and> arp_state (es ! old_queue v) = ETHARP_STATE_PENDING)"

lemma search_note_ok:
  "search_ok es k v \<Longrightarrow> used (es ! k) \<Longrightarrow> search_ok es (Suc k) (search_note k (es ! k) v)"
  by (auto simp: search_ok_def search_note_def less_Suc_eq less_static_iff)

lemma search_loop_spec:
  assumes "search_ok es k v" and "k + length rest = length es" and "rest = drop k es" and "length es = ARP_TABLE_SIZE"
    and "\<forall>j < k. used (es ! j) \<longrightarrow> \<not> arp_match ip nif (es ! j)"
  shows "case search_loop ip nif k rest v of
      Inl i \<Rightarrow> i < length es \<and> used (es ! i) \<and> arp_match ip nif (es ! i)
    | Inr v' \<Rightarrow> search_ok es (length es) v' \<and> (\<forall>j < length es. used (es ! j) \<longrightarrow> \<not> arp_match ip nif (es ! j))"
  using assms
proof (induction rest arbitrary: k v)
  case (Cons e rest)
  have kl: "k < length es" using Cons.prems(2) by simp
  then have "e # rest = es ! k # drop (Suc k) es" using Cons.prems(3) by (simp add: Cons_nth_drop_Suc)
  with kl have k: "k < length es" "e = es ! k" "rest = drop (Suc k) es" by simp_all
  have step: "search_ok es (Suc k) (v\<lparr>empty := k\<rparr>)" if "\<not> used e" "empty v = ARP_TABLE_SIZE"
    using that Cons.prems(1) k(2) by (auto simp: search_ok_def less_Suc_eq)
  have skip: "search_ok es (Suc k) v" if "\<not> used e" "empty v \<noteq> ARP_TABLE_SIZE"
    using that Cons.prems(1) by (auto simp: search_ok_def less_Suc_eq)
  note note_step = search_note_ok [OF Cons.prems(1)]
  show ?case
  proof (cases "used e")
    case True
    then show ?thesis
      using Cons.IH [OF note_step _ k(3)] Cons.prems(1,2,4,5) k by (auto simp: used_def less_Suc_eq)
  next
    case False
    then show ?thesis
      using Cons.IH [OF step _ k(3)] Cons.IH [OF skip _ k(3)] Cons.prems(1,2,4,5) k
      by (cases "empty v = ARP_TABLE_SIZE") (auto simp: used_def less_Suc_eq)
  qed
qed simp

lemma search_table:
  assumes "table_ok (arp_table s)"
  shows "case search_loop ip nif 0 (take ARP_TABLE_SIZE (arp_table s)) search_start of
      Inl i \<Rightarrow> i < ARP_TABLE_SIZE \<and> used (arp_table s ! i) \<and> arp_match ip nif (arp_table s ! i)
    | Inr v \<Rightarrow> search_ok (arp_table s) ARP_TABLE_SIZE v \<and> (\<forall>j < ARP_TABLE_SIZE. used (arp_table s ! j) \<longrightarrow> \<not> arp_match ip nif (arp_table s ! j))"
proof -
  have l: "length (arp_table s) = ARP_TABLE_SIZE" using assms by (simp add: table_ok_def)
  have "search_ok (arp_table s) 0 search_start" by (simp add: search_ok_def search_start_def)
  from search_loop_spec [OF this, of "arp_table s" ip nif] show ?thesis unfolding l by (simp add: l)
qed

lemma recycle_table:
  assumes "recycle v s = Some (Some (i, t))" and "table_ok (arp_table s)"
  shows "table_ok (arp_table t) \<and> (\<forall>j. j \<noteq> i \<longrightarrow> arp_table t ! j = arp_table s ! j)
    \<and> etharp_cached_entry t = etharp_cached_entry s \<and> netifs t = netifs s"
proof -
  have free: ?thesis if "etharp_free_entry i s = Some t"
    using etharp_free_entry_table [OF that] assms(2) table_ok_unused [OF assms(2), of i empty_entry] by (simp add: table_ok_def)
  have "etharp_free_entry i s = Some t \<or> t = s"
    using assms(1) by (auto simp: recycle_def bind_eq_Some_conv split: if_splits)
  then show ?thesis using free assms(2) by blast
qed

lemma find_entry_new:
  assumes "etharp_find_entry (Some ip) fl nif s = Some (Inr i, s')"
    and "search_loop (Some ip) nif 0 (take ARP_TABLE_SIZE (arp_table s)) search_start = Inr v"
  shows "\<exists>t. recycle v s = Some (Some (i, t)) \<and> i < ARP_TABLE_SIZE \<and> arp_state (arp_table t ! i) = ETHARP_STATE_EMPTY
    \<and> i < length (arp_table t) \<and> s' = arp_put i ((arp_table t ! i)\<lparr>arp_ipaddr := ip, arp_ctime := 0, arp_netif := nif\<rparr>) t"
  using assms by (auto simp: etharp_find_entry_def bind_eq_Some_conv arp_simps Let_def split: if_splits option.splits)

lemma find_entry_error:
  "etharp_find_entry ip fl nif s = Some (Inl err, s') \<Longrightarrow> err = ERR_MEM \<and> s' = s"
  by (auto simp: etharp_find_entry_def bind_eq_Some_conv split: sum.splits if_splits option.splits)

lemma find_entry_spec:
  assumes "etharp_find_entry (Some ip) fl nif s = Some (r, s')" and "table_ok (arp_table s)"
  shows "table_ok (arp_table s') \<and> etharp_cached_entry s' = etharp_cached_entry s \<and> netifs s' = netifs s
    \<and> (case r of Inl _ \<Rightarrow> arp_table s' = arp_table s
       | Inr i \<Rightarrow> i < ARP_TABLE_SIZE \<and> arp_ipaddr (arp_table s' ! i) = ip \<and> (nif \<noteq> None \<longrightarrow> arp_netif (arp_table s' ! i) = nif)
           \<and> (\<not> used (arp_table s' ! i) \<longrightarrow> arp_ctime (arp_table s' ! i) = 0)
           \<and> (\<forall>j < ARP_TABLE_SIZE. j \<noteq> i \<longrightarrow> used (arp_table s' ! j) \<longrightarrow> nif \<noteq> None \<longrightarrow>
                (arp_ipaddr (arp_table s' ! j), arp_netif (arp_table s' ! j)) \<noteq> (ip, nif)))"
proof (cases "search_loop (Some ip) nif 0 (take ARP_TABLE_SIZE (arp_table s)) search_start")
  case (Inl i)
  then have r: "r = Inr i" "s' = s" using assms(1) by (auto simp: etharp_find_entry_def)
  have i: "i < ARP_TABLE_SIZE" "used (arp_table s ! i)" "arp_match (Some ip) nif (arp_table s ! i)"
    using search_table [OF assms(2), of "Some ip" nif] Inl by simp_all
  then show ?thesis
    using r assms(2) table_ok_others [OF assms(2) i(1,2)] by (auto simp: arp_match_def)
next
  case (Inr v)
  have none: False if "j < ARP_TABLE_SIZE" "used (arp_table s ! j)" "arp_ipaddr (arp_table s ! j) = ip" "arp_netif (arp_table s ! j) = nif" for j
    using search_table [OF assms(2), of "Some ip" nif] Inr that by (auto simp: arp_match_def)
  show ?thesis
  proof (cases r)
    case (Inl e)
    then have "s' = s" using assms(1) find_entry_error by blast
    then show ?thesis using Inl assms(2) by simp
  next
    case (Inr i)
    with find_entry_new assms(1) \<open>search_loop _ _ _ _ _ = Inr v\<close> obtain t where
      t: "recycle v s = Some (Some (i, t))" "i < ARP_TABLE_SIZE" "arp_state (arp_table t ! i) = ETHARP_STATE_EMPTY"
        "s' = arp_put i ((arp_table t ! i)\<lparr>arp_ipaddr := ip, arp_ctime := 0, arp_netif := nif\<rparr>) t"
      by blast
    note rt = recycle_table [OF t(1) assms(2)]
    let ?e = "(arp_table t ! i)\<lparr>arp_ipaddr := ip, arp_ctime := 0, arp_netif := nif\<rparr>"
    have "entry_ok ?e" "\<not> used ?e"
      using table_ok_nth [of "arp_table t" i] rt t(2,3) by (auto simp: entry_ok_def used_def ARP_MAXAGE_def)
    with rt t(2) have "table_ok ((arp_table t)[i := ?e])" by (intro table_ok_unused) auto
    moreover have l: "length (arp_table t) = ARP_TABLE_SIZE" using rt by (simp add: table_ok_def)
    ultimately show ?thesis
      using Inr t(2,4) rt by (auto simp: nth_list_update dest: none)
  qed
qed

text \<open>The assertions of the search hold: it returns unless freeing a queued packet fails.\<close>

lemma find_entry_returns:
  assumes "table_ok (arp_table s)" and "\<forall>e \<in> set (arp_table s). \<forall>p. arp_q e = Some p \<longrightarrow> pbuf_free (Some p) (pbufs s) \<noteq> None"
  shows "etharp_find_entry ip fl nif s \<noteq> None"
proof (cases "search_loop ip nif 0 (take ARP_TABLE_SIZE (arp_table s)) search_start")
  case (Inr v)
  have ok: "search_ok (arp_table s) ARP_TABLE_SIZE v" using search_table [OF assms(1), of ip nif] Inr by simp
  have l: "length (arp_table s) = ARP_TABLE_SIZE" using assms(1) by (simp add: table_ok_def)
  have free: "\<exists>t. etharp_free_entry i s = Some t \<and> arp_table t = (arp_table s)[i := empty_entry]" if "i < ARP_TABLE_SIZE" for i
  proof -
    have "etharp_free_entry i s \<noteq> None"
      using assms(2) that l nth_mem [of i "arp_table s"]
      by (fastforce simp: etharp_free_entry_def arp_at_def free_pbuf_def split: option.splits)
    then show ?thesis using etharp_free_entry_table by blast
  qed
  have "\<exists>x. recycle v s = Some x \<and> (\<forall>i t. x = Some (i, t) \<longrightarrow> i < ARP_TABLE_SIZE \<and> length (arp_table t) = ARP_TABLE_SIZE
      \<and> arp_state (arp_table t ! i) = ETHARP_STATE_EMPTY)"
  proof -
    have q: "arp_q (arp_table s ! old_stable v) = None" if "old_stable v < ARP_TABLE_SIZE"
      using ok that table_ok_nth [OF assms(1) that] by (auto simp: search_ok_def entry_ok_def arp_stable_iff)
    show ?thesis
      using ok l q free [of "old_stable v"] free [of "old_pending v"] free [of "old_queue v"]
      by (auto simp: recycle_def arp_at_def search_ok_def used_def)
  qed
  then show ?thesis
    using Inr by (auto simp: etharp_find_entry_def arp_at_def Let_def split: option.splits)
qed (simp add: etharp_find_entry_def)

section \<open>Every operation keeps the invariant\<close>

lemma arp_store_table:
  assumes "arp_store lo nif n mac st i e s = Some (r, s')"
  shows "r = ERR_OK \<and> arp_table s' = (arp_table s)[i := e\<lparr>arp_state := st, arp_netif := Some nif,
      arp_ethaddr := take ETH_HWADDR_LEN mac, arp_ctime := 0, arp_q := None\<rparr>]
    \<and> etharp_cached_entry s' = etharp_cached_entry s \<and> netifs s' = netifs s"
  using assms unfolding arp_store_def Let_def
  by (cases "arp_q e") (auto simp: bind_eq_Some_conv dest!: free_pbuf_keeps ethernet_output_keeps)

lemma update_cases:
  assumes "etharp_update_arp_entry lo nif ip mac fl s = Some (r, s')"
  obtains (invalid) "r = ERR_ARG" "s' = s"
    | (kept) x where "etharp_find_entry (Some ip) fl (Some nif) s = Some (x, s')" "r \<noteq> ERR_OK"
    | (stored) n t i st where "etharp_find_entry (Some ip) fl (Some nif) s = Some (Inr i, t)"
        "st = ETHARP_STATE_STABLE \<or> st = ETHARP_STATE_STATIC" "arp_store lo nif n mac st i (arp_table t ! i) t = Some (r, s')"
proof -
  from assms obtain n where n: "netifs s nif = Some n"
    "(if ip = IPADDR_ANY \<or> ip4_addr_isbroadcast_u32 ip (if_of n) \<or> ip4_addr_ismulticast ip then Some (ERR_ARG, s)
      else do { (r, s) \<leftarrow> etharp_find_entry (Some ip) fl (Some nif) s;
         case r of Inl err \<Rightarrow> Some (err, s)
         | Inr i \<Rightarrow>
             do { e \<leftarrow> arp_at i s;
               if fl AND ETHARP_FLAG_STATIC_ENTRY \<noteq> 0 then arp_store lo nif n mac ETHARP_STATE_STATIC i e s
               else if arp_state e = ETHARP_STATE_STATIC then Some (ERR_VAL, s)
               else arp_store lo nif n mac ETHARP_STATE_STABLE i e s } }) = Some (r, s')"
    by (auto simp: etharp_update_arp_entry_def bind_eq_Some_conv)
  show thesis
  proof (cases "ip = IPADDR_ANY \<or> ip4_addr_isbroadcast_u32 ip (if_of n) \<or> ip4_addr_ismulticast ip")
    case True
    then show ?thesis using n invalid by simp
  next
    case False
    with n obtain x t where f: "etharp_find_entry (Some ip) fl (Some nif) s = Some (x, t)" by (auto simp: bind_eq_Some_conv)
    have mem: "err = ERR_MEM" if "x = Inl err" for err
      using f that find_entry_error by blast
    show ?thesis
    proof (cases x)
      case (Inl err)
      then show ?thesis using n False f mem [OF Inl] kept by simp
    next
      case (Inr i)
      then show ?thesis
        using n(2) False f kept [of x] stored [of i t]
        by (auto simp: bind_eq_Some_conv arp_simps split: if_splits)
    qed
  qed
qed

lemma update_ok:
  assumes "etharp_update_arp_entry lo nif ip mac fl s = Some (r, s')" and "arp_ok s"
  shows "arp_ok s' \<and> netifs s' = netifs s"
  using assms(1)
proof (cases rule: update_cases)
  case (kept x)
  then show ?thesis using find_entry_spec [OF kept(1)] assms(2) by (simp add: arp_ok_def)
next
  case (stored n t i st)
  note f = find_entry_spec [OF stored(1)] and a = arp_store_table [OF stored(3)]
  let ?e = "(arp_table t ! i)\<lparr>arp_state := st, arp_netif := Some nif, arp_ethaddr := take ETH_HWADDR_LEN mac, arp_ctime := 0, arp_q := None\<rparr>"
  have "entry_ok ?e" using stored(2) by (auto simp: entry_ok_def ARP_MAXAGE_def)
  with f assms(2) have "table_ok ((arp_table t)[i := ?e])"
    by (intro table_ok_update) (auto simp: arp_ok_def)
  with f a assms(2) show ?thesis by (simp add: arp_ok_def)
qed (use assms(2) in simp)

lemma arp_ok_put:
  assumes "arp_ok s" and "i < ARP_TABLE_SIZE" and "entry_ok e" and "used (arp_table s ! i)"
    and "arp_ipaddr e = arp_ipaddr (arp_table s ! i)" and "arp_netif e = arp_netif (arp_table s ! i)"
  shows "arp_ok (arp_put i e s)"
  using assms table_ok_key [of "arp_table s" i e] by (simp add: arp_ok_def)

lemma arp_ok_cong: "arp_table s' = arp_table s \<Longrightarrow> etharp_cached_entry s' = etharp_cached_entry s \<Longrightarrow> arp_ok s' \<longleftrightarrow> arp_ok s"
  by (simp add: arp_ok_def)

text \<open>Ageing an entry that stays: only the age changes, or the state among the stable ones.\<close>

lemma arp_ok_aged:
  assumes "arp_ok s" and "i < ARP_TABLE_SIZE" and "e = arp_table s ! i" and "used e"
    and "c < ARP_MAXAGE" and "arp_state e = ETHARP_STATE_PENDING \<longrightarrow> c < ARP_MAXPENDING"
    and "st = arp_state e \<or> arp_state e \<noteq> ETHARP_STATE_PENDING \<and> arp_stable st"
  shows "arp_ok (arp_put i (e\<lparr>arp_ctime := c, arp_state := st\<rparr>) s)"
proof (rule arp_ok_put [OF assms(1,2)])
  have "entry_ok e" using assms(1-3) table_ok_nth by (auto simp: arp_ok_def)
  then show "entry_ok (e\<lparr>arp_ctime := c, arp_state := st\<rparr>)"
    using assms(4-7) by (auto simp: entry_ok_def used_def arp_stable_iff)
qed (use assms(3,4) in auto)

lemma tmr_entry_ok:
  assumes "tmr_entry lo i s = Some s'" and "arp_ok s"
  shows "arp_ok s'"
proof -
  define e c where "e = arp_table s ! i" and "c = u16 (arp_ctime e + 1)"
  have i: "i < ARP_TABLE_SIZE" using assms by (auto simp: tmr_entry_def bind_eq_Some_conv arp_simps arp_ok_def table_ok_def)
  have at: "arp_at i s = Some e" using i assms(2) by (simp add: e_def arp_at_def arp_ok_def table_ok_def)
  let ?s = "arp_put i (e\<lparr>arp_ctime := c\<rparr>) s"
  let ?old = "ARP_MAXAGE \<le> c \<or> arp_state e = ETHARP_STATE_PENDING \<and> ARP_MAXPENDING \<le> c"
  have eq: "tmr_entry lo i s =
      (if arp_state e = ETHARP_STATE_EMPTY \<or> arp_state e = ETHARP_STATE_STATIC then Some s
       else if ?old then etharp_free_entry i ?s
       else if arp_state e = ETHARP_STATE_STABLE_REREQUESTING_1 then Some (arp_put i (e\<lparr>arp_ctime := c, arp_state := ETHARP_STATE_STABLE_REREQUESTING_2\<rparr>) s)
       else if arp_state e = ETHARP_STATE_STABLE_REREQUESTING_2 then Some (arp_put i (e\<lparr>arp_ctime := c, arp_state := ETHARP_STATE_STABLE\<rparr>) s)
       else if arp_state e = ETHARP_STATE_PENDING then do { nif \<leftarrow> arp_netif e; (_, s) \<leftarrow> etharp_request lo nif (arp_ipaddr e) ?s; Some s }
       else Some ?s)"
    by (simp add: tmr_entry_def at Let_def c_def arp_put_put)
  have stay: "arp_ok (arp_put i (e\<lparr>arp_ctime := c, arp_state := st\<rparr>) s)"
    if "\<not> ?old" "used e" "st = arp_state e \<or> arp_state e \<noteq> ETHARP_STATE_PENDING \<and> arp_stable st" for st
    using that by (intro arp_ok_aged [OF assms(2) i e_def]) auto
  have same: "arp_ok ?s" if "\<not> ?old" "used e" using stay [OF that, of "arp_state e"] by simp
  consider "arp_state e = ETHARP_STATE_EMPTY \<or> arp_state e = ETHARP_STATE_STATIC" | "used e" ?old "arp_state e \<noteq> ETHARP_STATE_STATIC"
    | "used e" "\<not> ?old" "arp_state e \<noteq> ETHARP_STATE_STATIC" by (auto simp: used_def)
  then show ?thesis
  proof cases
    case 2
    then have "etharp_free_entry i ?s = Some s'" using assms(1) eq by (auto simp: used_def)
    from etharp_free_entry_table [OF this] show ?thesis
      using assms(2) i table_ok_unused [of "arp_table s" i empty_entry] by (simp add: arp_ok_def)
  next
    case 3
    then show ?thesis
    proof (cases "arp_state e = ETHARP_STATE_PENDING")
      case True
      with 3 assms(1) eq obtain nif r where "etharp_request lo nif (arp_ipaddr e) ?s = Some (r, s')" by (auto simp: bind_eq_Some_conv)
      from etharp_request_keeps(2) [OF this] show ?thesis using same [OF 3(2,1)] arp_ok_cong [of s' ?s] by simp
    next
      case False
      then show ?thesis
        using 3 assms(1) eq same [OF 3(2,1)] stay [OF 3(2,1)] by (auto simp: used_def arp_stable_iff split: if_splits)
    qed
  qed (use assms eq in auto)
qed

lemma tmr_ok: "etharp_tmr lo s = Some s' \<Longrightarrow> arp_ok s \<Longrightarrow> arp_ok s'"
proof -
  have "tmr_loop lo is s = Some s' \<Longrightarrow> arp_ok s \<Longrightarrow> arp_ok s'" for "is"
    by (induction "is" arbitrary: s) (auto simp: bind_eq_Some_conv intro: tmr_entry_ok)
  then show "etharp_tmr lo s = Some s' \<Longrightarrow> arp_ok s \<Longrightarrow> arp_ok s'" by (simp add: etharp_tmr_def)
qed

lemma cleanup_ok: "etharp_cleanup_netif nif s = Some s' \<Longrightarrow> arp_ok s \<Longrightarrow> arp_ok s'"
proof -
  have "cleanup_loop nif is s = Some s' \<Longrightarrow> arp_ok s \<Longrightarrow> arp_ok s'" for "is"
    by (induction "is" arbitrary: s) (auto simp: bind_eq_Some_conv intro: free_entry_ok split: if_splits)
  then show "etharp_cleanup_netif nif s = Some s' \<Longrightarrow> arp_ok s \<Longrightarrow> arp_ok s'" by (simp add: etharp_cleanup_netif_def)
qed

lemma remove_static_ok:
  assumes "etharp_remove_static_entry ip s = Some (r, s')" and "arp_ok s"
  shows "arp_ok s'"
proof -
  from assms(1) obtain x t where x: "etharp_find_entry (Some ip) ETHARP_FLAG_FIND_ONLY None s = Some (x, t)"
    by (auto simp: etharp_remove_static_entry_def bind_eq_Some_conv)
  then have "arp_ok t" using find_entry_spec [OF x] assms(2) by (simp add: arp_ok_def)
  then show ?thesis
    using assms(1) x
    by (auto simp: etharp_remove_static_entry_def bind_eq_Some_conv split: sum.splits if_splits intro: free_entry_ok)
qed

lemma to_arp_index_ok:
  assumes "etharp_output_to_arp_index lo nif q i s = Some (r, s')" and "arp_ok s"
  shows "arp_ok s'"
proof -
  define e where "e = arp_table s ! i"
  have i: "i < ARP_TABLE_SIZE" and at: "arp_at i s = Some e" and st: "arp_stable (arp_state e)"
    using assms by (auto simp: etharp_output_to_arp_index_def bind_eq_Some_conv arp_at_def arp_ok_def table_ok_def e_def split: if_splits)
  have ok: "arp_ok (arp_put i (e\<lparr>arp_state := ETHARP_STATE_STABLE_REREQUESTING_1\<rparr>) t)"
    if "arp_table t = arp_table s \<and> etharp_cached_entry t = etharp_cached_entry s \<and> netifs t = netifs s" for t
  proof -
    have t: "arp_ok t" using that assms(2) arp_ok_cong by blast
    have "entry_ok e" using assms(2) i table_ok_nth by (auto simp: arp_ok_def e_def)
    then show ?thesis
      using st that by (intro arp_ok_put [OF t i]) (auto simp: e_def entry_ok_def used_def arp_stable_iff)
  qed
  have ok': "arp_ok t" if "arp_table t = arp_table s \<and> etharp_cached_entry t = etharp_cached_entry s \<and> netifs t = netifs s" for t
    using that assms(2) arp_ok_cong by blast
  from assms(1) at obtain n :: netif and t where t: "arp_refresh lo nif i e s = Some t"
    "ethernet_output lo nif q (n_hwaddr n) (arp_ethaddr e) ETHTYPE_IP t = Some (r, s')"
    by (simp add: etharp_output_to_arp_index_def bind_eq_Some_conv) blast
  have "arp_ok t"
    using t(1) by (auto simp: arp_refresh_def bind_eq_Some_conv assms(2) split: if_splits dest!: etharp_request_keeps intro!: ok intro: ok')
  then show ?thesis using ethernet_output_keeps [OF t(2)] arp_ok_cong by blast
qed

lemma enqueue_ok:
  assumes "arp_enqueue i p s = Some (r, s')" and "arp_ok s" and "arp_state (arp_table s ! i) = ETHARP_STATE_PENDING"
  shows "arp_ok s'"
proof -
  from assms(1) obtain t where t: "i < length (arp_table s)" "arp_table t = arp_table s" "etharp_cached_entry t = etharp_cached_entry s"
      "s' = arp_put i ((arp_table s ! i)\<lparr>arp_q := Some p\<rparr>) t"
    by (cases "arp_q (arp_table s ! i)") (auto simp: arp_enqueue_def bind_eq_Some_conv arp_simps dest!: free_pbuf_keeps)
  then have i: "i < ARP_TABLE_SIZE" "arp_ok t" using assms(2) by (simp_all add: arp_ok_def table_ok_def)
  have "entry_ok (arp_table s ! i)" using assms(2) i(1) table_ok_nth by (auto simp: arp_ok_def)
  then show ?thesis
    unfolding t(4) using assms(3) t(2) by (intro arp_ok_put [OF i(2,1)]) (auto simp: entry_ok_def used_def)
qed

lemma queue_packet_ok:
  assumes "queue_packet i q s = Some (r, s')" and "arp_ok s" and "arp_state (arp_table s ! i) = ETHARP_STATE_PENDING"
  shows "arp_ok s'"
proof -
  have h: "arp_ok (s\<lparr>pbufs := h\<rparr>)" "arp_state (arp_table (s\<lparr>pbufs := h\<rparr>) ! i) = ETHARP_STATE_PENDING" for h
    using assms(2,3) by (simp_all add: arp_ok_def)
  from assms(1) obtain p h where "(case p of None \<Rightarrow> Some (ERR_MEM, s\<lparr>pbufs := h\<rparr>) | Some a \<Rightarrow> arp_enqueue i a (s\<lparr>pbufs := h\<rparr>)) = Some (r, s')"
    by (simp add: queue_packet_def bind_eq_Some_conv) blast
  then show ?thesis using h enqueue_ok [OF _ h] by (auto split: option.splits)
qed

lemma query_tail_ok:
  assumes "query_tail lo nif n i q result s = Some (r, s')" and "arp_ok s"
  shows "arp_ok s'"
proof (cases q)
  case (Some p)
  with assms have i: "i < ARP_TABLE_SIZE" by (auto simp: query_tail_def bind_eq_Some_conv arp_simps arp_ok_def table_ok_def)
  have c: "arp_ok (s\<lparr>etharp_cached_entry := i\<rparr>)" using assms(2) i by (simp add: arp_ok_def)
  have out: "arp_ok s'" if "ethernet_output lo nif p src dst t (s\<lparr>etharp_cached_entry := i\<rparr>) = Some (r, s')" for src dst t
    using ethernet_output_keeps [OF that] c arp_ok_cong by blast
  show ?thesis
    using assms Some out queue_packet_ok
    by (auto simp: query_tail_def bind_eq_Some_conv arp_simps split: if_splits)
qed (use assms in \<open>simp add: query_tail_def\<close>)

lemma query_entry_ok:
  assumes "query_entry lo nif n ip q i s = Some (r, s')" and "arp_ok s" and "arp_ipaddr (arp_table s ! i) = ip"
    and "\<forall>j < ARP_TABLE_SIZE. j \<noteq> i \<longrightarrow> used (arp_table s ! j) \<longrightarrow>
      (arp_ipaddr (arp_table s ! j), arp_netif (arp_table s ! j)) \<noteq> (ip, Some nif)"
    and "\<not> used (arp_table s ! i) \<longrightarrow> arp_ctime (arp_table s ! i) = 0"
  shows "arp_ok s'"
proof -
  let ?e = "arp_table s ! i" and ?p = "(arp_table s ! i)\<lparr>arp_state := ETHARP_STATE_PENDING, arp_netif := Some nif\<rparr>"
  from assms(1) obtain result t where t: "i < length (arp_table s)"
      "(if arp_state ?e = ETHARP_STATE_EMPTY then etharp_request lo nif ip (arp_put i ?p s)
        else if q = None then etharp_request lo nif ip s else Some (ERR_MEM, s)) = Some (result, t)"
      "query_tail lo nif n i q result t = Some (r, s')"
    by (simp add: query_entry_def bind_eq_Some_conv arp_simps) blast
  have i: "i < ARP_TABLE_SIZE" using t(1) assms(2) by (simp add: arp_ok_def table_ok_def)
  have "arp_ok t"
  proof (cases "arp_state ?e = ETHARP_STATE_EMPTY")
    case True
    with t(2) have req: "etharp_request lo nif ip (arp_put i ?p s) = Some (result, t)" by simp
    have "entry_ok ?p" using True assms(5) by (auto simp: entry_ok_def used_def ARP_MAXAGE_def ARP_MAXPENDING_def)
    then have "arp_ok (arp_put i ?p s)"
      using assms(2-4) i table_ok_update [of "arp_table s" i ?p] by (auto simp: arp_ok_def)
    with etharp_request_keeps(2) [OF req] show ?thesis using arp_ok_cong [of t "arp_put i ?p s"] by simp
  next
    case False
    then show ?thesis
      using t(2) assms(2) arp_ok_cong [of t s] by (auto split: if_splits dest!: etharp_request_keeps(2))
  qed
  then show ?thesis using query_tail_ok t(3) by blast
qed

lemma query_ok:
  assumes "etharp_query lo nif ip q s = Some (r, s')" and "arp_ok s"
  shows "arp_ok s'"
proof -
  from assms(1) consider "s' = s"
    | n x t where "etharp_find_entry (Some ip) ETHARP_FLAG_TRY_HARD (Some nif) s = Some (x, t)"
        "(case x of Inl err \<Rightarrow> Some (err, t) | Inr i \<Rightarrow> query_entry lo nif n ip q i t) = Some (r, s')"
    by (simp add: etharp_query_def bind_eq_Some_conv split: if_splits) blast+
  then show ?thesis
  proof cases
    case (2 n x t)
    note f = find_entry_spec [OF 2(1)]
    have t: "arp_ok t" using f assms(2) by (simp add: arp_ok_def)
    show ?thesis
    proof (cases x)
      case (Inr i)
      then have "query_entry lo nif n ip q i t = Some (r, s')" using 2(2) by simp
      then show ?thesis by (rule query_entry_ok [OF _ t]) (use f assms(2) Inr in \<open>auto simp: arp_ok_def\<close>)
    qed (use 2(2) t in simp)
  qed (use assms(2) in simp)
qed

lemma output_loop_range: "output_loop nif dst k es = Some i \<Longrightarrow> k \<le> i \<and> i < k + length es \<and> arp_usable nif dst (es ! (i - k))"
proof (induction es arbitrary: k)
  case (Cons e es)
  show ?case
  proof (cases "arp_usable nif dst e")
    case False
    with Cons.prems have "output_loop nif dst (Suc k) es = Some i" by simp
    from Cons.IH [OF this] show ?thesis by (auto simp: nth_Cons')
  qed (use Cons.prems in auto)
qed simp

lemma output_hop_ok:
  assumes "output_hop lo nif q dst s = Some (r, s')" and "arp_ok s"
  shows "arp_ok s'"
proof -
  have cached: "arp_ok (s\<lparr>etharp_cached_entry := i\<rparr>)" if "output_loop nif dst 0 (take ARP_TABLE_SIZE (arp_table s)) = Some i" for i
    using output_loop_range [OF that] assms(2) by (simp add: arp_ok_def)
  show ?thesis
    using assms cached to_arp_index_ok query_ok
    by (cases "output_loop nif dst 0 (take ARP_TABLE_SIZE (arp_table s))")
      (auto simp: output_hop_def bind_eq_Some_conv split: if_splits)
qed

lemma output_ok:
  assumes "etharp_output lo nif q ip s = Some (r, s')" and "arp_ok s"
  shows "arp_ok s'"
proof -
  have eth: "arp_ok s'" if "ethernet_output lo nif q src dst t s = Some (r, s')" for src dst t
    using ethernet_output_keeps [OF that] assms(2) arp_ok_cong by blast
  show ?thesis
    using assms eth output_hop_ok
    by (auto simp: etharp_output_def bind_eq_Some_conv split: if_splits option.splits)
qed

text \<open>What the two foreign modules must leave alone.\<close>

definition keeps_arp :: "('w net \<Rightarrow> 'w net option) \<Rightarrow> bool" where
  "keeps_arp g \<longleftrightarrow> (\<forall>s s'. g s = Some s' \<longrightarrow> arp_ok s \<longrightarrow> arp_ok s')"

lemma free_pbuf_ok: "free_pbuf p s = Some s' \<Longrightarrow> arp_ok s \<Longrightarrow> arp_ok s'"
  using free_pbuf_keeps arp_ok_cong by blast

lemma opcode_ok:
  assumes "arp_opcode lo dr nif op us hw ip s = Some s'" and "arp_ok s" and "keeps_arp (dr nif ip)"
  shows "arp_ok s'"
proof -
  have "arp_ok s'" if "etharp_raw lo nif a b c d e f g s = Some (r, s')" for a b c d e f g r
    using etharp_raw_keeps [OF that] assms(2) arp_ok_cong by blast
  then show ?thesis
    using assms by (auto simp: arp_opcode_def keeps_arp_def bind_eq_Some_conv split: if_splits)
qed

lemma input_ok:
  assumes "etharp_input lo ar dr p nif s = Some s'" and "arp_ok s" and "\<forall>nif hdr. keeps_arp (ar nif hdr)" and "\<forall>nif ip. keeps_arp (dr nif ip)"
  shows "arp_ok s'"
proof -
  from assms(1) obtain hdr where "free_pbuf p s = Some s' \<or>
      (\<exists>t fl r u us v. ar nif hdr s = Some t
       \<and> etharp_update_arp_entry lo nif (load32 (take 4 (drop 14 hdr))) (take ETH_HWADDR_LEN (drop 8 hdr)) fl t = Some (r, u)
       \<and> arp_opcode lo dr nif (take 2 (drop 6 hdr)) us (take ETH_HWADDR_LEN (drop 8 hdr)) (load32 (take 4 (drop 14 hdr))) u = Some v
       \<and> free_pbuf p v = Some s')"
    by (simp add: etharp_input_def bind_eq_Some_conv Let_def split: if_splits) blast+
  then show ?thesis
  proof (elim disjE exE conjE)
    fix t fl r u us v
    assume t: "ar nif hdr s = Some t" "arp_opcode lo dr nif (take 2 (drop 6 hdr)) us (take ETH_HWADDR_LEN (drop 8 hdr)) (load32 (take 4 (drop 14 hdr))) u = Some v"
      "free_pbuf p v = Some s'"
      and u: "etharp_update_arp_entry lo nif (load32 (take 4 (drop 14 hdr))) (take ETH_HWADDR_LEN (drop 8 hdr)) fl t = Some (r, u)"
    have "arp_ok t" using t(1) assms(2,3) by (auto simp: keeps_arp_def)
    then have "arp_ok u" using update_ok [OF u] by blast
    then show ?thesis using opcode_ok [OF t(2)] assms(4) free_pbuf_ok [OF t(3)] by blast
  qed (use free_pbuf_ok assms(2) in blast)
qed

section \<open>All runs of the module\<close>

text \<open>
  The operations that other code calls, and \<open>elsewhere\<close>: anything that leaves the table and the
  cached index alone. \<open>ar\<close>, \<open>dr\<close> and \<open>route\<close> are the foreign functions.
\<close>

inductive arp_step ::
  "'w linkoutput \<Rightarrow> (nat \<Rightarrow> bytes \<Rightarrow> 'w net \<Rightarrow> 'w net option) \<Rightarrow> (nat \<Rightarrow> u32 \<Rightarrow> 'w net \<Rightarrow> 'w net option)
     \<Rightarrow> (u32 \<Rightarrow> 'w net \<Rightarrow> nat option) \<Rightarrow> 'w net \<Rightarrow> 'w net \<Rightarrow> bool"
  for lo ar dr route where
  tmr: "etharp_tmr lo s = Some s' \<Longrightarrow> arp_step lo ar dr route s s'"
| arp_in: "etharp_input lo ar dr p nif s = Some s' \<Longrightarrow> arp_step lo ar dr route s s'"
| arp_out: "etharp_output lo nif q ip s = Some (r, s') \<Longrightarrow> arp_step lo ar dr route s s'"
| query: "etharp_query lo nif ip q s = Some (r, s') \<Longrightarrow> arp_step lo ar dr route s s'"
| request: "etharp_request lo nif ip s = Some (r, s') \<Longrightarrow> arp_step lo ar dr route s s'"
| add_static: "etharp_add_static_entry lo route ip mac s = Some (r, s') \<Longrightarrow> arp_step lo ar dr route s s'"
| remove_static: "etharp_remove_static_entry ip s = Some (r, s') \<Longrightarrow> arp_step lo ar dr route s s'"
| cleanup: "etharp_cleanup_netif nif s = Some s' \<Longrightarrow> arp_step lo ar dr route s s'"
| elsewhere: "arp_table s' = arp_table s \<Longrightarrow> etharp_cached_entry s' = etharp_cached_entry s \<Longrightarrow> arp_step lo ar dr route s s'"

lemma arp_step_ok:
  assumes "arp_step lo ar dr route s s'" and "arp_ok s" and "\<forall>nif hdr. keeps_arp (ar nif hdr)" and "\<forall>nif ip. keeps_arp (dr nif ip)"
  shows "arp_ok s'"
  using assms(1)
proof cases
  case tmr
  then show ?thesis by (rule tmr_ok [OF _ assms(2)])
next
  case (arp_in p nif)
  then show ?thesis by (rule input_ok [OF _ assms(2-4)])
next
  case (arp_out nif q ip r)
  then show ?thesis by (rule output_ok [OF _ assms(2)])
next
  case (query nif ip q r)
  then show ?thesis by (rule query_ok [OF _ assms(2)])
next
  case (request nif ip r)
  then show ?thesis using etharp_request_keeps(2) assms(2) arp_ok_cong by blast
next
  case (add_static ip mac r)
  then show ?thesis using assms(2) by (auto simp: etharp_add_static_entry_def split: option.splits dest: update_ok)
next
  case (remove_static ip r)
  then show ?thesis by (rule remove_static_ok [OF _ assms(2)])
next
  case (cleanup nif)
  then show ?thesis by (rule cleanup_ok [OF _ assms(2)])
next
  case elsewhere
  then show ?thesis using assms(2) arp_ok_cong by blast
qed

text \<open>
  C17. In every run that starts with the empty table of the program start, the ARP table keeps its
  invariant: ten entries, no address of an interface in two of them, packets waiting only in
  pending entries, pending entries younger than 5 and all others younger than 300 ticks, and
  the index of the last entry used is inside the table.
\<close>

theorem arp_table_invariant:
  assumes "(arp_step lo ar dr route)\<^sup>*\<^sup>* s s'" and "arp_table s = replicate ARP_TABLE_SIZE empty_entry" and "etharp_cached_entry s = 0"
    and "\<forall>nif hdr. keeps_arp (ar nif hdr)" and "\<forall>nif ip. keeps_arp (dr nif ip)"
  shows "arp_ok s'"
  using assms(1)
proof (induction rule: rtranclp_induct)
  case base
  have "unique_keys (replicate ARP_TABLE_SIZE empty_entry)" by (simp add: unique_keys_def)
  then show ?case using assms(2,3) by (simp add: arp_ok_def table_ok_def ARP_TABLE_SIZE_def)
next
  case (step t u)
  then show ?case using arp_step_ok assms(4,5) by blast
qed

definition demo_netif :: netif where
  "demo_netif = \<lparr>n_ip = 0x0100a8c0, n_netmask = 0x00ffffff, n_gw = 0, n_hwaddr = [2, 0, 0, 0, 0, 1], n_hwaddr_len = 6,
     n_flags = 0x0f, n_num = 0, n_mtu = 1500, loop_first = None, loop_last = None, igmp_groups = [], autoip_llipaddr = None\<rparr>"

lemma demo_netif_fields [simp]:
  "n_ip demo_netif = 0x0100a8c0" "n_hwaddr demo_netif = [2, 0, 0, 0, 0, 1]" "n_hwaddr_len demo_netif = 6"
  "n_flags demo_netif = 0x0f" "n_num demo_netif = 0" "n_mtu demo_netif = 1500"
  by (simp_all add: demo_netif_def)

definition ip_idle :: ip_globals where
  "ip_idle = \<lparr>current_netif = None, current_input_netif = None, current_ip4_header = None, current_ip_header_tot_len = 0,
     current_iphdr_src = 0, current_iphdr_dest = 0\<rparr>"

definition demo_net :: "unit net" where
  "demo_net = \<lparr>netifs = [0 \<mapsto> demo_netif], netif_list = [0], netif_default = None, ip4_default_multicast_netif = None, ip_id = 0,
     ip_data = ip_idle, udp = udp_start [1, 2, 3, 4], frag = frag_start [1, 2, 3, 4, 5] [51, 52, 53], arp_table = replicate ARP_TABLE_SIZE empty_entry, etharp_cached_entry = 0, pbufs = sample_heap, driver = ()\<rparr>"

definition null_driver :: "unit linkoutput" where
  "null_driver nif h p w = Some (ERR_OK, w)"

lemma demo_update:
  "\<exists>s'. etharp_update_arp_entry null_driver 0 0x0200a8c0 [2, 0, 0, 0, 0, 2] ETHARP_FLAG_TRY_HARD demo_net = Some (ERR_OK, s')"
proof -
  have "map_option fst (etharp_update_arp_entry null_driver 0 0x0200a8c0 [2, 0, 0, 0, 0, 2] ETHARP_FLAG_TRY_HARD demo_net) = Some ERR_OK"
    by code_simp
  then show ?thesis by auto
qed

lemma demo_ok: "arp_ok demo_net"
  by (simp add: demo_net_def arp_ok_def table_ok_def unique_keys_def ARP_TABLE_SIZE_def)

lemma keeps_arp_Some [simp]: "keeps_arp Some"
  by (simp add: keeps_arp_def)

theorem arp_table_invariant_witness:
  "\<exists>s'. etharp_add_static_entry null_driver (\<lambda>_ _. Some 0) 0x0200a8c0 [2, 0, 0, 0, 0, 2] demo_net = Some (ERR_OK, s') \<and> arp_ok s'"
proof -
  have "map_option fst (etharp_add_static_entry null_driver (\<lambda>_ _. Some 0) 0x0200a8c0 [2, 0, 0, 0, 0, 2] demo_net) = Some ERR_OK"
    by code_simp
  then obtain s' where s': "etharp_add_static_entry null_driver (\<lambda>_ _. Some 0) 0x0200a8c0 [2, 0, 0, 0, 0, 2] demo_net = Some (ERR_OK, s')"
    by auto
  have "arp_table demo_net = replicate ARP_TABLE_SIZE empty_entry" "etharp_cached_entry demo_net = 0" by (simp_all add: demo_net_def)
  moreover have "(arp_step null_driver (\<lambda>_ _. Some) (\<lambda>_ _. Some) (\<lambda>_ _. Some 0))\<^sup>*\<^sup>* demo_net s'"
    by (rule r_into_rtranclp, rule arp_step.add_static [OF s'])
  ultimately show ?thesis using arp_table_invariant [of null_driver "\<lambda>_ _. Some" "\<lambda>_ _. Some" "\<lambda>_ _. Some 0" demo_net s'] s' by auto
qed

text \<open>
  What is stored is found: when \<open>etharp_update_arp_entry\<close> reports success, \<open>etharp_find_addr\<close>
  returns exactly the hardware address that was stored, for that address and interface.
\<close>

theorem etharp_update_find:
  assumes "etharp_update_arp_entry lo nif ip mac fl s = Some (ERR_OK, s')" and "arp_ok s" and "length mac = ETH_HWADDR_LEN"
  shows "\<exists>i. etharp_find_addr (Some nif) ip s' = Some (Some (i, mac, ip), s')"
  using assms(1)
proof (cases rule: update_cases)
  case (stored n t i st)
  note f = find_entry_spec [OF stored(1)] and a = arp_store_table [OF stored(3)]
  have ok: "table_ok (arp_table s')" using update_ok [OF assms(1,2)] by (simp add: arp_ok_def)
  have i: "i < ARP_TABLE_SIZE" "length (arp_table t) = ARP_TABLE_SIZE" using f assms(2) by (auto simp: arp_ok_def table_ok_def)
  then have e: "used (arp_table s' ! i)" "arp_ipaddr (arp_table s' ! i) = ip" "arp_netif (arp_table s' ! i) = Some nif"
    "arp_ethaddr (arp_table s' ! i) = mac" "arp_stable (arp_state (arp_table s' ! i))"
    using a f assms(2,3) stored(2) by (auto simp: arp_ok_def used_def arp_stable_iff)
  have "search_loop (Some ip) (Some nif) 0 (take ARP_TABLE_SIZE (arp_table s')) search_start = Inl i"
  proof (cases "search_loop (Some ip) (Some nif) 0 (take ARP_TABLE_SIZE (arp_table s')) search_start")
    case (Inl j)
    then have j: "j < ARP_TABLE_SIZE" "used (arp_table s' ! j)" "arp_match (Some ip) (Some nif) (arp_table s' ! j)"
      using search_table [OF ok, of "Some ip" "Some nif"] by auto
    then have "j = i" using table_ok_others [OF ok i(1) e(1) j(1) _ j(2)] e(2,3) by (auto simp: arp_match_def)
    then show ?thesis using Inl by simp
  next
    case (Inr v)
    then show ?thesis using search_table [OF ok, of "Some ip" "Some nif"] i(1) e(1-3) by (auto simp: arp_match_def)
  qed
  then show ?thesis
    using e i ok by (simp add: etharp_find_addr_def etharp_find_entry_def arp_at_def table_ok_def)
qed simp_all

theorem etharp_update_find_witness:
  "arp_ok demo_net \<and> (\<exists>i s'. etharp_find_addr (Some 0) 0x0200a8c0 s' = Some (Some (i, [2, 0, 0, 0, 0, 2], 0x0200a8c0), s')
     \<and> etharp_update_arp_entry null_driver 0 0x0200a8c0 [2, 0, 0, 0, 0, 2] ETHARP_FLAG_TRY_HARD demo_net = Some (ERR_OK, s'))"
proof -
  from demo_update obtain s' where
    s': "etharp_update_arp_entry null_driver 0 0x0200a8c0 [2, 0, 0, 0, 0, 2] ETHARP_FLAG_TRY_HARD demo_net = Some (ERR_OK, s')" ..
  from etharp_update_find [OF s' demo_ok] s' show ?thesis by (auto simp: demo_ok ETH_HWADDR_LEN_def)
qed

section \<open>ARP packets on the line\<close>

definition arp_packet :: "bytes \<Rightarrow> u32 \<Rightarrow> bytes \<Rightarrow> u32 \<Rightarrow> u16 \<Rightarrow> bytes" where
  "arp_packet hwsrc ipsrc hwdst ipdst opcode =
     [0, 1, 8, 0, 6, 4] @ store16 (lwip_htons opcode) @ hwsrc @ octets ipsrc @ hwdst @ octets ipdst"

lemma arp_stores:
  assumes "length d = SIZEOF_ETHARP_HDR" and "length hs = ETH_HWADDR_LEN" and "length ht = ETH_HWADDR_LEN"
  shows "foldl (\<lambda>d (off, bs). blit d off bs) d ([(6, store16 (lwip_htons op))] @
      [(8, take ETH_HWADDR_LEN hs), (18, take ETH_HWADDR_LEN ht), (14, octets a), (24, octets b),
       (0, store16 (lwip_htons LWIP_IANA_HWTYPE_ETHERNET)), (2, store16 (lwip_htons ETHTYPE_IP)),
       (4, [of_nat ETH_HWADDR_LEN]), (5, [4])]) = arp_packet hs a ht b op"
  using assms
  by (simp add: blit_def arp_packet_def octets_def store16_def LWIP_IANA_HWTYPE_ETHERNET_def ETHTYPE_IP_def lwip_htons_def
      ETH_HWADDR_LEN_def SIZEOF_ETHARP_HDR_def)

lemma wr_all_append: "wr_all (xs @ ys) c = do { c \<leftarrow> wr_all xs c; wr_all ys c }"
proof (induction xs arbitrary: c)
  case (Cons w xs)
  obtain off bs where w: "w = (off, bs)" by fastforce
  show ?case unfolding w using Cons.IH by (cases "wr c off bs") simp_all
qed simp

text \<open>A free block of the heap for one ARP packet.\<close>

definition ram_ready :: "pheap \<Rightarrow> bool" where
  "ram_ready h \<longleftrightarrow> ram h \<noteq> [] \<and> cells h (hd (ram h)) = None \<and> ram_fits h 66"

context ether_driver
begin

lemma raw_sends:
  assumes "ram_ready (pbufs s)" and "netifs s nif = Some n" and "n_hwaddr_len n = ETH_HWADDR_LEN"
    and "length src = ETH_HWADDR_LEN" and "length dst = ETH_HWADDR_LEN" and "length hs = ETH_HWADDR_LEN" and "length ht = ETH_HWADDR_LEN"
    and "ready (driver s)" and "42 \<le> max_frame"
  shows "\<exists>w. etharp_raw lo nif src dst hs ia ht ib op s = Some (ERR_OK, s\<lparr>driver := w\<rparr>) \<and> ready w
    \<and> line w = line (driver s) @ encode (eth_frame (if ip4_addr_islinklocal ia then ethbroadcast else dst) src ETHTYPE_ARP (arp_packet hs ia ht ib op))"
proof -
  let ?h = "pbufs s" and ?dst = "if ip4_addr_islinklocal ia then ethbroadcast else dst"
  from assms(1) obtain a rs where a: "ram ?h = a # rs" "cells ?h a = None" "ram_fits ?h 66"
    by (cases "ram ?h") (auto simp: ram_ready_def)
  let ?c = "pbuf_init_alloced_pbuf (map (junk ?h) [0..<42]) 14 28 28 PBUF_RAM 0" and ?g = "?h\<lparr>ram := rs\<rparr>"
  have alloc: "pbuf_alloc PBUF_LINK SIZEOF_ETHARP_HDR PBUF_RAM ?h = Some (Some a, put a ?c ?g)"
    using a by (simp add: pbuf_alloc_def mem_malloc_def SIZEOF_ETHARP_HDR_def SIZEOF_STRUCT_PBUF_def Let_def)
  have c: "cell_ok ?c" "len ?c = 28" "length (data_of ?c) = SIZEOF_ETHARP_HDR"
    by (auto simp: cell_ok_def pbuf_init_alloced_pbuf_def data_of_def SIZEOF_ETHARP_HDR_def)
  let ?ws1 = "[(6, store16 (lwip_htons op))]" and ?ws2 = "[(8, take ETH_HWADDR_LEN hs), (18, take ETH_HWADDR_LEN ht), (14, octets ia), (24, octets ib),
       (0, store16 (lwip_htons LWIP_IANA_HWTYPE_ETHERNET)), (2, store16 (lwip_htons ETHTYPE_IP)), (4, [of_nat ETH_HWADDR_LEN]), (5, [4])]"
  have "\<forall>(off, bs) \<in> set (?ws1 @ ?ws2). off + length bs \<le> len ?c"
    unfolding c(2) using assms(6,7) by (simp add: store16_def octets_def ETH_HWADDR_LEN_def)
  from wr_all_ok [OF c(1) this] obtain d where
    d: "wr_all (?ws1 @ ?ws2) ?c = Some d" "cell_ok d" "d = ?c\<lparr>area := area d\<rparr>" "data_of d = arp_packet hs ia ht ib op"
    unfolding arp_stores [OF c(3) assms(6,7)] by blast
  let ?t = "s\<lparr>pbufs := put a d ?g\<rparr>"
  have f: "payload d = 14" "len d = 28" "tot_len d = 28" "nxt d = None" "ref d = 1" "type_internal d = 0x80" "flags d = 0"
    using arg_cong [OF d(3), of payload] arg_cong [OF d(3), of len] arg_cong [OF d(3), of tot_len] arg_cong [OF d(3), of nxt]
      arg_cong [OF d(3), of ref] arg_cong [OF d(3), of type_internal] arg_cong [OF d(3), of flags]
    by (simp_all add: pbuf_init_alloced_pbuf_def)
  have room: "frame_room a [] (pbufs ?t)" "plen (pbufs ?t) [a] + SIZEOF_ETH_HDR \<le> max_frame" "contents (pbufs ?t) [a] = arp_packet hs ia ht ib op"
    using d(2,4) f assms(9) by (simp_all add: frame_room_def SIZEOF_ETH_HDR_def FLAG_CONTIGUOUS_def)
  have dst: "length ?dst = ETH_HWADDR_LEN" using assms(5) by (simp add: ethbroadcast_def ETH_HWADDR_LEN_def)
  from output_sends [OF room(1) _ assms(3,4) dst _ room(2), of nif ETHTYPE_ARP] assms(2,8) room(3) f obtain e w where
    e: "ref e = 1" "type_internal e = 0x80" "flags e = 0" "nxt e = None"
    and out: "ethernet_output lo nif a src ?dst ETHTYPE_ARP ?t = Some (ERR_OK, ?t\<lparr>pbufs := put a e (put a d ?g), driver := w\<rparr>)"
    and w: "ready w" "line w = line (driver s) @ encode (eth_frame ?dst src ETHTYPE_ARP (arp_packet hs ia ht ib op))"
    by auto
  have "drop_cell a (put a e (put a d ?g))\<lparr>ram := a # rs\<rparr> = ?h"
    using a by (simp add: drop_cell_def put_def fun_upd_idem)
  then have free: "free_pbuf a (?t\<lparr>pbufs := put a e (put a d ?g), driver := w\<rparr>) = Some (s\<lparr>driver := w\<rparr>)"
    using e by (simp add: free_pbuf_def pbuf_free_def free_loop.simps release_def PBUF_FLAG_IS_CUSTOM_def)
  from d(1) obtain c1 where c1: "wr_all ?ws1 ?c = Some c1" "wr_all ?ws2 c1 = Some d" unfolding wr_all_append by (auto simp only: bind_eq_Some_conv)
  have "etharp_raw lo nif src dst hs ia ht ib op s = Some (ERR_OK, s\<lparr>driver := w\<rparr>)"
    using out free alloc c1 assms(2,3) c(2)
    by (cases "ip4_addr_islinklocal ia") (simp_all add: etharp_raw_def SIZEOF_ETHARP_HDR_def Let_def put_put del: wr_all.simps)
  with w show ?thesis by blast
qed

end

end
