(* ===== verification/Netif_Loop.thy ===== *)
theory Netif_Loop
  imports Etharp
begin

text \<open>
  The loopback queue of \<^verbatim>\<open>core/netif.c\<close>: \<open>netif_loop_output\<close> copies a packet for an address of
  the host itself and appends it to the queue of the interface, \<open>netif_poll\<close> takes the packets
  off again and hands them to \<open>ip_input\<close>, which is an argument here. The queue is one chain of
  cells in which a packet ends where \<open>len\<close> equals \<open>tot_len\<close>. Options of this build:
  \<open>LWIP_LOOPBACK_MAX_PBUFS\<close> is 0 (no limit) and there is one thread.
\<close>

section \<open>Definitions\<close>

partial_function (option) last_loop :: "nat \<Rightarrow> pheap \<Rightarrow> nat option" where
  "last_loop a h = do { c \<leftarrow> cells h a; case nxt c of None \<Rightarrow> Some a | Some b \<Rightarrow> last_loop b h }"

definition loop_append :: "nat \<Rightarrow> nat \<Rightarrow> nat \<Rightarrow> 'w net \<Rightarrow> 'w net option" where
  "loop_append nif r lst s =
     do { n \<leftarrow> netifs s nif;
       if loop_first n \<noteq> None
       then do { l \<leftarrow> loop_last n; d \<leftarrow> cells (pbufs s) l;
         Some (s\<lparr>pbufs := put l (d\<lparr>nxt := Some r\<rparr>) (pbufs s), netifs := (netifs s)(nif \<mapsto> n\<lparr>loop_last := Some lst\<rparr>)\<rparr>) }
       else Some (s\<lparr>netifs := (netifs s)(nif \<mapsto> n\<lparr>loop_first := Some r, loop_last := Some lst\<rparr>)\<rparr>) }"

definition netif_loop_output :: "nat \<Rightarrow> nat \<Rightarrow> 'w net \<Rightarrow> (err \<times> 'w net) option" where
  "netif_loop_output nif p s =
     do { c \<leftarrow> cells (pbufs s) p;
       (q, h) \<leftarrow> pbuf_alloc PBUF_LINK (tot_len c) PBUF_RAM (pbufs s);
       case q of
         None \<Rightarrow> Some (ERR_MEM, s\<lparr>pbufs := h\<rparr>)
       | Some r \<Rightarrow>
           do { (err, h) \<leftarrow> pbuf_copy (Some r) (Some p) h;
             if err \<noteq> ERR_OK then do { s \<leftarrow> free_pbuf r (s\<lparr>pbufs := h\<rparr>); Some (err, s) }
             else do { lst \<leftarrow> last_loop r h; s \<leftarrow> loop_append nif r lst (s\<lparr>pbufs := h\<rparr>); Some (ERR_OK, s) } } }"

definition netif_loop_output_ipv4 :: "nat \<Rightarrow> nat \<Rightarrow> u32 \<Rightarrow> 'w net \<Rightarrow> (err \<times> 'w net) option" where
  "netif_loop_output_ipv4 nif p addr s = netif_loop_output nif p s"

text \<open>The last cell of the first packet in the queue.\<close>

partial_function (option) packet_end :: "nat \<Rightarrow> pheap \<Rightarrow> nat option" where
  "packet_end a h = do { c \<leftarrow> cells h a; if len c \<noteq> tot_len c then do { b \<leftarrow> nxt c; packet_end b h } else Some a }"

text \<open>Taking the first packet, which starts at \<open>p\<close>, off the queue.\<close>

definition loop_unlink :: "nat \<Rightarrow> netif \<Rightarrow> nat \<Rightarrow> 'w net \<Rightarrow> 'w net option" where
  "loop_unlink nif n p s =
     do { in_end \<leftarrow> packet_end p (pbufs s);
       e \<leftarrow> cells (pbufs s) in_end;
       n' \<leftarrow> (if loop_last n = Some in_end then Some (n\<lparr>loop_first := None, loop_last := None\<rparr>)
             else do { assert (nxt e \<noteq> None); Some (n\<lparr>loop_first := nxt e\<rparr>) });
       let h = put in_end (e\<lparr>nxt := None\<rparr>) (pbufs s) in
       do { c \<leftarrow> cells h p;
         Some (s\<lparr>pbufs := put p (c\<lparr>if_idx := n_num n + 1\<rparr>) h, netifs := (netifs s)(nif \<mapsto> n')\<rparr>) } }"

partial_function (option) netif_poll ::
  "(nat \<Rightarrow> nat \<Rightarrow> 'w net \<Rightarrow> (err \<times> 'w net) option) \<Rightarrow> nat \<Rightarrow> 'w net \<Rightarrow> 'w net option" where
  "netif_poll ip_input nif s =
     do { n \<leftarrow> netifs s nif;
       case loop_first n of
         None \<Rightarrow> Some s
       | Some p \<Rightarrow>
           do { s \<leftarrow> loop_unlink nif n p s;
             (err, s) \<leftarrow> ip_input p nif s;
             s \<leftarrow> (if err \<noteq> ERR_OK then free_pbuf p s else Some s);
             netif_poll ip_input nif s } }"

text \<open>\<open>NETIF_FOREACH\<close> follows the list while the interfaces stay in it.\<close>

fun poll_loop :: "(nat \<Rightarrow> nat \<Rightarrow> 'w net \<Rightarrow> (err \<times> 'w net) option) \<Rightarrow> nat list \<Rightarrow> 'w net \<Rightarrow> 'w net option" where
  "poll_loop ip_input [] s = Some s"
| "poll_loop ip_input (nif # nifs) s = do { s \<leftarrow> netif_poll ip_input nif s; poll_loop ip_input nifs s }"

definition netif_poll_all :: "(nat \<Rightarrow> nat \<Rightarrow> 'w net \<Rightarrow> (err \<times> 'w net) option) \<Rightarrow> 'w net \<Rightarrow> 'w net option" where
  "netif_poll_all ip_input s = poll_loop ip_input (netif_list s) s"

end
