(* ===== verification/Inet_Chksum.thy ===== *)
theory Inet_Chksum
  imports Ip4_Addr Pbuf_Packets
begin

text \<open>
  \<^verbatim>\<open>core/inet_chksum.c\<close> of lwIP: the Internet checksum over memory and over pbuf chains, with
  and without pseudo header. The summation is the second of the three algorithms in the file
  (\<open>LWIP_CHKSUM_ALGORITHM\<close> 2, the default): 16-bit little-endian loads into a 32-bit sum, with
  a byte swap when the data starts at an odd address. Where a payload lies in memory is an
  argument (\<open>is_odd\<close>); the results turn out not to depend on it.
\<close>

section \<open>Summing memory\<close>

text \<open>A 16-bit load on a little-endian host.\<close>

definition le16 :: "u8 \<Rightarrow> u8 \<Rightarrow> u16" where
  "le16 lo hi = ucast lo + 256 * ucast hi"

definition FOLD_U32T :: "u32 \<Rightarrow> u32" where
  "FOLD_U32T u = drop_bit 16 u + (u AND 0x0000ffff)"

definition SWAP_BYTES_IN_WORD :: "u32 \<Rightarrow> u32" where
  "SWAP_BYTES_IN_WORD w = push_bit 8 (w AND 0xff) OR drop_bit 8 (w AND 0xff00)"

fun chksum_words :: "bytes \<Rightarrow> u32 \<Rightarrow> u32 \<times> bytes" where
  "chksum_words (a # b # ps) acc = chksum_words ps (acc + ucast (le16 a b))"
| "chksum_words ps acc = (acc, ps)"

definition lwip_standard_chksum :: "bool \<Rightarrow> bytes \<Rightarrow> u16" where
  "lwip_standard_chksum is_odd pb =
     (let (t_hi, pb) = (if is_odd \<and> pb \<noteq> [] then (hd pb, tl pb) else (0, pb));
          (acc, ps) = chksum_words pb 0;
          t_lo = (case ps of [] \<Rightarrow> 0 | b # _ \<Rightarrow> b);
          acc = acc + ucast (le16 t_lo t_hi);
          acc = FOLD_U32T acc;
          acc = FOLD_U32T acc;
          acc = (if is_odd then SWAP_BYTES_IN_WORD acc else acc)
      in ucast acc)"

definition inet_chksum :: "bool \<Rightarrow> bytes \<Rightarrow> u16" where
  "inet_chksum is_odd pb = NOT (lwip_standard_chksum is_odd pb)"

text \<open>\<open>lwip_chksum_copy\<close>: the bytes now at the destination and the sum of them.\<close>

definition lwip_chksum_copy :: "bool \<Rightarrow> bytes \<Rightarrow> bytes \<Rightarrow> bytes \<times> u16" where
  "lwip_chksum_copy is_odd dst src = (let dst = blit dst 0 src in (dst, lwip_standard_chksum is_odd (take (length src) dst)))"

section \<open>Summing chains\<close>

text \<open>
  One step of the loops over a chain: add the sum of a payload, fold once, and swap when its
  length is odd. \<open>swp\<close> is the flag \<open>swapped\<close>.
\<close>

definition add_segment :: "bool \<Rightarrow> bytes \<Rightarrow> bool \<Rightarrow> u32 \<times> bool \<Rightarrow> u32 \<times> bool" where
  "add_segment is_odd pb len_odd s = (case s of (acc, swp) \<Rightarrow>
     (let acc = FOLD_U32T (acc + ucast (lwip_standard_chksum is_odd pb)) in
      if len_odd then (SWAP_BYTES_IN_WORD acc, \<not> swp) else (acc, swp)))"

partial_function (option) chksum_chain ::
  "(nat \<Rightarrow> bool) \<Rightarrow> pptr \<Rightarrow> u32 \<times> bool \<Rightarrow> pheap \<Rightarrow> (u32 \<times> bool) option" where
  "chksum_chain is_odd q s h =
     (case q of None \<Rightarrow> Some s
      | Some a \<Rightarrow> do { c \<leftarrow> cells h a; bs \<leftarrow> rd c 0 (len c);
          chksum_chain is_odd (nxt c) (add_segment (is_odd a) bs (len c mod 2 \<noteq> 0) s) h })"

definition unswap :: "u32 \<times> bool \<Rightarrow> u32" where
  "unswap s = (case s of (acc, swp) \<Rightarrow> if swp then SWAP_BYTES_IN_WORD acc else acc)"

definition inet_chksum_pbuf :: "(nat \<Rightarrow> bool) \<Rightarrow> pptr \<Rightarrow> pheap \<Rightarrow> u16 option" where
  "inet_chksum_pbuf is_odd p h =
     do { s \<leftarrow> chksum_chain is_odd p (0, False) h; Some (ucast (NOT (unswap s AND 0xffff))) }"

definition finish_pseudo :: "u8 \<Rightarrow> u16 \<Rightarrow> u32 \<Rightarrow> u16" where
  "finish_pseudo proto proto_len acc =
     (let acc = acc + ucast (lwip_htons (ucast proto));
          acc = acc + ucast (lwip_htons proto_len);
          acc = FOLD_U32T (FOLD_U32T acc)
      in ucast (NOT (acc AND 0xffff)))"

definition inet_cksum_pseudo_base :: "(nat \<Rightarrow> bool) \<Rightarrow> pptr \<Rightarrow> u8 \<Rightarrow> u16 \<Rightarrow> u32 \<Rightarrow> pheap \<Rightarrow> u16 option" where
  "inet_cksum_pseudo_base is_odd p proto proto_len acc h =
     do { s \<leftarrow> chksum_chain is_odd p (acc, False) h; Some (finish_pseudo proto proto_len (unswap s)) }"

text \<open>Both halves of an address word are added, lower half first.\<close>

definition add_addr :: "u32 \<Rightarrow> u32 \<Rightarrow> u32" where
  "add_addr acc addr = (acc + (addr AND 0xffff)) + (drop_bit 16 addr AND 0xffff)"

definition inet_chksum_pseudo :: "(nat \<Rightarrow> bool) \<Rightarrow> pptr \<Rightarrow> u8 \<Rightarrow> u16 \<Rightarrow> u32 \<Rightarrow> u32 \<Rightarrow> pheap \<Rightarrow> u16 option" where
  "inet_chksum_pseudo is_odd p proto proto_len src dest h =
     (let acc = add_addr (add_addr 0 src) dest in
      inet_cksum_pseudo_base is_odd p proto proto_len (FOLD_U32T (FOLD_U32T acc)) h)"

text \<open>An IPv6 address is four words; the loop takes one of each in turn.\<close>

fun add_addr6 :: "u32 list \<Rightarrow> u32 list \<Rightarrow> u32 \<Rightarrow> u32" where
  "add_addr6 (s # src) (d # dest) acc = add_addr6 src dest (add_addr (add_addr acc s) d)"
| "add_addr6 _ _ acc = acc"

definition ip6_chksum_pseudo ::
  "(nat \<Rightarrow> bool) \<Rightarrow> pptr \<Rightarrow> u8 \<Rightarrow> u16 \<Rightarrow> u32 list \<Rightarrow> u32 list \<Rightarrow> pheap \<Rightarrow> u16 option" where
  "ip6_chksum_pseudo is_odd p proto proto_len src dest h =
     inet_cksum_pseudo_base is_odd p proto proto_len (FOLD_U32T (FOLD_U32T (add_addr6 src dest 0))) h"

datatype ip_addr = V4 u32 | V6 "u32 list"

text \<open>\<open>ip_2_ip4\<close> and \<open>ip_2_ip6\<close> reinterpret the union; both addresses of a packet have one type.\<close>

definition ip_chksum_pseudo :: "(nat \<Rightarrow> bool) \<Rightarrow> pptr \<Rightarrow> u8 \<Rightarrow> u16 \<Rightarrow> ip_addr \<Rightarrow> ip_addr \<Rightarrow> pheap \<Rightarrow> u16 option" where
  "ip_chksum_pseudo is_odd p proto proto_len src dest h =
     (case (src, dest) of
        (V6 s, V6 d) \<Rightarrow> ip6_chksum_pseudo is_odd p proto proto_len s d h
      | (V4 s, V4 d) \<Rightarrow> inet_chksum_pseudo is_odd p proto proto_len s d h
      | _ \<Rightarrow> None)"

section \<open>Summing the front of a chain\<close>

partial_function (option) chksum_partial ::
  "(nat \<Rightarrow> bool) \<Rightarrow> pptr \<Rightarrow> nat \<Rightarrow> u32 \<times> bool \<Rightarrow> pheap \<Rightarrow> (u32 \<times> bool) option" where
  "chksum_partial is_odd q chksum_len s h =
     (case q of None \<Rightarrow> Some s
      | Some a \<Rightarrow>
          if chksum_len = 0 then Some s
          else do { c \<leftarrow> cells h a;
            let chklen = (if len c > chksum_len then chksum_len else len c) in
            do { bs \<leftarrow> rd c 0 chklen;
              assert (chksum_len - chklen < 0x7fff);
              chksum_partial is_odd (nxt c) (chksum_len - chklen) (add_segment (is_odd a) bs (len c mod 2 \<noteq> 0) s) h } })"

definition inet_cksum_pseudo_partial_base ::
  "(nat \<Rightarrow> bool) \<Rightarrow> pptr \<Rightarrow> u8 \<Rightarrow> u16 \<Rightarrow> nat \<Rightarrow> u32 \<Rightarrow> pheap \<Rightarrow> u16 option" where
  "inet_cksum_pseudo_partial_base is_odd p proto proto_len chksum_len acc h =
     do { s \<leftarrow> chksum_partial is_odd p chksum_len (acc, False) h; Some (finish_pseudo proto proto_len (unswap s)) }"

definition inet_chksum_pseudo_partial ::
  "(nat \<Rightarrow> bool) \<Rightarrow> pptr \<Rightarrow> u8 \<Rightarrow> u16 \<Rightarrow> nat \<Rightarrow> u32 \<Rightarrow> u32 \<Rightarrow> pheap \<Rightarrow> u16 option" where
  "inet_chksum_pseudo_partial is_odd p proto proto_len chksum_len src dest h =
     inet_cksum_pseudo_partial_base is_odd p proto proto_len chksum_len
       (FOLD_U32T (FOLD_U32T (add_addr (add_addr 0 src) dest))) h"

definition ip6_chksum_pseudo_partial ::
  "(nat \<Rightarrow> bool) \<Rightarrow> pptr \<Rightarrow> u8 \<Rightarrow> u16 \<Rightarrow> nat \<Rightarrow> u32 list \<Rightarrow> u32 list \<Rightarrow> pheap \<Rightarrow> u16 option" where
  "ip6_chksum_pseudo_partial is_odd p proto proto_len chksum_len src dest h =
     inet_cksum_pseudo_partial_base is_odd p proto proto_len chksum_len
       (FOLD_U32T (FOLD_U32T (add_addr6 src dest 0))) h"

definition ip_chksum_pseudo_partial ::
  "(nat \<Rightarrow> bool) \<Rightarrow> pptr \<Rightarrow> u8 \<Rightarrow> u16 \<Rightarrow> nat \<Rightarrow> ip_addr \<Rightarrow> ip_addr \<Rightarrow> pheap \<Rightarrow> u16 option" where
  "ip_chksum_pseudo_partial is_odd p proto proto_len chksum_len src dest h =
     (case (src, dest) of
        (V6 s, V6 d) \<Rightarrow> ip6_chksum_pseudo_partial is_odd p proto proto_len chksum_len s d h
      | (V4 s, V4 d) \<Rightarrow> inet_chksum_pseudo_partial is_odd p proto proto_len chksum_len s d h
      | _ \<Rightarrow> None)"

section \<open>The reference: a sum modulo 65535\<close>

text \<open>
  \<open>le_sum\<close> adds the little-endian 16-bit words, the last one padded with a zero byte;
  \<open>norm\<close> is the representative in one's complement arithmetic, 0 only for the sum 0.
\<close>

fun le_sum :: "bytes \<Rightarrow> nat" where
  "le_sum (a # b # r) = unat a + 256 * unat b + le_sum r"
| "le_sum [a] = unat a"
| "le_sum [] = 0"

definition norm :: "nat \<Rightarrow> nat" where
  "norm n = (if n = 0 then 0 else (n - 1) mod 65535 + 1)"

lemma norm_le: "norm n \<le> 65535"
  using mod_less_divisor [of 65535 "n - 1"] by (simp add: norm_def del: mod_less_divisor)

lemma norm_less [simp]: "norm n < 65536"
  using norm_le [of n] by linarith

lemma norm_self: "n \<le> 65535 \<Longrightarrow> norm n = n"
  by (cases n) (auto simp: norm_def)

lemma norm_0_iff [simp]: "norm n = 0 \<longleftrightarrow> n = 0"
  by (simp add: norm_def)

lemma norm_mod: "norm n mod 65535 = n mod 65535"
  by (cases n) (simp_all add: norm_def mod_Suc_eq)

lemma norm_unique: "m mod 65535 = n mod 65535 \<Longrightarrow> (m = 0 \<longleftrightarrow> n = 0) \<Longrightarrow> norm m = norm n"
proof -
  assume e: "m mod 65535 = n mod 65535" and z: "m = 0 \<longleftrightarrow> n = 0"
  show "norm m = norm n"
  proof (cases "m = 0")
    case False
    then obtain m' n' where "m = Suc m'" "n = Suc n'" using z by (metis not0_implies_Suc)
    moreover from this e have "m' mod 65535 = n' mod 65535"
      by (simp add: mod_Suc split: if_splits)
    ultimately show ?thesis by (simp add: norm_def)
  qed (use z in simp)
qed

section \<open>Folding and swapping\<close>

lemma take_16: "(u :: u32) AND 0x0000ffff = take_bit 16 u"
proof -
  have "(0x0000ffff :: u32) = mask 16" by (simp add: mask_eq_exp_minus_1)
  then show ?thesis by (simp add: take_bit_eq_mask)
qed

lemma unat_FOLD: "unat (FOLD_U32T u) = unat u div 65536 + unat u mod 65536"
proof -
  have a: "unat (drop_bit 16 u) = unat u div 65536" by (simp add: drop_bit_eq_div unat_div)
  have b: "unat (take_bit 16 u) = unat u mod 65536" by (simp add: take_bit_eq_mod unat_mod)
  have "unat u < 2 ^ 32" using unsigned_less [of u] by simp
  then have "unat u div 65536 + unat u mod 65536 < 2 ^ 32" using div_le_dividend [of "unat u" 65536] div_mult_mod_eq [of "unat u" 65536] by linarith
  then show ?thesis
    unfolding FOLD_U32T_def take_16 using a b by (simp add: unat_add_lem [THEN iffD1])
qed

lemma fold_mod: "(n div 65536 + n mod 65536) mod 65535 = n mod (65535 :: nat)"
proof -
  have "n = 65535 * (n div 65536) + (n div 65536 + n mod 65536)" by (simp add: algebra_simps)
  then show ?thesis by (metis mod_mult_self4 add.commute)
qed

lemma fold_norm: "norm (n div 65536 + n mod 65536) = norm n"
proof (rule norm_unique [OF fold_mod])
  show "(n div 65536 + n mod 65536 = 0) = (n = 0)" using div_mult_mod_eq [of n 65536] by auto
qed

lemma fold_small:
  assumes "n \<le> 131070"
  shows "n div 65536 + n mod 65536 \<le> (65535 :: nat)"
proof -
  let ?q = "n div 65536" and ?r = "n mod 65536"
  have n: "n = 65536 * ?q + ?r" by simp
  have r: "?r < 65536" by simp
  show ?thesis
  proof (cases "?q = 0")
    case False
    then have "1 \<le> ?q" by simp
    with n assms show ?thesis by linarith
  qed (use r in linarith)
qed

lemma fold_once: "unat u \<le> 131070 \<Longrightarrow> unat (FOLD_U32T u) = norm (unat u)"
  using fold_norm [of "unat u"] norm_self [OF fold_small [of "unat u"]] by (simp add: unat_FOLD)

lemma fold_twice: "unat (FOLD_U32T (FOLD_U32T u)) = norm (unat u)"
proof -
  have "unat u div 65536 < 65536" using unat_u32_less [of u] by (simp add: div_less_iff_less_mult)
  then have "unat (FOLD_U32T u) \<le> 131070"
    using mod_less_divisor [of 65536 "unat u"] unfolding unat_FOLD by linarith
  then show ?thesis using fold_once [of "FOLD_U32T u"] fold_norm [of "unat u"] by (simp add: unat_FOLD)
qed

lemma unat_SWAP:
  assumes "unat w \<le> 65535"
  shows "unat (SWAP_BYTES_IN_WORD w) = 256 * (unat w mod 256) + unat w div 256"
proof -
  have small: "\<not> bit w i" if "16 \<le> i" for i
  proof -
    have "w = take_bit 16 w" using assms by (simp add: word_unat_eq_iff take_bit_eq_mod unat_mod)
    then show ?thesis using that by (metis bit_take_bit_iff not_less)
  qed
  have m: "(0xff :: u32) = mask 8" "(0xff00 :: u32) = push_bit 8 (mask 8)" by (rule byte_masks)+
  have "SWAP_BYTES_IN_WORD w = push_bit 8 (take_bit 8 w) OR drop_bit 8 w"
    unfolding SWAP_BYTES_IN_WORD_def m
    by (rule bit_word_eqI) (use small in \<open>auto simp: bit_simps\<close>)
  also have "\<dots> = push_bit 8 (take_bit 8 w) + drop_bit 8 w"
    by (rule disjunctive_add [symmetric]) (use small in \<open>auto simp: bit_simps\<close>)
  also have "unat \<dots> = 256 * (unat w mod 256) + unat w div 256"
  proof -
    have "unat (drop_bit 8 w) = unat w div 256" by (simp add: drop_bit_eq_div unat_div)
    moreover have "unat (push_bit 8 (take_bit 8 w)) = 256 * (unat w mod 256)"
      by (simp add: push_bit_eq_mult take_bit_eq_mod unat_mult_lem [THEN iffD1] unat_mod)
    moreover have "unat w mod 256 < 256" by simp
    ultimately show ?thesis using assms by (simp add: unat_add_lem [THEN iffD1])
  qed
  finally show ?thesis .
qed

section \<open>Arithmetic of the reference\<close>

lemma norm_add: "norm (norm a + norm b) = norm (a + b)"
  by (rule norm_unique) (simp_all add: norm_mod mod_add_eq [symmetric, of "norm a"] mod_add_eq)

lemma norm_256: "norm (256 * norm a) = norm (256 * a)"
  by (rule norm_unique) (simp_all add: mod_mult_right_eq [symmetric, of _ "norm a"] norm_mod mod_mult_right_eq)

lemma norm_cong: "norm a = norm b \<Longrightarrow> norm (k + a) = norm (k + b)"
  by (metis norm_add)

lemma norm_cong_256: "norm a = norm b \<Longrightarrow> norm (256 * a) = norm (256 * b)"
  by (metis norm_256)

lemma norm_norm [simp]: "norm (norm a) = norm a"
  by (rule norm_self [OF norm_le])

lemma norm_add_left: "norm (norm a + b) = norm (a + b)"
  using norm_add [of "norm a" b] norm_add [of a b] by simp

lemma norm_65536: "norm (256 * (256 * a)) = norm a"
proof (rule norm_unique)
  have "256 * (256 * a) = a + 65535 * a" by simp
  then show "256 * (256 * a) mod 65535 = a mod 65535" by (metis mod_mult_self2)
qed simp

lemma swap_norm:
  assumes "n \<le> 65535"
  shows "256 * (n mod 256) + n div 256 = norm (256 * n)"
proof -
  have "n div 256 < 256" "n mod 256 < 256" using assms by (simp_all add: div_less_iff_less_mult)
  then have le: "256 * (n mod 256) + n div 256 \<le> 65535" by linarith
  have "256 * n = 256 * (n mod 256) + n div 256 + 65535 * (n div 256)"
    using div_mult_mod_eq [of n 256] by linarith
  then have "(256 * (n mod 256) + n div 256) mod 65535 = 256 * n mod 65535" by (metis mod_mult_self2)
  moreover have "256 * (n mod 256) + n div 256 = 0 \<longleftrightarrow> 256 * n = 0"
    using div_mult_mod_eq [of n 256] by auto
  ultimately show ?thesis using norm_unique norm_self [OF le] by metis
qed

lemma unat_SWAP_norm: "unat w \<le> 65535 \<Longrightarrow> unat (SWAP_BYTES_IN_WORD w) = norm (256 * unat w)"
  by (simp add: unat_SWAP swap_norm)

lemma le_sum_0: "le_sum bs = 0 \<longleftrightarrow> (\<forall>b \<in> set bs. b = 0)"
  by (induction bs rule: le_sum.induct) (auto simp: unat_eq_0)

lemma le_sum_bound: "le_sum bs \<le> 65535 * length bs"
proof (induction bs rule: le_sum.induct)
  case (1 a b r)
  have "unat a \<le> 255" "unat b \<le> 255" using unat_u8_less [of a] unat_u8_less [of b] by linarith+
  with 1 show ?case by simp
next
  case (2 a)
  have "unat a \<le> 255" using unat_u8_less [of a] by linarith
  then show ?case by simp
qed simp

lemma le_sum_shift: "norm (le_sum (b # r)) = norm (unat b + 256 * le_sum r)"
proof (induction r arbitrary: b)
  case (Cons c r)
  have "norm (unat b + 256 * le_sum (c # r)) = norm (unat b + 256 * (unat c + 256 * le_sum r))"
    using Cons.IH [of c] by (metis norm_add norm_256)
  also have "\<dots> = norm (unat b + 256 * unat c + 256 * (256 * le_sum r))" by (simp add: algebra_simps)
  also have "\<dots> = norm (unat b + 256 * unat c + le_sum r)" by (metis norm_add norm_65536)
  finally show ?case by simp
qed simp

lemma le_sum_append:
  "norm (le_sum (xs @ ys)) = norm (le_sum xs + (if even (length xs) then 1 else 256) * le_sum ys)"
proof (induction xs)
  case (Cons x xs)
  let ?k = "if even (length xs) then 1 else 256" and ?k' = "if even (length xs) then 256 else 1 :: nat"
  have "norm (le_sum ((x # xs) @ ys)) = norm (unat x + 256 * le_sum (xs @ ys))" using le_sum_shift [of x "xs @ ys"] by simp
  also have "\<dots> = norm (unat x + 256 * (le_sum xs + ?k * le_sum ys))" using Cons.IH by (metis norm_add norm_256)
  also have "256 * (le_sum xs + ?k * le_sum ys) = 256 * le_sum xs + 256 * (?k * le_sum ys)" by (simp add: algebra_simps)
  also have "norm (unat x + (256 * le_sum xs + 256 * (?k * le_sum ys))) = norm ((unat x + 256 * le_sum xs) + ?k' * le_sum ys)"
    using norm_65536 [of "le_sum ys"] by (simp add: add.assoc [symmetric]) (metis norm_add)
  also have "\<dots> = norm (le_sum (x # xs) + ?k' * le_sum ys)" using le_sum_shift [of x xs] by (metis norm_add)
  finally show ?case by simp
qed simp

section \<open>The sum over memory\<close>

lemma unat_ucast_16_32 [simp]: "unat (ucast (x :: u16) :: u32) = unat x"
proof -
  have "unat (ucast x :: u32) = take_bit 32 (unat x)" by (simp add: unsigned_ucast_eq)
  also have "\<dots> = unat x" using unat_u16_less [of x] by (simp add: take_bit_nat_eq_self_iff del: unat_u16_less)
  finally show ?thesis .
qed

lemma unat_ucast_8_16 [simp]: "unat (ucast (x :: u8) :: u16) = unat x"
proof -
  have "unat (ucast x :: u16) = take_bit 16 (unat x)" by (simp add: unsigned_ucast_eq)
  also have "\<dots> = unat x" using unat_u8_less [of x] by (simp add: take_bit_nat_eq_self_iff del: unat_u8_less)
  finally show ?thesis .
qed

lemma unat_le16: "unat (le16 a b) = unat a + 256 * unat b"
proof -
  have ab: "unat a \<le> 255" "unat b \<le> 255" using unat_u8_less [of a] unat_u8_less [of b] by linarith+
  then have "unat (256 * ucast b :: u16) = 256 * unat b" by (simp add: unat_mult_lem [THEN iffD1])
  with ab show ?thesis by (simp add: le16_def unat_add_lem [THEN iffD1])
qed

lemma chksum_words_sum:
  assumes "unat acc + le_sum bs < 4294967296"
  shows "\<exists>acc' ps. chksum_words bs acc = (acc', ps) \<and> length ps \<le> 1 \<and> unat acc' + le_sum ps = unat acc + le_sum bs"
  using assms
proof (induction bs acc rule: chksum_words.induct)
  case (1 a b ps acc)
  have "unat (acc + ucast (le16 a b)) = unat acc + (unat a + 256 * unat b)"
    using 1(2) by (simp add: unat_add_lem [THEN iffD1] unat_le16)
  with 1 show ?case by (simp add: add.assoc)
qed simp_all

lemma standard_chksum_norm:
  assumes "length bs < 65536"
  shows "unat (lwip_standard_chksum is_odd bs) = norm (le_sum bs)"
proof -
  have bound: "le_sum xs \<le> 4294836225" if "length xs < 65536" for xs using le_sum_bound [of xs] that by linarith
  have even: "unat (lwip_standard_chksum False bs) = norm (le_sum bs)"
  proof -
    from chksum_words_sum [of 0 bs] bound [OF assms] obtain acc ps where
      w: "chksum_words bs 0 = (acc, ps)" "length ps \<le> 1" "unat acc + le_sum ps = le_sum bs" by auto
    then have "unat (acc + ucast (le16 (case ps of [] \<Rightarrow> 0 | b # _ \<Rightarrow> b) 0)) = le_sum bs"
      using bound [OF assms] by (cases ps) (simp_all add: unat_add_lem [THEN iffD1] unat_le16)
    with w(1) norm_le [of "le_sum bs"] show ?thesis
      by (simp add: lwip_standard_chksum_def unsigned_ucast_eq fold_twice take_bit_nat_eq_self_iff)
  qed
  moreover have "unat (lwip_standard_chksum True (b # r)) = norm (le_sum (b # r))" if "bs = b # r" for b r
  proof -
    have r: "le_sum r \<le> 65535 * length r" "unat b \<le> 255" using le_sum_bound unat_u8_less [of b] by (auto intro: less_Suc_eq_le [THEN iffD1])
    have lr: "length r < 65535" using assms that by simp
    from chksum_words_sum [of 0 r] r lr obtain acc ps where
      w: "chksum_words r 0 = (acc, ps)" "length ps \<le> 1" "unat acc + le_sum ps = le_sum r" by auto
    have "unat (acc + ucast (le16 (case ps of [] \<Rightarrow> 0 | b # _ \<Rightarrow> b) b)) = 256 * unat b + le_sum r"
      using w r lr by (cases ps) (simp_all add: unat_add_lem [THEN iffD1] unat_le16)
    then have "unat (lwip_standard_chksum True (b # r)) = norm (256 * norm (256 * unat b + le_sum r))"
      using w(1) norm_le
      by (simp add: lwip_standard_chksum_def unsigned_ucast_eq fold_twice unat_SWAP_norm take_bit_nat_eq_self_iff)
    also have "\<dots> = norm (256 * (256 * unat b) + 256 * le_sum r)" by (simp add: norm_256 algebra_simps)
    also have "\<dots> = norm (unat b + 256 * le_sum r)" by (metis norm_add norm_65536)
    finally show ?thesis by (simp add: le_sum_shift)
  qed
  moreover have "lwip_standard_chksum True [] = lwip_standard_chksum False []"
    by (simp add: lwip_standard_chksum_def FOLD_U32T_def SWAP_BYTES_IN_WORD_def le16_def)
  ultimately show ?thesis by (cases is_odd; cases bs) auto
qed

lemma unat_inet_chksum:
  assumes "length bs < 65536"
  shows "unat (inet_chksum is_odd bs) = 65535 - norm (le_sum bs)"
proof -
  have "unat (NOT x) = 65535 - unat x" for x :: u16
  proof -
    have e: "NOT x = - 1 - x" by (simp add: not_eq_complement)
    have m: "unat (- 1 :: u16) = 65535" by (simp add: unsigned_minus_1_eq_mask mask_eq_exp_minus_1)
    have "unat x \<le> unat (- 1 :: u16)" unfolding m using unat_u16_less [of x] by linarith
    then show ?thesis unfolding e by (subst unat_sub) (simp_all only: m word_le_nat_alt)
  qed
  then show ?thesis using standard_chksum_norm [OF assms] by (simp add: inet_chksum_def)
qed

section \<open>The sum over a chain\<close>

text \<open>The state of the loop after \<open>xs\<close> bytes, on top of a start value \<open>k\<close>.\<close>

definition chain_state :: "nat \<Rightarrow> bytes \<Rightarrow> u32 \<times> bool \<Rightarrow> bool" where
  "chain_state k xs s \<longleftrightarrow> snd s = odd (length xs)
     \<and> unat (fst s) = norm ((if snd s then 256 else 1) * (k + le_sum xs))"

lemma add_segment_state:
  assumes "chain_state k xs s" and "length bs < 65536"
  shows "chain_state k (xs @ bs) (add_segment is_odd bs (odd (length bs)) s)"
proof -
  obtain acc swp where s: "s = (acc, swp)" by (cases s)
  let ?m = "if swp then 256 else 1 :: nat"
  have swp: "swp = odd (length xs)" and acc: "unat acc = norm (?m * (k + le_sum xs))"
    using assms(1) s by (simp_all add: chain_state_def)
  let ?c = "acc + ucast (lwip_standard_chksum is_odd bs)"
  have c: "unat ?c = norm (?m * (k + le_sum xs)) + norm (le_sum bs)"
    using acc norm_le [of "?m * (k + le_sum xs)"] norm_le [of "le_sum bs"]
    by (simp add: unat_add_lem [THEN iffD1] standard_chksum_norm [OF assms(2)])
  then have "unat ?c \<le> 131070" using norm_le [of "?m * (k + le_sum xs)"] norm_le [of "le_sum bs"] by linarith
  then have f: "unat (FOLD_U32T ?c) = norm (?m * (k + le_sum xs) + le_sum bs)"
    using fold_once [of ?c] c by (simp add: norm_add)
  have app: "norm (?m * (k + le_sum xs) + le_sum bs) = norm (?m * (k + le_sum (xs @ bs)))"
  proof -
    have m: "(if even (length xs) then 1 else 256) = ?m" using swp by simp
    have e: "norm (k + le_sum (xs @ bs)) = norm (k + (le_sum xs + ?m * le_sum bs))"
      by (rule norm_cong) (rule le_sum_append [of xs bs, unfolded m])
    have "norm (?m * (k + le_sum (xs @ bs))) = norm (?m * (k + (le_sum xs + ?m * le_sum bs)))"
      using e norm_cong_256 [OF e] by (cases swp) (simp_all only: if_True if_False mult_1)
    also have "\<dots> = norm (?m * (k + le_sum xs) + ?m * (?m * le_sum bs))" by (simp only: add.assoc distrib_left)
    also have "\<dots> = norm (?m * (k + le_sum xs) + le_sum bs)"
      using norm_65536 [of "le_sum bs"] by (intro norm_cong) (cases swp; simp only: if_True if_False mult_1)
    finally show ?thesis by simp
  qed
  show ?thesis
  proof (cases "odd (length bs)")
    case False
    with s swp f app show ?thesis by (simp add: chain_state_def add_segment_def)
  next
    case True
    have "unat (SWAP_BYTES_IN_WORD (FOLD_U32T ?c)) = norm (256 * (?m * (k + le_sum (xs @ bs))))"
      using unat_SWAP_norm [of "FOLD_U32T ?c"] f app norm_le by (simp add: norm_256)
    also have "\<dots> = norm ((if swp then 1 else 256) * (k + le_sum (xs @ bs)))"
      using norm_65536 [of "k + le_sum (xs @ bs)"] by simp
    finally show ?thesis using s swp True by (auto simp: chain_state_def add_segment_def)
  qed
qed

lemma chksum_chain_state:
  assumes "packet h p as" and "chain_state k xs s"
  shows "\<exists>s'. chksum_chain is_odd p s h = Some s' \<and> chain_state k (xs @ contents h as) s'"
  using assms
proof (induction as arbitrary: p xs s)
  case Nil
  then show ?case by (subst chksum_chain.simps) simp
next
  case (Cons a as)
  then obtain c where c: "p = Some a" "cells h a = Some c" "cell_ok c" "packet h (nxt c) as" "len c < 65536" by auto
  have "rd c 0 (len c) = Some (data_of c)" using rd_ok [OF c(3), of 0 "len c"] c(3) by simp
  then have "chksum_chain is_odd p s h =
      chksum_chain is_odd (nxt c) (add_segment (is_odd a) (data_of c) (odd (length (data_of c))) s) h"
    using c by (subst chksum_chain.simps) (simp add: odd_iff_mod_2_eq_one)
  moreover have "chain_state k (xs @ data_of c) (add_segment (is_odd a) (data_of c) (odd (length (data_of c))) s)"
    using c(3,5) by (intro add_segment_state [OF Cons.prems(2)]) simp
  ultimately show ?case using Cons.IH [OF c(4)] c(2) by fastforce
qed

lemma unswap_state:
  assumes "chain_state k xs s"
  shows "unat (unswap s) = norm (k + le_sum xs)"
proof (cases "snd s")
  case True
  then have e: "unat (fst s) = norm (256 * (k + le_sum xs))" using assms by (simp only: chain_state_def if_True)
  then have "unat (SWAP_BYTES_IN_WORD (fst s)) = norm (256 * norm (256 * (k + le_sum xs)))"
    using unat_SWAP_norm [of "fst s"] norm_le by simp
  also have "\<dots> = norm (k + le_sum xs)" by (simp only: norm_256 norm_65536)
  finally show ?thesis using True by (cases s) (simp add: unswap_def)
qed (use assms in \<open>cases s; simp add: chain_state_def unswap_def\<close>)

lemma complement_low: "ucast (NOT (x AND 0xffff) :: u32) = (NOT (ucast x) :: u16)"
  unfolding take_16 by (rule bit_word_eqI) (auto simp: bit_simps)

lemma unat_low: "unat x < 65536 \<Longrightarrow> unat (ucast (x :: u32) :: u16) = unat x"
  by (simp add: unsigned_ucast_eq take_bit_nat_eq_self_iff)

lemma complement_sum:
  assumes "length bs < 65536" and "unat (x :: u32) = norm (le_sum bs)"
  shows "ucast (NOT (x AND 0xffff)) = inet_chksum is_odd bs"
proof -
  have "ucast x = lwip_standard_chksum is_odd bs"
    using assms unat_low [of x] norm_less standard_chksum_norm [OF assms(1)] by (simp add: word_unat_eq_iff)
  then show ?thesis unfolding complement_low inet_chksum_def by simp
qed

lemma chain_chksum:
  assumes "packet h p as" and "length (contents h as) < 65536"
  shows "inet_chksum_pbuf is_odd p h = Some (inet_chksum odd_base (contents h as))"
proof -
  have "chain_state 0 [] (0, False)" by (simp add: chain_state_def norm_def)
  from chksum_chain_state [OF assms(1) this, of is_odd] obtain s where
    s: "chksum_chain is_odd p (0, False) h = Some s" "chain_state 0 (contents h as) s" by auto
  show ?thesis
    using s(1) complement_sum [OF assms(2)] unswap_state [OF s(2)] by (simp add: inet_chksum_pbuf_def)
qed

text \<open>The checksum of a chain is the checksum of its contents as one block of memory: neither
  where the segments are split, nor at which addresses they lie, nor the byte swaps make a
  difference.\<close>

theorem inet_chksum_pbuf_contents:
  assumes "packet h p as" and "length (contents h as) < 65536"
  shows "inet_chksum_pbuf is_odd p h = Some (inet_chksum odd_base (contents h as))"
  by (rule chain_chksum [OF assms])

theorem inet_chksum_pbuf_contents_witness:
  "packet sample_heap (Some 1) [1, 2] \<and>
   inet_chksum_pbuf (\<lambda>a. a = 2) (Some 1) sample_heap = Some (inet_chksum False [3, 4, 5, 9, 8])"
  using inet_chksum_pbuf_contents [OF sample_packet(1), of "\<lambda>a. a = 2" False] sample_packet(1)
  unfolding sample_packet(3) by simp

section \<open>Verifying a checksum\<close>

lemma le_sum_even: "even (length xs) \<Longrightarrow> le_sum (xs @ ys) = le_sum xs + le_sum ys"
  by (induction xs rule: le_sum.induct) simp_all

lemma norm_complement: "norm (s + (65535 - norm s)) = 65535"
proof -
  have e: "s + (65535 - norm s) = s + 65535 - norm s" using norm_le [of s] by simp
  have "(s + (65535 - norm s)) mod 65535 = (norm s + (65535 - norm s)) mod 65535"
    using norm_mod [of s] by (metis mod_add_left_eq)
  also have "\<dots> = 0" using norm_le [of s] by simp
  finally have "norm (s + (65535 - norm s)) = norm 65535"
    by (intro norm_unique) (auto simp: norm_self)
  then show ?thesis by (simp add: norm_self)
qed

lemma stored_chksum:
  assumes "even (length pre)" and "length (pre @ [0, 0] @ post) < 65536"
    and "c = inet_chksum is_odd (pre @ [0, 0] @ post)"
  shows "inet_chksum odd' (pre @ [ucast c, ucast (drop_bit 8 c)] @ post) = 0"
proof -
  let ?bs = "pre @ [0, 0] @ post" and ?cs = "[ucast c, ucast (drop_bit 8 c)] :: bytes"
  have c: "unat c = 65535 - norm (le_sum ?bs)" unfolding assms(3) by (rule unat_inet_chksum [OF assms(2)])
  have split: "unat (ucast c :: u8) + 256 * unat (ucast (drop_bit 8 c) :: u8) = unat c"
  proof -
    have "unat c div 256 < 256" using unat_u16_less [of c] by (simp add: div_less_iff_less_mult)
    then show ?thesis
      by (simp add: unsigned_ucast_eq take_bit_eq_mod drop_bit_eq_div unat_div)
  qed
  have "le_sum (pre @ ?cs @ post) = le_sum ?bs + unat c"
    using assms(1) split by (simp add: le_sum_even)
  then have "norm (le_sum (pre @ ?cs @ post)) = 65535" using c norm_complement by simp
  then have "unat (inet_chksum odd' (pre @ ?cs @ post)) = 0"
    using unat_inet_chksum [of "pre @ ?cs @ post"] assms(2) by simp
  then show ?thesis by (simp only: unat_eq_0)
qed

text \<open>Storing the checksum of a header, computed with the checksum field zero, into that
  field makes the checksum of the header zero, which is the test of the receiver.\<close>

theorem chksum_verifies:
  assumes "even (length pre)" and "length (pre @ [0, 0] @ post) < 65536"
    and "c = inet_chksum is_odd (pre @ [0, 0] @ post)"
  shows "inet_chksum odd' (pre @ [ucast c, ucast (drop_bit 8 c)] @ post) = 0"
  by (rule stored_chksum [OF assms])

theorem chksum_verifies_witness:
  "inet_chksum False ([0x45, 0] @ [0, 0] @ []) = 0xffba \<and> inet_chksum True ([0x45, 0] @ [0xba, 0xff] @ []) = 0"
proof -
  have c: "inet_chksum False ([0x45, 0] @ [0, 0] @ []) = 0xffba" by code_simp
  have b: "ucast (0xffba :: u16) = (0xba :: u8)" "ucast (drop_bit 8 (0xffba :: u16)) = (0xff :: u8)"
    by (simp_all add: drop_bit_numeral_minus_bit0)
  show ?thesis
    using c chksum_verifies [of "[0x45, 0]" "[]" _ False True, OF _ _ refl] unfolding c b by (simp only:) simp
qed

section \<open>The pseudo header\<close>

lemma unat_byte: "unat (ucast (x :: 'a :: len word) :: u8) = unat x mod 256"
  by (simp add: unsigned_ucast_eq take_bit_eq_mod)

lemma unat_lwip_htons: "unat (lwip_htons x) = le_sum [ucast (drop_bit 8 x), ucast x]"
proof -
  have m: "(0x00ff :: u16) = mask 8" "(0xff00 :: u16) = push_bit 8 (mask 8)" by (rule byte_masks)+
  have "lwip_htons x = push_bit 8 (take_bit 8 x) OR drop_bit 8 x"
    unfolding lwip_htons_def m by (rule bit_word_eqI) (auto simp: bit_simps dest: bit_imp_le_length)
  also have "\<dots> = push_bit 8 (take_bit 8 x) + drop_bit 8 x"
    by (rule disjunctive_add [symmetric]) (auto simp: bit_simps dest: bit_imp_le_length)
  finally have e: "lwip_htons x = push_bit 8 (take_bit 8 x) + drop_bit 8 x" .
  have d: "unat (drop_bit 8 x) = unat x div 256" by (simp add: drop_bit_eq_div unat_div)
  have t: "unat (push_bit 8 (take_bit 8 x)) = 256 * (unat x mod 256)"
    by (simp add: push_bit_eq_mult take_bit_eq_mod unat_mult_lem [THEN iffD1] unat_mod)
  have "unat x mod 256 < 256" "unat x div 256 < 256"
    using unat_u16_less [of x] by (simp_all add: div_less_iff_less_mult)
  then show ?thesis unfolding e using d t by (simp add: unat_add_lem [THEN iffD1] unat_byte)
qed

lemma unat_add_addr:
  assumes "unat acc \<le> 131070"
  shows "unat (add_addr acc a) = unat acc + le_sum (octets a)"
proof -
  let ?n = "unat a"
  have lo: "unat (a AND 0xffff) = ?n mod 65536" unfolding take_16 by (simp add: take_bit_eq_mod unat_mod)
  have hi: "unat (drop_bit 16 a AND 0xffff) = ?n div 65536 mod 65536"
    unfolding take_16 by (simp add: take_bit_eq_mod unat_mod drop_bit_eq_div unat_div)
  have half: "m mod 256 + 256 * (m div 256 mod 256) = m mod 65536" for m :: nat
    using mod_mult2_eq [of m 256 256] by simp
  have "le_sum (octets a) = ?n mod 65536 + ?n div 65536 mod 65536"
    using half [of ?n] half [of "?n div 65536"]
    by (simp add: octets_def unat_byte drop_bit_eq_div unat_div div_mult2_eq [symmetric])
  moreover have "?n mod 65536 < 65536" "?n div 65536 mod 65536 < 65536" by simp_all
  ultimately show ?thesis
    using assms lo hi by (simp add: add_addr_def unat_add_lem [THEN iffD1])
qed

text \<open>The twelve bytes of the pseudo header of a segment over IPv4.\<close>

definition pseudo_header :: "u32 \<Rightarrow> u32 \<Rightarrow> u8 \<Rightarrow> u16 \<Rightarrow> bytes" where
  "pseudo_header src dest proto proto_len =
     octets src @ octets dest @ [0, proto, ucast (drop_bit 8 proto_len), ucast proto_len]"

lemma even_octets [simp]: "even (length (octets a))"
  by (simp add: octets_def)

lemma finish_pseudo_norm:
  assumes "unat acc = norm (k + le_sum bs)"
  shows "unat (FOLD_U32T (FOLD_U32T (acc + ucast (lwip_htons (ucast proto)) + ucast (lwip_htons proto_len))))
       = norm (k + le_sum ([0, proto, ucast (drop_bit 8 proto_len), ucast proto_len] @ bs))"
proof -
  have p: "unat (lwip_htons (ucast proto :: u16)) = 256 * unat proto"
    using unat_u8_less [of proto] unfolding unat_lwip_htons
    by (simp add: unat_byte drop_bit_eq_div unat_div del: unsigned_ucast_eq)
  have b: "unat (ucast (lwip_htons (ucast proto :: u16)) :: u32) \<le> 65535" "unat (ucast (lwip_htons proto_len) :: u32) \<le> 65535"
    using unat_u16_less less_Suc_eq_le by (auto simp: less_Suc_eq_le [symmetric])
  have "unat (acc + ucast (lwip_htons (ucast proto)) + ucast (lwip_htons proto_len))
      = norm (k + le_sum bs) + (256 * unat proto + le_sum [ucast (drop_bit 8 proto_len), ucast proto_len])"
    using b assms norm_le [of "k + le_sum bs"] p by (simp add: unat_add_lem [THEN iffD1] unat_lwip_htons)
  then show ?thesis
    unfolding fold_twice by (simp add: norm_add_left) (simp add: ac_simps)
qed

lemma pseudo_chksum:
  assumes "packet h p as" and "12 + length (contents h as) < 65536"
  shows "inet_chksum_pseudo is_odd p proto proto_len src dest h
       = Some (inet_chksum odd_base (pseudo_header src dest proto proto_len @ contents h as))"
proof -
  let ?a = "FOLD_U32T (FOLD_U32T (add_addr (add_addr 0 src) dest))" and ?k = "le_sum (octets src) + le_sum (octets dest)"
  have "le_sum (octets src) \<le> 131070"
  proof -
    have "unat (ucast src :: u8) < 256" "unat (ucast (drop_bit 8 src) :: u8) < 256"
      "unat (ucast (drop_bit 16 src) :: u8) < 256" "unat (ucast (drop_bit 24 src) :: u8) < 256" by simp_all
    then show ?thesis by (simp only: octets_def le_sum.simps)
  qed
  then have a: "unat ?a = norm ?k" by (simp add: fold_twice unat_add_addr)
  then have "chain_state ?k [] (?a, False)" by (simp add: chain_state_def)
  from chksum_chain_state [OF assms(1) this, of is_odd] obtain s where
    s: "chksum_chain is_odd p (?a, False) h = Some s" "chain_state ?k (contents h as) s" by auto
  let ?c = "FOLD_U32T (FOLD_U32T (unswap s + ucast (lwip_htons (ucast proto)) + ucast (lwip_htons proto_len)))"
  have l: "length (pseudo_header src dest proto proto_len @ contents h as) < 65536"
    using assms(2) by (simp add: pseudo_header_def octets_def)
  have "unat ?c = norm (le_sum (pseudo_header src dest proto proto_len @ contents h as))"
    unfolding finish_pseudo_norm [OF unswap_state [OF s(2)]] pseudo_header_def
    by (simp only: append_assoc le_sum_even [OF even_octets] add.assoc)
  then have "ucast (NOT (?c AND 0xffff)) = inet_chksum odd_base (pseudo_header src dest proto proto_len @ contents h as)"
    by (rule complement_sum [OF l])
  then show ?thesis
    using s(1) by (simp only: inet_chksum_pseudo_def inet_cksum_pseudo_base_def finish_pseudo_def Let_def bind.bind_lunit)
qed

text \<open>C21. The checksum of UDP and TCP over IPv4 is the checksum of the pseudo header (addresses,
  protocol and length in network order) followed by the segment.\<close>

theorem inet_chksum_pseudo_contents:
  assumes "packet h p as" and "12 + length (contents h as) < 65536"
  shows "inet_chksum_pseudo is_odd p proto proto_len src dest h
       = Some (inet_chksum odd_base (pseudo_header src dest proto proto_len @ contents h as))"
  by (rule pseudo_chksum [OF assms])

theorem inet_chksum_pseudo_contents_witness:
  "packet sample_heap (Some 1) [1, 2] \<and>
   inet_chksum_pseudo (\<lambda>_. True) (Some 1) 17 5 0x0100a8c0 0x0200a8c0 sample_heap
     = Some (inet_chksum False ([192, 168, 0, 1, 192, 168, 0, 2, 0, 17, 0, 5] @ [3, 4, 5, 9, 8]))"
proof -
  have "pseudo_header 0x0100a8c0 0x0200a8c0 17 5 = [192, 168, 0, 1, 192, 168, 0, 2, 0, 17, 0, 5]"
    by (simp add: pseudo_header_def octets_def)
  then show ?thesis
    using inet_chksum_pseudo_contents [OF sample_packet(1), where is_odd = "\<lambda>_. True" and proto = 17 and proto_len = 5
      and src = "0x0100a8c0" and dest = "0x0200a8c0" and odd_base = False] sample_packet(1)
    unfolding sample_packet(3) by simp
qed

end
