(* ===== verification/Ip4.thy ===== *)
theory Ip4
  imports Netif_Loop Inet_Chksum
begin

text \<open>
  \<^verbatim>\<open>core/ipv4/ip4.c\<close> of lwIP, output side: routing, the IPv4 header with its inline checksum, and
  the way of a datagram to the loopback queue, to fragmentation or to the interface. What the
  module calls and is not modelled here is collected in the record \<open>ip_env\<close>: the output functions of
  the interfaces, fragmentation and reassembly (\<^verbatim>\<open>ip4_frag.c\<close>), the protocols above, and where
  payloads lie in memory (\<open>at_odd\<close>, for the checksum). Options of this build: no forwarding, no
  options in sent datagrams, no hooks, \<open>CHECKSUM_GEN_IP_INLINE\<close>, loopback interface,
  multicast transmit options.
\<close>

section \<open>Environment and constants\<close>

record 'w ip_env =
  netif_output :: "nat \<Rightarrow> nat \<Rightarrow> u32 \<Rightarrow> 'w net \<Rightarrow> (err \<times> 'w net) option"
  ip4_frag :: "nat \<Rightarrow> nat \<Rightarrow> u32 \<Rightarrow> 'w net \<Rightarrow> (err \<times> 'w net) option"
  ip4_reass :: "nat \<Rightarrow> 'w net \<Rightarrow> (pptr \<times> 'w net) option"
  udp_input :: "nat \<Rightarrow> nat \<Rightarrow> 'w net \<Rightarrow> 'w net option"
  tcp_input :: "nat \<Rightarrow> nat \<Rightarrow> 'w net \<Rightarrow> 'w net option"
  igmp_input :: "nat \<Rightarrow> nat \<Rightarrow> u32 \<Rightarrow> 'w net \<Rightarrow> 'w net option"
  at_odd :: "nat \<Rightarrow> int \<Rightarrow> bool"

definition IP_HLEN :: nat where "IP_HLEN = 20"
definition IP_PROTO_ICMP :: u8 where "IP_PROTO_ICMP = 1"
definition IP_PROTO_IGMP :: u8 where "IP_PROTO_IGMP = 2"
definition IP_PROTO_UDP :: u8 where "IP_PROTO_UDP = 17"
definition IP_PROTO_TCP :: u8 where "IP_PROTO_TCP = 6"
definition NETIF_FLAG_UP :: u8 where "NETIF_FLAG_UP = 0x01"
definition NETIF_FLAG_LINK_UP :: u8 where "NETIF_FLAG_LINK_UP = 0x04"
definition PBUF_FLAG_MCASTLOOP :: u8 where "PBUF_FLAG_MCASTLOOP = 0x04"

definition netif_is_up :: "netif \<Rightarrow> bool" where
  "netif_is_up n \<longleftrightarrow> n_flags n AND NETIF_FLAG_UP \<noteq> 0"

definition netif_is_link_up :: "netif \<Rightarrow> bool" where
  "netif_is_link_up n \<longleftrightarrow> n_flags n AND NETIF_FLAG_LINK_UP \<noteq> 0"

section \<open>Routing\<close>

definition ip4_set_default_multicast_netif :: "nat option \<Rightarrow> 'w net \<Rightarrow> 'w net" where
  "ip4_set_default_multicast_netif nif s = s\<lparr>ip4_default_multicast_netif := nif\<rparr>"

definition route_match :: "u32 \<Rightarrow> netif \<Rightarrow> bool" where
  "route_match dest n \<longleftrightarrow> netif_is_up n \<and> netif_is_link_up n \<and> n_ip n \<noteq> IPADDR_ANY
     \<and> (ip4_addr_netcmp dest (n_ip n) (n_netmask n) \<or> n_flags n AND NETIF_FLAG_BROADCAST = 0 \<and> dest = n_gw n)"

fun route_loop :: "u32 \<Rightarrow> nat list \<Rightarrow> 'w net \<Rightarrow> nat option option" where
  "route_loop dest [] s = Some None"
| "route_loop dest (i # is) s =
     do { n \<leftarrow> netifs s i; if route_match dest n then Some (Some i) else route_loop dest is s }"

text \<open>\<open>Some None\<close> is the null pointer: no route.\<close>

definition ip4_route :: "u32 \<Rightarrow> 'w net \<Rightarrow> nat option option" where
  "ip4_route dest s =
     (if ip4_addr_ismulticast dest \<and> ip4_default_multicast_netif s \<noteq> None then Some (ip4_default_multicast_netif s)
      else do { r \<leftarrow> route_loop dest (netif_list s) s;
        case r of
          Some i \<Rightarrow> Some (Some i)
        | None \<Rightarrow>
            (case netif_default s of
               None \<Rightarrow> Some None
             | Some d \<Rightarrow> do { n \<leftarrow> netifs s d;
                 if \<not> netif_is_up n \<or> \<not> netif_is_link_up n \<or> n_ip n = IPADDR_ANY then Some None else Some (Some d) }) })"

section \<open>Output\<close>

text \<open>The sum that is built while the header fields are set; \<open>vhl\<close>, \<open>len_be\<close> and \<open>id_be\<close> are the stored fields.\<close>

definition header_chksum :: "u32 \<Rightarrow> u32 \<Rightarrow> u8 \<Rightarrow> u8 \<Rightarrow> u8 \<Rightarrow> u8 \<Rightarrow> u16 \<Rightarrow> u16 \<Rightarrow> u16" where
  "header_chksum src dest ttl tos proto vhl len_be id_be =
     (let acc = 0;
          acc = acc + ucast (lwip_htons (ucast proto OR push_bit 8 (ucast ttl)));
          acc = acc + (dest AND 0xFFFF);
          acc = acc + drop_bit 16 dest;
          acc = acc + ucast (lwip_htons (ucast tos OR push_bit 8 (ucast vhl)));
          acc = acc + ucast len_be;
          acc = acc + ucast id_be;
          acc = acc + (src AND 0xFFFF);
          acc = acc + drop_bit 16 src;
          acc = drop_bit 16 acc + (acc AND 0xFFFF);
          acc = drop_bit 16 acc + acc
      in ucast (NOT acc :: u32))"

text \<open>The stores into \<open>struct ip_hdr\<close>, in the order of the code.\<close>

definition header_stores :: "u32 \<Rightarrow> u32 \<Rightarrow> u8 \<Rightarrow> u8 \<Rightarrow> u8 \<Rightarrow> u16 \<Rightarrow> u16 \<Rightarrow> (nat \<times> bytes) list" where
  "header_stores src dest ttl tos proto tlen ident =
     (let vhl = push_bit 4 4 OR of_nat (IP_HLEN div 4); len_be = lwip_htons tlen; id_be = lwip_htons ident
      in [(8, [ttl]), (9, [proto]), (16, octets dest), (0, [vhl]), (1, [tos]), (2, store16 len_be), (6, store16 0),
          (4, store16 id_be), (12, octets src),
          (10, store16 (header_chksum src dest ttl tos proto vhl len_be id_be))])"

text \<open>The end of \<open>ip4_output_if_src\<close>: loopback, fragmentation or the interface.\<close>

definition ip4_send :: "'w ip_env \<Rightarrow> nat \<Rightarrow> u32 \<Rightarrow> nat \<Rightarrow> 'w net \<Rightarrow> (err \<times> 'w net) option" where
  "ip4_send env p dest nif s =
     do { n \<leftarrow> netifs s nif;
       if dest = n_ip n then netif_loop_output nif p s
       else do { c \<leftarrow> cells (pbufs s) p;
         s \<leftarrow> (if flags c AND PBUF_FLAG_MCASTLOOP \<noteq> 0 then map_option snd (netif_loop_output nif p s) else Some s);
         c \<leftarrow> cells (pbufs s) p;
         if n_mtu n \<noteq> 0 \<and> tot_len c > n_mtu n then ip4_frag env p nif dest s
         else netif_output env nif p dest s } }"

text \<open>The address pointers: \<open>None\<close> is \<open>NULL\<close>, for \<open>dest\<close> it is \<open>LWIP_IP_HDRINCL\<close>.\<close>

definition ip4_output_if_src ::
  "'w ip_env \<Rightarrow> nat \<Rightarrow> u32 option \<Rightarrow> u32 option \<Rightarrow> u8 \<Rightarrow> u8 \<Rightarrow> u8 \<Rightarrow> nat \<Rightarrow> 'w net \<Rightarrow> (err \<times> 'w net) option" where
  "ip4_output_if_src env p src dest ttl tos proto nif s =
     do { c \<leftarrow> cells (pbufs s) p;
       assert (ref c = 1);
       case dest of
         Some d \<Rightarrow>
           do { (r, h) \<leftarrow> pbuf_add_header p IP_HLEN (pbufs s);
             if r \<noteq> 0 then Some (ERR_BUF, s\<lparr>pbufs := h\<rparr>)
             else do { c \<leftarrow> cells h p;
               assert (len c \<ge> IP_HLEN);
               let src = (case src of None \<Rightarrow> IPADDR_ANY | Some a \<Rightarrow> a) in
               do { c \<leftarrow> wr_all (header_stores src d ttl tos proto (of_nat (tot_len c)) (ip_id s)) c;
                 ip4_send env p d nif (s\<lparr>pbufs := put p c h, ip_id := ip_id s + 1\<rparr>) } } }
       | None \<Rightarrow>
           if len c < IP_HLEN then Some (ERR_BUF, s)
           else do { bs \<leftarrow> rd c 16 4; ip4_send env p (load32 bs) nif s } }"

definition ip4_output_if ::
  "'w ip_env \<Rightarrow> nat \<Rightarrow> u32 option \<Rightarrow> u32 option \<Rightarrow> u8 \<Rightarrow> u8 \<Rightarrow> u8 \<Rightarrow> nat \<Rightarrow> 'w net \<Rightarrow> (err \<times> 'w net) option" where
  "ip4_output_if env p src dest ttl tos proto nif s =
     do { n \<leftarrow> netifs s nif;
       let src_used = (if dest \<noteq> None \<and> (src = None \<or> src = Some IPADDR_ANY) then Some (n_ip n) else src)
       in ip4_output_if_src env p src_used dest ttl tos proto nif s }"

definition ip4_output ::
  "'w ip_env \<Rightarrow> nat \<Rightarrow> u32 option \<Rightarrow> u32 \<Rightarrow> u8 \<Rightarrow> u8 \<Rightarrow> u8 \<Rightarrow> 'w net \<Rightarrow> (err \<times> 'w net) option" where
  "ip4_output env p src dest ttl tos proto s =
     do { c \<leftarrow> cells (pbufs s) p;
       assert (ref c = 1);
       r \<leftarrow> ip4_route dest s;
       case r of
         None \<Rightarrow> Some (ERR_RTE, s)
       | Some nif \<Rightarrow> ip4_output_if env p src (Some dest) ttl tos proto nif s }"

section \<open>The header in memory\<close>

text \<open>The twenty bytes of a header with checksum field \<open>chk\<close>.\<close>

definition ip4_header :: "u16 \<Rightarrow> u32 \<Rightarrow> u32 \<Rightarrow> u8 \<Rightarrow> u8 \<Rightarrow> u8 \<Rightarrow> u16 \<Rightarrow> u16 \<Rightarrow> bytes" where
  "ip4_header chk src dest ttl tos proto tlen ident =
     ([0x45, tos] @ store16 (lwip_htons tlen) @ store16 (lwip_htons ident) @ [0, 0, ttl, proto]) @ store16 chk @ octets src @ octets dest"

lemma length_store16 [simp]: "length (store16 w) = 2"
  by (simp add: store16_def)

lemma store16_0: "store16 0 = [0, 0]"
  by (simp add: store16_def)

lemma length_octets [simp]: "length (octets a) = 4"
  by (simp add: octets_def)

lemma length_ip4_header [simp]: "length (ip4_header chk src dest ttl tos proto tlen ident) = 20"
  by (simp add: ip4_header_def)

lemma le_sum_store16_htons: "le_sum (store16 (lwip_htons w)) = unat (lwip_htons w)"
  by (simp add: unat_lwip_htons store16_htons)

lemma unat_htons_pair: "unat (lwip_htons (ucast lo OR push_bit 8 (ucast (hi :: u8)))) = unat hi + 256 * unat (lo :: u8)"
proof -
  let ?w = "ucast lo OR push_bit 8 (ucast hi) :: u16"
  have "ucast (drop_bit 8 ?w) = hi" "ucast ?w = lo"
    by (rule bit_word_eqI; auto simp: bit_simps dest: bit_imp_le_length)+
  then show ?thesis unfolding unat_lwip_htons by simp
qed

lemma le_sum_octets: "le_sum (octets a) = unat (a AND 0xFFFF) + unat (drop_bit 16 a)"
proof -
  have "drop_bit 16 a AND 0xffff = drop_bit 16 a" unfolding take_16 by (rule bit_word_eqI) (auto simp: bit_simps dest: bit_imp_le_length)
  moreover have "unat (a AND 0xFFFF) < 65536" "unat (drop_bit 16 a AND 0xffff) < 65536"
    unfolding take_16 by (simp_all add: take_bit_eq_mod unat_mod)
  ultimately show ?thesis using unat_add_addr [of 0 a] by (simp add: add_addr_def unat_add_lem [THEN iffD1])
qed

lemma half_bounds: "unat ((a :: u32) AND 0xFFFF) < 65536" "unat (drop_bit 16 (a :: u32)) < 65536"
  unfolding take_16 using unat_u32_less [of a]
  by (simp_all add: take_bit_eq_mod unat_mod drop_bit_eq_div unat_div div_less_iff_less_mult)

text \<open>The second fold of the inline sum keeps the upper half, which the cast drops.\<close>

lemma fold_low: "unat (ucast (drop_bit 16 (FOLD_U32T acc) + FOLD_U32T acc) :: u16) = norm (unat acc)"
proof -
  let ?f = "FOLD_U32T acc"
  have "unat acc div 65536 < 65536" using unat_u32_less [of acc] by (simp add: div_less_iff_less_mult)
  then have b: "unat ?f \<le> 131070" using mod_less_divisor [of 65536 "unat acc"] unfolding unat_FOLD by linarith
  have d: "unat (drop_bit 16 ?f) = unat ?f div 65536" by (simp add: drop_bit_eq_div unat_div)
  then have "unat (drop_bit 16 ?f + ?f) = unat ?f div 65536 + unat ?f"
    using b div_le_dividend [of "unat ?f" 65536] by (simp add: unat_add_lem [THEN iffD1])
  then have "unat (ucast (drop_bit 16 ?f + ?f) :: u16) = (unat ?f div 65536 + unat ?f) mod 65536"
    by (simp add: unsigned_ucast_eq take_bit_eq_mod)
  also have "\<dots> = (unat ?f div 65536 + unat ?f mod 65536) mod 65536" by (simp add: mod_add_right_eq)
  also have "\<dots> = norm (unat acc)" using fold_small [OF b] fold_twice [of acc] by (simp add: unat_FOLD)
  finally show ?thesis .
qed

lemma unat_add_small: "unat x \<le> k \<Longrightarrow> unat y < 65536 \<Longrightarrow> k \<le> 1000000 \<Longrightarrow> unat (x + y :: u32) = unat x + unat y \<and> unat (x + y) \<le> k + 65536"
  by (simp add: unat_add_lem [THEN iffD1])

lemma unat_sum8:
  assumes "\<forall>x \<in> {x1, x2, x3, x4, x5, x6, x7, x8 :: u32}. unat x < 65536"
  shows "unat (0 + x1 + x2 + x3 + x4 + x5 + x6 + x7 + x8)
    = unat x1 + unat x2 + unat x3 + unat x4 + unat x5 + unat x6 + unat x7 + unat x8"
proof -
  have 1: "unat x1 \<le> 65536" using assms by simp
  note 2 = unat_add_small [OF 1, of x2]
  note 3 = unat_add_small [OF 2 [THEN conjunct2], of x3]
  note 4 = unat_add_small [OF 3 [THEN conjunct2], of x4]
  note 5 = unat_add_small [OF 4 [THEN conjunct2], of x5]
  note 6 = unat_add_small [OF 5 [THEN conjunct2], of x6]
  note 7 = unat_add_small [OF 6 [THEN conjunct2], of x7]
  note 8 = unat_add_small [OF 7 [THEN conjunct2], of x8]
  show ?thesis using assms 2 3 4 5 6 7 8 by simp
qed

lemma header_chksum_ok:
  "header_chksum src dest ttl tos proto 0x45 (lwip_htons tlen) (lwip_htons ident)
     = inet_chksum is_odd (ip4_header 0 src dest ttl tos proto tlen ident)"
proof -
  let ?h = "ip4_header 0 src dest ttl tos proto tlen ident"
  define acc where "acc = 0 + ucast (lwip_htons (ucast proto OR push_bit 8 (ucast ttl))) + (dest AND 0xFFFF) + drop_bit 16 dest
    + ucast (lwip_htons (ucast tos OR push_bit 8 (ucast (0x45 :: u8)))) + ucast (lwip_htons tlen) + ucast (lwip_htons ident)
    + (src AND 0xFFFF) + drop_bit 16 src"
  have u8: "unat ttl \<le> 255" "unat proto \<le> 255" "unat tos \<le> 255"
    using unat_u8_less [of ttl] unat_u8_less [of proto] unat_u8_less [of tos] by linarith+
  have "unat acc = unat ttl + 256 * unat proto + le_sum (octets dest) + (0x45 + 256 * unat tos) + unat (lwip_htons tlen)
      + unat (lwip_htons ident) + le_sum (octets src)"
    unfolding acc_def le_sum_octets
    by (subst unat_sum8) (use half_bounds [of src] half_bounds [of dest] u8 in \<open>simp_all only: unat_ucast_16_32 unat_htons_pair unat_u16_less
        ball_simps insert_iff empty_iff simp_thms, simp_all add: unat_htons_pair [of tos "0x45", simplified]\<close>)
  also have "\<dots> = le_sum ?h"
    by (simp add: ip4_header_def le_sum_even le_sum_store16_htons store16_0)
  finally have "unat acc = le_sum ?h" .
  then have "ucast (drop_bit 16 (FOLD_U32T acc) + FOLD_U32T acc) = lwip_standard_chksum is_odd ?h"
    using fold_low [of acc] standard_chksum_norm [of ?h is_odd] by (simp add: word_unat_eq_iff)
  moreover have "header_chksum src dest ttl tos proto 0x45 (lwip_htons tlen) (lwip_htons ident)
      = NOT (ucast (drop_bit 16 (FOLD_U32T acc) + FOLD_U32T acc))"
    unfolding header_chksum_def Let_def acc_def FOLD_U32T_def by (rule bit_word_eqI) (simp add: bit_simps)
  ultimately show ?thesis by (simp add: inet_chksum_def)
qed

lemma header_verifies:
  assumes "chk = inet_chksum is_odd (ip4_header 0 src dest ttl tos proto tlen ident)"
  shows "inet_chksum odd' (ip4_header chk src dest ttl tos proto tlen ident) = 0"
proof -
  show ?thesis
    using stored_chksum [of "[0x45, tos] @ store16 (lwip_htons tlen) @ store16 (lwip_htons ident) @ [0, 0, ttl, proto]"
        "octets src @ octets dest" chk is_odd odd'] assms
    unfolding ip4_header_def store16_0 by (simp add: store16_def)
qed

lemma header_stores_data:
  assumes "20 \<le> length d"
  shows "foldl (\<lambda>d (off, bs). blit d off bs) d (header_stores src dest ttl tos proto tlen ident)
    = ip4_header (inet_chksum is_odd (ip4_header 0 src dest ttl tos proto tlen ident)) src dest ttl tos proto tlen ident @ drop 20 d"
proof -
  have vhl: "push_bit 4 4 OR of_nat (IP_HLEN div 4) = (0x45 :: u8)" by (simp add: IP_HLEN_def)
  show ?thesis
    using assms unfolding header_stores_def Let_def vhl header_chksum_ok [of src dest ttl tos proto tlen ident is_odd] ip4_header_def store16_0
    by (simp add: blit_def store16_def octets_def)
qed

lemma header_stores_bound: "(off, bs) \<in> set (header_stores src dest ttl tos proto tlen ident) \<Longrightarrow> off + length bs \<le> 20"
  by (auto simp: header_stores_def Let_def)

section \<open>Sending a datagram\<close>

text \<open>Room for a header of \<open>n\<close> bytes in front of a packet that only its owner holds.\<close>

definition room_for :: "nat \<Rightarrow> nat \<Rightarrow> nat list \<Rightarrow> pheap \<Rightarrow> bool" where
  "room_for n p ps h \<longleftrightarrow> packet h (Some p) (p # ps) \<and> plen h (p # ps) + n < 65536
     \<and> (\<exists>c. cells h p = Some c \<and> ref c = 1 \<and> type_internal c AND FLAG_CONTIGUOUS \<noteq> 0 \<and> int n \<le> payload c)"

lemma room_for_frame: "room_for SIZEOF_ETH_HDR p ps h \<Longrightarrow> frame_room p ps h"
  by (auto simp: room_for_def frame_room_def)

text \<open>A header of \<open>n\<close> bytes is put in front of a packet and filled by stores, which may depend on the new length.\<close>

lemma put_header:
  assumes "room_for (n + m) p ps h" and "0 < n" and "\<And>l. \<forall>(off, bs) \<in> set (ws l). off + length bs \<le> n"
    and "\<And>l d. length d \<ge> n \<Longrightarrow> foldl (\<lambda>d (off, bs). blit d off bs) d (ws l) = hdr l @ drop n d"
  shows "\<exists>c c1 c2. cells h p = Some c \<and> pbuf_add_header p n h = Some (0, put p c1 h) \<and> len c1 = len c + n
    \<and> tot_len c1 = plen h (p # ps) + n \<and> wr_all (ws (tot_len c1)) c1 = Some c2 \<and> flags c2 = flags c \<and> tot_len c2 = tot_len c1
    \<and> len c2 = len c1
    \<and> room_for m p ps (put p c2 h) \<and> contents (put p c2 h) (p # ps) = hdr (tot_len c1) @ contents h (p # ps)"
proof -
  from assms(1) obtain c where c: "cells h p = Some c" "cell_ok c" "tot_len c = len c + plen h ps" "packet h (nxt c) ps" "ref c = 1"
    "type_internal c AND FLAG_CONTIGUOUS \<noteq> 0" "int n + int m \<le> payload c" "tot_len c + n + m < 65536"
    and p: "p \<notin> set ps" unfolding room_for_def using packet_distinct by fastforce
  define c1 where "c1 = c\<lparr>payload := payload c - int n, len := len c + n, tot_len := tot_len c + n\<rparr>"
  have c1: "pbuf_add_header p n h = Some (0, put p c1 h)" "cell_ok c1" "drop n (data_of c1) = data_of c"
    using add_header_room [OF c(1,2,6) _ _ _ assms(2) c1_def] c(3,7,8) by simp_all
  have f1: "len c1 = len c + n" "tot_len c1 = plen h (p # ps) + n" using c(1,3) by (simp_all add: c1_def)
  have in_len: "\<forall>(off, bs) \<in> set (ws (tot_len c1)). off + length bs \<le> len c1" using assms(3) [of "tot_len c1"] f1 by fastforce
  from wr_all_ok [OF c1(2) in_len] obtain c2 where
    c2: "wr_all (ws (tot_len c1)) c1 = Some c2" "cell_ok c2" "c2 = c1\<lparr>area := area c2\<rparr>"
      "data_of c2 = foldl (\<lambda>d (off, bs). blit d off bs) (data_of c1) (ws (tot_len c1))" by auto
  have d2: "data_of c2 = hdr (tot_len c1) @ data_of c" using c2(4) assms(4) [of "data_of c1" "tot_len c1"] c1(2,3) f1(1) by simp
  have f2: "len c2 = len c + n" "tot_len c2 = tot_len c + n" "nxt c2 = nxt c" "ref c2 = 1" "type_internal c2 = type_internal c"
    "flags c2 = flags c" "payload c2 = payload c - int n"
    using arg_cong [OF c2(3), of len] arg_cong [OF c2(3), of tot_len] arg_cong [OF c2(3), of nxt] arg_cong [OF c2(3), of ref]
      arg_cong [OF c2(3), of type_internal] arg_cong [OF c2(3), of flags] arg_cong [OF c2(3), of payload] c(5) by (simp_all add: c1_def)
  have same: "same_on ps h (put p c2 h)" using p by simp
  have "room_for m p ps (put p c2 h)"
    using c2(2) f2 c(3,6-8) packet_frame [OF same c(4)] plen_frame [OF same] by (simp add: room_for_def)
  moreover have "contents (put p c2 h) (p # ps) = hdr (tot_len c1) @ contents h (p # ps)"
    using d2 c(1) contents_frame [OF same] by simp
  moreover have "flags c2 = flags c" "tot_len c2 = tot_len c1" "len c2 = len c1" using f2 by (simp_all add: c1_def)
  ultimately show ?thesis using c(1) c1(1) f1 c2(1) by blast
qed

text \<open>The datagram for a payload \<open>bs\<close>.\<close>

definition ip4_datagram :: "u32 \<Rightarrow> u32 \<Rightarrow> u8 \<Rightarrow> u8 \<Rightarrow> u8 \<Rightarrow> u16 \<Rightarrow> bytes \<Rightarrow> bytes" where
  "ip4_datagram src dest ttl tos proto ident bs =
     (let tlen = of_nat (IP_HLEN + length bs)
      in ip4_header (inet_chksum False (ip4_header 0 src dest ttl tos proto tlen ident)) src dest ttl tos proto tlen ident @ bs)"

text \<open>The header is in place; what follows depends on the length.\<close>

lemma output_if_src_header:
  assumes "room_for (IP_HLEN + m) p ps (pbufs s)" and "netifs s nif = Some n" and "dest \<noteq> n_ip n"
    and "cells (pbufs s) p = Some c" and "flags c AND PBUF_FLAG_MCASTLOOP = 0"
  shows "\<exists>c2. let t = s\<lparr>pbufs := put p c2 (pbufs s), ip_id := ip_id s + 1\<rparr> in
      ip4_output_if_src env p (Some src) (Some dest) ttl tos proto nif s
      = (if n_mtu n \<noteq> 0 \<and> IP_HLEN + plen (pbufs s) (p # ps) > n_mtu n then ip4_frag env p nif dest t else netif_output env nif p dest t)
    \<and> room_for m p ps (pbufs t) \<and> plen (pbufs t) (p # ps) = IP_HLEN + plen (pbufs s) (p # ps) \<and> IP_HLEN \<le> len c2
    \<and> contents (pbufs t) (p # ps) = ip4_datagram src dest ttl tos proto (ip_id s) (contents (pbufs s) (p # ps))"
proof -
  let ?h = "pbufs s" and ?ws = "\<lambda>l. header_stores src dest ttl tos proto (of_nat l) (ip_id s)"
  let ?hdr = "\<lambda>l. ip4_header (inet_chksum False (ip4_header 0 src dest ttl tos proto (of_nat l) (ip_id s))) src dest ttl tos proto (of_nat l) (ip_id s)"
  have pk: "packet ?h (Some p) (p # ps)" "ref c = 1" using assms(1,4) by (auto simp: room_for_def)
  have ws: "\<forall>(off, bs) \<in> set (?ws l). off + length bs \<le> IP_HLEN" for l using header_stores_bound by (fastforce simp: IP_HLEN_def)
  have st: "foldl (\<lambda>d (off, bs). blit d off bs) d (?ws l) = ?hdr l @ drop IP_HLEN d" if "IP_HLEN \<le> length d" for l d
    using header_stores_data [of d] that by (simp add: IP_HLEN_def)
  have "0 < IP_HLEN" by (simp add: IP_HLEN_def)
  from put_header [where ws = ?ws and hdr = ?hdr, OF assms(1) this ws st] obtain c0 c1 c2 where
    c0: "cells ?h p = Some c0" and c1: "pbuf_add_header p IP_HLEN ?h = Some (0, put p c1 ?h)" "len c1 = len c0 + IP_HLEN" "tot_len c1 = plen ?h (p # ps) + IP_HLEN"
    and c2: "wr_all (?ws (tot_len c1)) c1 = Some c2" "flags c2 = flags c0" "tot_len c2 = tot_len c1" "len c2 = len c1" "room_for m p ps (put p c2 ?h)"
      "contents (put p c2 ?h) (p # ps) = ?hdr (tot_len c1) @ contents ?h (p # ps)" by blast
  have "c0 = c" using c0 assms(4) by simp
  then have "ip4_output_if_src env p (Some src) (Some dest) ttl tos proto nif s
      = (if n_mtu n \<noteq> 0 \<and> IP_HLEN + plen ?h (p # ps) > n_mtu n then ip4_frag env p nif dest (s\<lparr>pbufs := put p c2 ?h, ip_id := ip_id s + 1\<rparr>)
         else netif_output env nif p dest (s\<lparr>pbufs := put p c2 ?h, ip_id := ip_id s + 1\<rparr>))"
    using c1 c2(1-3) pk(2) assms(2-5)
    by (auto simp: ip4_output_if_src_def ip4_send_def Let_def put_put simp del: wr_all.simps plen_simps)
  moreover have "tot_len c1 = IP_HLEN + length (contents ?h (p # ps))" using c1(3) length_contents [OF pk(1)] by simp
  moreover have "plen (put p c2 ?h) (p # ps) = tot_len c1"
    using c2(5,6) calculation(2) length_contents [of "put p c2 ?h" "Some p" "p # ps"]
    by (simp add: room_for_def IP_HLEN_def del: plen_simps contents_simps)
  moreover have "contents (put p c2 ?h) (p # ps) = ip4_datagram src dest ttl tos proto (ip_id s) (contents ?h (p # ps))"
    unfolding c2(6) calculation(2) ip4_datagram_def Let_def ..
  ultimately show ?thesis
    using c2(4,5) c1(2,3) by (intro exI [of _ c2]) (simp add: Let_def del: plen_simps contents_simps)
qed

lemma output_if_src_sends:
  assumes "room_for (IP_HLEN + m) p ps (pbufs s)" and "netifs s nif = Some n" and "dest \<noteq> n_ip n"
    and "cells (pbufs s) p = Some c" and "flags c AND PBUF_FLAG_MCASTLOOP = 0"
    and "n_mtu n = 0 \<or> plen (pbufs s) (p # ps) + IP_HLEN \<le> n_mtu n"
  shows "\<exists>h. ip4_output_if_src env p (Some src) (Some dest) ttl tos proto nif s
      = netif_output env nif p dest (s\<lparr>pbufs := h, ip_id := ip_id s + 1\<rparr>)
    \<and> room_for m p ps h \<and> plen h (p # ps) = IP_HLEN + plen (pbufs s) (p # ps) \<and> IP_HLEN \<le> len (the (cells h p))
    \<and> contents h (p # ps) = ip4_datagram src dest ttl tos proto (ip_id s) (contents (pbufs s) (p # ps))"
proof -
  from output_if_src_header [OF assms(1-5), of env src ttl tos proto] obtain c2 where
    c2: "ip4_output_if_src env p (Some src) (Some dest) ttl tos proto nif s = netif_output env nif p dest (s\<lparr>pbufs := put p c2 (pbufs s), ip_id := ip_id s + 1\<rparr>)"
      "room_for m p ps (put p c2 (pbufs s))" "plen (put p c2 (pbufs s)) (p # ps) = IP_HLEN + plen (pbufs s) (p # ps)" "IP_HLEN \<le> len c2"
      "contents (put p c2 (pbufs s)) (p # ps) = ip4_datagram src dest ttl tos proto (ip_id s) (contents (pbufs s) (p # ps))"
    using assms(6) by (auto simp: Let_def add.commute simp del: plen_simps contents_simps)
  then show ?thesis by (intro exI [of _ "put p c2 (pbufs s)"]) (simp del: plen_simps contents_simps)
qed

end
