(* ===== verification/Icmp.thy ===== *)
theory Icmp
  imports Ip4
begin

text \<open>
  \<^verbatim>\<open>core/ipv4/icmp.c\<close> of lwIP: answers to echo requests, and the error messages sent for
  datagrams that cannot be delivered. Options of this build: requests to broadcast and
  multicast addresses are not answered, checksums are made and checked in software, the header
  room of the input packet is checked.
\<close>

section \<open>Messages\<close>

definition ICMP_ER :: u8 where "ICMP_ER = 0"
definition ICMP_DUR :: u8 where "ICMP_DUR = 3"
definition ICMP_ECHO :: u8 where "ICMP_ECHO = 8"
definition ICMP_TE :: u8 where "ICMP_TE = 11"
definition ICMP_DUR_PROTO :: u8 where "ICMP_DUR_PROTO = 2"
definition ICMP_TTL :: u8 where "ICMP_TTL = 255"
definition ICMP_DEST_UNREACH_DATASIZE :: nat where "ICMP_DEST_UNREACH_DATASIZE = 8"
definition SIZEOF_ICMP_ECHO_HDR :: nat where "SIZEOF_ICMP_ECHO_HDR = 8"
definition PBUF_LINK_HLEN :: nat where "PBUF_LINK_HLEN = 14"

definition IPH_HL_BYTES :: "u8 \<Rightarrow> nat" where
  "IPH_HL_BYTES vhl = (unat (vhl AND 0x0f) * 4) mod 256"

text \<open>\<open>n\<close> bytes at a header pointer.\<close>

definition read_at :: "nat \<times> int \<Rightarrow> nat \<Rightarrow> pheap \<Rightarrow> bytes option" where
  "read_at ptr n h =
     (case ptr of (a, off) \<Rightarrow> do { c \<leftarrow> cells h a;
        if 0 \<le> off \<and> nat off + n \<le> length (area c) then Some (take n (drop (nat off) (area c))) else None })"

text \<open>Where the payloads of the cells lie.\<close>

definition payload_odd :: "'w ip_env \<Rightarrow> pheap \<Rightarrow> nat \<Rightarrow> bool" where
  "payload_odd env h a = (case cells h a of None \<Rightarrow> False | Some c \<Rightarrow> at_odd env a (payload c))"

section \<open>Errors\<close>

definition icmp_send_response :: "'w ip_env \<Rightarrow> nat \<Rightarrow> u8 \<Rightarrow> u8 \<Rightarrow> 'w net \<Rightarrow> 'w net option" where
  "icmp_send_response env p type code s =
     do { (q, h) \<leftarrow> pbuf_alloc PBUF_IP (SIZEOF_ICMP_ECHO_HDR + IP_HLEN + ICMP_DEST_UNREACH_DATASIZE) PBUF_RAM (pbufs s);
       case q of
         None \<Rightarrow> Some (s\<lparr>pbufs := h\<rparr>)
       | Some a \<Rightarrow>
           do { d \<leftarrow> cells h a;
             assert (len d \<ge> SIZEOF_ICMP_ECHO_HDR + IP_HLEN + ICMP_DEST_UNREACH_DATASIZE);
             d \<leftarrow> wr_all [(0, [type]), (1, [code]), (4, store16 0), (6, store16 0)] d;
             c \<leftarrow> cells h p;
             bs \<leftarrow> rd c 0 (IP_HLEN + ICMP_DEST_UNREACH_DATASIZE);
             d \<leftarrow> wr d SIZEOF_ICMP_ECHO_HDR bs;
             bs \<leftarrow> rd c 12 4;
             let iphdr_src = load32 bs; s = s\<lparr>pbufs := put a d h\<rparr> in
             do { r \<leftarrow> ip4_route iphdr_src s;
               s \<leftarrow> (case r of
                  None \<Rightarrow> Some s
                | Some nif \<Rightarrow>
                    do { d \<leftarrow> wr d 2 (store16 0);
                      bs \<leftarrow> rd d 0 (len d);
                      d \<leftarrow> wr d 2 (store16 (inet_chksum (at_odd env a (payload d)) bs));
                      map_option snd (ip4_output_if env a None (Some iphdr_src) ICMP_TTL 0 IP_PROTO_ICMP nif
                        (s\<lparr>pbufs := put a d (pbufs s)\<rparr>)) });
               free_pbuf a s } } }"

definition icmp_dest_unreach :: "'w ip_env \<Rightarrow> nat \<Rightarrow> u8 \<Rightarrow> 'w net \<Rightarrow> 'w net option" where
  "icmp_dest_unreach env p t s = icmp_send_response env p ICMP_DUR t s"

definition icmp_time_exceeded :: "'w ip_env \<Rightarrow> nat \<Rightarrow> u8 \<Rightarrow> 'w net \<Rightarrow> 'w net option" where
  "icmp_time_exceeded env p t s = icmp_send_response env p ICMP_TE t s"

section \<open>Echo\<close>

text \<open>
  The packet the reply is built in: the request itself if there is room for the headers in front,
  otherwise a copy in a new buffer, and the request is released. No packet is \<open>icmperr\<close>.
\<close>

definition echo_copy :: "nat \<Rightarrow> nat \<Rightarrow> nat \<times> int \<Rightarrow> 'w net \<Rightarrow> (pptr \<times> 'w net) option" where
  "echo_copy p hlen iphdr_in s =
     do { c \<leftarrow> cells (pbufs s) p;
       let alloc_len = u16 (tot_len c + hlen) in
       if alloc_len < tot_len c then Some (None, s)
       else do { (q, h) \<leftarrow> pbuf_alloc PBUF_LINK alloc_len PBUF_RAM (pbufs s);
         case q of
           None \<Rightarrow> Some (None, s\<lparr>pbufs := h\<rparr>)
         | Some r \<Rightarrow>
             do { d \<leftarrow> cells h r;
               if len d < hlen + SIZEOF_ICMP_ECHO_HDR then do { s \<leftarrow> free_pbuf r (s\<lparr>pbufs := h\<rparr>); Some (None, s) }
               else do { bs \<leftarrow> read_at iphdr_in hlen h;
                 d \<leftarrow> wr d 0 bs;
                 (e, h) \<leftarrow> pbuf_remove_header r hlen (put r d h);
                 assert (e = 0);
                 (err, h) \<leftarrow> pbuf_copy (Some r) (Some p) h;
                 if err \<noteq> ERR_OK then do { s \<leftarrow> free_pbuf r (s\<lparr>pbufs := h\<rparr>); Some (None, s) }
                 else do { s \<leftarrow> free_pbuf p (s\<lparr>pbufs := h\<rparr>); Some (Some r, s) } } } } }"

definition echo_packet :: "nat \<Rightarrow> nat \<Rightarrow> nat \<times> int \<Rightarrow> 'w net \<Rightarrow> (pptr \<times> 'w net) option" where
  "echo_packet p hlen iphdr_in s =
     do { (e, h) \<leftarrow> pbuf_add_header p (hlen + PBUF_LINK_HLEN) (pbufs s);
       if e \<noteq> 0 then echo_copy p hlen iphdr_in (s\<lparr>pbufs := h\<rparr>)
       else do { (e, h) \<leftarrow> pbuf_remove_header p (hlen + PBUF_LINK_HLEN) h;
         assert (e = 0); Some (Some p, s\<lparr>pbufs := h\<rparr>) } }"

text \<open>The type goes from 8 to 0; the checksum is adjusted by the difference, with end-around carry.\<close>

definition echo_chksum :: "u16 \<Rightarrow> u16" where
  "echo_chksum k =
     (if k > lwip_htons (0xffff - push_bit 8 (ucast ICMP_ECHO)) then k + lwip_htons (push_bit 8 (ucast ICMP_ECHO)) + 1
      else k + lwip_htons (push_bit 8 (ucast ICMP_ECHO)))"

text \<open>Turning the request at \<open>p\<close>, whose headers are in front of the payload, into the reply.\<close>

definition echo_fill :: "'w ip_env \<Rightarrow> nat \<Rightarrow> nat \<Rightarrow> u32 \<Rightarrow> u32 \<Rightarrow> pbuf \<Rightarrow> pbuf option" where
  "echo_fill env p hlen src dest c =
     do { c \<leftarrow> wr_all [(12, octets src), (16, octets dest), (hlen, [ICMP_ER])] c;
       k \<leftarrow> rd c (hlen + 2) 2;
       c \<leftarrow> wr_all [(hlen + 2, store16 (echo_chksum (le16 (k ! 0) (k ! 1)))), (8, [ICMP_TTL]), (10, store16 0)] c;
       hdr \<leftarrow> rd c 0 hlen;
       wr c 10 (store16 (inet_chksum (at_odd env p (payload c)) hdr)) }"

definition echo_reply :: "'w ip_env \<Rightarrow> nat \<Rightarrow> nat \<Rightarrow> nat \<Rightarrow> u32 \<Rightarrow> 'w net \<Rightarrow> 'w net option" where
  "echo_reply env p inp hlen src s =
     do { (e, h) \<leftarrow> pbuf_add_header p hlen (pbufs s);
       if e \<noteq> 0 then free_pbuf p (s\<lparr>pbufs := h\<rparr>)
       else do { c \<leftarrow> cells h p;
         c \<leftarrow> echo_fill env p hlen src (current_iphdr_src (ip_data s)) c;
         (_, s) \<leftarrow> ip4_output_if env p (Some src) None ICMP_TTL 0 IP_PROTO_ICMP inp (s\<lparr>pbufs := put p c h\<rparr>);
         free_pbuf p s } }"

definition icmp_echo :: "'w ip_env \<Rightarrow> nat \<Rightarrow> nat \<Rightarrow> nat \<Rightarrow> nat \<times> int \<Rightarrow> 'w net \<Rightarrow> 'w net option" where
  "icmp_echo env p inp hlen iphdr_in s =
     (let src = current_iphdr_dest (ip_data s) in
      if ip4_addr_ismulticast src then free_pbuf p s
      else do { nif \<leftarrow> current_netif (ip_data s);
        n \<leftarrow> netifs s nif;
        if ip4_addr_isbroadcast_u32 src (if_of n) then free_pbuf p s
        else do { c \<leftarrow> cells (pbufs s) p;
          if tot_len c < SIZEOF_ICMP_ECHO_HDR then free_pbuf p s
          else do { k \<leftarrow> inet_chksum_pbuf (payload_odd env (pbufs s)) (Some p) (pbufs s);
            if k \<noteq> 0 then free_pbuf p s
            else do { (q, s) \<leftarrow> echo_packet p hlen iphdr_in s;
              case q of None \<Rightarrow> free_pbuf p s | Some p \<Rightarrow> echo_reply env p inp hlen src s } } } })"

definition icmp_input :: "'w ip_env \<Rightarrow> nat \<Rightarrow> nat \<Rightarrow> 'w net \<Rightarrow> 'w net option" where
  "icmp_input env p inp s =
     do { iphdr_in \<leftarrow> current_ip4_header (ip_data s);
       vhl \<leftarrow> read_at iphdr_in 1 (pbufs s);
       c \<leftarrow> cells (pbufs s) p;
       let hlen = IPH_HL_BYTES (vhl ! 0) in
       if hlen < IP_HLEN then free_pbuf p s
       else if len c < 4 then free_pbuf p s
       else do { type \<leftarrow> rd c 0 1;
         if type ! 0 = ICMP_ER then free_pbuf p s
         else if type ! 0 = ICMP_ECHO then icmp_echo env p inp hlen iphdr_in s
         else free_pbuf p s } }"

section \<open>The reply\<close>

text \<open>What becomes of the header and the message of a request to \<open>src\<close> from \<open>dest\<close>.\<close>

definition reply_header :: "u32 \<Rightarrow> u32 \<Rightarrow> bytes \<Rightarrow> bytes" where
  "reply_header src dest hdr =
     (let pre = take 8 hdr @ [ICMP_TTL, hdr ! 9]; post = octets src @ octets dest
      in pre @ store16 (inet_chksum False (pre @ [0, 0] @ post)) @ post)"

definition reply_body :: "bytes \<Rightarrow> bytes" where
  "reply_body bs = [ICMP_ER, bs ! 1] @ store16 (echo_chksum (le16 (bs ! 2) (bs ! 3))) @ drop 4 bs"

lemma inet_chksum_odd: "length bs < 65536 \<Longrightarrow> inet_chksum a bs = inet_chksum b bs"
  using unat_inet_chksum [of bs a] unat_inet_chksum [of bs b] by (simp add: word_unat_eq_iff)

lemma length_reply_header [simp]: "length hdr = 20 \<Longrightarrow> length (reply_header src dest hdr) = 20"
  by (simp add: reply_header_def Let_def)

lemma length_reply_body [simp]: "4 \<le> length bs \<Longrightarrow> length (reply_body bs) = length bs"
  by (simp add: reply_body_def)

lemma chksum_0_iff: "length bs < 65536 \<Longrightarrow> inet_chksum a bs = 0 \<longleftrightarrow> norm (le_sum bs) = 65535"
  using unat_inet_chksum [of bs a] norm_le [of "le_sum bs"] by (auto simp flip: unat_eq_0)

lemma reply_header_verifies: "length hdr = 20 \<Longrightarrow> inet_chksum a (reply_header src dest hdr) = 0"
  using stored_chksum [of "take 8 hdr @ [ICMP_TTL, hdr ! 9]" "octets src @ octets dest" _ False a, OF _ _ refl]
  by (simp add: reply_header_def Let_def store16_def)

lemma htons_echo: "lwip_htons (0xffff - push_bit 8 (ucast ICMP_ECHO)) = 0xfff7" "lwip_htons (push_bit 8 (ucast ICMP_ECHO)) = 8"
  by (simp_all add: ICMP_ECHO_def lwip_htons_def)

lemma unat_echo_chksum: "unat (echo_chksum k) = (if unat k > 65527 then unat k - 65527 else unat k + 8)"
proof (cases "unat k > 65527")
  case True
  then have "k > 0xfff7" by (simp add: word_less_nat_alt)
  moreover have "unat (k + 9) = unat k - 65527"
  proof -
    have "unat k + 9 = 65536 + (unat k - 65527)" "unat k - 65527 < 65536" using True unat_u16_less [of k] by linarith+
    then have "(unat k + 9) mod 65536 = unat k - 65527" by (simp only: mod_add_self1) simp
    then show ?thesis by (simp add: unat_word_ariths)
  qed
  ultimately show ?thesis using True by (simp add: echo_chksum_def htons_echo add.assoc)
next
  case False
  then have "\<not> k > 0xfff7" by (simp add: word_less_nat_alt)
  moreover have "unat (k + 8) = unat k + 8" using False by (simp add: unat_add_lem [THEN iffD1])
  ultimately show ?thesis using False by (simp add: echo_chksum_def htons_echo)
qed

lemma le_sum_store16: "le_sum (store16 w) = unat w"
proof -
  have "unat w div 256 < 256" using unat_u16_less [of w] by (simp add: div_less_iff_less_mult)
  then show ?thesis by (simp add: store16_def unat_byte drop_bit_eq_div unat_div)
qed

text \<open>The adjusted checksum verifies if and only if the request did.\<close>

lemma norm_65535_iff: "norm n = 65535 \<longleftrightarrow> n \<noteq> 0 \<and> n mod 65535 = 0"
proof
  assume "norm n = 65535"
  then show "n \<noteq> 0 \<and> n mod 65535 = 0" using norm_mod [of n] norm_0_iff [of n] by (auto simp: norm_def)
next
  assume "n \<noteq> 0 \<and> n mod 65535 = 0"
  then have "norm n = norm 65535" by (intro norm_unique) auto
  then show "norm n = 65535" by (simp add: norm_self)
qed

lemma reply_body_verifies:
  assumes "4 \<le> length bs" and "length bs < 65536" and "bs ! 0 = ICMP_ECHO" and "inet_chksum a bs = 0"
  shows "inet_chksum b (reply_body bs) = 0"
proof -
  obtain c k0 k1 r where bs: "bs = ICMP_ECHO # c # k0 # k1 # r"
    using assms(1,3) by (cases bs; cases "tl bs"; cases "tl (tl bs)"; cases "tl (tl (tl bs))") auto
  let ?k = "unat (le16 k0 k1)" and ?r = "le_sum r"
  have s: "le_sum bs = 8 + 256 * unat c + ?k + ?r" unfolding bs by (simp add: unat_le16 ICMP_ECHO_def)
  have ev: "even (length [ICMP_ER, c])" "even (length (store16 (echo_chksum (le16 k0 k1))))" by simp_all
  have "reply_body bs = [ICMP_ER, c] @ store16 (echo_chksum (le16 k0 k1)) @ r" by (simp add: reply_body_def bs)
  then have t: "le_sum (reply_body bs) = 256 * unat c + unat (echo_chksum (le16 k0 k1)) + ?r"
    by (simp only: le_sum_even [OF ev(1)] le_sum_even [OF ev(2)] le_sum_store16) (simp add: ICMP_ER_def)
  have v: "le_sum bs mod 65535 = 0" using assms(2,4) norm_65535_iff by (simp add: chksum_0_iff)
  have "?k < 65536" by simp
  then have "le_sum (reply_body bs) = le_sum bs \<or> le_sum bs = le_sum (reply_body bs) + 65535 \<and> le_sum (reply_body bs) > 0"
    unfolding s t unat_echo_chksum by (cases "?k > 65527") auto
  moreover have "le_sum bs \<noteq> 0" unfolding s by simp
  ultimately have "le_sum (reply_body bs) \<noteq> 0 \<and> le_sum (reply_body bs) mod 65535 = 0"
    using v mod_add_self2 [of "le_sum (reply_body bs)" 65535] by (metis gr_implies_not0)
  then have "norm (le_sum (reply_body bs)) = 65535" unfolding norm_65535_iff .
  then show ?thesis using assms(1,2) by (simp add: chksum_0_iff)
qed

section \<open>Building and sending the reply\<close>

lemma list_20:
  assumes "length (xs :: bytes) = 20"
  obtains a0 a1 a2 a3 a4 a5 a6 a7 a8 a9 a10 a11 zs where "xs = [a0, a1, a2, a3, a4, a5, a6, a7, a8, a9, a10, a11] @ zs" "length zs = 8"
proof -
  have up: "[0..<12] = [0, 1, 2, 3, 4, 5, 6, 7, 8, 9, 10, 11]" by code_simp
  have pre: "take 12 xs = map (nth xs) [0..<12]" by (rule nth_equalityI) (use assms in auto)
  have "xs = take 12 xs @ drop 12 xs" by simp
  then have "xs = [xs ! 0, xs ! 1, xs ! 2, xs ! 3, xs ! 4, xs ! 5, xs ! 6, xs ! 7, xs ! 8, xs ! 9, xs ! 10, xs ! 11] @ drop 12 xs"
    unfolding pre up by simp
  then show thesis by (rule that) (use assms in simp)
qed

lemma echo_fill_data:
  assumes "cell_ok c" and "data_of c = hdr @ d" and "length hdr = 20" and "4 \<le> length d"
  shows "\<exists>c'. echo_fill env p 20 src dest c = Some c' \<and> cell_ok c' \<and> c' = c\<lparr>area := area c'\<rparr>
    \<and> data_of c' = reply_header src dest hdr @ reply_body d"
proof -
  have len: "len c = 20 + length d" using length_data_of [OF assms(1)] assms(2,3) by simp
  from list_20 [OF assms(3)] obtain a0 a1 a2 a3 a4 a5 a6 a7 a8 a9 a10 a11 zs where
    hdr: "hdr = [a0, a1, a2, a3, a4, a5, a6, a7, a8, a9, a10, a11] @ zs" "length zs = 8" .
  obtain b0 b1 b2 b3 r where d: "d = b0 # b1 # b2 # b3 # r"
    using assms(4) by (cases d; cases "tl d"; cases "tl (tl d)"; cases "tl (tl (tl d))") auto
  let ?w1 = "[(12, octets src), (16, octets dest), (20, [ICMP_ER])]" and ?k = "echo_chksum (le16 b2 b3)"
  let ?w2 = "[(22, store16 ?k), (8, [ICMP_TTL]), (10, store16 0)]"
  have "\<forall>(off, bs) \<in> set ?w1. off + length bs \<le> len c" using len d by simp
  from wr_all_ok [OF assms(1) this] obtain c1 where
    c1: "wr_all ?w1 c = Some c1" "cell_ok c1" "c1 = c\<lparr>area := area c1\<rparr>"
      "data_of c1 = foldl (\<lambda>d (off, bs). blit d off bs) (data_of c) ?w1" by auto
  have d1: "data_of c1 = [a0, a1, a2, a3, a4, a5, a6, a7, a8, a9, a10, a11] @ octets src @ octets dest @ ICMP_ER # b1 # b2 # b3 # r"
    unfolding c1(4) assms(2) hdr(1) d using hdr(2) by (simp add: blit_def octets_def)
  have l1: "len c1 = len c" using arg_cong [OF c1(3), of len] by simp
  have k: "rd c1 22 2 = Some [b2, b3]" using rd_ok [OF c1(2), of 22 2] l1 len d d1 by (simp add: octets_def)
  have "\<forall>(off, bs) \<in> set ?w2. off + length bs \<le> len c1" using len d l1 by simp
  from wr_all_ok [OF c1(2) this] obtain c2 where
    c2: "wr_all ?w2 c1 = Some c2" "cell_ok c2" "c2 = c1\<lparr>area := area c2\<rparr>"
      "data_of c2 = foldl (\<lambda>d (off, bs). blit d off bs) (data_of c1) ?w2" by auto
  let ?pre = "[a0, a1, a2, a3, a4, a5, a6, a7, ICMP_TTL, a9]" and ?post = "octets src @ octets dest"
  have d2: "data_of c2 = (?pre @ [0, 0] @ ?post) @ [ICMP_ER, b1] @ store16 ?k @ r"
    unfolding c2(4) d1 by (simp add: blit_def octets_def store16_def)
  have l2: "len c2 = len c" using arg_cong [OF c2(3), of len] l1 by simp
  have h: "rd c2 0 20 = Some (?pre @ [0, 0] @ ?post)" using rd_ok [OF c2(2), of 0 20] l2 len unfolding d2 by simp
  let ?s = "inet_chksum False (?pre @ [0, 0] @ ?post)"
  have s: "inet_chksum a (?pre @ [0, 0] @ ?post) = ?s" for a by (rule inet_chksum_odd) simp
  from wr_ok [OF c2(2), of 10 "store16 ?s"] l2 len obtain c3 where
    c3: "wr c2 10 (store16 ?s) = Some c3" "cell_ok c3" "c3 = c2\<lparr>area := area c3\<rparr>" "data_of c3 = blit (data_of c2) 10 (store16 ?s)" by auto
  have rh: "reply_header src dest hdr = ?pre @ store16 ?s @ ?post" unfolding reply_header_def hdr(1) Let_def by simp
  have "data_of c3 = reply_header src dest hdr @ reply_body d"
    unfolding c3(4) d2 rh by (simp add: blit_def octets_def store16_def reply_body_def d)
  moreover have "echo_fill env p 20 src dest c = Some c3"
    using c1(1) k c2(1) h c3(1) s [of "at_odd env p (payload c2)"] by (simp add: echo_fill_def del: wr_all.simps)
  moreover have "c3 = c\<lparr>area := area c3\<rparr>"
    using c3(3) c2(3) c1(3) by (metis pbuf.surjective pbuf.update_convs(2))
  ultimately show ?thesis using c3(2) by blast
qed

text \<open>
  A message that was received over IP: the header \<open>hdr\<close> lies in the memory in front of the payload,
  with room for the frame header in front of it, and nobody else holds a cell.
\<close>

definition ip_received :: "nat \<Rightarrow> nat list \<Rightarrow> bytes \<Rightarrow> bytes \<Rightarrow> pheap \<Rightarrow> bool" where
  "ip_received p ps hdr body h \<longleftrightarrow> packet h (Some p) (p # ps) \<and> (\<forall>a \<in> set (p # ps). sole h a) \<and> contents h (p # ps) = body
     \<and> length hdr = 20 \<and> length body + 34 < 65536
     \<and> (\<exists>c. cells h p = Some c \<and> 34 \<le> payload c \<and> type_internal c AND FLAG_CONTIGUOUS \<noteq> 0 \<and> flags c AND PBUF_FLAG_MCASTLOOP = 0
          \<and> 4 \<le> len c \<and> take 20 (drop (nat (payload c) - 20) (area c)) = hdr)"

definition same_cell :: "pbuf \<Rightarrow> pbuf \<Rightarrow> bool" where
  "same_cell c c' \<longleftrightarrow> ref c' = ref c \<and> type_internal c' = type_internal c \<and> flags c' = flags c \<and> nxt c' = nxt c"

lemma sole_same_cell: "cells h p = Some c \<Longrightarrow> same_cell c c' \<Longrightarrow> sole h a \<Longrightarrow> sole (put p c' h) a"
  by (auto simp: sole_def same_cell_def releasable_def)

lemma drop_area_header:
  assumes "cell_ok c" and "int n \<le> payload c" and "c1 = c\<lparr>payload := payload c - int n, len := len c + n, tot_len := k\<rparr>"
  shows "take n (data_of c1) = take n (drop (nat (payload c) - n) (area c))"
  using assms by (auto simp: data_of_def nat_diff_distrib take_take)

lemma header_put_back:
  assumes "ip_received p ps hdr body h"
  shows "\<exists>c c1. cells h p = Some c \<and> 34 \<le> payload c \<and> flags c AND PBUF_FLAG_MCASTLOOP = 0 \<and> pbuf_add_header p 20 h = Some (0, put p c1 h)
    \<and> cell_ok c1 \<and> same_cell c c1 \<and> type_internal c AND FLAG_CONTIGUOUS \<noteq> 0 \<and> 14 \<le> payload c1 \<and> len c1 = len c + 20
    \<and> tot_len c1 = 20 + length body \<and> data_of c1 = hdr @ data_of c \<and> packet h (nxt c) ps \<and> p \<notin> set ps \<and> 4 \<le> length (data_of c)
    \<and> tot_len c1 = len c1 + plen h ps \<and> ref c = 1"
proof -
  from assms obtain c where c: "cells h p = Some c" "34 \<le> payload c" "type_internal c AND FLAG_CONTIGUOUS \<noteq> 0"
      "flags c AND PBUF_FLAG_MCASTLOOP = 0" "4 \<le> len c" "take 20 (drop (nat (payload c) - 20) (area c)) = hdr"
    and pk: "packet h (Some p) (p # ps)" "contents h (p # ps) = body" "length body + 34 < 65536" "sole h p" "length hdr = 20"
    by (auto simp: ip_received_def)
  have c': "cell_ok c" "tot_len c = len c + plen h ps" "packet h (nxt c) ps" "p \<notin> set ps" "ref c = 1" "tot_len c = length body"
    using c(1) pk(1,4) packet_distinct [OF pk(1)] length_contents [OF pk(1)] pk(2) by (auto simp: sole_def)
  define c1 where "c1 = c\<lparr>payload := payload c - int 20, len := len c + 20, tot_len := tot_len c + 20\<rparr>"
  have a: "pbuf_add_header p 20 h = Some (0, put p c1 h)" "cell_ok c1" "drop 20 (data_of c1) = data_of c"
    using add_header_room [OF c(1) c'(1) c(3) _ _ _ _ c1_def] c(2) c'(2,6) pk(3) by simp_all
  have "take 20 (data_of c1) = hdr" using drop_area_header [OF c'(1) _ c1_def] c(2,6) by simp
  then have "data_of c1 = hdr @ data_of c" using a(3) by (metis append_take_drop_id)
  moreover have "same_cell c c1" "14 \<le> payload c1" "len c1 = len c + 20" "tot_len c1 = 20 + length body" "tot_len c1 = len c1 + plen h ps"
    using c(2) c'(2,6) by (simp_all add: same_cell_def c1_def)
  ultimately show ?thesis using c a c' by auto
qed

lemma echo_reply_sends:
  assumes rec: "ip_received p ps hdr body (pbufs s)" and src: "current_iphdr_src (ip_data s) = a" and nif: "netifs s inp = Some n"
    and other: "a \<noteq> n_ip n" and mtu: "n_mtu n = 0 \<or> 20 + length body \<le> n_mtu n"
  shows "\<exists>c c'. cells (pbufs s) p = Some c \<and> same_cell c c' \<and> room_for 14 p ps (put p c' (pbufs s))
    \<and> contents (put p c' (pbufs s)) (p # ps) = reply_header me a hdr @ reply_body body \<and> 20 \<le> len c'
    \<and> echo_reply env p inp 20 me s
      = do { (_, s) \<leftarrow> netif_output env inp p a (s\<lparr>pbufs := put p c' (pbufs s)\<rparr>); free_pbuf p s }"
proof -
  let ?h = "pbufs s"
  from header_put_back [OF rec] obtain c c1 where c: "cells ?h p = Some c" "flags c AND PBUF_FLAG_MCASTLOOP = 0"
      "type_internal c AND FLAG_CONTIGUOUS \<noteq> 0" "packet ?h (nxt c) ps" "p \<notin> set ps" "4 \<le> length (data_of c)" "ref c = 1"
    and c1: "pbuf_add_header p 20 ?h = Some (0, put p c1 ?h)" "cell_ok c1" "same_cell c c1" "14 \<le> payload c1" "len c1 = len c + 20"
      "tot_len c1 = 20 + length body" "data_of c1 = hdr @ data_of c" "tot_len c1 = len c1 + plen ?h ps" by blast
  have pk: "length hdr = 20" "length body + 34 < 65536" "contents ?h (p # ps) = body" using rec by (auto simp: ip_received_def)
  from echo_fill_data [OF c1(2,7) pk(1) c(6)] obtain c2 where
    c2: "echo_fill env p 20 me a c1 = Some c2" "cell_ok c2" "c2 = c1\<lparr>area := area c2\<rparr>"
      "data_of c2 = reply_header me a hdr @ reply_body (data_of c)" by blast
  have f: "len c2 = len c + 20" "tot_len c2 = tot_len c1" "payload c2 = payload c1" "same_cell c c2"
    using arg_cong [OF c2(3), of len] arg_cong [OF c2(3), of tot_len] arg_cong [OF c2(3), of nxt] arg_cong [OF c2(3), of ref]
      arg_cong [OF c2(3), of type_internal] arg_cong [OF c2(3), of flags] arg_cong [OF c2(3), of payload] c1(3,5)
    by (simp_all add: same_cell_def)
  let ?h2 = "put p c2 ?h"
  have same: "same_on ps ?h ?h2" using c(5) by simp
  have "room_for 14 p ps ?h2"
    using c2(2) f c1(4,5,6,8) c(3,4,7) pk(2) packet_frame [OF same] plen_frame [OF same]
    by (auto simp: room_for_def same_cell_def)
  moreover have "contents ?h2 (p # ps) = reply_header me a hdr @ reply_body body"
    using c2(4) c(1,6) pk(3) contents_frame [OF same] by (auto simp: reply_body_def nth_append)
  moreover have "echo_reply env p inp 20 me s = do { (_, s) \<leftarrow> netif_output env inp p a (s\<lparr>pbufs := ?h2\<rparr>); free_pbuf p s }"
  proof -
    have "20 \<le> len c2" "ref c2 = 1" "flags c2 AND PBUF_FLAG_MCASTLOOP = 0" using f(1,4) c(2,7) by (simp_all add: same_cell_def)
    moreover have "rd c2 16 4 = Some (octets a)"
      using rd_ok [OF c2(2), of 16 4] f(1) pk(1) by (simp add: c2(4) reply_header_def Let_def)
    ultimately show ?thesis
      using c1(1,6) c2(1) src nif other mtu f(2)
      by (auto simp: echo_reply_def ip4_output_if_def ip4_output_if_src_def ip4_send_def IP_HLEN_def put_put load32_octets)
  qed
  moreover have "20 \<le> len c2" using f(1) by simp
  ultimately show ?thesis using c(1) f(4) by blast
qed

lemma packet_tot_len: "packet h (Some p) (p # ps) \<Longrightarrow> cells h p = Some c \<Longrightarrow> tot_len c = length (contents h (p # ps))"
  using length_contents [of h "Some p" "p # ps"] by auto

lemma put_same: "cells h a = Some c \<Longrightarrow> put a c h = h"
  by (simp add: put_def fun_upd_idem)

text \<open>The test for header room leaves everything as it was.\<close>

lemma echo_packet_in_place:
  assumes "ip_received p ps hdr body (pbufs s)"
  shows "echo_packet p 20 iphdr_in s = Some (Some p, s)"
proof -
  let ?h = "pbufs s"
  from assms obtain c where c: "cells ?h p = Some c" "34 \<le> payload c" "type_internal c AND FLAG_CONTIGUOUS \<noteq> 0"
      "cell_ok c" "tot_len c = len c + plen ?h ps" "length body + 34 < 65536"
    and pk: "packet ?h (Some p) (p # ps)" "contents ?h (p # ps) = body" by (auto simp: ip_received_def)
  have t: "tot_len c = length body" using packet_tot_len [OF pk(1) c(1)] unfolding pk(2) .
  let ?c1 = "c\<lparr>payload := payload c - int 34, len := len c + 34, tot_len := tot_len c + 34\<rparr>"
  have a: "pbuf_add_header p 34 ?h = Some (0, put p ?c1 ?h)"
    using add_header_room [OF c(1,4,3) _ _ _ _ refl, of 34] c(2,5,6) t by simp
  have r: "pbuf_remove_header p 34 (put p ?c1 ?h) = Some (0, ?h)"
  proof -
    have "?c1\<lparr>payload := payload ?c1 + int 34, len := sub16 (len ?c1) 34, tot_len := sub16 (tot_len ?c1) 34\<rparr> = c"
      using c(5,6) t by simp
    then show ?thesis using put_same [OF c(1)] by (simp add: pbuf_remove_header_def put_put)
  qed
  show ?thesis using a r by (simp add: echo_packet_def PBUF_LINK_HLEN_def)
qed

lemma icmp_input_echo:
  assumes rec: "ip_received p ps hdr body (pbufs s)" and echo: "8 \<le> length body" "body ! 0 = ICMP_ECHO" "inet_chksum False body = 0"
    and hp: "current_ip4_header (ip_data s) = Some hp" "read_at hp 1 (pbufs s) = Some [0x45]"
    and dest: "current_iphdr_dest (ip_data s) = me" "\<not> ip4_addr_ismulticast me"
    and nif: "current_netif (ip_data s) = Some nif" "netifs s nif = Some m" "\<not> ip4_addr_isbroadcast_u32 me (if_of m)"
  shows "icmp_input env p inp s = echo_reply env p inp 20 me s"
proof -
  let ?h = "pbufs s"
  from rec obtain c where c: "cells ?h p = Some c" "4 \<le> len c" "cell_ok c" "tot_len c = len c + plen ?h ps" "length body + 34 < 65536"
    and pk: "packet ?h (Some p) (p # ps)" "contents ?h (p # ps) = body" by (auto simp: ip_received_def)
  have "take 1 (data_of c) = take 1 body" using pk(2) c(1-3) by auto
  moreover have "take 1 body = [ICMP_ECHO]" using echo(1,2) by (cases body) auto
  ultimately have type: "rd c 0 1 = Some [ICMP_ECHO]" using rd_ok [OF c(3), of 0 1] c(2) by simp
  have "tot_len c = length body" using packet_tot_len [OF pk(1) c(1)] unfolding pk(2) .
  moreover have "inet_chksum_pbuf (payload_odd env ?h) (Some p) ?h = Some 0"
    using chain_chksum [OF pk(1), of "payload_odd env ?h" False] c(5) echo(3) unfolding pk(2) by simp
  moreover have "IPH_HL_BYTES 0x45 = 20" by (simp add: IPH_HL_BYTES_def)
  ultimately show ?thesis
    using c(1,2) type echo(1) hp dest nif echo_packet_in_place [OF rec, of hp]
    by (simp add: icmp_input_def icmp_echo_def IP_HLEN_def ICMP_ECHO_def ICMP_ER_def SIZEOF_ICMP_ECHO_HDR_def)
qed

end
