(* ===== verification/Ethernet_Input.thy ===== *)
theory Ethernet_Input
  imports Etharp
begin

text \<open>
  The input side of \<^verbatim>\<open>netif/ethernet.c\<close>: \<open>ethernet_input\<close> takes a frame apart and passes the packet
  to ARP, IPv4 or IPv6. The two IP modules are arguments. Then the composition of the layers:
  a request that arrives is answered on the line, a packet for a resolved address leaves
  in a frame for that address.
\<close>

section \<open>Frames from the driver\<close>

definition PBUF_FLAG_LLBCAST :: u8 where "PBUF_FLAG_LLBCAST = 0x08"
definition PBUF_FLAG_LLMCAST :: u8 where "PBUF_FLAG_LLMCAST = 0x10"

definition ll_flags :: "bytes \<Rightarrow> u8 \<Rightarrow> u8" where
  "ll_flags dest fl =
     (if dest ! 0 AND 1 \<noteq> 0 then
        if dest ! 0 = 0x01 then
          if dest ! 1 = 0x00 \<and> dest ! 2 = 0x5e then fl OR PBUF_FLAG_LLMCAST else fl
        else if dest ! 0 = 0x33 \<and> dest ! 1 = 0x33 then fl OR PBUF_FLAG_LLMCAST
        else if dest = ethbroadcast then fl OR PBUF_FLAG_LLBCAST
        else fl
      else fl)"

text \<open>Both \<open>free_and_return\<close> and the normal end return \<open>ERR_OK\<close>.\<close>

definition ethernet_input ::
  "'w linkoutput \<Rightarrow> (nat \<Rightarrow> bytes \<Rightarrow> 'w net \<Rightarrow> 'w net option) \<Rightarrow> (nat \<Rightarrow> u32 \<Rightarrow> 'w net \<Rightarrow> 'w net option)
     \<Rightarrow> (nat \<Rightarrow> nat \<Rightarrow> 'w net \<Rightarrow> 'w net option) \<Rightarrow> (nat \<Rightarrow> nat \<Rightarrow> 'w net \<Rightarrow> 'w net option)
     \<Rightarrow> nat \<Rightarrow> nat \<Rightarrow> 'w net \<Rightarrow> (err \<times> 'w net) option" where
  "ethernet_input lo ar dr ip4_input ip6_input p nif s =
     do { c \<leftarrow> cells (pbufs s) p;
       s \<leftarrow> (if len c \<le> SIZEOF_ETH_HDR then free_pbuf p s
              else do { n \<leftarrow> netifs s nif; hdr \<leftarrow> rd c 0 SIZEOF_ETH_HDR;
                let type = take 2 (drop 12 hdr);
                    c = c\<lparr>if_idx := (if if_idx c = 0 then n_num n + 1 else if_idx c), flags := ll_flags (take 6 hdr) (flags c)\<rparr>;
                    s = s\<lparr>pbufs := put p c (pbufs s)\<rparr>
                in if type = store16 (lwip_htons ETHTYPE_IP) then
                     if n_flags n AND NETIF_FLAG_ETHARP = 0 then free_pbuf p s
                     else do { (r, h) \<leftarrow> pbuf_remove_header p SIZEOF_ETH_HDR (pbufs s);
                       if r \<noteq> 0 then free_pbuf p (s\<lparr>pbufs := h\<rparr>) else ip4_input p nif (s\<lparr>pbufs := h\<rparr>) }
                   else if type = store16 (lwip_htons ETHTYPE_ARP) then
                     if n_flags n AND NETIF_FLAG_ETHARP = 0 then free_pbuf p s
                     else do { (r, h) \<leftarrow> pbuf_remove_header p SIZEOF_ETH_HDR (pbufs s);
                       if r \<noteq> 0 then free_pbuf p (s\<lparr>pbufs := h\<rparr>) else etharp_input lo ar dr p nif (s\<lparr>pbufs := h\<rparr>) }
                   else if type = store16 (lwip_htons ETHTYPE_IPV6) then
                     if len c < SIZEOF_ETH_HDR then free_pbuf p s
                     else do { (r, h) \<leftarrow> pbuf_remove_header p SIZEOF_ETH_HDR (pbufs s);
                       if r \<noteq> 0 then free_pbuf p (s\<lparr>pbufs := h\<rparr>) else ip6_input p nif (s\<lparr>pbufs := h\<rparr>) }
                   else free_pbuf p s });
       Some (ERR_OK, s) }"

section \<open>Updating while no packet waits\<close>

definition none_waiting :: "'w net \<Rightarrow> bool" where
  "none_waiting s \<longleftrightarrow> (\<forall>e \<in> set (arp_table s). arp_q e = None)"

lemma free_entry_quiet:
  "i < length (arp_table s) \<Longrightarrow> arp_q (arp_table s ! i) = None \<Longrightarrow> etharp_free_entry i s = Some (arp_put i empty_entry s)"
  unfolding etharp_free_entry_def cleared_entry by (simp add: arp_at_def)

lemma find_entry_quiet:
  assumes "etharp_find_entry (Some ip) fl nif s = Some (x, t)" and "none_waiting s"
  shows "none_waiting t \<and> pbufs t = pbufs s \<and> driver t = driver s"
proof -
  have put: "none_waiting (arp_put i e s')" if "none_waiting s'" "arp_q e = None" for i e and s' :: "'a net"
    using that set_update_subset_insert [of "arp_table s'" i e] by (auto simp: none_waiting_def)
  have free: "none_waiting u \<and> pbufs u = pbufs s \<and> driver u = driver s" if "etharp_free_entry i s = Some u" for i u
    using that free_entry_quiet [of i s] etharp_free_entry_table [OF that] assms(2) put [OF assms(2), of empty_entry i]
    by (auto simp: none_waiting_def)
  have rec: "none_waiting u \<and> pbufs u = pbufs s \<and> driver u = driver s" if "recycle v s = Some (Some (i, u))" for v i u
    using that assms(2) free by (auto simp: recycle_def bind_eq_Some_conv split: if_splits)
  show ?thesis
  proof (cases x)
    case (Inl err)
    then show ?thesis using assms find_entry_error by blast
  next
    case (Inr i)
    show ?thesis
    proof (cases "search_loop (Some ip) nif 0 (take ARP_TABLE_SIZE (arp_table s)) search_start")
      case (Inr v)
      from find_entry_new [OF _ this, of fl i t] assms(1) \<open>x = Inr i\<close> obtain u where
        u: "recycle v s = Some (Some (i, u))" "i < length (arp_table u)"
          "t = arp_put i ((arp_table u ! i)\<lparr>arp_ipaddr := ip, arp_ctime := 0, arp_netif := nif\<rparr>) u" by blast
      have "none_waiting u" using rec [OF u(1)] by blast
      then have "none_waiting t" unfolding u(3) using u(2) by (intro put) (auto simp: none_waiting_def)
      then show ?thesis using rec [OF u(1)] u(3) by simp
    qed (use assms in \<open>simp add: etharp_find_entry_def\<close>)
  qed
qed

lemma update_quiet:
  assumes "arp_ok s" and "none_waiting s" and "netifs s nif = Some n" and "n_hwaddr_len n = ETH_HWADDR_LEN"
  shows "\<exists>r t. etharp_update_arp_entry lo nif ip mac fl s = Some (r, t) \<and> pbufs t = pbufs s \<and> driver t = driver s \<and> netifs t = netifs s"
proof -
  have "etharp_find_entry (Some ip) fl (Some nif) s \<noteq> None"
    using assms(1,2) by (intro find_entry_returns) (auto simp: arp_ok_def none_waiting_def)
  then obtain x t where x: "etharp_find_entry (Some ip) fl (Some nif) s = Some (x, t)" by auto
  note q = find_entry_quiet [OF x assms(2)]
  have t: "table_ok (arp_table t)" "netifs t = netifs s" using find_entry_spec [OF x] assms(1) by (auto simp: arp_ok_def)
  show ?thesis
  proof (cases x)
    case (Inl err)
    then show ?thesis using x q t assms(3,4) by (auto simp: etharp_update_arp_entry_def)
  next
    case (Inr i)
    have i: "i < length (arp_table t)" "arp_q (arp_table t ! i) = None"
      using Inr find_entry_spec [OF x] assms(1) q t(1) by (auto simp: arp_ok_def table_ok_def none_waiting_def)
    then show ?thesis using x q t Inr assms(3,4) by (auto simp: etharp_update_arp_entry_def arp_at_def arp_store_def)
  qed
qed

section \<open>Answering requests\<close>

lemma free_sole:
  assumes "packet (pbufs s) (Some p) [p]" and "sole (pbufs s) p"
  shows "\<exists>h. free_pbuf p s = Some (s\<lparr>pbufs := h\<rparr>) \<and> cells h = (cells (pbufs s))(p := None)"
proof -
  have "chain (pbufs s) (Some p) ([p] @ [])" using packet_chain [OF assms(1)] by simp
  from pbuf_free_spec [OF this] assms(2) obtain h n where
    h: "pbuf_free (Some p) (pbufs s) = Some (n, h)" "cells h = free_map [p] [] (cells (pbufs s))" by (auto simp: shared_def)
  have "free_map [p] [] (cells (pbufs s)) = (cells (pbufs s))(p := None)" by (auto simp: fun_eq_iff)
  with h show ?thesis by (auto simp: free_pbuf_def)
qed

lemma arp_packet_fields:
  assumes "length hs = ETH_HWADDR_LEN" and "length ht = ETH_HWADDR_LEN"
  shows "length (arp_packet hs a ht b op) = SIZEOF_ETHARP_HDR"
    "take 2 (arp_packet hs a ht b op) = store16 (lwip_htons LWIP_IANA_HWTYPE_ETHERNET)"
    "take 2 (drop 2 (arp_packet hs a ht b op)) = store16 (lwip_htons ETHTYPE_IP)"
    "arp_packet hs a ht b op ! 4 = of_nat ETH_HWADDR_LEN" "arp_packet hs a ht b op ! 5 = 4"
    "take 2 (drop 6 (arp_packet hs a ht b op)) = store16 (lwip_htons op)"
    "take ETH_HWADDR_LEN (drop 8 (arp_packet hs a ht b op)) = hs"
    "take 4 (drop 14 (arp_packet hs a ht b op)) = octets a" "take 4 (drop 24 (arp_packet hs a ht b op)) = octets b"
  using assms
  by (simp_all add: arp_packet_def store16_def octets_def LWIP_IANA_HWTYPE_ETHERNET_def ETHTYPE_IP_def lwip_htons_def
      ETH_HWADDR_LEN_def SIZEOF_ETHARP_HDR_def)

text \<open>A received ARP packet, possibly padded, in one cell that nobody else holds.\<close>

definition arp_received :: "nat \<Rightarrow> bytes \<Rightarrow> pheap \<Rightarrow> bool" where
  "arp_received p bs h \<longleftrightarrow> packet h (Some p) [p] \<and> sole h p \<and> (\<exists>pad. contents h [p] = bs @ pad)"

context ether_driver
begin

lemma input_answers:
  assumes "arp_ok s" and "none_waiting s" and "netifs s nif = Some n" and "n_hwaddr_len n = ETH_HWADDR_LEN" and "length (n_hwaddr n) = ETH_HWADDR_LEN"
    and "n_ip n \<noteq> IPADDR_ANY" and "length hs = ETH_HWADDR_LEN" and "length ht = ETH_HWADDR_LEN"
    and "arp_received p (arp_packet hs ip ht (n_ip n) ARP_REQUEST) (pbufs s)" and "ram_ready (pbufs s)"
    and "ready (driver s)" and "42 \<le> max_frame" and "ar nif (arp_packet hs ip ht (n_ip n) ARP_REQUEST) s = Some s"
  shows "\<exists>t. etharp_input lo ar dr p nif s = Some t \<and> ready (driver t) \<and> cells (pbufs t) p = None
    \<and> line (driver t) = line (driver s) @ encode (eth_frame (if ip4_addr_islinklocal (n_ip n) then ethbroadcast else hs) (n_hwaddr n)
        ETHTYPE_ARP (arp_packet (n_hwaddr n) (n_ip n) hs ip ARP_REPLY))"
proof -
  let ?a = "arp_packet hs ip ht (n_ip n) ARP_REQUEST"
  note fields = arp_packet_fields [OF assms(7,8), of ip "n_ip n" ARP_REQUEST]
  from assms(9) obtain c pad where c: "cells (pbufs s) p = Some c" "cell_ok c" "data_of c = ?a @ pad" by (auto simp: arp_received_def)
  then have "length (?a @ pad) = len c" by (metis length_data_of)
  then have hdr: "rd c 0 SIZEOF_ETHARP_HDR = Some ?a" using rd_ok [OF c(2), of 0 SIZEOF_ETHARP_HDR] c(3) fields(1) by simp
  from update_quiet [OF assms(1-4)] obtain r t where
    t: "etharp_update_arp_entry lo nif ip hs ETHARP_FLAG_TRY_HARD s = Some (r, t)" "pbufs t = pbufs s" "driver t = driver s" "netifs t = netifs s"
    by blast
  have "ram_ready (pbufs t)" "netifs t nif = Some n" "ready (driver t)" using assms(3,10,11) t by simp_all
  from raw_sends [OF this(1,2) assms(4,5,7,5,7) this(3) assms(12), of "n_ip n" ip ARP_REPLY] obtain w where
    w: "etharp_raw lo nif (n_hwaddr n) hs (n_hwaddr n) (n_ip n) hs ip ARP_REPLY t = Some (ERR_OK, t\<lparr>driver := w\<rparr>)" "ready w"
      "line w = line (driver s) @ encode (eth_frame (if ip4_addr_islinklocal (n_ip n) then ethbroadcast else hs) (n_hwaddr n)
        ETHTYPE_ARP (arp_packet (n_hwaddr n) (n_ip n) hs ip ARP_REPLY))" unfolding t(3) by blast
  from free_sole [of "t\<lparr>driver := w\<rparr>" p] assms(9) t(2) obtain h where
    h: "free_pbuf p (t\<lparr>driver := w\<rparr>) = Some (t\<lparr>driver := w, pbufs := h\<rparr>)" "cells h p = None" by (auto simp: arp_received_def)
  have "etharp_input lo ar dr p nif s = Some (t\<lparr>driver := w, pbufs := h\<rparr>)"
    using c(1) hdr fields assms(3,6,13) t(1,4) w(1) h(1)
    by (simp add: etharp_input_def arp_opcode_def load32_octets)
  with w h show ?thesis by auto
qed

end

lemma ll_flags_custom: "ll_flags dest fl AND PBUF_FLAG_IS_CUSTOM = fl AND PBUF_FLAG_IS_CUSTOM"
  by (simp add: ll_flags_def PBUF_FLAG_IS_CUSTOM_def PBUF_FLAG_LLMCAST_def PBUF_FLAG_LLBCAST_def bit.conj_disj_distrib2)

text \<open>Reading and removing the frame header, with the interface index and the flags set on the way.\<close>

lemma frame_opened:
  assumes "packet h (Some p) (p # ps)" and "contents h (p # ps) = eth_frame dst src t bs" and "cells h p = Some c" and "SIZEOF_ETH_HDR \<le> len c"
    and "length dst = ETH_HWADDR_LEN" and "length src = ETH_HWADDR_LEN"
    and "e = c\<lparr>if_idx := i, flags := f, payload := payload c + 14, len := len c - 14, tot_len := tot_len c - 14\<rparr>"
  shows "rd c 0 SIZEOF_ETH_HDR = Some (dst @ src @ store16 (lwip_htons t))"
    and "pbuf_remove_header p SIZEOF_ETH_HDR (put p (c\<lparr>if_idx := i, flags := f\<rparr>) h) = Some (0, put p e h)"
    and "packet (put p e h) (Some p) (p # ps)" and "contents (put p e h) (p # ps) = bs"
proof -
  from assms(1,3) have c: "cell_ok c" "tot_len c = len c + plen h ps" "tot_len c < 65536" "packet h (nxt c) ps" by auto
  have p: "p \<notin> set ps" using packet_distinct [OF assms(1)] by simp
  have d: "data_of c @ contents h ps = dst @ src @ store16 (lwip_htons t) @ bs" using assms(2,3) by (simp add: eth_frame_def)
  have d14: "take 14 (data_of c) = dst @ src @ store16 (lwip_htons t)"
    using arg_cong [OF d, of "take 14"] c(1) assms(4-6) by (simp add: store16_def SIZEOF_ETH_HDR_def ETH_HWADDR_LEN_def)
  show "rd c 0 SIZEOF_ETH_HDR = Some (dst @ src @ store16 (lwip_htons t))"
    using d14 rd_ok [OF c(1), of 0 SIZEOF_ETH_HDR] assms(4) by (simp add: SIZEOF_ETH_HDR_def)
  show "pbuf_remove_header p SIZEOF_ETH_HDR (put p (c\<lparr>if_idx := i, flags := f\<rparr>) h) = Some (0, put p e h)"
    using c(2,3) assms(4,7) by (simp add: pbuf_remove_header_def SIZEOF_ETH_HDR_def put_put)
  have same: "same_on ps h (put p e h)" using p by simp
  have "cell_ok e" using c(1) assms(4,7) by (auto simp: cell_ok_def nat_add_distrib SIZEOF_ETH_HDR_def)
  then show "packet (put p e h) (Some p) (p # ps)"
    using c(2-4) assms(4,7) packet_frame [OF same] plen_frame [OF same] by (simp add: SIZEOF_ETH_HDR_def)
  have "nat (payload c + 14) = 14 + nat (payload c)" using c(1) by (simp add: cell_ok_def nat_add_distrib)
  then have "data_of e = drop 14 (data_of c)" using assms(4,7) by (simp add: data_of_def drop_take add.commute)
  then show "contents (put p e h) (p # ps) = bs"
    using arg_cong [OF d, of "drop 14"] contents_frame [OF same] c(1) assms(4-6)
    by (simp add: store16_def SIZEOF_ETH_HDR_def ETH_HWADDR_LEN_def)
qed

text \<open>The state in which an ARP frame reaches \<open>etharp_input\<close>: header removed, packet otherwise as it was.\<close>

lemma ethernet_input_arp:
  assumes "packet (pbufs s) (Some p) [p]" and "sole (pbufs s) p" and "contents (pbufs s) [p] = eth_frame dst src ETHTYPE_ARP bs"
    and "bs \<noteq> []" and "length dst = ETH_HWADDR_LEN" and "length src = ETH_HWADDR_LEN"
    and "netifs s nif = Some n" and "n_flags n AND NETIF_FLAG_ETHARP \<noteq> 0"
  shows "\<exists>c. ethernet_input lo ar dr i4 i6 p nif s =
        map_option (Pair ERR_OK) (etharp_input lo ar dr p nif (s\<lparr>pbufs := put p c (pbufs s)\<rparr>))
    \<and> packet (put p c (pbufs s)) (Some p) [p] \<and> sole (put p c (pbufs s)) p \<and> contents (put p c (pbufs s)) [p] = bs"
proof -
  let ?h = "pbufs s"
  from assms(1) obtain c where c: "cells ?h p = Some c" "cell_ok c" by auto
  have l: "len c = 14 + length bs"
    using arg_cong [OF assms(3), of length] c assms(5,6) by (simp add: eth_frame_def store16_def ETH_HWADDR_LEN_def)
  then have l': "SIZEOF_ETH_HDR \<le> len c" "\<not> len c \<le> SIZEOF_ETH_HDR" using assms(4) by (simp_all add: SIZEOF_ETH_HDR_def)
  define e where "e = c\<lparr>if_idx := (if if_idx c = 0 then n_num n + 1 else if_idx c), flags := ll_flags dst (flags c),
    payload := payload c + 14, len := len c - 14, tot_len := tot_len c - 14\<rparr>"
  note open' = frame_opened [OF assms(1,3) c(1) l'(1) assms(5,6) e_def]
  have types: "store16 (lwip_htons ETHTYPE_ARP) \<noteq> store16 (lwip_htons ETHTYPE_IP)"
    by (simp add: store16_htons ETHTYPE_ARP_def ETHTYPE_IP_def)
  have t: "take 2 (drop 12 (dst @ src @ store16 (lwip_htons ETHTYPE_ARP))) = store16 (lwip_htons ETHTYPE_ARP)"
    "take 6 (dst @ src @ store16 (lwip_htons ETHTYPE_ARP)) = dst"
    using assms(5,6) by (simp_all add: store16_def ETH_HWADDR_LEN_def)
  have "ethernet_input lo ar dr i4 i6 p nif s = map_option (Pair ERR_OK) (etharp_input lo ar dr p nif (s\<lparr>pbufs := put p e ?h\<rparr>))"
    using c(1) open'(1,2) t l'(2) types assms(7,8)
    by (cases "etharp_input lo ar dr p nif (s\<lparr>pbufs := put p e ?h\<rparr>)") (simp_all add: ethernet_input_def Let_def)
  moreover have "sole (put p e ?h) p" using assms(2) c(1) by (simp add: sole_def releasable_def ll_flags_custom e_def)
  ultimately show ?thesis using open'(3,4) by blast
qed

text \<open>
  C14. The host answers ARP requests for its address. A request that arrives in a frame is
  released, and exactly one frame goes out on the serial line: the reply, with the host's
  hardware address as sender and addressed to the asker (to all stations if the host's own
  address is link-local), in a checked SLIP packet.
\<close>

theorem arp_request_answered:
  assumes "arp_ok s" and "none_waiting s" and "netifs s nif = Some n" and "n_flags n AND NETIF_FLAG_ETHARP \<noteq> 0"
    and "n_hwaddr_len n = ETH_HWADDR_LEN" and "length (n_hwaddr n) = ETH_HWADDR_LEN" and "n_ip n \<noteq> IPADDR_ANY"
    and "length dst = ETH_HWADDR_LEN" and "length src = ETH_HWADDR_LEN" and "length hs = ETH_HWADDR_LEN" and "length ht = ETH_HWADDR_LEN"
    and "packet (pbufs s) (Some p) [p]" and "sole (pbufs s) p"
    and "contents (pbufs s) [p] = eth_frame dst src ETHTYPE_ARP (arp_packet hs ip ht (n_ip n) ARP_REQUEST @ pad)"
    and "ram_ready (pbufs s)" and "host_ready (driver s)" and "\<forall>hdr s. ar nif hdr s = Some s"
  shows "\<exists>t. ethernet_input (host_linkoutput tty_write) ar dr i4 i6 p nif s = Some (ERR_OK, t) \<and> host_ready (driver t)
    \<and> cells (pbufs t) p = None
    \<and> host_line (driver t) = host_line (driver s) @ host_encode tty_write
        (eth_frame (if ip4_addr_islinklocal (n_ip n) then ethbroadcast else hs) (n_hwaddr n)
          ETHTYPE_ARP (arp_packet (n_hwaddr n) (n_ip n) hs ip ARP_REPLY))"
proof -
  have ne: "arp_packet hs ip ht (n_ip n) ARP_REQUEST @ pad \<noteq> []" by (simp add: arp_packet_def)
  from ethernet_input_arp [OF assms(12-14) ne assms(8,9,3,4), of "host_linkoutput tty_write" ar dr i4 i6] obtain c where
    c: "ethernet_input (host_linkoutput tty_write) ar dr i4 i6 p nif s =
        map_option (Pair ERR_OK) (etharp_input (host_linkoutput tty_write) ar dr p nif (s\<lparr>pbufs := put p c (pbufs s)\<rparr>))"
      "arp_received p (arp_packet hs ip ht (n_ip n) ARP_REQUEST) (pbufs (s\<lparr>pbufs := put p c (pbufs s)\<rparr>))"
    by (auto simp: arp_received_def)
  let ?s = "s\<lparr>pbufs := put p c (pbufs s)\<rparr>"
  obtain b where b: "cells (pbufs s) p = Some b" using assms(12) by auto
  have "arp_ok ?s" "none_waiting ?s" "netifs ?s nif = Some n" "ram_ready (pbufs ?s)" "host_ready (driver ?s)"
    using assms(1-3,15,16) b by (auto simp: arp_ok_def none_waiting_def ram_ready_def)
  from host_driver.input_answers [OF this(1-3) assms(5-7,10,11) c(2) this(4,5), where ar = ar and dr = dr and tty_write = tty_write] assms(17) c(1)
  show ?thesis by (auto simp: BUF_SIZE_def)
qed

definition demo_host :: "(bytes \<times> uart) net" where
  "demo_host = \<lparr>netifs = netifs demo_net, netif_list = [0], netif_default = None, ip4_default_multicast_netif = None,
     ip_id = 0, ip_data = ip_idle, udp = udp_start [1, 2, 3, 4], frag = frag_start [1, 2, 3, 4, 5] [51, 52, 53], arp_table = arp_table demo_net, etharp_cached_entry = 0,
     pbufs = sample_heap\<lparr>ram := [9], ram_fits := (\<lambda>n. n \<le> 200), cells := [4 \<mapsto> pbuf_init_alloced_pbuf
       (eth_frame ethbroadcast [2, 0, 0, 0, 0, 2] ETHTYPE_ARP (arp_packet [2, 0, 0, 0, 0, 2] 0x0200a8c0 ethzero 0x0100a8c0 ARP_REQUEST))
       0 42 42 PBUF_POOL 0]\<rparr>, driver = (replicate 4000 0, uart_start [])\<rparr>"

theorem arp_request_answered_witness:
  "\<exists>t. ethernet_input (host_linkoutput (\<lambda>xs. xs)) (\<lambda>_ _. Some) (\<lambda>_ _. Some) (\<lambda>_ _. Some) (\<lambda>_ _. Some) 4 0 demo_host = Some (ERR_OK, t)
     \<and> host_line (driver t) = host_encode (\<lambda>xs. xs) (eth_frame [2, 0, 0, 0, 0, 2] [2, 0, 0, 0, 0, 1] ETHTYPE_ARP
          (arp_packet [2, 0, 0, 0, 0, 1] 0x0100a8c0 [2, 0, 0, 0, 0, 2] 0x0200a8c0 ARP_REPLY))"
proof -
  let ?a = "arp_packet [2, 0, 0, 0, 0, 2] 0x0200a8c0 ethzero 0x0100a8c0 ARP_REQUEST"
  have l: "length (eth_frame ethbroadcast [2, 0, 0, 0, 0, 2] ETHTYPE_ARP ?a) = 42"
    by (simp add: eth_frame_def arp_packet_def store16_def octets_def ethbroadcast_def ethzero_def)
  have s: "arp_ok demo_host" "none_waiting demo_host" "netifs demo_host 0 = Some demo_netif" "ram_ready (pbufs demo_host)" "host_ready (driver demo_host)"
    using demo_ok idle_start [of "[]"] by (auto simp: demo_host_def demo_net_def arp_ok_def none_waiting_def ram_ready_def host_ready_def BUF_SIZE_def)
  have p: "packet (pbufs demo_host) (Some 4) [4]" "sole (pbufs demo_host) 4"
    "contents (pbufs demo_host) [4] = eth_frame ethbroadcast [2, 0, 0, 0, 0, 2] ETHTYPE_ARP (?a @ [])"
    using l by (auto simp: demo_host_def pbuf_init_alloced_pbuf_def cell_ok_def data_of_def sole_def releasable_def)
  have p3: "contents (pbufs demo_host) [4] = eth_frame ethbroadcast [2, 0, 0, 0, 0, 2] ETHTYPE_ARP
      (arp_packet [2, 0, 0, 0, 0, 2] 0x0200a8c0 ethzero (n_ip demo_netif) ARP_REQUEST @ [])" using p(3) by simp
  have o: "host_line (driver demo_host) = []" "\<not> ip4_addr_islinklocal 0x0100a8c0"
    by (simp_all add: demo_host_def host_line_def uart_start_def) code_simp
  have r: "\<exists>t. ethernet_input (host_linkoutput (\<lambda>xs. xs)) (\<lambda>_ _. Some) (\<lambda>_ _. Some) (\<lambda>_ _. Some) (\<lambda>_ _. Some) 4 0 demo_host = Some (ERR_OK, t)
    \<and> host_ready (driver t) \<and> cells (pbufs t) 4 = None
    \<and> host_line (driver t) = host_line (driver demo_host) @ host_encode (\<lambda>xs. xs)
        (eth_frame (if ip4_addr_islinklocal (n_ip demo_netif) then ethbroadcast else [2, 0, 0, 0, 0, 2]) (n_hwaddr demo_netif)
          ETHTYPE_ARP (arp_packet (n_hwaddr demo_netif) (n_ip demo_netif) [2, 0, 0, 0, 0, 2] 0x0200a8c0 ARP_REPLY))"
    by (rule arp_request_answered [OF s(1-3) _ _ _ _ _ _ _ _ p(1,2) p3 s(4,5)])
      (simp_all add: NETIF_FLAG_ETHARP_def ETH_HWADDR_LEN_def IPADDR_ANY_def ethzero_def ethbroadcast_def)
  then show ?thesis using o by auto
qed

section \<open>Sending to a resolved address\<close>

lemma output_loop_None: "output_loop nif dst k es = None \<Longrightarrow> e \<in> set es \<Longrightarrow> \<not> arp_usable nif dst e"
  by (induction es arbitrary: k) (auto split: if_splits)

lemma usable_unique:
  assumes "table_ok es" and "i < ARP_TABLE_SIZE" and "j < ARP_TABLE_SIZE" and "arp_usable nif dst (es ! i)" and "arp_usable nif dst (es ! j)"
  shows "j = i"
  using table_ok_others [OF assms(1,2) _ assms(3)] assms(4,5) by (auto simp: arp_usable_def used_def arp_stable_iff)

text \<open>The search of \<open>etharp_output\<close>, cached or not, ends at the one usable entry.\<close>

lemma output_hop_entry:
  assumes "arp_ok s" and "i < ARP_TABLE_SIZE" and "arp_usable nif dst (arp_table s ! i)"
  shows "output_hop lo nif q dst s = etharp_output_to_arp_index lo nif q i (s\<lparr>etharp_cached_entry := i\<rparr>)"
proof -
  have t: "table_ok (arp_table s)" "length (arp_table s) = ARP_TABLE_SIZE" "etharp_cached_entry s < ARP_TABLE_SIZE"
    using assms(1) by (simp_all add: arp_ok_def table_ok_def)
  have at: "arp_at (etharp_cached_entry s) s = Some (arp_table s ! etharp_cached_entry s)" using t(2,3) by (simp add: arp_at_def)
  show ?thesis
  proof (cases "arp_usable nif dst (arp_table s ! etharp_cached_entry s)")
    case True
    then have i: "etharp_cached_entry s = i" by (rule usable_unique [OF t(1) assms(2) t(3) assms(3)])
    then have same: "s\<lparr>etharp_cached_entry := i\<rparr> = s" by (cases s) simp
    show ?thesis unfolding same using at True i by (simp add: output_hop_def)
  next
    case False
    have "output_loop nif dst 0 (arp_table s) = Some i"
    proof (cases "output_loop nif dst 0 (arp_table s)")
      case None
      then show ?thesis using output_loop_None [OF None nth_mem] assms(2,3) t(2) by auto
    next
      case (Some j)
      from output_loop_range [OF this] t(2) have "j < ARP_TABLE_SIZE" "arp_usable nif dst (arp_table s ! j)" by simp_all
      then show ?thesis using usable_unique [OF t(1) assms(2) _ assms(3)] Some by blast
    qed
    then show ?thesis using at False t(2) by (simp add: output_hop_def)
  qed
qed

context ether_driver
begin

lemma resolved_sends:
  assumes "arp_ok s" and "netifs s nif = Some n" and "n_hwaddr_len n = ETH_HWADDR_LEN" and "length (n_hwaddr n) = ETH_HWADDR_LEN"
    and "\<not> ip4_addr_isbroadcast_u32 ip (if_of n)" and "\<not> ip4_addr_ismulticast ip" and "next_hop n q ip s = Some (Some hop)"
    and "i < ARP_TABLE_SIZE" and "arp_usable nif hop (arp_table s ! i)" and "arp_ctime (arp_table s ! i) < ARP_AGE_REREQUEST_USED_UNICAST"
    and "length (arp_ethaddr (arp_table s ! i)) = ETH_HWADDR_LEN"
    and "frame_room q qs (pbufs s)" and "ready (driver s)" and "plen (pbufs s) (q # qs) + SIZEOF_ETH_HDR \<le> max_frame"
  shows "\<exists>c c' w. cells (pbufs s) q = Some c \<and> ref c' = ref c \<and> type_internal c' = type_internal c \<and> flags c' = flags c \<and> nxt c' = nxt c
    \<and> etharp_output lo nif q ip s = Some (ERR_OK, s\<lparr>etharp_cached_entry := i, pbufs := put q c' (pbufs s), driver := w\<rparr>) \<and> ready w
    \<and> line w = line (driver s) @ encode (eth_frame (arp_ethaddr (arp_table s ! i)) (n_hwaddr n) ETHTYPE_IP (contents (pbufs s) (q # qs)))"
proof -
  let ?s = "s\<lparr>etharp_cached_entry := i\<rparr>" and ?e = "arp_table s ! i"
  have l: "length (arp_table s) = ARP_TABLE_SIZE" using assms(1) by (simp add: arp_ok_def table_ok_def)
  have "arp_refresh lo nif i ?e ?s = Some ?s"
    using assms(10) by (simp add: arp_refresh_def ARP_AGE_REREQUEST_USED_UNICAST_def ARP_AGE_REREQUEST_USED_BROADCAST_def ARP_MAXAGE_def)
  then have "etharp_output lo nif q ip s = ethernet_output lo nif q (n_hwaddr n) (arp_ethaddr ?e) ETHTYPE_IP ?s"
    using assms(2,5-9) l output_hop_entry [OF assms(1,8,9), of lo q]
    by (simp add: etharp_output_def etharp_output_to_arp_index_def arp_at_def arp_usable_def)
  with output_sends [of q qs ?s nif n "n_hwaddr n" "arp_ethaddr ?e" ETHTYPE_IP] assms(2-4,11-14) show ?thesis by fastforce
qed

end

text \<open>
  C15. A packet for an address that the table has resolved leaves at once: whichever entry was used
  last, \<open>etharp_output\<close> puts the frame header with the hardware address of the next hop (the
  gateway for addresses outside the own network) in front of the packet and sends the frame on
  the serial line as one checked SLIP packet.
\<close>

theorem resolved_output_on_line:
  assumes "arp_ok s" and "netifs s nif = Some n" and "n_hwaddr_len n = ETH_HWADDR_LEN" and "length (n_hwaddr n) = ETH_HWADDR_LEN"
    and "\<not> ip4_addr_isbroadcast_u32 ip (if_of n)" and "\<not> ip4_addr_ismulticast ip" and "next_hop n q ip s = Some (Some hop)"
    and "i < ARP_TABLE_SIZE" and "arp_usable nif hop (arp_table s ! i)" and "arp_ctime (arp_table s ! i) < ARP_AGE_REREQUEST_USED_UNICAST"
    and "length (arp_ethaddr (arp_table s ! i)) = ETH_HWADDR_LEN"
    and "frame_room q qs (pbufs s)" and "host_ready (driver s)" and "plen (pbufs s) (q # qs) + SIZEOF_ETH_HDR \<le> BUF_SIZE - 2"
  shows "\<exists>t. etharp_output (host_linkoutput tty_write) nif q ip s = Some (ERR_OK, t) \<and> host_ready (driver t) \<and> arp_table t = arp_table s
    \<and> host_line (driver t) = host_line (driver s) @ host_encode tty_write
        (eth_frame (arp_ethaddr (arp_table s ! i)) (n_hwaddr n) ETHTYPE_IP (contents (pbufs s) (q # qs)))"
  using host_driver.resolved_sends [OF assms] by fastforce

definition demo_sender :: "(bytes \<times> uart) net" where
  "demo_sender = demo_host\<lparr>arp_table := (arp_table demo_net)[3 := \<lparr>arp_q = None, arp_ipaddr = 0x0200a8c0, arp_netif = Some 0,
       arp_ethaddr = [2, 0, 0, 0, 0, 2], arp_ctime = 7, arp_state = ETHARP_STATE_STABLE\<rparr>],
     pbufs := sample_heap\<lparr>cells := [4 \<mapsto> pbuf_init_alloced_pbuf (replicate 14 0 @ [69, 1, 2]) 14 3 3 PBUF_RAM 0]\<rparr>\<rparr>"

lemma demo_sender_ok:
  "arp_ok demo_sender" "netifs demo_sender 0 = Some demo_netif" "host_ready (driver demo_sender)" "host_line (driver demo_sender) = []"
  "arp_table demo_sender ! 3 = \<lparr>arp_q = None, arp_ipaddr = 0x0200a8c0, arp_netif = Some 0, arp_ethaddr = [2, 0, 0, 0, 0, 2], arp_ctime = 7,
     arp_state = ETHARP_STATE_STABLE\<rparr>"
proof -
  let ?e = "\<lparr>arp_q = None, arp_ipaddr = 0x0200a8c0, arp_netif = Some 0, arp_ethaddr = [2, 0, 0, 0, 0, 2], arp_ctime = 7, arp_state = ETHARP_STATE_STABLE\<rparr>"
  have "entry_ok ?e" by (simp add: entry_ok_def used_def ARP_MAXAGE_def)
  then have "table_ok ((arp_table demo_net)[3 := ?e])"
    using demo_ok by (intro table_ok_update) (auto simp: arp_ok_def demo_net_def ARP_TABLE_SIZE_def)
  then show "arp_ok demo_sender" "netifs demo_sender 0 = Some demo_netif" "host_ready (driver demo_sender)" "host_line (driver demo_sender) = []"
    "arp_table demo_sender ! 3 = ?e"
    using idle_start [of "[]"]
    by (simp_all add: demo_sender_def demo_host_def demo_net_def arp_ok_def ARP_TABLE_SIZE_def host_ready_def host_line_def BUF_SIZE_def uart_start_def)
qed

theorem resolved_output_on_line_witness:
  "\<exists>t. etharp_output (host_linkoutput (\<lambda>xs. xs)) 0 4 0x0200a8c0 demo_sender = Some (ERR_OK, t)
     \<and> host_line (driver t) = host_encode (\<lambda>xs. xs) (eth_frame [2, 0, 0, 0, 0, 2] [2, 0, 0, 0, 0, 1] ETHTYPE_IP [69, 1, 2])"
proof -
  note s = demo_sender_ok(1-4) and e = demo_sender_ok(5)
  have a: "\<not> ip4_addr_isbroadcast_u32 0x0200a8c0 (if_of demo_netif)" "\<not> ip4_addr_ismulticast 0x0200a8c0"
    "ip4_addr_netcmp 0x0200a8c0 (n_ip demo_netif) (n_netmask demo_netif)" by code_simp+
  have q: "frame_room 4 [] (pbufs demo_sender)" "contents (pbufs demo_sender) [4] = [69, 1, 2]" "plen (pbufs demo_sender) [4] = 3"
    by (simp_all add: demo_sender_def frame_room_def pbuf_init_alloced_pbuf_def cell_ok_def data_of_def SIZEOF_ETH_HDR_def FLAG_CONTIGUOUS_def)
  have r: "\<exists>t. etharp_output (host_linkoutput (\<lambda>xs. xs)) 0 4 0x0200a8c0 demo_sender = Some (ERR_OK, t) \<and> host_ready (driver t)
      \<and> arp_table t = arp_table demo_sender \<and> host_line (driver t) = host_line (driver demo_sender) @ host_encode (\<lambda>xs. xs)
        (eth_frame (arp_ethaddr (arp_table demo_sender ! 3)) (n_hwaddr demo_netif) ETHTYPE_IP (contents (pbufs demo_sender) [4]))"
    by (rule resolved_output_on_line [OF s(1,2) _ _ a(1,2) _ _ _ _ _ q(1) s(3), where hop = "0x0200a8c0"])
      (use q(3) a(3) in \<open>simp_all add: e ETH_HWADDR_LEN_def next_hop_def ARP_TABLE_SIZE_def arp_usable_def arp_stable_iff
        ARP_AGE_REREQUEST_USED_UNICAST_def ARP_MAXAGE_def SIZEOF_ETH_HDR_def BUF_SIZE_def\<close>)
  then show ?thesis unfolding e q(2) s(4) by auto
qed

end
