(* ===== verification/Ip4_Input.thy ===== *)
theory Ip4_Input
  imports Icmp Ethernet_Input
begin

text \<open>
  \<^verbatim>\<open>core/ipv4/ip4.c\<close> of lwIP, input side, and \<open>ip_input\<close> of \<^verbatim>\<open>core/ip.c\<close>: the checks on the header,
  the choice of the interface that accepts a datagram, and its way to the protocol above.
  With it the layers are complete from the serial line to ICMP: an echo request that arrives in
  a frame is answered in a frame on the line.
\<close>

section \<open>Which datagrams are for the host\<close>

definition IP_OFFMASK :: u16 where "IP_OFFMASK = 0x1fff"
definition IP_MF :: u16 where "IP_MF = 0x2000"
definition LWIP_IANA_PORT_DHCP_CLIENT :: u16 where "LWIP_IANA_PORT_DHCP_CLIENT = 68"

definition ip4_addr_isloopback :: "u32 \<Rightarrow> bool" where
  "ip4_addr_isloopback a \<longleftrightarrow> a AND lwip_htonl 0xff000000 = lwip_htonl (push_bit 24 127)"

definition igmp_lookfor_group :: "netif \<Rightarrow> u32 \<Rightarrow> bool" where
  "igmp_lookfor_group n addr \<longleftrightarrow> addr \<in> set (igmp_groups n)"

definition autoip_accept_packet :: "netif \<Rightarrow> u32 \<Rightarrow> bool" where
  "autoip_accept_packet n addr \<longleftrightarrow> autoip_llipaddr n = Some addr"

definition ip4_input_accept :: "u32 \<Rightarrow> netif \<Rightarrow> bool" where
  "ip4_input_accept dest n \<longleftrightarrow> netif_is_up n \<and> n_ip n \<noteq> IPADDR_ANY
     \<and> (dest = n_ip n \<or> ip4_addr_isbroadcast_u32 dest (if_of n) \<or> autoip_accept_packet n dest)"

fun accept_loop :: "nat \<Rightarrow> u32 \<Rightarrow> nat list \<Rightarrow> 'w net \<Rightarrow> nat option option" where
  "accept_loop inp dest [] s = Some None"
| "accept_loop inp dest (i # is) s =
     (if i = inp then accept_loop inp dest is s
      else do { n \<leftarrow> netifs s i; if ip4_input_accept dest n then Some (Some i) else accept_loop inp dest is s })"

text \<open>The accepting interface and \<open>check_ip_src\<close>.\<close>

definition input_netif :: "nat \<Rightarrow> u32 \<Rightarrow> u32 \<Rightarrow> 'w net \<Rightarrow> (nat option \<times> bool) option" where
  "input_netif inp dest src s =
     do { n \<leftarrow> netifs s inp;
       if ip4_addr_ismulticast dest then
         if n_flags n AND NETIF_FLAG_IGMP \<noteq> 0 \<and> igmp_lookfor_group n dest
         then Some (Some inp, \<not> (dest = lwip_htonl 0xe0000001 \<and> src = IPADDR_ANY))
         else Some (None, True)
       else if ip4_input_accept dest n then Some (Some inp, True)
       else if ip4_addr_isloopback dest then Some (None, True)
       else do { r \<leftarrow> accept_loop inp dest (netif_list s) s; Some (r, True) } }"

text \<open>A datagram to the DHCP client port is accepted whatever its address.\<close>

definition dhcp_netif :: "nat \<Rightarrow> u8 \<Rightarrow> nat \<Rightarrow> pbuf \<Rightarrow> nat option \<times> bool \<Rightarrow> (nat option \<times> bool) option" where
  "dhcp_netif inp proto hlen c r =
     (if fst r = None \<and> proto = IP_PROTO_UDP
      then do { port \<leftarrow> rd c (hlen + 2) 2;
        Some (if port = store16 (lwip_htons LWIP_IANA_PORT_DHCP_CLIENT) then (Some inp, False) else r) }
      else Some r)"

section \<open>Input\<close>

text \<open>A header that passed the checks is handed to the protocol above; afterwards the globals are reset.\<close>

definition input_proto :: "'w ip_env \<Rightarrow> nat \<Rightarrow> nat \<Rightarrow> nat \<Rightarrow> nat \<Rightarrow> u8 \<Rightarrow> 'w net \<Rightarrow> 'w net option" where
  "input_proto env p inp nif hlen proto s =
     (let dest = current_iphdr_dest (ip_data s) in
      if proto = IP_PROTO_UDP then udp_input env p inp s
      else if proto = IP_PROTO_TCP then tcp_input env p inp s
      else if proto = IP_PROTO_ICMP then icmp_input env p inp s
      else if proto = IP_PROTO_IGMP then igmp_input env p inp dest s
      else do { n \<leftarrow> netifs s nif;
        s \<leftarrow> (if \<not> ip4_addr_isbroadcast_u32 dest (if_of n) \<and> \<not> ip4_addr_ismulticast dest
              then do { (_, h) \<leftarrow> pbuf_header_force p (int hlen) (pbufs s);
                        icmp_dest_unreach env p ICMP_DUR_PROTO (s\<lparr>pbufs := h\<rparr>) }
              else Some s);
        free_pbuf p s })"

definition ip4_deliver :: "'w ip_env \<Rightarrow> nat \<Rightarrow> nat \<Rightarrow> nat \<Rightarrow> nat \<Rightarrow> 'w net \<Rightarrow> 'w net option" where
  "ip4_deliver env p inp nif hlen s =
     do { c \<leftarrow> cells (pbufs s) p;
       hdr \<leftarrow> rd c 0 IP_HLEN;
       let s = s\<lparr>ip_data := (ip_data s)\<lparr>current_netif := Some nif, current_input_netif := Some inp,
                   current_ip4_header := Some (p, payload c), current_ip_header_tot_len := IPH_HL_BYTES (hdr ! 0)\<rparr>\<rparr> in
       do { (_, h) \<leftarrow> pbuf_remove_header p hlen (pbufs s);
         s \<leftarrow> input_proto env p inp nif hlen (hdr ! 9) (s\<lparr>pbufs := h\<rparr>);
         Some (s\<lparr>ip_data := ip_idle\<rparr>) } }"

text \<open>What follows the choice of the interface; \<open>hdr\<close> is the header.\<close>

definition input_accepted :: "'w ip_env \<Rightarrow> nat \<Rightarrow> nat \<Rightarrow> bytes \<Rightarrow> nat option \<times> bool \<Rightarrow> 'w net \<Rightarrow> 'w net option" where
  "input_accepted env p inp hdr r s =
     (let src = current_iphdr_src (ip_data s) in
      do { n \<leftarrow> netifs s inp;
        if snd r \<and> src \<noteq> IPADDR_ANY \<and> (ip4_addr_isbroadcast_u32 src (if_of n) \<or> ip4_addr_ismulticast src) then free_pbuf p s
        else case fst r of
          None \<Rightarrow> free_pbuf p s
        | Some nif \<Rightarrow>
            do { (q, s) \<leftarrow> (if le16 (hdr ! 6) (hdr ! 7) AND lwip_htons (IP_OFFMASK OR IP_MF) \<noteq> 0 then ip4_reass env p s
                           else Some (Some p, s));
              case q of None \<Rightarrow> Some s | Some p \<Rightarrow> ip4_deliver env p inp nif (length hdr) s } })"

text \<open>The checks of the header; the header is \<open>hlen\<close> bytes long.\<close>

definition input_checked :: "'w ip_env \<Rightarrow> nat \<Rightarrow> nat \<Rightarrow> nat \<Rightarrow> 'w net \<Rightarrow> 'w net option" where
  "input_checked env p inp hlen s =
     do { c \<leftarrow> cells (pbufs s) p;
       hdr \<leftarrow> rd c 0 hlen;
       if inet_chksum (at_odd env p (payload c)) hdr \<noteq> 0 then free_pbuf p s
       else let dest = load32 (take 4 (drop 16 hdr)); src = load32 (take 4 (drop 12 hdr));
                s = s\<lparr>ip_data := (ip_data s)\<lparr>current_iphdr_dest := dest, current_iphdr_src := src\<rparr>\<rparr>
         in do { r \<leftarrow> input_netif inp dest src s;
           r \<leftarrow> dhcp_netif inp (hdr ! 9) hlen c r;
           input_accepted env p inp hdr r s } }"

definition ip4_input :: "'w ip_env \<Rightarrow> nat \<Rightarrow> nat \<Rightarrow> 'w net \<Rightarrow> (err \<times> 'w net) option" where
  "ip4_input env p inp s =
     do { c \<leftarrow> cells (pbufs s) p;
       b \<leftarrow> rd c 0 1;
       s \<leftarrow> (if drop_bit 4 (b ! 0) \<noteq> 4 then free_pbuf p s
             else do { l \<leftarrow> rd c 2 2;
               let iphdr_hlen = IPH_HL_BYTES (b ! 0); iphdr_len = unat (lwip_htons (le16 (l ! 0) (l ! 1))) in
               do { h \<leftarrow> (if iphdr_len < tot_len c then pbuf_realloc p iphdr_len (pbufs s) else Some (pbufs s));
                 c \<leftarrow> cells h p;
                 if iphdr_hlen > len c \<or> iphdr_len > tot_len c \<or> iphdr_hlen < IP_HLEN then free_pbuf p (s\<lparr>pbufs := h\<rparr>)
                 else input_checked env p inp iphdr_hlen (s\<lparr>pbufs := h\<rparr>) } });
       Some (ERR_OK, s) }"

definition ip_input ::
  "'w ip_env \<Rightarrow> (nat \<Rightarrow> nat \<Rightarrow> 'w net \<Rightarrow> (err \<times> 'w net) option) \<Rightarrow> pptr \<Rightarrow> nat \<Rightarrow> 'w net \<Rightarrow> (err \<times> 'w net) option" where
  "ip_input env ip6_input q inp s =
     (case q of
        None \<Rightarrow> Some (ERR_VAL, s)
      | Some p \<Rightarrow>
          do { c \<leftarrow> cells (pbufs s) p;
            b \<leftarrow> rd c 0 1;
            if drop_bit 4 (b ! 0) = 6 then ip6_input p inp s else ip4_input env p inp s })"

section \<open>Delivery\<close>

text \<open>A header of twenty bytes, as the sender of an unfragmented datagram of \<open>n\<close> bytes makes it.\<close>

definition valid_header :: "bytes \<Rightarrow> u32 \<Rightarrow> u32 \<Rightarrow> u8 \<Rightarrow> nat \<Rightarrow> bool" where
  "valid_header hdr src dest proto n \<longleftrightarrow> length hdr = 20 \<and> n < 65536 \<and> hdr ! 0 = 0x45
     \<and> take 2 (drop 2 hdr) = store16 (lwip_htons (of_nat n)) \<and> le16 (hdr ! 6) (hdr ! 7) AND lwip_htons (IP_OFFMASK OR IP_MF) = 0
     \<and> hdr ! 9 = proto \<and> take 4 (drop 12 hdr) = octets src \<and> take 4 (drop 16 hdr) = octets dest \<and> inet_chksum False hdr = 0"

lemma valid_ip4_header:
  assumes "chk = inet_chksum False (ip4_header 0 src dest ttl tos proto (of_nat n) ident)" and "n < 65536"
  shows "valid_header (ip4_header chk src dest ttl tos proto (of_nat n) ident) src dest proto n"
  using header_verifies [OF assms(1)] assms(2)
  by (simp add: valid_header_def) (simp add: ip4_header_def store16_def octets_def le16_def)

lemma packet_cell: "packet h q as \<Longrightarrow> a \<in> set as \<Longrightarrow> \<exists>d. cells h a = Some d"
  by (induction as arbitrary: q) auto

text \<open>Padding behind the datagram is cut off.\<close>

lemma padding_removed:
  assumes pk: "packet h (Some p) (p # ps)" and so: "\<forall>a \<in> set (p # ps). sole h a" and data: "contents h (p # ps) = bs @ pad"
    and c: "cells h p = Some c" "k \<le> len c" "k \<le> length bs"
  shows "\<exists>ps' h' c'. (if length bs < tot_len c then pbuf_realloc p (length bs) h else Some h) = Some h'
    \<and> packet h' (Some p) (p # ps') \<and> contents h' (p # ps') = bs \<and> (\<forall>a \<in> set (p # ps'). sole h' a) \<and> cells h' p = Some c'
    \<and> cell_kept c c' \<and> k \<le> len c' \<and> set ps' \<subseteq> set ps \<and> (\<forall>a \<in> set ps - set ps'. cells h' a = None)"
proof (cases "length bs < tot_len c")
  case False
  then have "pad = []" using packet_tot_len [OF pk c(1)] unfolding data by simp
  then show ?thesis using False pk so data c by (intro exI [of _ ps] exI [of _ h] exI [of _ c]) simp
next
  case True
  then have lt: "length bs < plen h (p # ps)" using pk c(1) by auto
  have sps: "\<forall>a \<in> set ps. sole h a" using so by simp
  from pbuf_realloc_spec [OF pk sps lt] obtain h' as cs where r: "pbuf_realloc p (length bs) h = Some h'"
    and t: "p # ps = as @ cs" "packet h' (Some p) as" "contents h' as = take (length bs) (contents h (p # ps))" "\<forall>a \<in> set cs. cells h' a = None"
      "\<forall>a \<in> set as. cell_kept (the (cells h a)) (the (cells h' a))" "as \<noteq> []" "len (the (cells h' (hd as))) = min (length bs) (len (the (cells h p)))"
    unfolding truncated_def list.sel by blast
  from t(1,6) obtain ps' where as: "as = p # ps'" "ps = ps' @ cs" by (cases as) auto
  from t(2) obtain c' where c': "cells h' p = Some c'" unfolding as(1) by auto
  have "sole h' a" if a: "a \<in> set as" for a
  proof -
    obtain d where "cells h' a = Some d" using packet_cell [OF t(2) a] by blast
    moreover from so obtain b where "cells h a = Some b" "ref b = 1" "releasable b" using a unfolding t(1) by (auto simp: sole_def)
    ultimately show ?thesis using t(5) a by (fastforce simp: sole_def cell_kept_def releasable_def)
  qed
  moreover have "distinct ps" using packet_distinct [OF pk] by simp
  moreover have "contents h' as = bs" unfolding t(3) data by simp
  ultimately show ?thesis
    using True r t(2,4,5,7) c c' unfolding as by (intro exI [of _ ps'] exI [of _ h'] exI [of _ c']) auto
qed

text \<open>The globals while a datagram is processed.\<close>

definition ip_current :: "nat \<Rightarrow> nat \<Rightarrow> nat \<times> int \<Rightarrow> u32 \<Rightarrow> u32 \<Rightarrow> ip_globals" where
  "ip_current nif inp hdr src dest = \<lparr>current_netif = Some nif, current_input_netif = Some inp, current_ip4_header = Some hdr,
     current_ip_header_tot_len = IP_HLEN, current_iphdr_src = src, current_iphdr_dest = dest\<rparr>"

lemma ip_globals_eq:
  "g\<lparr>current_iphdr_dest := dest, current_iphdr_src := src, current_netif := Some nif, current_input_netif := Some inp,
     current_ip4_header := Some hdr, current_ip_header_tot_len := 20\<rparr> = ip_current nif inp hdr src dest"
  by (cases g) (simp add: ip_current_def IP_HLEN_def)

text \<open>A datagram for the address of the interface it arrives on.\<close>

definition for_us :: "netif \<Rightarrow> u32 \<Rightarrow> u32 \<Rightarrow> bool" where
  "for_us n src dest \<longleftrightarrow> netif_is_up n \<and> dest = n_ip n \<and> dest \<noteq> IPADDR_ANY \<and> \<not> ip4_addr_ismulticast dest
     \<and> (src = IPADDR_ANY \<or> \<not> ip4_addr_isbroadcast_u32 src (if_of n) \<and> \<not> ip4_addr_ismulticast src)"

lemma header_fields:
  assumes "valid_header hdr src dest proto n" and "cell_ok c" and "20 \<le> len c" and "take 20 (data_of c) = hdr"
  shows "rd c 0 1 = Some [0x45]" and "rd c 2 2 = Some (store16 (lwip_htons (of_nat n)))" and "rd c 0 20 = Some hdr"
    and "load32 (take 4 (drop 12 hdr)) = src" and "load32 (take 4 (drop 16 hdr)) = dest"
proof -
  have h: "length hdr = 20" "hdr ! 0 = 0x45" "take 2 (drop 2 hdr) = store16 (lwip_htons (of_nat n))"
    using assms(1) by (simp_all add: valid_header_def)
  have "take 1 (data_of c) = take 1 hdr" "take 2 (drop 2 (data_of c)) = take 2 (drop 2 hdr)"
    unfolding assms(4) [symmetric] by (simp_all add: drop_take)
  moreover have "take 1 hdr = [0x45]" using h(1,2) by (cases hdr) auto
  ultimately show "rd c 0 1 = Some [0x45]" "rd c 2 2 = Some (store16 (lwip_htons (of_nat n)))"
    using rd_ok [OF assms(2), of 0 1] rd_ok [OF assms(2), of 2 2] assms(3) h(3) by simp_all
  show "rd c 0 20 = Some hdr" using rd_ok [OF assms(2), of 0 20] assms(3,4) by simp
  show "load32 (take 4 (drop 12 hdr)) = src" "load32 (take 4 (drop 16 hdr)) = dest"
    using assms(1) by (simp_all add: valid_header_def load32_octets)
qed

lemma unat_of_nat_16: "n < 65536 \<Longrightarrow> unat (of_nat n :: u16) = n"
  by (simp add: unat_of_nat take_bit_nat_eq_self_iff)

text \<open>The length field reads back.\<close>

lemma le16_store16: "le16 (store16 w ! 0) (store16 w ! 1) = w"
proof -
  have "unat w div 256 < 256" using unat_u16_less [of w] by (simp add: div_less_iff_less_mult)
  then show ?thesis by (simp add: store16_def word_unat_eq_iff unat_le16 unat_byte drop_bit_eq_div unat_div)
qed

text \<open>
  A datagram for the address of the interface reaches the protocol above with the header in
  place and exactly its payload, whatever padding the frame had.
\<close>

lemma ip4_input_delivers:
  assumes pk: "packet (pbufs s) (Some p) (p # ps)" and so: "\<forall>a \<in> set (p # ps). sole (pbufs s) a"
    and data: "contents (pbufs s) (p # ps) = (hdr @ body) @ pad" and v: "valid_header hdr src dest proto (20 + length body)"
    and c: "cells (pbufs s) p = Some c" "20 + k \<le> len c" "14 \<le> payload c" "type_internal c AND FLAG_CONTIGUOUS \<noteq> 0" "flags c AND PBUF_FLAG_MCASTLOOP = 0"
    and body: "4 \<le> k" "k \<le> length body" "length body + 34 < 65536" and n: "netifs s inp = Some n" "for_us n src dest"
  shows "\<exists>ps' h'. ip4_input env p inp s = map_option (\<lambda>t. (ERR_OK, t\<lparr>ip_data := ip_idle\<rparr>))
        (input_proto env p inp inp 20 proto (s\<lparr>ip_data := ip_current inp inp (p, payload c) src dest, pbufs := h'\<rparr>))
    \<and> ip_received p ps' hdr body h' \<and> read_at (p, payload c) 1 h' = Some [0x45]
    \<and> set ps' \<subseteq> set ps \<and> (\<forall>a \<in> set ps - set ps'. cells h' a = None) \<and> k \<le> len (the (cells h' p))"
proof -
  let ?h = "pbufs s" and ?n = "20 + length body"
  have hdr: "length hdr = 20" "hdr ! 0 = 0x45" "hdr ! 9 = proto" "inet_chksum False hdr = 0" "le16 (hdr ! 6) (hdr ! 7) AND lwip_htons (IP_OFFMASK OR IP_MF) = 0"
    "?n < 65536" using v by (simp_all add: valid_header_def)
  have cok: "cell_ok c" using pk c(1) by auto
  have t20: "take 20 (data_of c) = hdr"
    using arg_cong [OF data, of "take 20"] c(1,2) cok hdr(1) by simp
  have len20: "20 \<le> len c" using c(2) by simp
  note rds = header_fields [OF v cok len20 t20]
  have lb: "length (hdr @ body) = ?n" "20 + k \<le> length (hdr @ body)" using hdr(1) body(2) by simp_all
  from padding_removed [OF pk so data c(1,2) lb(2)] obtain ps' h1 c1 where
    r: "(if ?n < tot_len c then pbuf_realloc p ?n ?h else Some ?h) = Some h1"
    and h1: "packet h1 (Some p) (p # ps')" "contents h1 (p # ps') = hdr @ body" "\<forall>a \<in> set (p # ps'). sole h1 a" "cells h1 p = Some c1"
      "cell_kept c c1" "20 + k \<le> len c1" "set ps' \<subseteq> set ps" "\<forall>a \<in> set ps - set ps'. cells h1 a = None" unfolding lb(1) by blast
  have c1ok: "cell_ok c1" "tot_len c1 = ?n" "nxt c1 = nxt c1" "packet h1 (nxt c1) ps'" "tot_len c1 = len c1 + plen h1 ps'"
    using h1(1,4) packet_tot_len [OF h1(1,4)] lb(1) unfolding h1(2) by auto
  have t1: "take 20 (data_of c1) = hdr" using arg_cong [OF h1(2), of "take 20"] h1(4,6) c1ok(1) hdr(1) by simp
  have len1: "20 \<le> len c1" using h1(6) by simp
  note rds1 = header_fields [OF v c1ok(1) len1 t1]
  have kept: "ref c1 = ref c" "flags c1 = flags c" "type_internal c1 = type_internal c" "payload c1 = payload c"
    using h1(5) by (simp_all add: cell_kept_def)
  define c2 where "c2 = c1\<lparr>payload := payload c1 + 20, len := len c1 - 20, tot_len := tot_len c1 - 20\<rparr>"
  have rem: "pbuf_remove_header p 20 h1 = Some (0, put p c2 h1)"
    using h1(4) c1ok(2,5) len1 hdr(6) by (simp add: pbuf_remove_header_def c2_def)
  have "ip4_input env p inp s = map_option (\<lambda>t. (ERR_OK, t\<lparr>ip_data := ip_idle\<rparr>))
      (input_proto env p inp inp 20 proto (s\<lparr>ip_data := ip_current inp inp (p, payload c) src dest, pbufs := put p c2 h1\<rparr>))"
  proof -
    let ?s = "s\<lparr>pbufs := h1, ip_data := (ip_data s)\<lparr>current_iphdr_dest := dest, current_iphdr_src := src\<rparr>\<rparr>"
    let ?t = "s\<lparr>ip_data := ip_current inp inp (p, payload c) src dest, pbufs := put p c2 h1\<rparr>"
    have "dhcp_netif inp proto 20 c1 (Some inp, True) = Some (Some inp, True)" by (simp add: dhcp_netif_def)
    moreover have "input_netif inp dest src t = Some (Some inp, True)" if "netifs t inp = Some n" for t :: "'a net"
      using n(2) that by (auto simp: input_netif_def for_us_def ip4_input_accept_def)
    moreover have "inet_chksum a hdr = 0" for a using inet_chksum_odd [of hdr a False] hdr(1,4) by simp
    moreover have "IPH_HL_BYTES 0x45 = 20" by (simp add: IPH_HL_BYTES_def)
    moreover have "unat (lwip_htons (le16 (store16 (lwip_htons (of_nat ?n)) ! 0) (store16 (lwip_htons (of_nat ?n)) ! 1))) = ?n"
      unfolding le16_store16 lwip_htons_involution by (rule unat_of_nat_16 [OF hdr(6)])
    ultimately have a: "ip4_input env p inp s = do { s \<leftarrow> input_checked env p inp 20 (s\<lparr>pbufs := h1\<rparr>); Some (ERR_OK, s) }"
      and b: "input_checked env p inp 20 (s\<lparr>pbufs := h1\<rparr>) = input_accepted env p inp hdr (Some inp, True) ?s"
      using c(1) rds(1,2) r h1(4) len1 c1ok(2) rds1(3-5) hdr(2,3) n(1)
      by (simp_all add: ip4_input_def input_checked_def IP_HLEN_def)
    have d: "input_accepted env p inp hdr (Some inp, True) ?s = ip4_deliver env p inp inp 20 ?s"
      using n hdr(1,5) by (auto simp: input_accepted_def for_us_def)
    have e: "ip4_deliver env p inp inp 20 ?s = map_option (\<lambda>t. t\<lparr>ip_data := ip_idle\<rparr>) (input_proto env p inp inp 20 proto ?t)"
      using h1(4) rds1(3) rem kept(4) hdr(2,3) ip_globals_eq [where g = "ip_data s" and dest = dest and src = src and nif = inp and inp = inp and hdr = "(p, payload c)"]
      by (cases "input_proto env p inp inp 20 proto ?t") (simp_all add: ip4_deliver_def Let_def IP_HLEN_def IPH_HL_BYTES_def)
    show ?thesis unfolding a b d e by (cases "input_proto env p inp inp 20 proto ?t") simp_all
  qed
  moreover have "ip_received p ps' hdr body (put p c2 h1)"
  proof -
    have p: "p \<notin> set ps'" using packet_distinct [OF h1(1)] by simp
    then have same: "same_on ps' h1 (put p c2 h1)" by simp
    have "cell_ok c2" using c1ok(1) h1(6) c(3) kept by (auto simp: cell_ok_def c2_def nat_add_distrib)
    moreover have np: "nat (payload c2) = nat (payload c1) + 20" using c(3) kept by (simp add: c2_def nat_add_distrib)
    then have "data_of c2 = drop 20 (data_of c1)" using h1(6) by (simp add: data_of_def c2_def drop_take add.commute)
    moreover have "take 20 (drop (nat (payload c1)) (area c2)) = hdr"
      using t1 len1 by (simp add: data_of_def c2_def min_def)
    moreover have "contents (put p c2 h1) (p # ps') = drop 20 (data_of c1) @ contents h1 ps'"
      using calculation(2) contents_frame [OF same] by simp
    moreover have "drop 20 (data_of c1) @ contents h1 ps' = body"
      using arg_cong [OF h1(2), of "drop 20"] h1(4,6) c1ok(1) hdr(1) by simp
    moreover have "sole (put p c2 h1) a" if "a \<in> set (p # ps')" for a
      using h1(3,4) that by (auto simp: sole_def c2_def releasable_def)
    ultimately show ?thesis
      using packet_frame [OF same c1ok(4)] plen_frame [OF same] c1ok(2,5) len1 hdr(1,6) body c(3-5) kept h1(6) np
      by (simp add: ip_received_def c2_def)
  qed
  moreover have "read_at (p, payload c) 1 (put p c2 h1) = Some [0x45]"
    using rds1(1) kept(4) c(3) by (auto simp: read_at_def rd_def c2_def split: if_splits)
  moreover have "\<forall>a \<in> set ps - set ps'. cells (put p c2 h1) a = None"
    using h1(8) packet_distinct [OF pk] by auto
  moreover have "k \<le> len (the (cells (put p c2 h1) p))" using h1(6) by (simp add: c2_def)
  ultimately show ?thesis using h1(7) by blast
qed

section \<open>Answering echo requests\<close>

lemma ll_flags_mcastloop: "ll_flags dest fl AND PBUF_FLAG_MCASTLOOP = fl AND PBUF_FLAG_MCASTLOOP"
  by (simp add: ll_flags_def PBUF_FLAG_MCASTLOOP_def PBUF_FLAG_LLMCAST_def PBUF_FLAG_LLBCAST_def bit.conj_disj_distrib2)

text \<open>An IPv4 frame reaches \<open>ip4_input\<close> without its header.\<close>

lemma ethernet_input_ip:
  assumes "packet (pbufs s) (Some p) (p # ps)" and "\<forall>a \<in> set (p # ps). sole (pbufs s) a"
    and "contents (pbufs s) (p # ps) = eth_frame dst src ETHTYPE_IP bs" and "cells (pbufs s) p = Some c" and "14 < len c"
    and "length dst = ETH_HWADDR_LEN" and "length src = ETH_HWADDR_LEN"
    and "netifs s nif = Some n" and "n_flags n AND NETIF_FLAG_ETHARP \<noteq> 0"
  shows "\<exists>e. ethernet_input lo ar dr i4 i6 p nif s = map_option (Pair ERR_OK) (i4 p nif (s\<lparr>pbufs := put p e (pbufs s)\<rparr>))
    \<and> packet (put p e (pbufs s)) (Some p) (p # ps) \<and> (\<forall>a \<in> set (p # ps). sole (put p e (pbufs s)) a)
    \<and> contents (put p e (pbufs s)) (p # ps) = bs \<and> len e = len c - 14 \<and> payload e = payload c + 14
    \<and> type_internal e = type_internal c \<and> flags e AND PBUF_FLAG_MCASTLOOP = flags c AND PBUF_FLAG_MCASTLOOP"
proof -
  let ?h = "pbufs s"
  define e where "e = c\<lparr>if_idx := (if if_idx c = 0 then n_num n + 1 else if_idx c), flags := ll_flags dst (flags c),
    payload := payload c + 14, len := len c - 14, tot_len := tot_len c - 14\<rparr>"
  have l: "SIZEOF_ETH_HDR \<le> len c" "\<not> len c \<le> SIZEOF_ETH_HDR" using assms(5) by (simp_all add: SIZEOF_ETH_HDR_def)
  note open' = frame_opened [OF assms(1,3,4) l(1) assms(6,7) e_def]
  have t: "take 2 (drop 12 (dst @ src @ store16 (lwip_htons ETHTYPE_IP))) = store16 (lwip_htons ETHTYPE_IP)"
    "take 6 (dst @ src @ store16 (lwip_htons ETHTYPE_IP)) = dst"
    using assms(6,7) by (simp_all add: ETH_HWADDR_LEN_def)
  have "ethernet_input lo ar dr i4 i6 p nif s = map_option (Pair ERR_OK) (i4 p nif (s\<lparr>pbufs := put p e ?h\<rparr>))"
    using assms(4,8,9) open'(1,2) t l(2)
    by (cases "i4 p nif (s\<lparr>pbufs := put p e ?h\<rparr>)") (simp_all add: ethernet_input_def Let_def)
  moreover have "sole (put p e ?h) a" if "a \<in> set (p # ps)" for a
    using assms(2,4) that by (auto simp: sole_def releasable_def ll_flags_custom e_def)
  ultimately show ?thesis using open'(3,4) by (intro exI [of _ e]) (simp add: e_def ll_flags_mcastloop)
qed

text \<open>The next hop for a datagram, as \<open>etharp_output\<close> finds it from the source address in the header.\<close>

text \<open>A datagram in a frame reaches the protocol above it.\<close>

lemma ip_frame_delivers:
  assumes n: "netifs s nif = Some n" "n_flags n AND NETIF_FLAG_ETHARP \<noteq> 0" "for_us n src me"
    and f: "packet (pbufs s) (Some p) (p # ps)" "\<forall>b \<in> set (p # ps). sole (pbufs s) b" "length d = ETH_HWADDR_LEN" "length sa = ETH_HWADDR_LEN"
      "contents (pbufs s) (p # ps) = eth_frame d sa ETHTYPE_IP ((hdr @ body) @ pad)"
    and c: "cells (pbufs s) p = Some c" "34 + k \<le> len c" "type_internal c AND FLAG_CONTIGUOUS \<noteq> 0" "flags c AND PBUF_FLAG_MCASTLOOP = 0"
    and v: "valid_header hdr src me proto (20 + length body)" and k: "4 \<le> k" "k \<le> length body" "length body + 34 < 65536"
  shows "\<exists>ps' h hp. ethernet_input lo ar dr (\<lambda>p nif s. map_option snd (ip4_input env p nif s)) i6 p nif s
      = map_option (\<lambda>t. (ERR_OK, t\<lparr>ip_data := ip_idle\<rparr>)) (input_proto env p nif nif 20 proto (s\<lparr>ip_data := ip_current nif nif hp src me, pbufs := h\<rparr>))
    \<and> ip_received p ps' hdr body h \<and> read_at hp 1 h = Some [0x45] \<and> set ps' \<subseteq> set ps \<and> (\<forall>b \<in> set ps - set ps'. cells h b = None)
    \<and> k \<le> len (the (cells h p))"
proof -
  let ?i4 = "\<lambda>p nif s. map_option snd (ip4_input env p nif s)"
  have l14: "14 < len c" using c(2) k(1) by simp
  from ethernet_input_ip [OF f(1,2,5) c(1) l14 f(3,4) n(1,2), of lo ar dr ?i4 i6] obtain e where
    e: "ethernet_input lo ar dr ?i4 i6 p nif s = map_option (Pair ERR_OK) (?i4 p nif (s\<lparr>pbufs := put p e (pbufs s)\<rparr>))"
      "packet (put p e (pbufs s)) (Some p) (p # ps)" "\<forall>b \<in> set (p # ps). sole (put p e (pbufs s)) b"
      "contents (put p e (pbufs s)) (p # ps) = (hdr @ body) @ pad" "len e = len c - 14" "payload e = payload c + 14"
      "type_internal e = type_internal c" "flags e AND PBUF_FLAG_MCASTLOOP = 0" unfolding c(4) by blast
  let ?s = "s\<lparr>pbufs := put p e (pbufs s)\<rparr>"
  have pre: "cells (pbufs ?s) p = Some e" "20 + k \<le> len e" "14 \<le> payload e" "type_internal e AND FLAG_CONTIGUOUS \<noteq> 0" "flags e AND PBUF_FLAG_MCASTLOOP = 0"
    "netifs ?s nif = Some n"
    using e(5-8) c f(1) n(1) by (auto simp: cell_ok_def)
  from e(2-4) have s2: "packet (pbufs ?s) (Some p) (p # ps)" "\<forall>b \<in> set (p # ps). sole (pbufs ?s) b"
    "contents (pbufs ?s) (p # ps) = (hdr @ body) @ pad" by simp_all
  obtain ps' h where
    i: "ip4_input env p nif ?s = map_option (\<lambda>t. (ERR_OK, t\<lparr>ip_data := ip_idle\<rparr>))
        (input_proto env p nif nif 20 proto (?s\<lparr>ip_data := ip_current nif nif (p, payload e) src me, pbufs := h\<rparr>))"
      "ip_received p ps' hdr body h" "read_at (p, payload e) 1 h = Some [0x45]" "set ps' \<subseteq> set ps" "\<forall>b \<in> set ps - set ps'. cells h b = None"
      "k \<le> len (the (cells h p))"
    using ip4_input_delivers [OF s2 v pre(1-5) k pre(6) n(3), of env] by blast
  have "?s\<lparr>ip_data := ip_current nif nif (p, payload e) src me, pbufs := h\<rparr> = s\<lparr>ip_data := ip_current nif nif (p, payload e) src me, pbufs := h\<rparr>"
    by simp
  then show ?thesis using e(1) i
    by (intro exI [of _ ps'] exI [of _ h] exI [of _ "(p, payload e)"])
      (cases "input_proto env p nif nif 20 proto (s\<lparr>ip_data := ip_current nif nif (p, payload e) src me, pbufs := h\<rparr>)"; simp)
qed

definition hop_of :: "netif \<Rightarrow> u32 \<Rightarrow> u32 \<Rightarrow> u32 option" where
  "hop_of n src dest =
     (if ip4_addr_netcmp dest (n_ip n) (n_netmask n) \<or> ip4_addr_islinklocal dest \<or> ip4_addr_islinklocal src then Some dest
      else if n_gw n \<noteq> IPADDR_ANY then Some (n_gw n) else None)"

lemma next_hop_eq: "iphdr_src q s = Some src \<Longrightarrow> next_hop n q dest s = Some (hop_of n src dest)"
  by (simp add: next_hop_def hop_of_def)

lemma iphdr_src_read:
  assumes "packet (pbufs s) (Some q) (q # qs)" and "take 20 (contents (pbufs s) (q # qs)) = hdr" and "take 4 (drop 12 hdr) = octets src"
    and "cells (pbufs s) q = Some c" and "20 \<le> len c"
  shows "iphdr_src q s = Some src"
proof -
  have "cell_ok c" using assms(1,4) by auto
  moreover from this have "take 20 (data_of c) = hdr" using assms(2,4,5) by simp
  then have "take 4 (drop 12 (data_of c)) = octets src" using assms(3) by (auto simp: drop_take)
  ultimately show ?thesis using rd_ok [of c 12 4] assms(4,5) by (simp add: iphdr_src_def load32_octets)
qed

text \<open>The ARP table has an entry for the next hop that need not be renewed.\<close>

definition resolved :: "nat \<Rightarrow> u32 \<Rightarrow> bytes \<Rightarrow> 'w net \<Rightarrow> bool" where
  "resolved nif hop mac s \<longleftrightarrow> arp_ok s \<and> length mac = ETH_HWADDR_LEN \<and> (\<exists>i < ARP_TABLE_SIZE. arp_usable nif hop (arp_table s ! i)
     \<and> arp_ctime (arp_table s ! i) < ARP_AGE_REREQUEST_USED_UNICAST \<and> arp_ethaddr (arp_table s ! i) = mac)"

text \<open>An interface with an Ethernet address, and an address that is a single host there.\<close>

definition ether_netif :: "netif \<Rightarrow> bool" where
  "ether_netif n \<longleftrightarrow> n_hwaddr_len n = ETH_HWADDR_LEN \<and> length (n_hwaddr n) = ETH_HWADDR_LEN \<and> n_flags n AND NETIF_FLAG_ETHARP \<noteq> 0"

definition host_addr :: "netif \<Rightarrow> u32 \<Rightarrow> bool" where
  "host_addr n a \<longleftrightarrow> \<not> ip4_addr_isbroadcast_u32 a (if_of n) \<and> \<not> ip4_addr_ismulticast a"

context ether_driver
begin

lemma datagram_sends:
  assumes room: "room_for 14 q qs (pbufs s)" and src: "iphdr_src q s = Some src"
    and n: "netifs s nif = Some n" "ether_netif n" "host_addr n dest" "hop_of n src dest = Some hop" and r: "resolved nif hop mac s"
    and d: "ready (driver s)" "plen (pbufs s) (q # qs) + 14 \<le> max_frame"
  shows "\<exists>c c' i w. cells (pbufs s) q = Some c \<and> same_cell c c'
    \<and> etharp_output lo nif q dest s = Some (ERR_OK, s\<lparr>etharp_cached_entry := i, pbufs := put q c' (pbufs s), driver := w\<rparr>) \<and> ready w \<and> i < ARP_TABLE_SIZE
    \<and> line w = line (driver s) @ encode (eth_frame mac (n_hwaddr n) ETHTYPE_IP (contents (pbufs s) (q # qs)))"
proof -
  from r obtain i where i: "i < ARP_TABLE_SIZE" "arp_usable nif hop (arp_table s ! i)"
    "arp_ctime (arp_table s ! i) < ARP_AGE_REREQUEST_USED_UNICAST" "arp_ethaddr (arp_table s ! i) = mac"
    and mac: "arp_ok s" "length (arp_ethaddr (arp_table s ! i)) = ETH_HWADDR_LEN" by (auto simp: resolved_def)
  have "frame_room q qs (pbufs s)" using room_for_frame room by (simp add: SIZEOF_ETH_HDR_def)
  moreover have "next_hop n q dest s = Some (Some hop)" using next_hop_eq [OF src] n(4) by simp
  ultimately show ?thesis
    using resolved_sends [OF mac(1) n(1) _ _ _ _ _ i(1-3) mac(2) _ d(1)] n(2,3) d(2) i(1,4)
    unfolding ether_netif_def host_addr_def SIZEOF_ETH_HDR_def same_cell_def by blast
qed

lemma echo_sends:
  assumes rec: "ip_received p ps hdr body (pbufs s)" and v: "valid_header hdr a me IP_PROTO_ICMP (20 + length body)"
    and echo: "8 \<le> length body" "body ! 0 = ICMP_ECHO" "inet_chksum False body = 0"
    and ipd: "ip_data s = ip_current nif nif hp a me" "read_at hp 1 (pbufs s) = Some [0x45]"
    and n: "netifs s nif = Some n" "ether_netif n" "n_mtu n = 0 \<or> 20 + length body \<le> n_mtu n"
    and me: "me = n_ip n" "host_addr n me" and a: "a \<noteq> me" "host_addr n a" "hop_of n me a = Some hop"
    and r: "resolved nif hop mac s" and d: "ready (driver s)" "34 + length body \<le> max_frame" and env: "netif_output env = etharp_output lo"
  shows "\<exists>t. icmp_input env p nif s = Some t \<and> ready (driver t) \<and> (\<forall>b \<in> set (p # ps). cells (pbufs t) b = None)
    \<and> (\<forall>b. b \<notin> set (p # ps) \<longrightarrow> cells (pbufs t) b = cells (pbufs s) b)
    \<and> line (driver t) = line (driver s) @ encode (eth_frame mac (n_hwaddr n) ETHTYPE_IP (reply_header me a hdr @ reply_body body))"
proof -
  have ic: "icmp_input env p nif s = echo_reply env p nif 20 me s"
    using icmp_input_echo [OF rec echo _ ipd(2) _ _ _ n(1)] ipd(1) me(2) by (simp add: ip_current_def host_addr_def)
  have src: "current_iphdr_src (ip_data s) = a" using ipd(1) by (simp add: ip_current_def)
  have other: "a \<noteq> n_ip n" using a(1) me(1) by simp
  from echo_reply_sends [OF rec src n(1) other n(3), of me env] obtain c c1 where
    c: "cells (pbufs s) p = Some c" "same_cell c c1" "room_for 14 p ps (put p c1 (pbufs s))"
      "contents (put p c1 (pbufs s)) (p # ps) = reply_header me a hdr @ reply_body body" "20 \<le> len c1"
    and er: "echo_reply env p nif 20 me s = do { (_, s) \<leftarrow> etharp_output lo nif p a (s\<lparr>pbufs := put p c1 (pbufs s)\<rparr>); free_pbuf p s }"
    unfolding env by blast
  let ?s = "s\<lparr>pbufs := put p c1 (pbufs s)\<rparr>"
  have h20: "length hdr = 20" "4 \<le> length body" using v echo(1) by (simp_all add: valid_header_def)
  have pk: "packet (pbufs ?s) (Some p) (p # ps)" "cells (pbufs ?s) p = Some c1" using c(3) by (simp_all add: room_for_def)
  have l: "plen (pbufs ?s) (p # ps) = 20 + length body"
    using length_contents [OF pk(1)] h20 by (simp add: c(4) del: contents_simps plen_simps)
  have "take 20 (contents (pbufs ?s) (p # ps)) = reply_header me a hdr" using c(4) h20 by simp
  moreover have "take 4 (drop 12 (reply_header me a hdr)) = octets me" using h20(1) by (simp add: reply_header_def Let_def)
  ultimately have "iphdr_src p ?s = Some me" using iphdr_src_read [OF pk(1) _ _ pk(2)] c(5) by simp
  from datagram_sends [OF _ this _ n(2) a(2,3), where nif = nif and mac = mac and qs = ps] c(3) n(1) r d l obtain c2 i w where
    c2: "same_cell c1 c2" "etharp_output lo nif p a ?s = Some (ERR_OK, ?s\<lparr>etharp_cached_entry := i, pbufs := put p c2 (pbufs ?s), driver := w\<rparr>)"
    and w: "ready w" "line w = line (driver s) @ encode (eth_frame mac (n_hwaddr n) ETHTYPE_IP (reply_header me a hdr @ reply_body body))"
    using pk(2) by (auto simp: c(4) resolved_def arp_ok_def simp del: plen_simps contents_simps)
  let ?t = "?s\<lparr>etharp_cached_entry := i, pbufs := put p c2 (pbufs ?s), driver := w\<rparr>"
  have p: "p \<notin> set ps" using packet_distinct [OF pk(1)] by simp
  have so: "sole (pbufs s) b" if "b \<in> set (p # ps)" for b using rec that by (auto simp: ip_received_def)
  have "sole (pbufs ?t) b" if "b \<in> set (p # ps)" for b
    using sole_same_cell [OF pk(2) c2(1), of b] sole_same_cell [OF c(1,2) so [OF that]] by simp
  moreover have "chain (pbufs ?t) (Some p) ((p # ps) @ [])"
  proof -
    have "chain (put p c1 (pbufs s)) (nxt c1) ps" using packet_chain [OF pk(1)] by simp
    then have "chain (put p c2 (put p c1 (pbufs s))) (nxt c2) ps"
      using chain_frame [of ps "put p c1 (pbufs s)"] p c2(1) by (simp add: same_cell_def)
    then show ?thesis by simp
  qed
  ultimately obtain h where f: "pbuf_free (Some p) (pbufs ?t) = Some (length (p # ps) mod 256, h)" "cells h = free_map (p # ps) [] (cells (pbufs ?t))"
    using pbuf_free_spec [of "pbufs ?t" p "p # ps" "[]"] by (auto simp: shared_def)
  have "icmp_input env p nif s = Some (?t\<lparr>pbufs := h\<rparr>)" unfolding ic er c2(2) using f(1) by (simp add: free_pbuf_def)
  then show ?thesis using w f(2) by (auto simp: free_map_def unref_head_def)
qed

lemma echo_frame_sends:
  assumes n: "netifs s nif = Some n" "ether_netif n" "for_us n a me" "n_mtu n = 0 \<or> 20 + length body \<le> n_mtu n"
    and a: "host_addr n me" "a \<noteq> me" "host_addr n a" "hop_of n me a = Some hop" and r: "resolved nif hop mac s"
    and f: "packet (pbufs s) (Some p) (p # ps)" "\<forall>b \<in> set (p # ps). sole (pbufs s) b" "length dst = ETH_HWADDR_LEN" "length src = ETH_HWADDR_LEN"
      "contents (pbufs s) (p # ps) = eth_frame dst src ETHTYPE_IP ((hdr @ body) @ pad)"
    and c: "cells (pbufs s) p = Some c" "38 \<le> len c" "type_internal c AND FLAG_CONTIGUOUS \<noteq> 0" "flags c AND PBUF_FLAG_MCASTLOOP = 0"
    and v: "valid_header hdr a me IP_PROTO_ICMP (20 + length body)"
    and echo: "8 \<le> length body" "body ! 0 = ICMP_ECHO" "inet_chksum False body = 0"
    and d: "ready (driver s)" "34 + length body \<le> max_frame" "max_frame < 65000" and env: "netif_output env = etharp_output lo"
  shows "\<exists>t. ethernet_input lo ar dr (\<lambda>p nif s. map_option snd (ip4_input env p nif s)) i6 p nif s = Some (ERR_OK, t) \<and> ready (driver t)
    \<and> (\<forall>b \<in> set (p # ps). cells (pbufs t) b = None)
    \<and> line (driver t) = line (driver s) @ encode (eth_frame mac (n_hwaddr n) ETHTYPE_IP (reply_header me a hdr @ reply_body body))"
proof -
  have fl: "n_flags n AND NETIF_FLAG_ETHARP \<noteq> 0" using n(2) by (simp add: ether_netif_def)
  have k: "34 + 4 \<le> len c" "4 \<le> (4 :: nat)" "4 \<le> length body" "length body + 34 < 65536" using c(2) echo(1) d(2,3) by simp_all
  from ip_frame_delivers [OF n(1) fl n(3) f c(1) k(1) c(3,4) v k(2-4), of lo ar dr env i6] obtain ps' h hp where
    i: "ethernet_input lo ar dr (\<lambda>p nif s. map_option snd (ip4_input env p nif s)) i6 p nif s
        = map_option (\<lambda>t. (ERR_OK, t\<lparr>ip_data := ip_idle\<rparr>)) (input_proto env p nif nif 20 IP_PROTO_ICMP (s\<lparr>ip_data := ip_current nif nif hp a me, pbufs := h\<rparr>))"
      "ip_received p ps' hdr body h" "read_at hp 1 h = Some [0x45]" "set ps' \<subseteq> set ps" "\<forall>b \<in> set ps - set ps'. cells h b = None"
    by blast
  let ?t = "s\<lparr>ip_data := ip_current nif nif hp a me, pbufs := h\<rparr>"
  have me: "me = n_ip n" using n(3) by (simp add: for_us_def)
  have rec: "ip_received p ps' hdr body (pbufs ?t)" "ip_data ?t = ip_current nif nif hp a me"
    "read_at hp 1 (pbufs ?t) = Some [0x45]" "netifs ?t nif = Some n" "resolved nif hop mac ?t" "ready (driver ?t)"
    using i(2,3) n(1) r d(1) by (simp_all add: resolved_def arp_ok_def)
  from echo_sends [OF rec(1) v echo rec(2,3,4) n(2,4) me a rec(5,6) d(2) env] obtain t where
    t: "icmp_input env p nif ?t = Some t" "ready (driver t)" "\<forall>b \<in> set (p # ps'). cells (pbufs t) b = None"
      "\<forall>b. b \<notin> set (p # ps') \<longrightarrow> cells (pbufs t) b = cells h b"
      "line (driver t) = line (driver s) @ encode (eth_frame mac (n_hwaddr n) ETHTYPE_IP (reply_header me a hdr @ reply_body body))"
    by auto
  have "input_proto env p nif nif 20 IP_PROTO_ICMP ?t = icmp_input env p nif ?t"
    by (simp add: input_proto_def IP_PROTO_ICMP_def IP_PROTO_UDP_def IP_PROTO_TCP_def)
  then have "ethernet_input lo ar dr (\<lambda>p nif s. map_option snd (ip4_input env p nif s)) i6 p nif s = Some (ERR_OK, t\<lparr>ip_data := ip_idle\<rparr>)"
    using i(1) t(1) by simp
  moreover have "cells (pbufs t) b = None" if "b \<in> set (p # ps)" for b
    using that t(3,4) i(5) by (cases "b \<in> set (p # ps')") auto
  ultimately show ?thesis using t(2,5) by auto
qed

end

text \<open>
  C1. The host answers ping. An ICMP echo request for its address that arrives in an Ethernet frame,
  in however many buffers and with whatever padding, is answered by exactly one frame on the
  serial line: it is addressed to the next hop that ARP has resolved, source and destination
  are exchanged, the data come back unchanged, and header and message carry checksums that
  verify. All buffers of the request are released.
\<close>

theorem echo_request_answered:
  assumes "netifs s nif = Some n" and "ether_netif n" and "for_us n a me" and "n_mtu n = 0 \<or> 20 + length body \<le> n_mtu n"
    and "host_addr n me" and "a \<noteq> me" and "host_addr n a" and "hop_of n me a = Some hop" and "resolved nif hop mac s"
    and "packet (pbufs s) (Some p) (p # ps)" and "\<forall>b \<in> set (p # ps). sole (pbufs s) b"
    and "length dst = ETH_HWADDR_LEN" and "length src = ETH_HWADDR_LEN"
    and "contents (pbufs s) (p # ps) = eth_frame dst src ETHTYPE_IP ((hdr @ body) @ pad)"
    and "cells (pbufs s) p = Some c" and "38 \<le> len c" and "type_internal c AND FLAG_CONTIGUOUS \<noteq> 0" and "flags c AND PBUF_FLAG_MCASTLOOP = 0"
    and "valid_header hdr a me IP_PROTO_ICMP (20 + length body)"
    and "8 \<le> length body" and "body ! 0 = ICMP_ECHO" and "inet_chksum False body = 0"
    and "host_ready (driver s)" and "34 + length body \<le> BUF_SIZE - 2" and "netif_output env = etharp_output (host_linkoutput tty_write)"
  shows "\<exists>t. ethernet_input (host_linkoutput tty_write) ar dr (\<lambda>p nif s. map_option snd (ip4_input env p nif s)) i6 p nif s = Some (ERR_OK, t)
    \<and> host_ready (driver t) \<and> (\<forall>b \<in> set (p # ps). cells (pbufs t) b = None)
    \<and> host_line (driver t) = host_line (driver s)
        @ host_encode tty_write (eth_frame mac (n_hwaddr n) ETHTYPE_IP (reply_header me a hdr @ reply_body body))
    \<and> inet_chksum False (reply_header me a hdr) = 0 \<and> inet_chksum False (reply_body body) = 0 \<and> drop 4 (reply_body body) = drop 4 body"
proof -
  have "length hdr = 20" using assms(19) by (simp add: valid_header_def)
  moreover have "BUF_SIZE - 2 < 65000" by (simp add: BUF_SIZE_def)
  ultimately show ?thesis
    using host_driver.echo_frame_sends [OF assms(1-11,12-24) _ assms(25), of ar dr i6] reply_header_verifies [of hdr False me a]
      reply_body_verifies [OF _ _ assms(21,22), of False] assms(20,24) by (simp add: reply_body_def)
qed

definition demo_env :: "(bytes \<times> uart) ip_env" where
  "demo_env = \<lparr>netif_output = etharp_output (host_linkoutput (\<lambda>xs. xs)), ip4_frag = (\<lambda>_ _ _ _. None), ip4_reass = (\<lambda>_ _. None),
     udp_input = (\<lambda>_ _. Some), tcp_input = (\<lambda>_ _. Some), igmp_input = (\<lambda>_ _ _. Some), at_odd = (\<lambda>_ _. False)\<rparr>"

definition ping_header :: bytes where
  "ping_header = [0x45, 0, 0, 0x1c, 0, 0, 0, 0, 0x40, 1, 0xf9, 0x8d, 0xc0, 0xa8, 0, 2, 0xc0, 0xa8, 0, 1]"

definition ping_message :: bytes where
  "ping_message = [8, 0, 0xf7, 0xfd, 0, 1, 0, 1]"

definition ping_frame :: bytes where
  "ping_frame = eth_frame [2, 0, 0, 0, 0, 1] [2, 0, 0, 0, 0, 2] ETHTYPE_IP ((ping_header @ ping_message) @ replicate 18 0)"

definition demo_ping :: "(bytes \<times> uart) net" where
  "demo_ping = demo_sender\<lparr>pbufs := sample_heap\<lparr>cells := [4 \<mapsto> pbuf_init_alloced_pbuf ping_frame 0 60 60 PBUF_POOL 0]\<rparr>\<rparr>"

lemma demo_resolved:
  assumes "arp_table s = arp_table demo_sender" and "etharp_cached_entry s = etharp_cached_entry demo_sender"
  shows "resolved 0 0x0200a8c0 [2, 0, 0, 0, 0, 2] s"
proof -
  have "3 < ARP_TABLE_SIZE" "arp_usable 0 0x0200a8c0 (arp_table s ! 3)" "arp_ctime (arp_table s ! 3) < ARP_AGE_REREQUEST_USED_UNICAST"
    by (simp_all add: assms demo_sender_ok ARP_TABLE_SIZE_def arp_usable_def arp_stable_iff ARP_AGE_REREQUEST_USED_UNICAST_def ARP_MAXAGE_def)
  moreover have "arp_ok s" using demo_sender_ok(1) assms by (simp add: arp_ok_def)
  ultimately show ?thesis unfolding resolved_def by (auto simp: assms demo_sender_ok ETH_HWADDR_LEN_def)
qed

lemma demo_addresses:
  "for_us demo_netif 0x0200a8c0 0x0100a8c0" "host_addr demo_netif 0x0100a8c0" "host_addr demo_netif 0x0200a8c0"
  "hop_of demo_netif 0x0100a8c0 0x0200a8c0 = Some 0x0200a8c0"
  by code_simp+

theorem echo_request_answered_witness:
  "\<exists>t. ethernet_input (host_linkoutput (\<lambda>xs. xs)) (\<lambda>_ _. Some) (\<lambda>_ _. Some) (\<lambda>p nif s. map_option snd (ip4_input demo_env p nif s)) (\<lambda>_ _. Some)
        4 0 demo_ping = Some (ERR_OK, t)
     \<and> host_line (driver t) = host_encode (\<lambda>xs. xs) (eth_frame [2, 0, 0, 0, 0, 2] [2, 0, 0, 0, 0, 1] ETHTYPE_IP
          [0x45, 0, 0, 0x1c, 0, 0, 0, 0, 0xff, 1, 0x3a, 0x8d, 0xc0, 0xa8, 0, 1, 0xc0, 0xa8, 0, 2, 0, 0, 0xff, 0xfd, 0, 1, 0, 1])"
proof -
  let ?c = "pbuf_init_alloced_pbuf ping_frame 0 60 60 PBUF_POOL 0"
  have l: "length ping_frame = 60" by (simp add: ping_frame_def eth_frame_def ping_header_def ping_message_def)
  have keep: "netifs demo_ping = netifs demo_sender" "arp_table demo_ping = arp_table demo_sender" "driver demo_ping = driver demo_sender"
    "etharp_cached_entry demo_ping = etharp_cached_entry demo_sender" by (simp_all add: demo_ping_def)
  have n: "netifs demo_ping 0 = Some demo_netif" "ether_netif demo_netif" "n_mtu demo_netif = 0 \<or> 20 + length ping_message \<le> n_mtu demo_netif"
    by (simp_all add: keep demo_sender_ok ether_netif_def ETH_HWADDR_LEN_def NETIF_FLAG_ETHARP_def ping_message_def)
  note a = demo_addresses
  have k: "inet_chksum False ping_header = 0" "inet_chksum False ping_message = 0" by code_simp+
  have v: "valid_header ping_header 0x0200a8c0 0x0100a8c0 IP_PROTO_ICMP (20 + length ping_message)"
    "8 \<le> length ping_message" "ping_message ! 0 = ICMP_ECHO" "inet_chksum False ping_message = 0"
    using k by (simp_all add: valid_header_def ping_message_def) (simp_all add: ping_header_def octets_def store16_htons le16_def
      IP_PROTO_ICMP_def ICMP_ECHO_def)
  have f: "packet (pbufs demo_ping) (Some 4) [4]" "\<forall>b \<in> set [4]. sole (pbufs demo_ping) b" "contents (pbufs demo_ping) [4] = ping_frame"
    "length [2, 0, 0, 0, 0, 1 :: u8] = ETH_HWADDR_LEN" "length [2, 0, 0, 0, 0, 2 :: u8] = ETH_HWADDR_LEN" "cells (pbufs demo_ping) 4 = Some ?c"
    using l by (simp_all add: demo_ping_def pbuf_init_alloced_pbuf_def cell_ok_def data_of_def sole_def releasable_def ETH_HWADDR_LEN_def)
  have d: "host_ready (driver demo_ping)" "host_line (driver demo_ping) = []"
    by (simp_all add: keep demo_sender_ok)
  have r: "resolved 0 0x0200a8c0 [2, 0, 0, 0, 0, 2] demo_ping" by (rule demo_resolved) (simp_all add: keep)
  have rep: "reply_header 0x0100a8c0 0x0200a8c0 ping_header @ reply_body ping_message
    = [0x45, 0, 0, 0x1c, 0, 0, 0, 0, 0xff, 1, 0x3a, 0x8d, 0xc0, 0xa8, 0, 1, 0xc0, 0xa8, 0, 2, 0, 0, 0xff, 0xfd, 0, 1, 0, 1]" by code_simp
  have "\<exists>t. ethernet_input (host_linkoutput (\<lambda>xs. xs)) (\<lambda>_ _. Some) (\<lambda>_ _. Some) (\<lambda>p nif s. map_option snd (ip4_input demo_env p nif s)) (\<lambda>_ _. Some)
        4 0 demo_ping = Some (ERR_OK, t) \<and> host_ready (driver t) \<and> (\<forall>b \<in> set [4]. cells (pbufs t) b = None)
     \<and> host_line (driver t) = host_line (driver demo_ping) @ host_encode (\<lambda>xs. xs) (eth_frame [2, 0, 0, 0, 0, 2] (n_hwaddr demo_netif) ETHTYPE_IP
          (reply_header 0x0100a8c0 0x0200a8c0 ping_header @ reply_body ping_message))
     \<and> inet_chksum False (reply_header 0x0100a8c0 0x0200a8c0 ping_header) = 0 \<and> inet_chksum False (reply_body ping_message) = 0
     \<and> drop 4 (reply_body ping_message) = drop 4 ping_message"
    by (rule echo_request_answered [OF n(1,2) a(1) n(3) a(2) _ a(3,4) r f(1,2,4,5) f(3) [unfolded ping_frame_def] f(6) _ _ _ v d(1)])
      (simp_all add: demo_env_def ping_message_def BUF_SIZE_def pbuf_init_alloced_pbuf_def
        FLAG_CONTIGUOUS_def PBUF_FLAG_MCASTLOOP_def)
  then show ?thesis unfolding rep d(2) by auto
qed

section \<open>Malformed datagrams\<close>









end
