(* ===== verification/Udp.thy ===== *)
theory Udp
  imports Ip4_Input
begin

text \<open>
  \<^verbatim>\<open>core/udp.c\<close> of lwIP, the functions that move datagrams: \<open>udp_input\<close> finds the control block and
  calls its callback, \<open>udp_sendto\<close> and its variants put the header in front and hand the datagram
  to IP. \<open>udp_input\<close> is modelled for datagrams that came over IPv4. The record \<open>udp_env\<close> holds the
  callbacks (a function pointer is a number that \<open>recv_fn\<close> interprets) and the functions of IPv6.
\<close>

section \<open>Definitions\<close>

record 'w udp_env =
  recv_fn :: "nat \<Rightarrow> nat \<Rightarrow> nat \<Rightarrow> nat \<Rightarrow> ip_addr_t \<Rightarrow> u16 \<Rightarrow> 'w net \<Rightarrow> 'w net option"
  ip6_route :: "ip_addr_t \<Rightarrow> ip_addr_t \<Rightarrow> 'w net \<Rightarrow> nat option"
  ip6_select_source_address :: "nat \<Rightarrow> ip_addr_t \<Rightarrow> 'w net \<Rightarrow> ip_addr_t option"
  netif_get_ip6_addr_match :: "nat \<Rightarrow> ip_addr_t \<Rightarrow> 'w net \<Rightarrow> int"
  ip6_output_if_src :: "nat \<Rightarrow> ip_addr_t \<Rightarrow> ip_addr_t \<Rightarrow> u8 \<Rightarrow> u8 \<Rightarrow> u8 \<Rightarrow> nat \<Rightarrow> 'w net \<Rightarrow> (err \<times> 'w net) option"

definition UDP_HLEN :: nat where "UDP_HLEN = 8"
definition ICMP_DUR_PORT :: u8 where "ICMP_DUR_PORT = 3"

definition netif_get_index :: "netif \<Rightarrow> u8" where
  "netif_get_index n = n_num n + 1"

fun index_loop :: "u8 \<Rightarrow> nat list \<Rightarrow> 'w net \<Rightarrow> nat option option" where
  "index_loop idx [] s = Some None"
| "index_loop idx (i # is) s = do { n \<leftarrow> netifs s i; if idx = netif_get_index n then Some (Some i) else index_loop idx is s }"

definition netif_get_by_index :: "u8 \<Rightarrow> 'w net \<Rightarrow> nat option option" where
  "netif_get_by_index idx s = (if idx \<noteq> NETIF_NO_INDEX then index_loop idx (netif_list s) s else Some None)"

definition ip_addr_ismulticast :: "ip_addr_t \<Rightarrow> bool" where
  "ip_addr_ismulticast a =
     (if IP_IS_V6 a then addr0 a AND lwip_htonl 0xff000000 = lwip_htonl 0xff000000 else ip4_addr_ismulticast (addr0 a))"

subsection \<open>Input\<close>

text \<open>Does the datagram in process, a broadcast or not, match the local address of \<open>c\<close>?\<close>

definition udp_input_local_match :: "udp_pcb \<Rightarrow> nat \<Rightarrow> bool \<Rightarrow> 'w net \<Rightarrow> bool option" where
  "udp_input_local_match c inp broadcast s =
     (let dest = ip4 (current_iphdr_dest (ip_data s)) in
      do { other \<leftarrow> (if netif_idx c \<noteq> NETIF_NO_INDEX
              then do { i \<leftarrow> current_input_netif (ip_data s); n \<leftarrow> netifs s i; Some (netif_idx c \<noteq> netif_get_index n) }
              else Some False);
        n \<leftarrow> netifs s inp;
        Some (if other then False
          else if ip_type (local_ip c) = IPADDR_TYPE_ANY then True
          else if ip_type (local_ip c) = ip_type dest then
            if broadcast then addr0 (local_ip c) = IPADDR_ANY \<or> addr0 dest = IPADDR_BROADCAST
                \<or> ip4_addr_netcmp (addr0 (local_ip c)) (addr0 dest) (n_netmask n)
            else ip_addr_isany (local_ip c) \<or> ip_addr_cmp (local_ip c) dest
          else False) })"

text \<open>The first unconnected match, or a better one for a broadcast: bound to the address of the interface.\<close>

definition better_match :: "nat \<Rightarrow> udp_pcb \<Rightarrow> nat \<Rightarrow> bool \<Rightarrow> nat option \<Rightarrow> 'w net \<Rightarrow> nat option option" where
  "better_match a c inp broadcast uncon s =
     (if u_flags c AND UDP_FLAGS_CONNECTED = 0 then
        (case uncon of
           None \<Rightarrow> Some (Some a)
         | Some b \<Rightarrow>
             if broadcast \<and> current_iphdr_dest (ip_data s) = IPADDR_BROADCAST then
               do { d \<leftarrow> udp_store (udp s) b;
                 n \<leftarrow> netifs s inp;
                 Some (if \<not> (ip_type (local_ip d) = IPADDR_TYPE_V4 \<and> addr0 (local_ip d) = n_ip n)
                          \<and> ip_type (local_ip c) = IPADDR_TYPE_V4 \<and> addr0 (local_ip c) = n_ip n
                       then Some a else Some b) }
             else Some (Some b))
      else Some uncon)"

text \<open>The control block that matches perfectly, and the unconnected one found on the way.\<close>

fun find_pcb :: "nat \<Rightarrow> bool \<Rightarrow> u16 \<Rightarrow> u16 \<Rightarrow> nat list \<Rightarrow> nat option \<Rightarrow> 'w net \<Rightarrow> (nat option \<times> nat option) option" where
  "find_pcb inp broadcast src dest [] uncon s = Some (None, uncon)"
| "find_pcb inp broadcast src dest (a # as) uncon s =
     do { c \<leftarrow> udp_store (udp s) a;
       m \<leftarrow> (if local_port c = dest then udp_input_local_match c inp broadcast s else Some False);
       if \<not> m then find_pcb inp broadcast src dest as uncon s
       else do { uncon \<leftarrow> better_match a c inp broadcast uncon s;
         if remote_port c = src \<and> (ip_addr_isany (remote_ip c) \<or> ip_addr_cmp (remote_ip c) (ip4 (current_iphdr_src (ip_data s))))
         then Some (Some a, uncon)
         else find_pcb inp broadcast src dest as uncon s } }"

text \<open>A datagram for the block \<open>q\<close>, or for nobody, whose checksum was right; the header is still in front.\<close>

definition udp_deliver :: "'w udp_env \<Rightarrow> 'w ip_env \<Rightarrow> nat \<Rightarrow> bool \<Rightarrow> u16 \<Rightarrow> nat option \<Rightarrow> 'w net \<Rightarrow> 'w net option" where
  "udp_deliver u env p broadcast src q s =
     do { (e, h) \<leftarrow> pbuf_remove_header p UDP_HLEN (pbufs s);
       assert (e = 0);
       let s = s\<lparr>pbufs := h\<rparr> in
       case q of
         Some a \<Rightarrow>
           do { c \<leftarrow> udp_store (udp s) a;
             case recv c of
               Some f \<Rightarrow> recv_fn u f (recv_arg c) a p (ip4 (current_iphdr_src (ip_data s))) src s
             | None \<Rightarrow> free_pbuf p s }
       | None \<Rightarrow>
           do { s \<leftarrow> (if \<not> broadcast \<and> \<not> ip4_addr_ismulticast (current_iphdr_dest (ip_data s))
                 then do { (_, h) \<leftarrow> pbuf_header_force p (int (current_ip_header_tot_len (ip_data s) + UDP_HLEN)) (pbufs s);
                           icmp_dest_unreach env p ICMP_DUR_PORT (s\<lparr>pbufs := h\<rparr>) }
                 else Some s);
             free_pbuf p s } }"

definition udp_checked :: "'w udp_env \<Rightarrow> 'w ip_env \<Rightarrow> nat \<Rightarrow> nat \<Rightarrow> bool \<Rightarrow> u16 \<Rightarrow> nat option \<Rightarrow> 'w net \<Rightarrow> 'w net option" where
  "udp_checked u env p inp broadcast src q s =
     do { n \<leftarrow> netifs s inp;
       if q \<noteq> None \<or> n_ip n = current_iphdr_dest (ip_data s) then
         do { c \<leftarrow> cells (pbufs s) p;
           k \<leftarrow> rd c 6 2;
           k \<leftarrow> (if le16 (k ! 0) (k ! 1) \<noteq> 0
                 then inet_chksum_pseudo (payload_odd env (pbufs s)) (Some p) IP_PROTO_UDP (of_nat (tot_len c))
                        (current_iphdr_src (ip_data s)) (current_iphdr_dest (ip_data s)) (pbufs s)
                 else Some 0);
           if k \<noteq> 0 then free_pbuf p s else udp_deliver u env p broadcast src q s }
       else free_pbuf p s }"

definition udp_input :: "'w udp_env \<Rightarrow> 'w ip_env \<Rightarrow> nat \<Rightarrow> nat \<Rightarrow> 'w net \<Rightarrow> 'w net option" where
  "udp_input u env p inp s =
     do { c \<leftarrow> cells (pbufs s) p;
       if len c < UDP_HLEN then free_pbuf p s
       else do { nif \<leftarrow> current_netif (ip_data s);
         n \<leftarrow> netifs s nif;
         hdr \<leftarrow> rd c 0 4;
         let broadcast = ip4_addr_isbroadcast_u32 (current_iphdr_dest (ip_data s)) (if_of n);
             src = lwip_htons (le16 (hdr ! 0) (hdr ! 1)); dest = lwip_htons (le16 (hdr ! 2) (hdr ! 3)) in
         do { (perfect, uncon) \<leftarrow> find_pcb inp broadcast src dest (udp_pcbs (udp s)) None s;
           case perfect of
             Some a \<Rightarrow> udp_checked u env p inp broadcast src (Some a) (s\<lparr>udp := udp_to_front a (udp s)\<rparr>)
           | None \<Rightarrow> udp_checked u env p inp broadcast src uncon s } } }"

subsection \<open>Output\<close>

definition version_match :: "udp_pcb \<Rightarrow> ip_addr_t \<Rightarrow> bool" where
  "version_match c a \<longleftrightarrow> ip_type (local_ip c) = IPADDR_TYPE_ANY \<or> ip_type (local_ip c) = ip_type a"

text \<open>The interface index that binding needs for a zone.\<close>

definition route6_index :: "'w udp_env \<Rightarrow> 'w net \<Rightarrow> ip_addr_t \<Rightarrow> ip_addr_t \<Rightarrow> u8 option" where
  "route6_index u s src dest = do { i \<leftarrow> ip6_route u src dest s; n \<leftarrow> netifs s i; Some (netif_get_index n) }"

definition words6 :: "ip_addr_t \<Rightarrow> u32 list" where
  "words6 a = [addr0 a, addr1 a, addr2 a, addr3 a]"

definition udp_pseudo :: "'w ip_env \<Rightarrow> nat \<Rightarrow> nat \<Rightarrow> ip_addr_t \<Rightarrow> ip_addr_t \<Rightarrow> pheap \<Rightarrow> u16 option" where
  "udp_pseudo env q n src dest h =
     (if IP_IS_V6 dest then ip6_chksum_pseudo (payload_odd env h) (Some q) IP_PROTO_UDP (of_nat n) (words6 src) (words6 dest) h
      else inet_chksum_pseudo (payload_odd env h) (Some q) IP_PROTO_UDP (of_nat n) (addr0 src) (addr0 dest) h)"

definition udp_pseudo_partial :: "'w ip_env \<Rightarrow> nat \<Rightarrow> nat \<Rightarrow> nat \<Rightarrow> ip_addr_t \<Rightarrow> ip_addr_t \<Rightarrow> pheap \<Rightarrow> u16 option" where
  "udp_pseudo_partial env q n k src dest h =
     (if IP_IS_V6 dest then ip6_chksum_pseudo_partial (payload_odd env h) (Some q) IP_PROTO_UDP (of_nat n) k (words6 src) (words6 dest) h
      else inet_chksum_pseudo_partial (payload_odd env h) (Some q) IP_PROTO_UDP (of_nat n) k (addr0 src) (addr0 dest) h)"

text \<open>The value stored in the checksum field; \<open>have_chksum\<close> says that \<open>chksum\<close> covers the data already.\<close>

definition udp_gen_chksum :: "'w ip_env \<Rightarrow> nat \<Rightarrow> nat \<Rightarrow> ip_addr_t \<Rightarrow> ip_addr_t \<Rightarrow> bool \<Rightarrow> u16 \<Rightarrow> pheap \<Rightarrow> u16 option" where
  "udp_gen_chksum env q n src dest have_chksum chksum h =
     do { k \<leftarrow> (if have_chksum
            then do { k \<leftarrow> udp_pseudo_partial env q n UDP_HLEN src dest h;
                      Some (ucast (FOLD_U32T (ucast k + ucast (NOT chksum)))) }
            else udp_pseudo env q n src dest h);
       Some (if k = 0 then 0xffff else k) }"

text \<open>The packet that gets the header: \<open>p\<close> itself, or a new buffer chained in front of it.\<close>

definition udp_header_packet :: "nat \<Rightarrow> pheap \<Rightarrow> (pptr \<times> pheap) option" where
  "udp_header_packet p h =
     do { c \<leftarrow> cells h p;
       (e, h) \<leftarrow> pbuf_add_header p UDP_HLEN h;
       if e = 0 then Some (Some p, h)
       else do { (q, h) \<leftarrow> pbuf_alloc PBUF_IP UDP_HLEN PBUF_RAM h;
         case q of
           None \<Rightarrow> Some (None, h)
         | Some r \<Rightarrow> if tot_len c \<noteq> 0 then do { h \<leftarrow> pbuf_chain (Some r) (Some p) h; Some (Some r, h) } else Some (Some r, h) } }"

text \<open>Filling the header of \<open>q\<close> and passing the datagram on.\<close>

definition udp_fill_send ::
  "'w udp_env \<Rightarrow> 'w ip_env \<Rightarrow> udp_pcb \<Rightarrow> nat \<Rightarrow> ip_addr_t \<Rightarrow> u16 \<Rightarrow> nat \<Rightarrow> bool \<Rightarrow> u16 \<Rightarrow> ip_addr_t \<Rightarrow> 'w net \<Rightarrow> (err \<times> 'w net) option" where
  "udp_fill_send u env c q dst_ip dst_port nif have_chksum chksum src_ip s =
     do { d \<leftarrow> cells (pbufs s) q;
       assert (len d \<ge> UDP_HLEN);
       d \<leftarrow> wr_all [(0, store16 (lwip_htons (local_port c))), (2, store16 (lwip_htons dst_port)), (6, store16 0),
                    (4, store16 (lwip_htons (of_nat (tot_len d))))] d;
       let d = (if u_flags c AND UDP_FLAGS_MULTICAST_LOOP \<noteq> 0 \<and> ip_addr_ismulticast dst_ip
                then d\<lparr>flags := flags d OR PBUF_FLAG_MCASTLOOP\<rparr> else d);
           h = put q d (pbufs s) in
       do { h \<leftarrow> (if IP_IS_V6 dst_ip \<or> u_flags c AND UDP_FLAGS_NOCHKSUM = 0
              then do { k \<leftarrow> udp_gen_chksum env q (tot_len d) src_ip dst_ip have_chksum chksum h;
                        d \<leftarrow> wr d 6 (store16 k); Some (put q d h) }
              else Some h);
         let ttl = (if ip_addr_ismulticast dst_ip then mcast_ttl c else u_ttl c); s = s\<lparr>pbufs := h\<rparr> in
         if IP_IS_V6 dst_ip then ip6_output_if_src u q src_ip dst_ip ttl (u_tos c) IP_PROTO_UDP nif s
         else ip4_output_if_src env q (Some (addr0 src_ip)) (Some (addr0 dst_ip)) ttl (u_tos c) IP_PROTO_UDP nif s } }"

definition udp_sendto_if_src_chksum ::
  "'w udp_env \<Rightarrow> 'w ip_env \<Rightarrow> nat \<Rightarrow> nat \<Rightarrow> ip_addr_t \<Rightarrow> u16 \<Rightarrow> nat \<Rightarrow> bool \<Rightarrow> u16 \<Rightarrow> ip_addr_t \<Rightarrow> 'w net \<Rightarrow> (err \<times> 'w net) option" where
  "udp_sendto_if_src_chksum u env pcb p dst_ip dst_port nif have_chksum chksum src_ip s =
     do { c \<leftarrow> udp_store (udp s) pcb;
       if \<not> version_match c src_ip \<or> \<not> version_match c dst_ip then Some (ERR_VAL, s)
       else do { (err, us) \<leftarrow> (if local_port c = 0 then udp_bind (route6_index u s) pcb (Some (local_ip c)) (local_port c) (udp s)
                              else Some (ERR_OK, udp s));
         let s = s\<lparr>udp := us\<rparr> in
         if err \<noteq> ERR_OK then Some (err, s)
         else do { d \<leftarrow> cells (pbufs s) p;
           if u16 (tot_len d + UDP_HLEN) < tot_len d then Some (ERR_MEM, s)
           else do { (q, h) \<leftarrow> udp_header_packet p (pbufs s);
             case q of
               None \<Rightarrow> Some (ERR_MEM, s\<lparr>pbufs := h\<rparr>)
             | Some r \<Rightarrow>
                 do { c \<leftarrow> udp_store (udp s) pcb;
                   (err, s) \<leftarrow> udp_fill_send u env c r dst_ip dst_port nif have_chksum chksum src_ip (s\<lparr>pbufs := h\<rparr>);
                   s \<leftarrow> (if r \<noteq> p then free_pbuf r s else Some s);
                   Some (err, s) } } } } }"

definition udp_sendto_if_src ::
  "'w udp_env \<Rightarrow> 'w ip_env \<Rightarrow> nat \<Rightarrow> nat \<Rightarrow> ip_addr_t \<Rightarrow> u16 \<Rightarrow> nat \<Rightarrow> ip_addr_t \<Rightarrow> 'w net \<Rightarrow> (err \<times> 'w net) option" where
  "udp_sendto_if_src u env pcb p dst_ip dst_port nif src_ip s =
     udp_sendto_if_src_chksum u env pcb p dst_ip dst_port nif False 0 src_ip s"

text \<open>The source address: the bound one if the interface still has it, otherwise the one of the interface.\<close>

definition udp_source :: "'w udp_env \<Rightarrow> udp_pcb \<Rightarrow> ip_addr_t \<Rightarrow> nat \<Rightarrow> 'w net \<Rightarrow> ip_addr_t option option" where
  "udp_source u c dst_ip nif s =
     (if IP_IS_V6 dst_ip then
        Some (if ip6_addr_isany (local_ip c) \<or> addr0 (local_ip c) AND lwip_htonl 0xff000000 = lwip_htonl 0xff000000
              then ip6_select_source_address u nif dst_ip s
              else if netif_get_ip6_addr_match u nif (local_ip c) s < 0 then None
              else Some (local_ip c))
      else do { n \<leftarrow> netifs s nif;
        Some (if addr0 (local_ip c) = IPADDR_ANY \<or> ip4_addr_ismulticast (addr0 (local_ip c)) then Some (ip4 (n_ip n))
              else if addr0 (local_ip c) \<noteq> n_ip n then None
              else Some (local_ip c)) })"

definition udp_sendto_if_chksum ::
  "'w udp_env \<Rightarrow> 'w ip_env \<Rightarrow> nat \<Rightarrow> nat \<Rightarrow> ip_addr_t \<Rightarrow> u16 \<Rightarrow> nat \<Rightarrow> bool \<Rightarrow> u16 \<Rightarrow> 'w net \<Rightarrow> (err \<times> 'w net) option" where
  "udp_sendto_if_chksum u env pcb p dst_ip dst_port nif have_chksum chksum s =
     do { c \<leftarrow> udp_store (udp s) pcb;
       if \<not> version_match c dst_ip then Some (ERR_VAL, s)
       else do { r \<leftarrow> udp_source u c dst_ip nif s;
         case r of
           None \<Rightarrow> Some (ERR_RTE, s)
         | Some src_ip \<Rightarrow> udp_sendto_if_src_chksum u env pcb p dst_ip dst_port nif have_chksum chksum src_ip s } }"

definition udp_sendto_if ::
  "'w udp_env \<Rightarrow> 'w ip_env \<Rightarrow> nat \<Rightarrow> nat \<Rightarrow> ip_addr_t \<Rightarrow> u16 \<Rightarrow> nat \<Rightarrow> 'w net \<Rightarrow> (err \<times> 'w net) option" where
  "udp_sendto_if u env pcb p dst_ip dst_port nif s = udp_sendto_if_chksum u env pcb p dst_ip dst_port nif False 0 s"

text \<open>The outgoing interface: the one the block is bound to, the one chosen for multicasts, or the route.\<close>

definition udp_multicast_netif :: "udp_pcb \<Rightarrow> ip_addr_t \<Rightarrow> 'w net \<Rightarrow> nat option option" where
  "udp_multicast_netif c dst_ip s =
     (if ip_addr_ismulticast dst_ip then
        if mcast_ifindex c \<noteq> NETIF_NO_INDEX then netif_get_by_index (mcast_ifindex c) s
        else if ip_type dst_ip = IPADDR_TYPE_V4 \<and> mcast_ip4 c \<noteq> IPADDR_ANY \<and> mcast_ip4 c \<noteq> IPADDR_BROADCAST
        then ip4_route (mcast_ip4 c) s
        else Some None
      else Some None)"

definition udp_netif :: "'w udp_env \<Rightarrow> udp_pcb \<Rightarrow> ip_addr_t \<Rightarrow> 'w net \<Rightarrow> nat option option" where
  "udp_netif u c dst_ip s =
     (if netif_idx c \<noteq> NETIF_NO_INDEX then netif_get_by_index (netif_idx c) s
      else do { m \<leftarrow> udp_multicast_netif c dst_ip s;
        case m of
          Some i \<Rightarrow> Some (Some i)
        | None \<Rightarrow> if IP_IS_V6 dst_ip then Some (ip6_route u (local_ip c) dst_ip s) else ip4_route (addr0 dst_ip) s })"

definition udp_sendto_chksum ::
  "'w udp_env \<Rightarrow> 'w ip_env \<Rightarrow> nat \<Rightarrow> nat \<Rightarrow> ip_addr_t \<Rightarrow> u16 \<Rightarrow> bool \<Rightarrow> u16 \<Rightarrow> 'w net \<Rightarrow> (err \<times> 'w net) option" where
  "udp_sendto_chksum u env pcb p dst_ip dst_port have_chksum chksum s =
     do { c \<leftarrow> udp_store (udp s) pcb;
       if \<not> version_match c dst_ip then Some (ERR_VAL, s)
       else do { r \<leftarrow> udp_netif u c dst_ip s;
         case r of
           None \<Rightarrow> Some (ERR_RTE, s)
         | Some nif \<Rightarrow> udp_sendto_if_chksum u env pcb p dst_ip dst_port nif have_chksum chksum s } }"

definition udp_sendto :: "'w udp_env \<Rightarrow> 'w ip_env \<Rightarrow> nat \<Rightarrow> nat \<Rightarrow> ip_addr_t \<Rightarrow> u16 \<Rightarrow> 'w net \<Rightarrow> (err \<times> 'w net) option" where
  "udp_sendto u env pcb p dst_ip dst_port s = udp_sendto_chksum u env pcb p dst_ip dst_port False 0 s"

definition udp_send_chksum :: "'w udp_env \<Rightarrow> 'w ip_env \<Rightarrow> nat \<Rightarrow> nat \<Rightarrow> bool \<Rightarrow> u16 \<Rightarrow> 'w net \<Rightarrow> (err \<times> 'w net) option" where
  "udp_send_chksum u env pcb p have_chksum chksum s =
     do { c \<leftarrow> udp_store (udp s) pcb;
       if ip_type (remote_ip c) = IPADDR_TYPE_ANY then Some (ERR_VAL, s)
       else udp_sendto_chksum u env pcb p (remote_ip c) (remote_port c) have_chksum chksum s }"

definition udp_send :: "'w udp_env \<Rightarrow> 'w ip_env \<Rightarrow> nat \<Rightarrow> nat \<Rightarrow> 'w net \<Rightarrow> (err \<times> 'w net) option" where
  "udp_send u env pcb p s =
     do { c \<leftarrow> udp_store (udp s) pcb;
       if ip_type (remote_ip c) = IPADDR_TYPE_ANY then Some (ERR_VAL, s)
       else udp_sendto u env pcb p (remote_ip c) (remote_port c) s }"

section \<open>The datagram\<close>

text \<open>The datagram for the data \<open>bs\<close>; \<open>chk\<close> is the checksum field.\<close>

definition udp_header :: "u16 \<Rightarrow> u16 \<Rightarrow> nat \<Rightarrow> u16 \<Rightarrow> bytes" where
  "udp_header sport dport n chk = store16 (lwip_htons sport) @ store16 (lwip_htons dport) @ store16 (lwip_htons (of_nat n)) @ store16 chk"

definition udp_chksum_field :: "u32 \<Rightarrow> u32 \<Rightarrow> u16 \<Rightarrow> u16 \<Rightarrow> bytes \<Rightarrow> u16" where
  "udp_chksum_field src dest sport dport bs =
     (let n = UDP_HLEN + length bs;
          k = inet_chksum False (pseudo_header src dest IP_PROTO_UDP (of_nat n) @ udp_header sport dport n 0 @ bs)
      in if k = 0 then 0xffff else k)"

definition udp_message :: "u32 \<Rightarrow> u32 \<Rightarrow> u16 \<Rightarrow> u16 \<Rightarrow> bytes \<Rightarrow> bytes" where
  "udp_message src dest sport dport bs =
     udp_header sport dport (UDP_HLEN + length bs) (udp_chksum_field src dest sport dport bs) @ bs"

lemma length_udp_header [simp]: "length (udp_header sport dport n chk) = UDP_HLEN"
  by (simp add: udp_header_def UDP_HLEN_def)

lemma length_udp_message [simp]: "length (udp_message src dest sport dport bs) = UDP_HLEN + length bs"
  by (simp add: udp_message_def)

lemma length_pseudo_header [simp]: "length (pseudo_header src dest proto n) = 12"
  by (simp add: pseudo_header_def)

lemma udp_field_not_0: "udp_chksum_field src dest sport dport bs \<noteq> 0"
  by (simp add: udp_chksum_field_def Let_def)

lemma udp_header_split:
  "pseudo_header src dest proto m @ udp_header sport dport n chk @ bs =
    (pseudo_header src dest proto m @ take 6 (udp_header sport dport n 0)) @ [ucast chk, ucast (drop_bit 8 chk)] @ bs"
  by (simp add: udp_header_def store16_def)

text \<open>The checksum that a receiver recomputes is zero, also where 0 was replaced by 0xffff.\<close>

lemma udp_message_verifies:
  assumes "length bs < 65500"
  shows "inet_chksum is_odd (pseudo_header src dest IP_PROTO_UDP (of_nat (UDP_HLEN + length bs)) @ udp_message src dest sport dport bs) = 0"
proof -
  let ?n = "UDP_HLEN + length bs"
  let ?pre = "pseudo_header src dest IP_PROTO_UDP (of_nat ?n) @ take 6 (udp_header sport dport ?n 0)"
  let ?k = "inet_chksum False (?pre @ [0, 0] @ bs)"
  have e: "even (length ?pre)" by (simp add: UDP_HLEN_def)
  have l: "length (?pre @ [0, 0] @ bs) < 65536" using assms by (simp add: UDP_HLEN_def)
  have z: "pseudo_header src dest IP_PROTO_UDP (of_nat ?n) @ udp_header sport dport ?n 0 @ bs = ?pre @ [0, 0] @ bs"
    using udp_header_split [of src dest IP_PROTO_UDP "of_nat ?n" sport dport ?n 0 bs] by simp
  have f: "udp_chksum_field src dest sport dport bs = (if ?k = 0 then 0xffff else ?k)"
    by (simp only: udp_chksum_field_def Let_def z)
  have m: "pseudo_header src dest IP_PROTO_UDP (of_nat ?n) @ udp_message src dest sport dport bs
      = ?pre @ [ucast (udp_chksum_field src dest sport dport bs), ucast (drop_bit 8 (udp_chksum_field src dest sport dport bs))] @ bs"
    unfolding udp_message_def by (rule udp_header_split)
  show ?thesis
  proof (cases "?k = 0")
    case False
    then show ?thesis unfolding m f using stored_chksum [OF e l refl, of is_odd] by simp
  next
    case True
    have s: "norm (le_sum (?pre @ [0, 0] @ bs)) = 65535" using unat_inet_chksum [OF l, of False] norm_le [of "le_sum (?pre @ [0, 0] @ bs)"]
      unfolding True by (simp del: append_assoc)
    have b: "ucast (0xffff :: u16) = (0xff :: u8)" "ucast (drop_bit 8 (0xffff :: u16)) = (0xff :: u8)"
      by (simp_all add: drop_bit_numeral_minus_bit0)
    have "le_sum (?pre @ [0xff, 0xff] @ bs) = le_sum (?pre @ [0, 0] @ bs) + 65535"
      by (simp only: le_sum_even [OF e]) simp
    then have "norm (le_sum (?pre @ [0xff, 0xff] @ bs)) = 65535" using norm_add_left [of "le_sum (?pre @ [0, 0] @ bs)" 65535] s
      by (simp add: norm_def del: append_assoc)
    then have "unat (inet_chksum is_odd (?pre @ [0xff, 0xff] @ bs)) = 0"
      using unat_inet_chksum [of "?pre @ [0xff, 0xff] @ bs" is_odd] l by simp
    then show ?thesis unfolding m f using True b by (simp only: unat_eq_0 if_True refl)
  qed
qed

section \<open>Sending\<close>

lemma blit_append_left: "off + length bs \<le> length a \<Longrightarrow> blit (a @ r) off bs = blit a off bs @ r"
  by (simp add: blit_def)

text \<open>A store into the first cell of a packet.\<close>

lemma store_front:
  assumes "room_for m p ps h" and "cells h p = Some c" and "off + length bs \<le> len c"
  shows "\<exists>c'. wr c off bs = Some c' \<and> flags c' = flags c \<and> tot_len c' = tot_len c \<and> len c' = len c \<and> room_for m p ps (put p c' h)
    \<and> contents (put p c' h) (p # ps) = blit (contents h (p # ps)) off bs"
proof -
  from assms(1,2) have c: "cell_ok c" "tot_len c = len c + plen h ps" "packet h (nxt c) ps" "p \<notin> set ps"
    unfolding room_for_def using packet_distinct by fastforce+
  from wr_ok [OF c(1) assms(3)] obtain c' where
    c': "wr c off bs = Some c'" "cell_ok c'" "c' = c\<lparr>area := area c'\<rparr>" "data_of c' = blit (data_of c) off bs" by blast
  have f: "len c' = len c" "tot_len c' = tot_len c" "nxt c' = nxt c" "ref c' = ref c" "type_internal c' = type_internal c"
    "flags c' = flags c" "payload c' = payload c"
    using arg_cong [OF c'(3), of len] arg_cong [OF c'(3), of tot_len] arg_cong [OF c'(3), of nxt] arg_cong [OF c'(3), of ref]
      arg_cong [OF c'(3), of type_internal] arg_cong [OF c'(3), of flags] arg_cong [OF c'(3), of payload] by simp_all
  have same: "same_on ps h (put p c' h)" using c(4) by simp
  have "room_for m p ps (put p c' h)"
    using assms(1,2) c'(2) f packet_frame [OF same c(3)] plen_frame [OF same] by (simp add: room_for_def)
  moreover have "contents (put p c' h) (p # ps) = blit (contents h (p # ps)) off bs"
    using c'(4) assms(2,3) c(1) contents_frame [OF same] by (simp add: blit_append_left cell_ok_def)
  ultimately show ?thesis using c'(1) f by blast
qed

lemma udp_stores_data:
  "UDP_HLEN \<le> length d \<Longrightarrow>
    foldl (\<lambda>d (off, bs). blit d off bs) d
      [(0, store16 (lwip_htons sport)), (2, store16 (lwip_htons dport)), (6, store16 0), (4, store16 (lwip_htons (of_nat n)))]
    = udp_header sport dport n 0 @ drop UDP_HLEN d"
  by (simp add: UDP_HLEN_def udp_header_def blit_def store16_def drop_take)

lemma blit_udp_chksum: "blit (udp_header sport dport n 0 @ bs) 6 (store16 k) = udp_header sport dport n k @ bs"
  by (simp add: udp_header_def blit_def store16_def)

lemma udp_output_sends:
  assumes room: "room_for (UDP_HLEN + (IP_HLEN + m)) p ps (pbufs s)" and n: "netifs s nif = Some n" "dest \<noteq> n_ip n"
    and c: "cells (pbufs s) p = Some c" "flags c AND PBUF_FLAG_MCASTLOOP = 0"
    and mtu: "n_mtu n = 0 \<or> plen (pbufs s) (p # ps) + UDP_HLEN + IP_HLEN \<le> n_mtu n" and l: "plen (pbufs s) (p # ps) < 65500"
    and b: "\<not> ip4_addr_ismulticast dest" "u_flags b AND UDP_FLAGS_NOCHKSUM = 0"
  shows "\<exists>h1 h. udp_header_packet p (pbufs s) = Some (Some p, h1)
    \<and> udp_fill_send u env b p (ip4 dest) dport nif False 0 (ip4 src) (s\<lparr>pbufs := h1\<rparr>)
       = netif_output env nif p dest (s\<lparr>pbufs := h, ip_id := ip_id s + 1\<rparr>)
    \<and> room_for m p ps h \<and> plen h (p # ps) = IP_HLEN + (UDP_HLEN + plen (pbufs s) (p # ps)) \<and> IP_HLEN \<le> len (the (cells h p))
    \<and> contents h (p # ps) = ip4_datagram src dest (u_ttl b) (u_tos b) IP_PROTO_UDP (ip_id s)
        (udp_message src dest (local_port b) dport (contents (pbufs s) (p # ps)))"
proof -
  let ?h = "pbufs s" and ?bs = "contents (pbufs s) (p # ps)"
  let ?ws = "\<lambda>l. [(0, store16 (lwip_htons (local_port b))), (2, store16 (lwip_htons dport)), (6, store16 0), (4, store16 (lwip_htons (of_nat l)))]"
  let ?hdr = "\<lambda>l. udp_header (local_port b) dport l 0"
  have pk: "packet ?h (Some p) (p # ps)" using room by (simp add: room_for_def)
  have lb: "length ?bs = plen ?h (p # ps)" by (rule length_contents [OF pk])
  have ws: "\<forall>(off, bs) \<in> set (?ws l). off + length bs \<le> UDP_HLEN" for l by (simp add: UDP_HLEN_def)
  have st: "foldl (\<lambda>d (off, bs). blit d off bs) d (?ws l) = ?hdr l @ drop UDP_HLEN d" if "UDP_HLEN \<le> length d" for l d
    by (rule udp_stores_data [OF that])
  have "0 < UDP_HLEN" by (simp add: UDP_HLEN_def)
  from put_header [where ws = ?ws and hdr = ?hdr, OF room this ws st] obtain c1 c2 where
    c1: "pbuf_add_header p UDP_HLEN ?h = Some (0, put p c1 ?h)" "len c1 = len c + UDP_HLEN" "tot_len c1 = plen ?h (p # ps) + UDP_HLEN"
    and c2: "wr_all (?ws (tot_len c1)) c1 = Some c2" "flags c2 = flags c" "tot_len c2 = tot_len c1" "len c2 = len c1"
      "room_for (IP_HLEN + m) p ps (put p c2 ?h)" "contents (put p c2 ?h) (p # ps) = ?hdr (tot_len c1) @ ?bs"
    unfolding c(1) option.inject by blast
  have t: "tot_len c1 = UDP_HLEN + length ?bs" using c1(3) lb by simp
  let ?h2 = "put p c2 ?h"
  have pk2: "packet ?h2 (Some p) (p # ps)" using c2(5) by (simp add: room_for_def)
  let ?f = "udp_chksum_field src dest (local_port b) dport ?bs"
  have "inet_chksum_pseudo (payload_odd env ?h2) (Some p) IP_PROTO_UDP (of_nat (tot_len c2)) src dest ?h2
      = Some (inet_chksum False (pseudo_header src dest IP_PROTO_UDP (of_nat (tot_len c2)) @ ?hdr (tot_len c1) @ ?bs))"
    using pseudo_chksum [OF pk2, of "payload_odd env ?h2" IP_PROTO_UDP "of_nat (tot_len c2)" src dest False] l lb
    unfolding c2(6) by (simp add: UDP_HLEN_def)
  then have k: "udp_gen_chksum env p (tot_len c2) (ip4 src) (ip4 dest) False 0 ?h2 = Some ?f"
    unfolding udp_gen_chksum_def udp_pseudo_def udp_chksum_field_def Let_def c2(3) t by (simp add: ip4_def IP_IS_V6_def)
  have "6 + length (store16 ?f) \<le> len c2" using c2(4) c1(2) by (simp add: UDP_HLEN_def)
  from store_front [OF c2(5) _ this] obtain c3 where
    c3: "wr c2 6 (store16 ?f) = Some c3" "flags c3 = flags c2" "tot_len c3 = tot_len c2" "len c3 = len c2" "room_for (IP_HLEN + m) p ps (put p c3 ?h2)"
      "contents (put p c3 ?h2) (p # ps) = blit (?hdr (tot_len c1) @ ?bs) 6 (store16 ?f)"
    unfolding c2(6) by auto
  have msg: "contents (put p c3 ?h2) (p # ps) = udp_message src dest (local_port b) dport ?bs"
    unfolding c3(6) blit_udp_chksum udp_message_def t ..
  let ?s3 = "s\<lparr>pbufs := put p c3 ?h2\<rparr>"
  have l3: "plen (pbufs ?s3) (p # ps) = UDP_HLEN + plen ?h (p # ps)"
    using c3(5) lb length_contents [of "pbufs ?s3" "Some p" "p # ps"] msg by (simp add: room_for_def del: plen_simps contents_simps)
  have m3: "flags c3 AND PBUF_FLAG_MCASTLOOP = 0" "n_mtu n = 0 \<or> plen (pbufs ?s3) (p # ps) + IP_HLEN \<le> n_mtu n"
    using c(2) c2(2) c3(2) mtu l3 by (simp_all del: plen_simps add: add.commute add.left_commute)
  have r3: "room_for (IP_HLEN + m) p ps (pbufs ?s3)" "netifs ?s3 nif = Some n" "cells (pbufs ?s3) p = Some c3" using c3(5) n by simp_all
  from output_if_src_sends [OF r3(1,2) n(2) r3(3) m3, of env src "u_ttl b" "u_tos b" IP_PROTO_UDP] obtain h where
    h: "ip4_output_if_src env p (Some src) (Some dest) (u_ttl b) (u_tos b) IP_PROTO_UDP nif ?s3
        = netif_output env nif p dest (?s3\<lparr>pbufs := h, ip_id := ip_id ?s3 + 1\<rparr>)"
      "room_for m p ps h" "plen h (p # ps) = IP_HLEN + plen (pbufs ?s3) (p # ps)" "IP_HLEN \<le> len (the (cells h p))"
      "contents h (p # ps) = ip4_datagram src dest (u_ttl b) (u_tos b) IP_PROTO_UDP (ip_id ?s3) (contents (pbufs ?s3) (p # ps))" by blast
  have "udp_header_packet p ?h = Some (Some p, put p c1 ?h)" using c(1) c1(1) by (simp add: udp_header_packet_def)
  moreover have "udp_fill_send u env b p (ip4 dest) dport nif False 0 (ip4 src) (s\<lparr>pbufs := put p c1 ?h\<rparr>)
      = ip4_output_if_src env p (Some src) (Some dest) (u_ttl b) (u_tos b) IP_PROTO_UDP nif ?s3"
    using c1(2) c2(1) k c3(1) b
    by (simp add: udp_fill_send_def put_put Let_def ip_addr_ismulticast_def ip4_def [of dest] IP_IS_V6_def del: wr_all.simps) (simp add: ip4_def)
  ultimately show ?thesis using h l3 msg by (auto simp del: plen_simps contents_simps)
qed

text \<open>A bound block whose datagrams leave from the address \<open>me\<close> of the routed interface.\<close>

definition sends_from :: "udp_pcb \<Rightarrow> u32 \<Rightarrow> bool" where
  "sends_from b me \<longleftrightarrow> local_port b \<noteq> 0 \<and> netif_idx b = NETIF_NO_INDEX \<and> u_flags b AND UDP_FLAGS_NOCHKSUM = 0
     \<and> (local_ip b = ip4 0 \<or> local_ip b = IP_ANY_TYPE \<or> local_ip b = ip4 me)"

lemma udp_sendto_eq:
  assumes "udp_store (udp s) pcb = Some b" and "sends_from b (n_ip n)" and "netifs s nif = Some n" and "ip4_route dest s = Some (Some nif)"
    and "\<not> ip4_addr_ismulticast dest" and "cells (pbufs s) p = Some c" and "tot_len c < 65500" and "udp_header_packet p (pbufs s) = Some (Some p, h)"
    and "udp_fill_send u env b p (ip4 dest) dport nif False 0 (ip4 (n_ip n)) (s\<lparr>pbufs := h\<rparr>) = Some (err, t)"
  shows "udp_sendto u env pcb p (ip4 dest) dport s = Some (err, t)"
proof -
  have v: "version_match b (ip4 a)" for a using assms(2) by (auto simp: sends_from_def version_match_def ip4_def IP_ANY_TYPE_def)
  have d: "\<not> IP_IS_V6 (ip4 dest)" "\<not> ip_addr_ismulticast (ip4 dest)" "addr0 (ip4 dest) = dest"
    using assms(5) by (simp_all add: IP_IS_V6_def ip4_def ip_addr_ismulticast_def)
  have "udp_netif u b (ip4 dest) s = Some (Some nif)"
    using assms(2,4) d by (simp add: udp_netif_def udp_multicast_netif_def sends_from_def)
  moreover have "udp_source u b (ip4 dest) nif s = Some (Some (ip4 (n_ip n)))"
    using assms(2,3) d by (auto simp: udp_source_def sends_from_def ip4_def IP_ANY_TYPE_def IPADDR_ANY_def)
  moreover have "udp_sendto_if_src_chksum u env pcb p (ip4 dest) dport nif False 0 (ip4 (n_ip n)) s = Some (err, t)"
    using assms(1,2,6-9) v by (simp add: udp_sendto_if_src_chksum_def sends_from_def UDP_HLEN_def u16_def)
  ultimately show ?thesis
    using assms(1) v by (simp add: udp_sendto_def udp_sendto_chksum_def udp_sendto_if_chksum_def)
qed

context ether_driver
begin

lemma udp_sends:
  assumes b: "udp_store (udp s) pcb = Some b" "sends_from b (n_ip n)"
    and n: "netifs s nif = Some n" "ether_netif n" "ip4_route dest s = Some (Some nif)"
    and dest: "dest \<noteq> n_ip n" "host_addr n dest" "hop_of n (n_ip n) dest = Some hop" and r: "resolved nif hop mac s"
    and room: "room_for (UDP_HLEN + (IP_HLEN + 14)) p ps (pbufs s)"
    and c: "cells (pbufs s) p = Some c" "flags c AND PBUF_FLAG_MCASTLOOP = 0"
    and mtu: "n_mtu n = 0 \<or> plen (pbufs s) (p # ps) + UDP_HLEN + IP_HLEN \<le> n_mtu n"
    and d: "ready (driver s)" "plen (pbufs s) (p # ps) + 42 \<le> max_frame" "max_frame < 65000" and env: "netif_output env = etharp_output lo"
  shows "\<exists>t. udp_sendto u env pcb p (ip4 dest) dport s = Some (ERR_OK, t) \<and> ready (driver t) \<and> udp t = udp s \<and> ip_id t = ip_id s + 1
    \<and> line (driver t) = line (driver s) @ encode (eth_frame mac (n_hwaddr n) ETHTYPE_IP
        (ip4_datagram (n_ip n) dest (u_ttl b) (u_tos b) IP_PROTO_UDP (ip_id s)
          (udp_message (n_ip n) dest (local_port b) dport (contents (pbufs s) (p # ps)))))"
proof -
  let ?me = "n_ip n"
  let ?msg = "udp_message ?me dest (local_port b) dport (contents (pbufs s) (p # ps))"
  let ?dg = "ip4_datagram ?me dest (u_ttl b) (u_tos b) IP_PROTO_UDP (ip_id s) ?msg"
  have small: "plen (pbufs s) (p # ps) < 65500" using d(2,3) by simp
  have nm: "\<not> ip4_addr_ismulticast dest" using dest(2) by (simp add: host_addr_def)
  from udp_output_sends [OF room n(1) dest(1) c mtu small nm, of b u env dport ?me] b(2) obtain h1 h where
    h1: "udp_header_packet p (pbufs s) = Some (Some p, h1)"
    and h: "udp_fill_send u env b p (ip4 dest) dport nif False 0 (ip4 ?me) (s\<lparr>pbufs := h1\<rparr>)
        = etharp_output lo nif p dest (s\<lparr>pbufs := h, ip_id := ip_id s + 1\<rparr>)"
      "room_for 14 p ps h" "plen h (p # ps) = IP_HLEN + (UDP_HLEN + plen (pbufs s) (p # ps))" "IP_HLEN \<le> len (the (cells h p))"
      "contents h (p # ps) = ?dg"
    unfolding sends_from_def env by blast
  let ?s = "s\<lparr>pbufs := h, ip_id := ip_id s + 1\<rparr>"
  from h(2) obtain c' where pk: "packet (pbufs ?s) (Some p) (p # ps)" "cells (pbufs ?s) p = Some c'" by (auto simp: room_for_def)
  have "take 20 (contents (pbufs ?s) (p # ps)) = take 20 ?dg" using h(5) by simp
  moreover have "take 4 (drop 12 (take 20 ?dg)) = octets ?me"
    by (simp add: ip4_datagram_def Let_def ip4_header_def store16_def octets_def)
  ultimately have src: "iphdr_src p ?s = Some ?me" using iphdr_src_read [OF pk(1) _ _ pk(2)] h(4) pk(2) by (simp add: IP_HLEN_def)
  have l: "plen (pbufs ?s) (p # ps) + 14 \<le> max_frame" using h(3) d(2) by (simp add: IP_HLEN_def UDP_HLEN_def del: plen_simps)
  have rs: "resolved nif hop mac ?s" using r by (simp add: resolved_def arp_ok_def)
  have n': "netifs ?s nif = Some n" "room_for 14 p ps (pbufs ?s)" "ready (driver ?s)" using n(1) h(2) d(1) by simp_all
  from datagram_sends [OF n'(2) src n'(1) n(2) dest(2,3) rs n'(3) l] obtain c2 i w where
    e: "etharp_output lo nif p dest ?s = Some (ERR_OK, ?s\<lparr>etharp_cached_entry := i, pbufs := put p c2 (pbufs ?s), driver := w\<rparr>)"
    and w: "ready w" "line w = line (driver s) @ encode (eth_frame mac (n_hwaddr n) ETHTYPE_IP ?dg)"
    using h(5) by auto
  have "tot_len c < 65500" using room c(1) small by (auto simp: room_for_def)
  from udp_sendto_eq [OF b n(1,3) nm c(1) this h1 h(1) [unfolded e]] show ?thesis using w by auto
qed

end

section \<open>Receiving\<close>

text \<open>The local match for a unicast datagram to \<open>me\<close>, and which remote ends the block \<open>c\<close> takes.\<close>

definition local_match :: "netif \<Rightarrow> u32 \<Rightarrow> udp_pcb \<Rightarrow> bool" where
  "local_match n me c \<longleftrightarrow> (netif_idx c = NETIF_NO_INDEX \<or> netif_idx c = netif_get_index n)
     \<and> (ip_type (local_ip c) = IPADDR_TYPE_ANY \<or> ip_type (local_ip c) = IPADDR_TYPE_V4 \<and> (addr0 (local_ip c) = 0 \<or> addr0 (local_ip c) = me))"

definition accepts_from :: "udp_pcb \<Rightarrow> u32 \<Rightarrow> u16 \<Rightarrow> bool" where
  "accepts_from c src sport \<longleftrightarrow> u_flags c AND UDP_FLAGS_CONNECTED = 0
     \<or> remote_port c = sport \<and> (ip_addr_isany (remote_ip c) \<or> ip_addr_cmp (remote_ip c) (ip4 src))"

lemma local_match_eq:
  assumes "ip_data s = ip_current nif inp hp src me" and "netifs s inp = Some n"
  shows "udp_input_local_match c inp False s = Some (local_match n me c)"
  using assms
  by (auto simp: udp_input_local_match_def local_match_def ip_current_def ip4_def ip_addr_isany_def ip_addr_cmp_def IP_IS_V6_def
      IPADDR_ANY_def Let_def split: ip_type.splits)

text \<open>The blocks \<open>as\<close> are allocated, and none but \<open>a\<close> matches.\<close>

definition only_match :: "nat \<Rightarrow> netif \<Rightarrow> u32 \<Rightarrow> u16 \<Rightarrow> nat list \<Rightarrow> udp_state \<Rightarrow> bool" where
  "only_match a n me port as us \<longleftrightarrow>
     (\<forall>b \<in> set as. \<exists>d. udp_store us b = Some d \<and> (b \<noteq> a \<longrightarrow> \<not> (local_port d = port \<and> local_match n me d)))"

lemma find_pcb_none:
  assumes "ip_data s = ip_current nif inp hp src me" and "netifs s inp = Some n" and "only_match a n me port as (udp s)" and "a \<notin> set as"
  shows "find_pcb inp False sport port as v s = Some (None, v)"
  using assms(3,4)
proof (induction as)
  case (Cons b as)
  then obtain d where d: "udp_store (udp s) b = Some d" "\<not> (local_port d = port \<and> local_match n me d)" by (auto simp: only_match_def)
  have "find_pcb inp False sport port (b # as) v s = find_pcb inp False sport port as v s"
    using d local_match_eq [OF assms(1,2), of d] by (cases "local_port d = port") simp_all
  then show ?case using Cons by (simp add: only_match_def)
qed simp

lemma find_pcb_only:
  assumes "ip_data s = ip_current nif inp hp src me" and "netifs s inp = Some n" and "only_match a n me port as (udp s)"
    and "a \<in> set as" and "distinct as" and c: "udp_store (udp s) a = Some c" "local_port c = port" "local_match n me c" "accepts_from c src sport"
  shows "\<exists>q v. find_pcb inp False sport port as None s = Some (q, v) \<and> (q = Some a \<or> q = None \<and> v = Some a)"
  using assms(3-5)
proof (induction as)
  case (Cons b as)
  show ?case
  proof (cases "b = a")
    case True
    have r: "find_pcb inp False sport port as v s = Some (None, v)" for v
      using find_pcb_none [OF assms(1,2), of a port as sport v] Cons.prems True by (simp add: only_match_def)
    have "better_match a c inp False None s = Some (if u_flags c AND UDP_FLAGS_CONNECTED = 0 then Some a else None)"
      by (simp add: better_match_def)
    then show ?thesis
      using True c local_match_eq [OF assms(1,2), of c] assms(1) r by (auto simp: accepts_from_def ip_current_def)
  next
    case False
    then obtain d where d: "udp_store (udp s) b = Some d" "\<not> (local_port d = port \<and> local_match n me d)"
      using Cons.prems(1) by (auto simp: only_match_def)
    have "find_pcb inp False sport port (b # as) None s = find_pcb inp False sport port as None s"
      using d local_match_eq [OF assms(1,2), of d] by (cases "local_port d = port") simp_all
    then show ?thesis using Cons False by (simp add: only_match_def)
  qed
qed simp

text \<open>Since no two blocks are bound alike, a block that matches is the only one.\<close>

lemma bound_only_match:
  assumes "udp_wf us" and "a \<in> set (udp_pcbs us)" and "udp_store us a = Some c" and "local_port c = port" and "local_match n me c"
    and "\<And>b d. b \<in> set (udp_pcbs us) \<Longrightarrow> udp_store us b = Some d \<Longrightarrow> ip_type (local_ip d) = IPADDR_TYPE_ANY \<Longrightarrow> addr0 (local_ip d) = 0"
  shows "only_match a n me port (udp_pcbs us) us"
  unfolding only_match_def
proof
  fix b
  assume b: "b \<in> set (udp_pcbs us)"
  then obtain d where d: "udp_store us b = Some d" using udp_wfD(4) [OF assms(1)] by blast
  have "\<not> (local_port d = port \<and> local_match n me d)" if "b \<noteq> a"
  proof
    assume m: "local_port d = port \<and> local_match n me d"
    have "apart d c" using udp_wfD(7) [OF assms(1) b assms(2) that d assms(3)] .
    then show False
      using m assms(4,5) assms(6) [OF b d] assms(6) [OF assms(2,3)]
      by (auto simp: apart_def local_match_def ip_addr_isany_def ip_addr_cmp_def IP_IS_V6_def IPADDR_ANY_def)
  qed
  then show "\<exists>d. udp_store us b = Some d \<and> (b \<noteq> a \<longrightarrow> \<not> (local_port d = port \<and> local_match n me d))" using d by blast
qed

text \<open>Removing the first bytes of a packet that nobody else holds.\<close>

lemma header_removed:
  assumes pk: "packet h (Some p) (p # ps)" and so: "\<forall>b \<in> set (p # ps). sole h b" and c: "cells h p = Some c" "n \<le> len c" "0 < n"
    and l: "plen h (p # ps) < 65536"
  shows "\<exists>d. pbuf_remove_header p n h = Some (0, put p d h) \<and> packet (put p d h) (Some p) (p # ps)
    \<and> contents (put p d h) (p # ps) = drop n (contents h (p # ps)) \<and> (\<forall>b \<in> set (p # ps). sole (put p d h) b) \<and> area d = area c"
proof -
  from pk c(1) have c': "cell_ok c" "tot_len c = len c + plen h ps" "packet h (nxt c) ps" "p \<notin> set ps"
    using packet_distinct [OF pk] by auto
  define d where "d = c\<lparr>payload := payload c + int n, len := len c - n, tot_len := tot_len c - n\<rparr>"
  have same: "same_on ps h (put p d h)" using c'(4) by simp
  have "pbuf_remove_header p n h = Some (0, put p d h)" using c c'(2) l by (simp add: pbuf_remove_header_def d_def)
  moreover have "cell_ok d" using c'(1) c(2) by (auto simp: cell_ok_def d_def)
  then have "packet (put p d h) (Some p) (p # ps)"
    using packet_frame [OF same c'(3)] plen_frame [OF same] c'(2) c(1,2) l by (simp add: d_def)
  moreover have "0 \<le> payload c" using c'(1) by (simp add: cell_ok_def)
  then have "data_of d = drop n (data_of c)" using c(2) by (simp add: data_of_def d_def drop_take nat_add_distrib add.commute)
  then have "contents (put p d h) (p # ps) = drop n (contents h (p # ps))"
    using c contents_frame [OF same] c'(1) by simp
  moreover have "sole (put p d h) b" if "b \<in> set (p # ps)" for b using so c(1) that by (auto simp: sole_def d_def releasable_def)
  moreover have "area d = area c" by (simp add: d_def)
  ultimately show ?thesis by blast
qed

text \<open>A control block in use at \<open>a\<close> that takes datagrams from \<open>src\<close> to its port.\<close>

definition listening :: "udp_state \<Rightarrow> nat \<Rightarrow> udp_pcb \<Rightarrow> netif \<Rightarrow> u32 \<Rightarrow> u16 \<Rightarrow> bool" where
  "listening us a c n src sport \<longleftrightarrow> udp_wf us \<and> a \<in> set (udp_pcbs us) \<and> udp_store us a = Some c \<and> local_match n (n_ip n) c \<and> accepts_from c src sport
     \<and> (\<forall>b d. b \<in> set (udp_pcbs us) \<and> udp_store us b = Some d \<and> ip_type (local_ip d) = IPADDR_TYPE_ANY \<longrightarrow> addr0 (local_ip d) = 0)"

lemma listening_found:
  assumes "listening (udp s) a c n src sport" and "ip_data s = ip_current nif inp hp src (n_ip n)" and "netifs s inp = Some n"
  shows "\<exists>q v. find_pcb inp False sport (local_port c) (udp_pcbs (udp s)) None s = Some (q, v) \<and> (q = Some a \<or> q = None \<and> v = Some a)"
proof -
  have w: "udp_wf (udp s)" "a \<in> set (udp_pcbs (udp s))" "udp_store (udp s) a = Some c" "local_match n (n_ip n) c" "accepts_from c src sport"
    using assms(1) by (auto simp: listening_def)
  have "only_match a n (n_ip n) (local_port c) (udp_pcbs (udp s)) (udp s)"
    by (rule bound_only_match [OF w(1-3) refl w(4)]) (use assms(1) in \<open>auto simp: listening_def\<close>)
  from find_pcb_only [OF assms(2,3) this w(2) udp_wfD(1) [OF w(1)] w(3) refl w(4,5)] show ?thesis .
qed

lemma udp_message_fields:
  "take 4 (udp_message src dest sport dport bs) = store16 (lwip_htons sport) @ store16 (lwip_htons dport)"
  "take 2 (drop 6 (udp_message src dest sport dport bs)) = store16 (udp_chksum_field src dest sport dport bs)"
  "drop UDP_HLEN (udp_message src dest sport dport bs) = bs"
  by (simp_all add: udp_message_def udp_header_def UDP_HLEN_def)

lemma le16_2_store16: "le16 ((store16 a @ store16 b) ! 2) ((store16 a @ store16 b) ! 3) = b"
  "le16 ((store16 a @ store16 b) ! 0) ((store16 a @ store16 b) ! 1) = a"
  using le16_store16 [of a] le16_store16 [of b] by (simp_all add: nth_append numeral_2_eq_2 numeral_3_eq_3)

lemma udp_input_delivers:
  assumes rec: "ip_received p ps hdr (udp_message src (n_ip n) sport (local_port c) bs) (pbufs s)" "UDP_HLEN \<le> len (the (cells (pbufs s) p))"
    and ipd: "ip_data s = ip_current nif nif hp src (n_ip n)" and n: "netifs s nif = Some n" "host_addr n (n_ip n)" and l: "length bs < 65400"
    and a: "listening (udp s) a c n src sport" "recv c = Some f"
  shows "\<exists>h us. udp_input u env p nif s = recv_fn u f (recv_arg c) a p (ip4 src) sport (s\<lparr>udp := us, pbufs := h\<rparr>)
    \<and> (us = udp s \<or> us = udp_to_front a (udp s)) \<and> packet h (Some p) (p # ps) \<and> contents h (p # ps) = bs \<and> (\<forall>b \<in> set (p # ps). sole h b)"
proof -
  let ?m = "udp_message src (n_ip n) sport (local_port c) bs" and ?h = "pbufs s"
  from rec obtain d where d: "cells ?h p = Some d" "UDP_HLEN \<le> len d" by (auto simp: ip_received_def)
  have pk: "packet ?h (Some p) (p # ps)" and so: "\<forall>b \<in> set (p # ps). sole ?h b" and m: "contents ?h (p # ps) = ?m"
    using rec(1) by (simp_all add: ip_received_def)
  have ok: "cell_ok d" "tot_len d = UDP_HLEN + length bs"
    using pk d(1) packet_tot_len [OF pk d(1)] unfolding m by auto
  have pre: "take k (drop j (data_of d)) = take k (drop j ?m)" if "j + k \<le> UDP_HLEN" for j k
  proof -
    have "?m = data_of d @ contents ?h ps" using m d(1) by simp
    moreover have "length (data_of d) = len d" using ok(1) by simp
    ultimately show ?thesis using that d(2) by simp
  qed
  have r1: "rd d 0 4 = Some (store16 (lwip_htons sport) @ store16 (lwip_htons (local_port c)))"
    using rd_ok [OF ok(1), of 0 4] d(2) pre [of 0 4] by (simp add: UDP_HLEN_def udp_message_fields)
  have r2: "rd d 6 2 = Some (store16 (udp_chksum_field src (n_ip n) sport (local_port c) bs))"
    using rd_ok [OF ok(1), of 6 2] d(2) pre [of 6 2] by (simp add: UDP_HLEN_def udp_message_fields)
  have chk: "inet_chksum_pseudo z (Some p) IP_PROTO_UDP (of_nat (tot_len d)) src (n_ip n) ?h = Some 0" for z
    using pseudo_chksum [OF pk, of z IP_PROTO_UDP "of_nat (tot_len d)" src "n_ip n" False] udp_message_verifies [of bs False src "n_ip n" sport "local_port c"] l
    unfolding m ok(2) by (simp add: UDP_HLEN_def)
  have plen: "plen ?h (p # ps) < 65536" using length_contents [OF pk] l unfolding m by (simp add: UDP_HLEN_def del: plen_simps)
  have pos: "0 < UDP_HLEN" by (simp add: UDP_HLEN_def)
  from header_removed [OF pk so d pos plen] obtain e where
    e: "pbuf_remove_header p UDP_HLEN ?h = Some (0, put p e ?h)" "packet (put p e ?h) (Some p) (p # ps)" "contents (put p e ?h) (p # ps) = bs"
      "\<forall>b \<in> set (p # ps). sole (put p e ?h) b"
    unfolding m udp_message_fields by blast
  have deliver: "udp_checked u env p nif False sport (Some a) (s\<lparr>udp := us\<rparr>)
      = recv_fn u f (recv_arg c) a p (ip4 src) sport (s\<lparr>udp := us, pbufs := put p e ?h\<rparr>)" if "udp_store us a = Some c" for us
    using that n(1) d(1) r2 chk e(1) a(2) ipd le16_store16 udp_field_not_0 [of src "n_ip n" sport "local_port c" bs]
    by (simp add: udp_checked_def udp_deliver_def ip_current_def)
  have st: "udp_store (udp s) a = Some c" using a(1) by (simp add: listening_def)
  from listening_found [OF a(1) ipd n(1)] obtain q v where
    q: "find_pcb nif False sport (local_port c) (udp_pcbs (udp s)) None s = Some (q, v)" "q = Some a \<or> q = None \<and> v = Some a" by blast
  have i: "udp_input u env p nif s = (case q of Some x \<Rightarrow> udp_checked u env p nif False sport (Some x) (s\<lparr>udp := udp_to_front x (udp s)\<rparr>)
      | None \<Rightarrow> udp_checked u env p nif False sport v s)"
    using d r1 n ipd q(1)
    by (cases q) (simp_all add: udp_input_def ip_current_def le16_2_store16 [unfolded One_nat_def] host_addr_def Let_def lwip_htons_involution)
  show ?thesis
  proof (cases q)
    case (Some x)
    then have "udp_input u env p nif s = recv_fn u f (recv_arg c) a p (ip4 src) sport (s\<lparr>udp := udp_to_front a (udp s), pbufs := put p e ?h\<rparr>)"
      using i q(2) deliver [of "udp_to_front a (udp s)"] st by (simp add: udp_to_front_def)
    then show ?thesis using e(2-4) by blast
  next
    case None
    then have "udp_input u env p nif s = recv_fn u f (recv_arg c) a p (ip4 src) sport (s\<lparr>udp := udp s, pbufs := put p e ?h\<rparr>)"
      using i q(2) deliver [OF st] by simp
    then show ?thesis using e(2-4) by blast
  qed
qed

text \<open>
  C3. A datagram given to \<open>udp_sendto\<close> on a bound block, for a host whose route and hardware address are
  known, leaves at once as one frame on the serial line: UDP and IPv4 headers with the ports,
  addresses and lengths of the call and checksums that verify, and behind them the data.
\<close>

theorem udp_datagram_sent:
  assumes "udp_store (udp s) pcb = Some b" and "sends_from b (n_ip n)"
    and "netifs s nif = Some n" and "ether_netif n" and "ip4_route dest s = Some (Some nif)"
    and "dest \<noteq> n_ip n" and "host_addr n dest" and "hop_of n (n_ip n) dest = Some hop" and "resolved nif hop mac s"
    and "room_for (UDP_HLEN + (IP_HLEN + 14)) p ps (pbufs s)"
    and "cells (pbufs s) p = Some c" and "flags c AND PBUF_FLAG_MCASTLOOP = 0"
    and "n_mtu n = 0 \<or> plen (pbufs s) (p # ps) + UDP_HLEN + IP_HLEN \<le> n_mtu n"
    and "host_ready (driver s)" and "plen (pbufs s) (p # ps) + 42 \<le> BUF_SIZE - 2" and "netif_output env = etharp_output (host_linkoutput tty_write)"
  shows "\<exists>t. udp_sendto u env pcb p (ip4 dest) dport s = Some (ERR_OK, t) \<and> host_ready (driver t) \<and> udp t = udp s
    \<and> host_line (driver t) = host_line (driver s) @ host_encode tty_write (eth_frame mac (n_hwaddr n) ETHTYPE_IP
        (ip4_datagram (n_ip n) dest (u_ttl b) (u_tos b) IP_PROTO_UDP (ip_id s)
          (udp_message (n_ip n) dest (local_port b) dport (contents (pbufs s) (p # ps)))))
    \<and> inet_chksum False (pseudo_header (n_ip n) dest IP_PROTO_UDP (of_nat (UDP_HLEN + plen (pbufs s) (p # ps)))
        @ udp_message (n_ip n) dest (local_port b) dport (contents (pbufs s) (p # ps))) = 0"
proof -
  have m: "BUF_SIZE - 2 < 65000" by (simp add: BUF_SIZE_def)
  have l: "length (contents (pbufs s) (p # ps)) = plen (pbufs s) (p # ps)"
    using assms(10) length_contents by (simp add: room_for_def del: contents_simps plen_simps)
  have "plen (pbufs s) (p # ps) < 65500" using assms(15) m by simp
  then have "inet_chksum False (pseudo_header (n_ip n) dest IP_PROTO_UDP (of_nat (UDP_HLEN + plen (pbufs s) (p # ps)))
        @ udp_message (n_ip n) dest (local_port b) dport (contents (pbufs s) (p # ps))) = 0"
    using udp_message_verifies [of "contents (pbufs s) (p # ps)"] unfolding l by blast
  then show ?thesis using host_driver.udp_sends [OF assms(1-15) m assms(16), of u dport] by blast
qed

text \<open>
  C2. A frame with such a datagram for this host, in however many buffers and with whatever padding, is
  handed to the callback of the block bound to its port, once, with the address and port of the
  sender and a packet that holds exactly the data and belongs to the callback alone. When the callback
  returns, the globals of the IP layer are reset.
\<close>

theorem udp_datagram_received:
  assumes "netifs s nif = Some n" and "n_flags n AND NETIF_FLAG_ETHARP \<noteq> 0" and "for_us n src (n_ip n)" and "host_addr n (n_ip n)"
    and "packet (pbufs s) (Some p) (p # ps)" and "\<forall>b \<in> set (p # ps). sole (pbufs s) b" and "length d = ETH_HWADDR_LEN" and "length sa = ETH_HWADDR_LEN"
    and "contents (pbufs s) (p # ps) = eth_frame d sa ETHTYPE_IP
        (ip4_datagram src (n_ip n) ttl tos IP_PROTO_UDP ident (udp_message src (n_ip n) sport (local_port c) bs) @ pad)"
    and "cells (pbufs s) p = Some e" and "42 \<le> len e" and "type_internal e AND FLAG_CONTIGUOUS \<noteq> 0" and "flags e AND PBUF_FLAG_MCASTLOOP = 0"
    and "length bs < 65400" and "listening (udp s) a c n src sport" and "recv c = Some f" and "ip_env.udp_input env = udp_input u env'"
  shows "\<exists>ps' h us hp. ethernet_input lo ar dr (\<lambda>p nif s. map_option snd (ip4_input env p nif s)) i6 p nif s
      = map_option (\<lambda>t. (ERR_OK, t\<lparr>ip_data := ip_idle\<rparr>)) (recv_fn u f (recv_arg c) a p (ip4 src) sport
          (s\<lparr>ip_data := ip_current nif nif hp src (n_ip n), udp := us, pbufs := h\<rparr>))
    \<and> (us = udp s \<or> us = udp_to_front a (udp s))
    \<and> packet h (Some p) (p # ps') \<and> contents h (p # ps') = bs \<and> (\<forall>b \<in> set (p # ps'). sole h b)"
proof -
  let ?body = "udp_message src (n_ip n) sport (local_port c) bs" and ?n = "IP_HLEN + length (udp_message src (n_ip n) sport (local_port c) bs)"
  let ?hdr = "ip4_header (inet_chksum False (ip4_header 0 src (n_ip n) ttl tos IP_PROTO_UDP (of_nat ?n) ident)) src (n_ip n) ttl tos IP_PROTO_UDP (of_nat ?n) ident"
  have v: "valid_header ?hdr src (n_ip n) IP_PROTO_UDP (20 + length ?body)"
    using valid_ip4_header [OF refl, of ?n] assms(14) by (simp add: IP_HLEN_def UDP_HLEN_def)
  have f: "contents (pbufs s) (p # ps) = eth_frame d sa ETHTYPE_IP ((?hdr @ ?body) @ pad)"
    using assms(9) by (simp add: ip4_datagram_def Let_def del: contents_simps)
  have k: "34 + UDP_HLEN \<le> len e" "4 \<le> UDP_HLEN" "UDP_HLEN \<le> length ?body" "length ?body + 34 < 65536"
    using assms(11,14) by (simp_all add: UDP_HLEN_def)
  from ip_frame_delivers [OF assms(1-3,5-8) f assms(10) k(1) assms(12,13) v k(2-4), of lo ar dr env i6] obtain ps' h hp where
    i: "ethernet_input lo ar dr (\<lambda>p nif s. map_option snd (ip4_input env p nif s)) i6 p nif s
        = map_option (\<lambda>t. (ERR_OK, t\<lparr>ip_data := ip_idle\<rparr>)) (input_proto env p nif nif 20 IP_PROTO_UDP (s\<lparr>ip_data := ip_current nif nif hp src (n_ip n), pbufs := h\<rparr>))"
      "ip_received p ps' ?hdr ?body h" "UDP_HLEN \<le> len (the (cells h p))" by blast
  let ?t = "s\<lparr>ip_data := ip_current nif nif hp src (n_ip n), pbufs := h\<rparr>"
  have t: "ip_received p ps' ?hdr ?body (pbufs ?t)" "UDP_HLEN \<le> len (the (cells (pbufs ?t) p))" "ip_data ?t = ip_current nif nif hp src (n_ip n)"
    "netifs ?t nif = Some n" "listening (udp ?t) a c n src sport"
    using i(2,3) assms(1,15) by simp_all
  have ip: "input_proto env p nif nif 20 IP_PROTO_UDP ?t = udp_input u env' p nif ?t" using assms(17) by (simp add: input_proto_def)
  obtain h' us where
    o: "udp_input u env' p nif ?t = recv_fn u f (recv_arg c) a p (ip4 src) sport (?t\<lparr>udp := us, pbufs := h'\<rparr>)"
      "us = udp ?t \<or> us = udp_to_front a (udp ?t)" "packet h' (Some p) (p # ps')" "contents h' (p # ps') = bs" "\<forall>b \<in> set (p # ps'). sole h' b"
    using udp_input_delivers [OF t(1-4) assms(4,14) t(5) assms(16), of u env'] by blast
  show ?thesis
    by (intro exI conjI; (rule o(3-5))?) (use i(1) ip o(1,2) in simp_all)
qed

text \<open>A receiver with one block on port 5000 whose callback keeps the packet.\<close>

definition demo_listener :: udp_pcb where
  "demo_listener = (demo_pcb 0 5000)\<lparr>recv := Some 1\<rparr>"

definition demo_udp_env :: "(bytes \<times> uart) udp_env" where
  "demo_udp_env = \<lparr>recv_fn = (\<lambda>_ _ _ _ _ _. Some), ip6_route = (\<lambda>_ _ _. None), ip6_select_source_address = (\<lambda>_ _ _. None),
     netif_get_ip6_addr_match = (\<lambda>_ _ _. -1), ip6_output_if_src = (\<lambda>_ _ _ _ _ _ _ _. None)\<rparr>"

definition demo_udp_frame :: bytes where
  "demo_udp_frame = eth_frame [2, 0, 0, 0, 0, 1] [2, 0, 0, 0, 0, 2] ETHTYPE_IP
     (ip4_datagram 0x0200a8c0 (n_ip demo_netif) 255 0 IP_PROTO_UDP 0 (udp_message 0x0200a8c0 (n_ip demo_netif) 7 (local_port demo_listener) [1, 2, 3]) @ [])"

definition demo_udp_net :: "(bytes \<times> uart) net" where
  "demo_udp_net = demo_sender\<lparr>udp := (udp_start [2, 3, 4])\<lparr>udp_pcbs := [1], udp_store := [1 \<mapsto> demo_listener]\<rparr>,
     pbufs := sample_heap\<lparr>cells := [4 \<mapsto> pbuf_init_alloced_pbuf demo_udp_frame 0 45 45 PBUF_POOL 0,
       5 \<mapsto> pbuf_init_alloced_pbuf (replicate 42 0 @ [1, 2, 3]) 42 3 3 PBUF_RAM 0]\<rparr>\<rparr>"

lemma demo_udp_fields:
  "netifs demo_udp_net 0 = Some demo_netif" "n_flags demo_netif AND NETIF_FLAG_ETHARP \<noteq> 0" "driver demo_udp_net = driver demo_sender"
  "udp_store (udp demo_udp_net) 1 = Some demo_listener" "ip_id demo_udp_net = 0"
  by (simp_all add: demo_udp_net_def demo_sender_ok NETIF_FLAG_ETHARP_def demo_sender_def demo_host_def demo_net_def)

lemma demo_listening: "listening (udp demo_udp_net) 1 demo_listener demo_netif 0x0200a8c0 7"
proof -
  have "udp_wf (udp demo_udp_net)"
    by (simp add: udp_wf_def bound_apart_def demo_udp_net_def udp_start_def demo_listener_def demo_pcb_def)
  then show ?thesis
    by (auto simp: listening_def demo_udp_net_def demo_listener_def demo_pcb_def local_match_def accepts_from_def ip4_def NETIF_NO_INDEX_def
        udp_start_def split: if_splits)
qed

theorem udp_datagram_received_witness:
  "\<exists>t ps. ethernet_input (host_linkoutput (\<lambda>xs. xs)) (\<lambda>_ _. Some) (\<lambda>_ _. Some)
        (\<lambda>p nif s. map_option snd (ip4_input (demo_env\<lparr>ip_env.udp_input := udp_input demo_udp_env demo_env\<rparr>) p nif s)) (\<lambda>_ _. Some)
        4 0 demo_udp_net = Some (ERR_OK, t)
     \<and> packet (pbufs t) (Some 4) (4 # ps) \<and> contents (pbufs t) (4 # ps) = [1, 2, 3]"
proof -
  let ?e = "pbuf_init_alloced_pbuf demo_udp_frame 0 45 45 PBUF_POOL 0"
  let ?env = "demo_env\<lparr>ip_env.udp_input := udp_input demo_udp_env demo_env\<rparr>"
  have l: "length demo_udp_frame = 45"
    by (simp add: demo_udp_frame_def eth_frame_def ip4_datagram_def Let_def UDP_HLEN_def)
  have f: "packet (pbufs demo_udp_net) (Some 4) [4]" "\<forall>b \<in> set [4]. sole (pbufs demo_udp_net) b" "contents (pbufs demo_udp_net) [4] = demo_udp_frame"
    "length [2, 0, 0, 0, 0, 1 :: u8] = ETH_HWADDR_LEN" "length [2, 0, 0, 0, 0, 2 :: u8] = ETH_HWADDR_LEN" "cells (pbufs demo_udp_net) 4 = Some ?e"
    using l by (simp_all add: demo_udp_net_def pbuf_init_alloced_pbuf_def cell_ok_def data_of_def sole_def releasable_def ETH_HWADDR_LEN_def)
  have a: "for_us demo_netif 0x0200a8c0 (n_ip demo_netif)" "host_addr demo_netif (n_ip demo_netif)" using demo_addresses by simp_all
  have r: "recv demo_listener = Some 1" "ip_env.udp_input ?env = udp_input demo_udp_env demo_env" by (simp_all add: demo_listener_def)
  have "\<exists>ps' h us hp. ethernet_input (host_linkoutput (\<lambda>xs. xs)) (\<lambda>_ _. Some) (\<lambda>_ _. Some)
        (\<lambda>p nif s. map_option snd (ip4_input ?env p nif s)) (\<lambda>_ _. Some) 4 0 demo_udp_net
      = map_option (\<lambda>t. (ERR_OK, t\<lparr>ip_data := ip_idle\<rparr>)) (recv_fn demo_udp_env 1 (recv_arg demo_listener) 1 4 (ip4 0x0200a8c0) 7
          (demo_udp_net\<lparr>ip_data := ip_current 0 0 hp 0x0200a8c0 (n_ip demo_netif), udp := us, pbufs := h\<rparr>))
    \<and> (us = udp demo_udp_net \<or> us = udp_to_front 1 (udp demo_udp_net))
    \<and> packet h (Some 4) (4 # ps') \<and> contents h (4 # ps') = [1, 2, 3] \<and> (\<forall>b \<in> set (4 # ps'). sole h b)"
    by (rule udp_datagram_received [OF demo_udp_fields(1,2) a f(1,2,4,5) f(3) [unfolded demo_udp_frame_def] f(6) _ _ _ _ demo_listening r])
      (simp_all add: pbuf_init_alloced_pbuf_def FLAG_CONTIGUOUS_def PBUF_FLAG_MCASTLOOP_def)
  then obtain ps' h us hp where
    e: "ethernet_input (host_linkoutput (\<lambda>xs. xs)) (\<lambda>_ _. Some) (\<lambda>_ _. Some)
        (\<lambda>p nif s. map_option snd (ip4_input ?env p nif s)) (\<lambda>_ _. Some) 4 0 demo_udp_net
      = map_option (\<lambda>t. (ERR_OK, t\<lparr>ip_data := ip_idle\<rparr>)) (recv_fn demo_udp_env 1 (recv_arg demo_listener) 1 4 (ip4 0x0200a8c0) 7
          (demo_udp_net\<lparr>ip_data := ip_current 0 0 hp 0x0200a8c0 (n_ip demo_netif), udp := us, pbufs := h\<rparr>))"
      "packet h (Some 4) (4 # ps')" "contents h (4 # ps') = [1, 2, 3]" by blast
  have "recv_fn demo_udp_env i x a p addr port t = Some t" for i x a p addr port t by (simp add: demo_udp_env_def)
  then have "ethernet_input (host_linkoutput (\<lambda>xs. xs)) (\<lambda>_ _. Some) (\<lambda>_ _. Some)
        (\<lambda>p nif s. map_option snd (ip4_input ?env p nif s)) (\<lambda>_ _. Some) 4 0 demo_udp_net
      = Some (ERR_OK, demo_udp_net\<lparr>ip_data := ip_idle, udp := us, pbufs := h\<rparr>)"
    unfolding e(1) by simp
  moreover have p: "pbufs (demo_udp_net\<lparr>ip_data := ip_idle, udp := us, pbufs := h\<rparr>) = h" by simp
  have "packet (pbufs (demo_udp_net\<lparr>ip_data := ip_idle, udp := us, pbufs := h\<rparr>)) (Some 4) (4 # ps')"
    "contents (pbufs (demo_udp_net\<lparr>ip_data := ip_idle, udp := us, pbufs := h\<rparr>)) (4 # ps') = [1, 2, 3]"
    unfolding p by (rule e)+
  ultimately show ?thesis by blast
qed

theorem udp_datagram_sent_witness:
  "\<exists>t. udp_sendto demo_udp_env demo_env 1 5 (ip4 0x0200a8c0) 7 demo_udp_net = Some (ERR_OK, t)
     \<and> host_line (driver t) = host_encode (\<lambda>xs. xs) (eth_frame [2, 0, 0, 0, 0, 2] [2, 0, 0, 0, 0, 1] ETHTYPE_IP
        (ip4_datagram 0x0100a8c0 0x0200a8c0 255 0 IP_PROTO_UDP 0 (udp_message 0x0100a8c0 0x0200a8c0 5000 7 [1, 2, 3])))"
proof -
  let ?c = "pbuf_init_alloced_pbuf (replicate 42 0 @ [1, 2, 3]) 42 3 3 PBUF_RAM 0"
  have room: "room_for (UDP_HLEN + (IP_HLEN + 14)) 5 [] (pbufs demo_udp_net)" "contents (pbufs demo_udp_net) [5] = [1, 2, 3]"
    "cells (pbufs demo_udp_net) 5 = Some ?c" "plen (pbufs demo_udp_net) [5] = 3"
    by (simp_all add: demo_udp_net_def room_for_def pbuf_init_alloced_pbuf_def cell_ok_def data_of_def UDP_HLEN_def IP_HLEN_def FLAG_CONTIGUOUS_def)
  have r: "resolved 0 0x0200a8c0 [2, 0, 0, 0, 0, 2] demo_udp_net" by (rule demo_resolved) (simp_all add: demo_udp_net_def)
  have b: "sends_from demo_listener (n_ip demo_netif)"
    by (simp add: sends_from_def demo_listener_def demo_pcb_def NETIF_NO_INDEX_def)
  have rt: "route_match 0x0200a8c0 demo_netif" "\<not> ip4_addr_ismulticast 0x0200a8c0" by code_simp+
  have "netif_list demo_udp_net = [0]" by (simp add: demo_udp_net_def demo_sender_def demo_host_def)
  then have route: "ip4_route 0x0200a8c0 demo_udp_net = Some (Some 0)"
    using rt demo_udp_fields(1) by (simp add: ip4_route_def)
  have a: "ether_netif demo_netif" "0x0200a8c0 \<noteq> n_ip demo_netif" "host_addr demo_netif 0x0200a8c0" "hop_of demo_netif (n_ip demo_netif) 0x0200a8c0 = Some 0x0200a8c0"
    using demo_addresses by (simp_all add: ether_netif_def ETH_HWADDR_LEN_def NETIF_FLAG_ETHARP_def)
  have d: "host_ready (driver demo_udp_net)" "host_line (driver demo_udp_net) = []"
    by (simp_all add: demo_udp_fields demo_sender_ok)
  have v: "u_ttl demo_listener = 255" "u_tos demo_listener = 0" "local_port demo_listener = 5000"
    by (simp_all add: demo_listener_def demo_pcb_def UDP_TTL_def)
  have "\<exists>t. udp_sendto demo_udp_env demo_env 1 5 (ip4 0x0200a8c0) 7 demo_udp_net = Some (ERR_OK, t) \<and> host_ready (driver t) \<and> udp t = udp demo_udp_net
    \<and> host_line (driver t) = host_line (driver demo_udp_net) @ host_encode (\<lambda>xs. xs) (eth_frame [2, 0, 0, 0, 0, 2] (n_hwaddr demo_netif) ETHTYPE_IP
        (ip4_datagram (n_ip demo_netif) 0x0200a8c0 (u_ttl demo_listener) (u_tos demo_listener) IP_PROTO_UDP (ip_id demo_udp_net)
          (udp_message (n_ip demo_netif) 0x0200a8c0 (local_port demo_listener) 7 (contents (pbufs demo_udp_net) [5]))))
    \<and> inet_chksum False (pseudo_header (n_ip demo_netif) 0x0200a8c0 IP_PROTO_UDP (of_nat (UDP_HLEN + plen (pbufs demo_udp_net) [5]))
        @ udp_message (n_ip demo_netif) 0x0200a8c0 (local_port demo_listener) 7 (contents (pbufs demo_udp_net) [5])) = 0"
    by (rule udp_datagram_sent [OF demo_udp_fields(4) b demo_udp_fields(1) a(1) route a(2-4) r room(1,3) _ _ d(1)])
      (simp_all add: pbuf_init_alloced_pbuf_def room(4) PBUF_FLAG_MCASTLOOP_def UDP_HLEN_def IP_HLEN_def BUF_SIZE_def demo_env_def del: plen_simps)
  then show ?thesis unfolding d(2) room(2) v demo_udp_fields(5) by auto
qed

section \<open>Damaged datagrams\<close>

lemma free_packet:
  assumes "packet (pbufs s) (Some p) (p # ps)" and "\<forall>b \<in> set (p # ps). sole (pbufs s) b"
  shows "\<exists>h. free_pbuf p s = Some (s\<lparr>pbufs := h\<rparr>) \<and> cells h = (\<lambda>b. if b \<in> set (p # ps) then None else cells (pbufs s) b)"
proof -
  have "chain (pbufs s) (Some p) ((p # ps) @ [])" using packet_chain [OF assms(1)] by simp
  from pbuf_free_spec [OF this assms(2)] show ?thesis by (auto simp: shared_def free_pbuf_def)
qed

text \<open>The search always ends with a result while the blocks in the list are allocated.\<close>

lemma find_pcb_total:
  assumes "\<forall>b \<in> set as. udp_store (udp s) b \<noteq> None" and "netifs s inp = Some n" and "current_input_netif (ip_data s) = Some i" and "netifs s i \<noteq> None"
    and "\<forall>b. v = Some b \<longrightarrow> udp_store (udp s) b \<noteq> None"
  shows "\<exists>r. find_pcb inp bc src dest as v s = Some r"
  using assms(1,5)
proof (induction as arbitrary: v)
  case (Cons a as)
  then obtain c where c: "udp_store (udp s) a = Some c" by auto
  from assms(4) obtain ni where "netifs s i = Some ni" by auto
  with assms(2,3) have "\<exists>m. udp_input_local_match c inp bc s = Some m"
    by (cases "netif_idx c = NETIF_NO_INDEX") (simp_all add: udp_input_local_match_def Let_def)
  then obtain m where m: "udp_input_local_match c inp bc s = Some m" ..
  have "\<exists>w. better_match a c inp bc v s = Some w \<and> (w = v \<or> w = Some a)"
  proof (cases v)
    case (Some b)
    then obtain d where "udp_store (udp s) b = Some d" using Cons.prems(2) by auto
    then show ?thesis using Some assms(2) by (simp add: better_match_def)
  qed (simp add: better_match_def)
  then obtain w where w: "better_match a c inp bc v s = Some w" "\<forall>b. w = Some b \<longrightarrow> udp_store (udp s) b \<noteq> None"
    using Cons.prems(2) c by auto
  have "\<exists>r. find_pcb inp bc src dest as v s = Some r" "\<exists>r. find_pcb inp bc src dest as w s = Some r" using Cons w(2) by simp_all
  then show ?case using c m w(1) by auto
qed simp

text \<open>
  C19. A UDP datagram whose checksum field is set and does not match its contents never reaches a
  callback: its buffers are released, once, and nothing else changes but the order of the control
  blocks. This holds for every destination, broadcasts included, and whatever blocks exist.
\<close>

theorem udp_bad_checksum_dropped:
  assumes "packet (pbufs s) (Some p) (p # ps)" and "\<forall>b \<in> set (p # ps). sole (pbufs s) b" and "cells (pbufs s) p = Some d" and "UDP_HLEN \<le> len d"
    and "ip_data s = ip_current nif inp hp src dest" and "netifs s inp = Some n" and "netifs s nif = Some n'" and "udp_wf (udp s)"
    and "le16 (contents (pbufs s) (p # ps) ! 6) (contents (pbufs s) (p # ps) ! 7) \<noteq> 0"
    and "inet_chksum False (pseudo_header src dest IP_PROTO_UDP (of_nat (length (contents (pbufs s) (p # ps)))) @ contents (pbufs s) (p # ps)) \<noteq> 0"
    and "length (contents (pbufs s) (p # ps)) < 65500"
  shows "\<exists>h us. udp_input u env p inp s = Some (s\<lparr>udp := us, pbufs := h\<rparr>) \<and> (us = udp s \<or> (\<exists>a. us = udp_to_front a (udp s)))
    \<and> cells h = (\<lambda>b. if b \<in> set (p # ps) then None else cells (pbufs s) b)"
proof -
  let ?m = "contents (pbufs s) (p # ps)"
  have ok: "cell_ok d" "tot_len d = length ?m" using assms(1,3) packet_tot_len [OF assms(1,3)] by auto
  obtain bs where r1: "rd d 0 4 = Some bs" using rd_ok [OF ok(1), of 0 4] assms(4) by (simp add: UDP_HLEN_def)
  have "?m ! 6 = data_of d ! 6" "?m ! 7 = data_of d ! 7" using assms(3,4) ok(1) by (simp_all add: nth_append UDP_HLEN_def)
  moreover have "rd d 6 2 = Some (take 2 (drop 6 (data_of d)))" using rd_ok [OF ok(1), of 6 2] assms(4) by (simp add: UDP_HLEN_def)
  ultimately obtain k where r2: "rd d 6 2 = Some k" "k ! 0 = ?m ! 6" "k ! 1 = ?m ! 7" using ok(1) assms(4) by (auto simp: UDP_HLEN_def)
  have chk: "\<exists>k. inet_chksum_pseudo z (Some p) IP_PROTO_UDP (of_nat (tot_len d)) src dest (pbufs s) = Some k \<and> k \<noteq> 0" for z
    using pseudo_chksum [OF assms(1), of z IP_PROTO_UDP "of_nat (tot_len d)" src dest False] assms(10,11) unfolding ok(2) by simp
  have drop: "\<exists>h. udp_checked u env p inp bc sp q (s\<lparr>udp := us\<rparr>) = Some (s\<lparr>udp := us, pbufs := h\<rparr>)
      \<and> cells h = (\<lambda>b. if b \<in> set (p # ps) then None else cells (pbufs s) b)" for bc sp q us
  proof -
    have fp: "pbufs (s\<lparr>udp := us\<rparr>) = pbufs s" by simp
    obtain h where h: "free_pbuf p (s\<lparr>udp := us\<rparr>) = Some (s\<lparr>udp := us, pbufs := h\<rparr>)" "cells h = (\<lambda>b. if b \<in> set (p # ps) then None else cells (pbufs s) b)"
      using free_packet [of "s\<lparr>udp := us\<rparr>" p ps, unfolded fp, OF assms(1,2)] by auto
    obtain k' where "inet_chksum_pseudo (payload_odd env (pbufs s)) (Some p) IP_PROTO_UDP (of_nat (tot_len d)) src dest (pbufs s) = Some k'" "k' \<noteq> 0"
      using chk by blast
    then have "udp_checked u env p inp bc sp q (s\<lparr>udp := us\<rparr>) = free_pbuf p (s\<lparr>udp := us\<rparr>)"
      using assms(3,5,6,9) r2 by (auto simp: udp_checked_def ip_current_def)
    then show ?thesis using h by auto
  qed
  let ?bc = "ip4_addr_isbroadcast_u32 dest (if_of n')" and ?sp = "lwip_htons (le16 (bs ! 0) (bs ! 1))" and ?dp = "lwip_htons (le16 (bs ! 2) (bs ! 3))"
  have "\<forall>b \<in> set (udp_pcbs (udp s)). udp_store (udp s) b \<noteq> None" using udp_wfD(4) [OF assms(8)] by auto
  then obtain q v where f: "find_pcb inp ?bc ?sp ?dp (udp_pcbs (udp s)) None s = Some (q, v)"
    using find_pcb_total [of "udp_pcbs (udp s)" s inp n inp None] assms(5,6) by (fastforce simp: ip_current_def)
  have i: "udp_input u env p inp s = (case q of Some a \<Rightarrow> udp_checked u env p inp ?bc ?sp (Some a) (s\<lparr>udp := udp_to_front a (udp s)\<rparr>)
      | None \<Rightarrow> udp_checked u env p inp ?bc ?sp v s)"
    using assms(3,4,5,7) r1 f by (cases q) (simp_all add: udp_input_def ip_current_def Let_def)
  show ?thesis
  proof (cases q)
    case (Some a)
    then show ?thesis using i drop [of ?bc ?sp "Some a" "udp_to_front a (udp s)"] by auto
  next
    case None
    obtain h where h: "udp_checked u env p inp ?bc ?sp v (s\<lparr>udp := udp s\<rparr>) = Some (s\<lparr>udp := udp s, pbufs := h\<rparr>)"
      "cells h = (\<lambda>b. if b \<in> set (p # ps) then None else cells (pbufs s) b)" using drop [of ?bc ?sp v "udp s"] by blast
    have "udp_input u env p inp s = Some (s\<lparr>udp := udp s, pbufs := h\<rparr>)" using i None h(1) by simp
    then show ?thesis using h(2) by blast
  qed
qed

text \<open>A bit of the data was flipped on the way.\<close>

definition demo_damaged :: bytes where
  "demo_damaged = store16 (lwip_htons 7) @ store16 (lwip_htons 5000) @ store16 (lwip_htons 9) @ store16 0x1234 @ [1]"

definition demo_damaged_net :: "(bytes \<times> uart) net" where
  "demo_damaged_net = demo_udp_net\<lparr>ip_data := ip_current 0 0 (4, 0) 0x0200a8c0 0x0100a8c0,
     pbufs := sample_heap\<lparr>cells := [4 \<mapsto> pbuf_init_alloced_pbuf demo_damaged 0 9 9 PBUF_POOL 0]\<rparr>\<rparr>"

theorem udp_bad_checksum_dropped_witness:
  "\<exists>h us. udp_input demo_udp_env demo_env 4 0 demo_damaged_net = Some (demo_damaged_net\<lparr>udp := us, pbufs := h\<rparr>) \<and> cells h 4 = None"
proof -
  let ?d = "pbuf_init_alloced_pbuf demo_damaged 0 9 9 PBUF_POOL 0"
  have l: "length demo_damaged = 9" by (simp add: demo_damaged_def)
  have f: "packet (pbufs demo_damaged_net) (Some 4) [4]" "\<forall>b \<in> set [4]. sole (pbufs demo_damaged_net) b" "cells (pbufs demo_damaged_net) 4 = Some ?d"
    "contents (pbufs demo_damaged_net) [4] = demo_damaged" "UDP_HLEN \<le> len ?d"
    using l by (simp_all add: demo_damaged_net_def pbuf_init_alloced_pbuf_def cell_ok_def data_of_def sole_def releasable_def UDP_HLEN_def)
  have s: "ip_data demo_damaged_net = ip_current 0 0 (4, 0) 0x0200a8c0 0x0100a8c0" "netifs demo_damaged_net 0 = Some demo_netif" "udp_wf (udp demo_damaged_net)"
    using demo_udp_fields(1) demo_listening by (simp_all add: demo_damaged_net_def listening_def)
  have k: "le16 (demo_damaged ! 6) (demo_damaged ! 7) \<noteq> 0"
    "inet_chksum False (pseudo_header 0x0200a8c0 0x0100a8c0 IP_PROTO_UDP (of_nat (length demo_damaged)) @ demo_damaged) \<noteq> 0" by code_simp+
  have "length demo_damaged < 65500" by (simp add: l)
  from udp_bad_checksum_dropped [OF f(1-3,5) s(1,2,2,3), unfolded f(4), OF k this, of demo_udp_env demo_env] show ?thesis by auto
qed

end
