(* ===== verification/Ip4_Reass.thy ===== *)
theory Ip4_Reass
  imports Ip4_Input
begin

text \<open>
  \<^verbatim>\<open>core/ipv4/ip4_frag.c\<close> of lwIP, reassembly. The fragments of a datagram wait in the order of their
  offsets; \<open>struct ip_reass_helper\<close> (the next fragment, start and end) lies over the first twelve
  bytes of each fragment's IP header, in the buffer memory. An address is stored in eight bytes, the
  null pointer as zero. Options of this build: overlapping fragments are dropped, the oldest
  datagram is freed when the limit of ten buffers is reached.
\<close>

section \<open>Definitions\<close>

definition IP_REASS_FLAG_LASTFRAG :: u8 where "IP_REASS_FLAG_LASTFRAG = 0x01"
definition IP_REASS_VALIDATE_TELEGRAM_FINISHED :: int where "IP_REASS_VALIDATE_TELEGRAM_FINISHED = 1"
definition IP_REASS_VALIDATE_PBUF_QUEUED :: int where "IP_REASS_VALIDATE_PBUF_QUEUED = 0"
definition IP_REASS_VALIDATE_PBUF_DROPPED :: int where "IP_REASS_VALIDATE_PBUF_DROPPED = -1"
definition IP_REASS_MAXAGE :: nat where "IP_REASS_MAXAGE = 15"
definition IP_REASS_MAX_PBUFS :: nat where "IP_REASS_MAX_PBUFS = 10"
definition ICMP_TE_FRAG :: u8 where "ICMP_TE_FRAG = 1"

subsection \<open>The helper structure\<close>

definition store_ptr :: "pptr \<Rightarrow> bytes" where
  "store_ptr q = (let w = (case q of None \<Rightarrow> 0 | Some a \<Rightarrow> of_nat a) :: 64 word in map (\<lambda>i. ucast (drop_bit (8 * i) w)) [0..<8])"

definition load_ptr :: "bytes \<Rightarrow> pptr" where
  "load_ptr bs = (let w = foldr (\<lambda>b w. ucast b OR push_bit 8 w) bs (0 :: 64 word) in if w = 0 then None else Some (unat w))"

definition iprh_next :: "nat \<Rightarrow> pheap \<Rightarrow> pptr option" where
  "iprh_next a h = do { c \<leftarrow> cells h a; bs \<leftarrow> rd c 0 8; Some (load_ptr bs) }"

definition iprh_start :: "nat \<Rightarrow> pheap \<Rightarrow> u16 option" where
  "iprh_start a h = do { c \<leftarrow> cells h a; bs \<leftarrow> rd c 8 2; Some (le16 (bs ! 0) (bs ! 1)) }"

definition iprh_end :: "nat \<Rightarrow> pheap \<Rightarrow> u16 option" where
  "iprh_end a h = do { c \<leftarrow> cells h a; bs \<leftarrow> rd c 10 2; Some (le16 (bs ! 0) (bs ! 1)) }"

definition set_next :: "nat \<Rightarrow> pptr \<Rightarrow> pheap \<Rightarrow> pheap option" where
  "set_next a q h = do { c \<leftarrow> cells h a; c \<leftarrow> wr c 0 (store_ptr q); Some (put a c h) }"

text \<open>Fields of an IP header.\<close>

definition iph_len :: "bytes \<Rightarrow> u16" where "iph_len hdr = lwip_htons (le16 (hdr ! 2) (hdr ! 3))"
definition iph_offset :: "bytes \<Rightarrow> u16" where "iph_offset hdr = lwip_htons (le16 (hdr ! 6) (hdr ! 7))"
definition IPH_OFFSET_BYTES :: "bytes \<Rightarrow> u16" where "IPH_OFFSET_BYTES hdr = (iph_offset hdr AND IP_OFFMASK) * 8"

definition IP_ADDRESSES_AND_ID_MATCH :: "bytes \<Rightarrow> bytes \<Rightarrow> bool" where
  "IP_ADDRESSES_AND_ID_MATCH a b \<longleftrightarrow> take 4 (drop 12 a) = take 4 (drop 12 b) \<and> take 4 (drop 16 a) = take 4 (drop 16 b)
     \<and> take 2 (drop 4 a) = take 2 (drop 4 b)"

subsection \<open>The list of datagrams\<close>

definition upd_reass :: "nat \<Rightarrow> ip_reassdata \<Rightarrow> frag_state \<Rightarrow> frag_state" where
  "upd_reass r d f = f\<lparr>reass_store := (reass_store f)(r \<mapsto> d)\<rparr>"

text \<open>The list behind \<open>r\<close>, and the list up to \<open>r\<close>.\<close>

definition list_behind :: "nat \<Rightarrow> nat list \<Rightarrow> nat list" where
  "list_behind r rs = tl (dropWhile (\<lambda>x. x \<noteq> r) rs)"

definition list_upto :: "nat \<Rightarrow> nat list \<Rightarrow> nat list" where
  "list_upto r rs = takeWhile (\<lambda>x. x \<noteq> r) rs @ [r]"

definition ip_reass_dequeue_datagram :: "nat \<Rightarrow> pptr \<Rightarrow> frag_state \<Rightarrow> frag_state option" where
  "ip_reass_dequeue_datagram ipr prev f =
     do { rs \<leftarrow> (if reassdatagrams f \<noteq> [] \<and> hd (reassdatagrams f) = ipr then Some (tl (reassdatagrams f))
           else (case prev of None \<Rightarrow> None | Some a \<Rightarrow> Some (list_upto a (reassdatagrams f) @ list_behind ipr (reassdatagrams f))));
       Some (f\<lparr>reassdatagrams := rs, reass_store := (reass_store f)(ipr := None), reass_pool := ipr # reass_pool f\<rparr>) }"

text \<open>Freeing the buffers of a chain of fragments; the number of buffers is counted.\<close>

partial_function (option) free_fragments :: "pptr \<Rightarrow> nat \<Rightarrow> pheap \<Rightarrow> (nat \<times> pheap) option" where
  "free_fragments p freed h =
     (case p of None \<Rightarrow> Some (freed, h)
      | Some a \<Rightarrow> do { nx \<leftarrow> iprh_next a h;
          clen \<leftarrow> pbuf_clen (Some a) h;
          assert (freed + clen \<le> 0xffff);
          (_, h) \<leftarrow> pbuf_free (Some a) h;
          free_fragments nx (u16 (freed + clen)) h })"

text \<open>The first fragment goes back to the sender in an ICMP message.\<close>

definition free_first :: "'w ip_env \<Rightarrow> nat \<Rightarrow> nat \<Rightarrow> 'w net \<Rightarrow> (nat \<times> 'w net) option" where
  "free_first env ipr p s =
     do { d \<leftarrow> reass_store (frag s) ipr;
       nx \<leftarrow> iprh_next p (pbufs s);
       c \<leftarrow> cells (pbufs s) p;
       c \<leftarrow> wr c 0 (r_iphdr d);
       s \<leftarrow> icmp_time_exceeded env p ICMP_TE_FRAG
              (s\<lparr>pbufs := put p c (pbufs s), frag := upd_reass ipr (d\<lparr>r_p := nx\<rparr>) (frag s)\<rparr>);
       clen \<leftarrow> pbuf_clen (Some p) (pbufs s);
       assert (clen \<le> 0xffff);
       s \<leftarrow> free_pbuf p s;
       Some (clen, s) }"

definition ip_reass_free_complete_datagram :: "'w ip_env \<Rightarrow> nat \<Rightarrow> pptr \<Rightarrow> 'w net \<Rightarrow> (nat \<times> 'w net) option" where
  "ip_reass_free_complete_datagram env ipr prev s =
     do { assert (prev \<noteq> Some ipr);
       assert (case prev of None \<Rightarrow> True | Some a \<Rightarrow> list_behind a (reassdatagrams (frag s)) \<noteq> []
                 \<and> hd (list_behind a (reassdatagrams (frag s))) = ipr);
       d \<leftarrow> reass_store (frag s) ipr;
       p \<leftarrow> r_p d;
       start \<leftarrow> iprh_start p (pbufs s);
       (freed, s) \<leftarrow> (if start = 0 then free_first env ipr p s else Some (0, s));
       d \<leftarrow> reass_store (frag s) ipr;
       (freed, h) \<leftarrow> free_fragments (r_p d) freed (pbufs s);
       f \<leftarrow> ip_reass_dequeue_datagram ipr prev (frag s);
       assert (ip_reass_pbufcount f \<ge> freed);
       Some (freed, s\<lparr>pbufs := h, frag := f\<lparr>ip_reass_pbufcount := sub16 (ip_reass_pbufcount f) freed\<rparr>\<rparr>) }"

fun reass_tmr_loop :: "'w ip_env \<Rightarrow> nat list \<Rightarrow> pptr \<Rightarrow> 'w net \<Rightarrow> 'w net option" where
  "reass_tmr_loop env [] prev s = Some s"
| "reass_tmr_loop env (r # rs) prev s =
     do { d \<leftarrow> reass_store (frag s) r;
       if r_timer d > 0 then reass_tmr_loop env rs (Some r) (s\<lparr>frag := upd_reass r (d\<lparr>r_timer := r_timer d - 1\<rparr>) (frag s)\<rparr>)
       else do { (_, s) \<leftarrow> ip_reass_free_complete_datagram env r prev s; reass_tmr_loop env rs prev s } }"

definition ip_reass_tmr :: "'w ip_env \<Rightarrow> 'w net \<Rightarrow> 'w net option" where
  "ip_reass_tmr env s = reass_tmr_loop env (reassdatagrams (frag s)) None s"

text \<open>The oldest datagram other than the one of \<open>fraghdr\<close>, its predecessor, and how many others there are.\<close>

fun oldest_loop :: "bytes \<Rightarrow> nat list \<Rightarrow> pptr \<Rightarrow> pptr \<times> pptr \<times> nat \<Rightarrow> frag_state \<Rightarrow> (pptr \<times> pptr \<times> nat) option" where
  "oldest_loop fraghdr [] prev acc f = Some acc"
| "oldest_loop fraghdr (r # rs) prev (oldest, oldest_prev, other_datagrams) f =
     do { d \<leftarrow> reass_store f r;
       acc \<leftarrow> (if \<not> IP_ADDRESSES_AND_ID_MATCH (r_iphdr d) fraghdr
         then (case oldest of
                 None \<Rightarrow> Some (Some r, prev, other_datagrams + 1)
               | Some o' \<Rightarrow> do { e \<leftarrow> reass_store f o';
                   Some (if r_timer d \<le> r_timer e then (Some r, prev, other_datagrams + 1)
                         else (oldest, oldest_prev, other_datagrams + 1)) })
         else Some (oldest, oldest_prev, other_datagrams));
       oldest_loop fraghdr rs (if rs \<noteq> [] then Some r else prev) acc f }"

partial_function (option) remove_oldest_loop :: "'w ip_env \<Rightarrow> bytes \<Rightarrow> nat \<Rightarrow> nat \<Rightarrow> 'w net \<Rightarrow> (nat \<times> 'w net) option" where
  "remove_oldest_loop env fraghdr pbufs_needed pbufs_freed s =
     do { (oldest, oldest_prev, other_datagrams) \<leftarrow> oldest_loop fraghdr (reassdatagrams (frag s)) None (None, None, 0) (frag s);
       (k, s) \<leftarrow> (case oldest of None \<Rightarrow> Some (0, s) | Some r \<Rightarrow> ip_reass_free_complete_datagram env r oldest_prev s);
       let pbufs_freed = pbufs_freed + k in
       if pbufs_freed < pbufs_needed \<and> other_datagrams > 1 then remove_oldest_loop env fraghdr pbufs_needed pbufs_freed s
       else Some (pbufs_freed, s) }"

definition ip_reass_remove_oldest_datagram :: "'w ip_env \<Rightarrow> bytes \<Rightarrow> nat \<Rightarrow> 'w net \<Rightarrow> (nat \<times> 'w net) option" where
  "ip_reass_remove_oldest_datagram env fraghdr pbufs_needed s = remove_oldest_loop env fraghdr pbufs_needed 0 s"

definition memp_malloc_reass :: "frag_state \<Rightarrow> pptr \<times> frag_state" where
  "memp_malloc_reass f = (case reass_pool f of [] \<Rightarrow> (None, f) | r # rs \<Rightarrow> (Some r, f\<lparr>reass_pool := rs\<rparr>))"

definition ip_reass_enqueue_new_datagram :: "'w ip_env \<Rightarrow> bytes \<Rightarrow> nat \<Rightarrow> 'w net \<Rightarrow> (pptr \<times> 'w net) option" where
  "ip_reass_enqueue_new_datagram env fraghdr clen s =
     do { (ipr, s) \<leftarrow> (case memp_malloc_reass (frag s) of
            (Some r, f) \<Rightarrow> Some (Some r, s\<lparr>frag := f\<rparr>)
          | (None, f) \<Rightarrow> do { (n, s) \<leftarrow> ip_reass_remove_oldest_datagram env fraghdr clen (s\<lparr>frag := f\<rparr>);
              Some (if n \<ge> clen then (case memp_malloc_reass (frag s) of (q, f) \<Rightarrow> (q, s\<lparr>frag := f\<rparr>)) else (None, s)) });
       case ipr of
         None \<Rightarrow> Some (None, s)
       | Some r \<Rightarrow>
           let d = \<lparr>r_p = None, r_iphdr = take IP_HLEN fraghdr, r_datagram_len = 0, r_flags = 0, r_timer = IP_REASS_MAXAGE\<rparr>;
               f = upd_reass r d (frag s)
           in Some (Some r, s\<lparr>frag := f\<lparr>reassdatagrams := r # reassdatagrams f\<rparr>\<rparr>) }"

subsection \<open>Queueing a fragment\<close>

text \<open>
  The search for the place of \<open>new_p\<close>. \<open>None\<close> in the result: the fragment is dropped. Otherwise
  the fragment behind the place, the one before it, whether there is no hole up to here, and \<open>ipr->p\<close>.
\<close>

partial_function (option) chain_loop ::
  "nat \<Rightarrow> pptr \<Rightarrow> pptr \<Rightarrow> bool \<Rightarrow> pptr \<Rightarrow> pheap \<Rightarrow> ((pptr \<times> pptr \<times> bool \<times> pptr) option \<times> pheap) option" where
  "chain_loop new_p q prev valid rp h =
     (case q of
        None \<Rightarrow> Some (Some (None, prev, valid, rp), h)
      | Some a \<Rightarrow>
          do { start \<leftarrow> iprh_start new_p h; e \<leftarrow> iprh_end new_p h; tmp_start \<leftarrow> iprh_start a h; tmp_end \<leftarrow> iprh_end a h;
            if start < tmp_start then
              do { h \<leftarrow> set_next new_p (Some a) h;
                case prev of
                  Some b \<Rightarrow>
                    do { prev_end \<leftarrow> iprh_end b h;
                      if start < prev_end \<or> e > tmp_start then Some (None, h)
                      else do { h \<leftarrow> set_next b (Some new_p) h;
                        Some (Some (Some a, prev, valid \<and> prev_end = start, rp), h) } }
                | None \<Rightarrow> if e > tmp_start then Some (None, h) else Some (Some (Some a, None, valid, Some new_p), h) }
            else if start = tmp_start then Some (None, h)
            else if start < tmp_end then Some (None, h)
            else do { valid \<leftarrow> (case prev of None \<Rightarrow> Some valid
                               | Some b \<Rightarrow> do { prev_end \<leftarrow> iprh_end b h; Some (valid \<and> prev_end = tmp_start) });
              nx \<leftarrow> iprh_next a h;
              chain_loop new_p nx (Some a) valid rp h } })"

text \<open>From \<open>a\<close> on there are no holes; the last fragment looked at.\<close>

partial_function (option) validate_loop :: "nat \<Rightarrow> pheap \<Rightarrow> (bool \<times> nat) option" where
  "validate_loop a h =
     do { nx \<leftarrow> iprh_next a h;
       case nx of
         None \<Rightarrow> Some (True, a)
       | Some q \<Rightarrow> do { prev_end \<leftarrow> iprh_end a h; start \<leftarrow> iprh_start q h;
           if prev_end \<noteq> start then Some (False, q) else validate_loop q h } }"

definition validate_datagram :: "nat \<Rightarrow> pptr \<Rightarrow> pheap \<Rightarrow> bool option" where
  "validate_datagram new_p rp h =
     (case rp of None \<Rightarrow> Some False
      | Some first \<Rightarrow>
          do { start \<leftarrow> iprh_start first h;
            if start \<noteq> 0 then Some False
            else do { (valid, lst) \<leftarrow> validate_loop new_p h;
              nx \<leftarrow> iprh_next lst h;
              assert (valid \<longrightarrow> first \<noteq> lst \<and> nx = None);
              Some valid } })"

text \<open>The end of the list is reached: \<open>new_p\<close> becomes the last fragment.\<close>

definition chain_append :: "nat \<Rightarrow> pptr \<Rightarrow> bool \<Rightarrow> pptr \<Rightarrow> pheap \<Rightarrow> (bool \<times> pptr \<times> pheap) option" where
  "chain_append new_p prev valid rp h =
     (case prev of
        Some b \<Rightarrow> do { prev_end \<leftarrow> iprh_end b h; start \<leftarrow> iprh_start new_p h;
          assert (prev_end \<le> start);
          h \<leftarrow> set_next b (Some new_p) h;
          Some (valid \<and> prev_end = start, rp, h) }
      | None \<Rightarrow> do { assert (rp = None); Some (valid, Some new_p, h) })"

definition ip_reass_chain_frag_into_datagram_and_validate ::
  "ip_reassdata \<Rightarrow> nat \<Rightarrow> bool \<Rightarrow> pheap \<Rightarrow> (int \<times> ip_reassdata \<times> pheap) option" where
  "ip_reass_chain_frag_into_datagram_and_validate ipr new_p is_last h =
     do { c \<leftarrow> cells h new_p;
       fraghdr \<leftarrow> rd c 0 IP_HLEN;
       let hlen = of_nat (IPH_HL_BYTES (fraghdr ! 0)) in
       if hlen > iph_len fraghdr then Some (IP_REASS_VALIDATE_PBUF_DROPPED, ipr, h)
       else let len = iph_len fraghdr - hlen; offset = IPH_OFFSET_BYTES fraghdr in
         do { c \<leftarrow> wr_all [(0, store_ptr None), (8, store16 offset), (10, store16 (offset + len))] c;
           let h = put new_p c h in
           if offset + len < offset then Some (IP_REASS_VALIDATE_PBUF_DROPPED, ipr, h)
           else do { (r, h) \<leftarrow> chain_loop new_p (r_p ipr) None True (r_p ipr) h;
             case r of
               None \<Rightarrow> Some (IP_REASS_VALIDATE_PBUF_DROPPED, ipr, h)
             | Some (q, prev, valid, rp) \<Rightarrow>
                 do { (valid, rp, h) \<leftarrow> (if q = None then chain_append new_p prev valid rp h else Some (valid, rp, h));
                   let ipr = ipr\<lparr>r_p := rp\<rparr> in
                   if is_last \<or> r_flags ipr AND IP_REASS_FLAG_LASTFRAG \<noteq> 0 then
                     do { valid \<leftarrow> (if valid then validate_datagram new_p rp h else Some False);
                       Some (if valid then IP_REASS_VALIDATE_TELEGRAM_FINISHED else IP_REASS_VALIDATE_PBUF_QUEUED, ipr, h) }
                   else Some (IP_REASS_VALIDATE_PBUF_QUEUED, ipr, h) } } } }"

subsection \<open>Reassembly\<close>

fun find_reass :: "bytes \<Rightarrow> nat list \<Rightarrow> frag_state \<Rightarrow> pptr option" where
  "find_reass fraghdr [] f = Some None"
| "find_reass fraghdr (r # rs) f =
     do { d \<leftarrow> reass_store f r; if IP_ADDRESSES_AND_ID_MATCH (r_iphdr d) fraghdr then Some (Some r) else find_reass fraghdr rs f }"

fun prev_of :: "nat \<Rightarrow> nat list \<Rightarrow> pptr" where
  "prev_of r (a # b # rs) = (if b = r then Some a else prev_of r (b # rs))"
| "prev_of r _ = None"

text \<open>Chaining the fragments \<open>r\<close>, \<dots> to \<open>p\<close>, without their headers.\<close>

partial_function (option) cat_fragments :: "nat \<Rightarrow> pptr \<Rightarrow> pheap \<Rightarrow> pheap option" where
  "cat_fragments p r h =
     (case r of None \<Rightarrow> Some h
      | Some a \<Rightarrow> do { c \<leftarrow> cells h a;
          (_, h) \<leftarrow> pbuf_remove_header a IP_HLEN h;
          h \<leftarrow> pbuf_cat (Some p) (Some a) h;
          bs \<leftarrow> read_at (a, payload c) 8 h;
          cat_fragments p (load_ptr bs) h })"

text \<open>The header of the datagram.\<close>

definition reass_header :: "'w ip_env \<Rightarrow> nat \<Rightarrow> ip_reassdata \<Rightarrow> pbuf \<Rightarrow> pbuf option" where
  "reass_header env p d c =
     do { c \<leftarrow> wr_all [(0, r_iphdr d), (2, store16 (lwip_htons (of_nat (r_datagram_len d + IP_HLEN)))), (6, store16 0), (10, store16 0)] c;
       hdr \<leftarrow> rd c 0 IP_HLEN;
       wr c 10 (store16 (inet_chksum (at_odd env p (payload c)) hdr)) }"

definition reass_finish :: "'w ip_env \<Rightarrow> nat \<Rightarrow> 'w net \<Rightarrow> (pptr \<times> 'w net) option" where
  "reass_finish env ipr s =
     do { d \<leftarrow> reass_store (frag s) ipr;
       p \<leftarrow> r_p d;
       r \<leftarrow> iprh_next p (pbufs s);
       c \<leftarrow> cells (pbufs s) p;
       c \<leftarrow> reass_header env p d c;
       h \<leftarrow> cat_fragments p r (put p c (pbufs s));
       f \<leftarrow> ip_reass_dequeue_datagram ipr (prev_of ipr (reassdatagrams (frag s))) (frag s);
       clen \<leftarrow> pbuf_clen (Some p) h;
       assert (ip_reass_pbufcount f \<ge> clen);
       Some (Some p, s\<lparr>pbufs := h, frag := f\<lparr>ip_reass_pbufcount := sub16 (ip_reass_pbufcount f) clen\<rparr>\<rparr>) }"

text \<open>The labels \<open>nullreturn\<close> and \<open>nullreturn_ipr\<close>.\<close>

definition reass_nullreturn :: "nat \<Rightarrow> 'w net \<Rightarrow> (pptr \<times> 'w net) option" where
  "reass_nullreturn p s = do { s \<leftarrow> free_pbuf p s; Some (None, s) }"

definition reass_nullreturn_ipr :: "nat \<Rightarrow> nat \<Rightarrow> 'w net \<Rightarrow> (pptr \<times> 'w net) option" where
  "reass_nullreturn_ipr p ipr s =
     do { d \<leftarrow> reass_store (frag s) ipr;
       f \<leftarrow> (if r_p d = None
             then do { assert (reassdatagrams (frag s) \<noteq> [] \<and> hd (reassdatagrams (frag s)) = ipr); ip_reass_dequeue_datagram ipr None (frag s) }
             else Some (frag s));
       reass_nullreturn p (s\<lparr>frag := f\<rparr>) }"

text \<open>The entry of the datagram that \<open>hdr\<close> belongs to, made if there is none.\<close>

definition reass_entry :: "'w ip_env \<Rightarrow> bytes \<Rightarrow> nat \<Rightarrow> 'w net \<Rightarrow> (pptr \<times> 'w net) option" where
  "reass_entry env hdr clen s =
     do { r \<leftarrow> find_reass hdr (reassdatagrams (frag s)) (frag s);
       case r of
         None \<Rightarrow> ip_reass_enqueue_new_datagram env hdr clen s
       | Some ipr \<Rightarrow> do { d \<leftarrow> reass_store (frag s) ipr;
           Some (Some ipr, if iph_offset hdr AND IP_OFFMASK = 0 \<and> iph_offset (r_iphdr d) AND IP_OFFMASK \<noteq> 0
             then s\<lparr>frag := upd_reass ipr (d\<lparr>r_iphdr := take IP_HLEN hdr\<rparr>) (frag s)\<rparr> else s) } }"

text \<open>A fragment that has an entry; \<open>datagram_len\<close> is its end.\<close>

definition reass_fragment :: "'w ip_env \<Rightarrow> nat \<Rightarrow> nat \<Rightarrow> bool \<Rightarrow> u16 \<Rightarrow> nat \<Rightarrow> 'w net \<Rightarrow> (pptr \<times> 'w net) option" where
  "reass_fragment env p ipr is_last datagram_len clen s =
     do { d \<leftarrow> reass_store (frag s) ipr;
       (valid, d, h) \<leftarrow> ip_reass_chain_frag_into_datagram_and_validate d p is_last (pbufs s);
       let s = s\<lparr>pbufs := h, frag := upd_reass ipr d (frag s)\<rparr> in
       if valid = IP_REASS_VALIDATE_PBUF_DROPPED then reass_nullreturn_ipr p ipr s
       else let d = (if is_last then d\<lparr>r_datagram_len := unat datagram_len, r_flags := r_flags d OR IP_REASS_FLAG_LASTFRAG\<rparr> else d);
                f = (upd_reass ipr d (frag s))\<lparr>ip_reass_pbufcount := u16 (ip_reass_pbufcount (frag s) + clen)\<rparr>
         in if valid = IP_REASS_VALIDATE_TELEGRAM_FINISHED then reass_finish env ipr (s\<lparr>frag := f\<rparr>) else Some (None, s\<lparr>frag := f\<rparr>) }"

definition ip4_reass :: "'w ip_env \<Rightarrow> nat \<Rightarrow> 'w net \<Rightarrow> (pptr \<times> 'w net) option" where
  "ip4_reass env p s =
     do { c \<leftarrow> cells (pbufs s) p;
       hdr \<leftarrow> rd c 0 IP_HLEN;
       let hlen = IPH_HL_BYTES (hdr ! 0); offset = IPH_OFFSET_BYTES hdr in
       if hlen \<noteq> IP_HLEN then reass_nullreturn p s
       else if of_nat hlen > iph_len hdr then reass_nullreturn p s
       else let len = iph_len hdr - of_nat hlen in
         do { clen \<leftarrow> pbuf_clen (Some p) (pbufs s);
           (full, s) \<leftarrow> (if ip_reass_pbufcount (frag s) + clen > IP_REASS_MAX_PBUFS
              then do { (n, s) \<leftarrow> ip_reass_remove_oldest_datagram env hdr clen s;
                Some (n = 0 \<or> ip_reass_pbufcount (frag s) + clen > IP_REASS_MAX_PBUFS, s) }
              else Some (False, s));
           if full then reass_nullreturn p s
           else do { (ipr, s) \<leftarrow> reass_entry env hdr clen s;
             case ipr of
               None \<Rightarrow> reass_nullreturn p s
             | Some ipr \<Rightarrow>
                 let is_last = (le16 (hdr ! 6) (hdr ! 7) AND lwip_htons IP_MF = 0); datagram_len = offset + len in
                 if is_last \<and> (datagram_len < offset \<or> unat datagram_len > 0xFFFF - IP_HLEN) then reass_nullreturn_ipr p ipr s
                 else reass_fragment env p ipr is_last datagram_len clen s } } }"

end
