(* ===== verification/Ip4_Frag.thy ===== *)
theory Ip4_Frag
  imports Ip4_Reass
begin

text \<open>
  \<^verbatim>\<open>core/ipv4/ip4_frag.c\<close> of lwIP, the sending side. A datagram that is longer than the MTU leaves in
  fragments: a fresh header, and behind it custom buffers (\<open>struct pbuf_custom_ref\<close>) that point into the datagram and
  hold a reference to it. In the model such a buffer holds the bytes it points to; nothing writes to
  them while a fragment is in use. \<open>pbuf_free\<close> calls the free function of a custom buffer when
  its count falls to zero; \<open>free_fragment\<close> runs these calls after the cells are gone, in their
  order, which is the same unless the datagram itself consists of custom buffers.
\<close>

section \<open>Custom references\<close>

definition ip_frag_alloc_pbuf_custom_ref :: "frag_state \<Rightarrow> pptr \<times> frag_state" where
  "ip_frag_alloc_pbuf_custom_ref f = (case frag_pool f of [] \<Rightarrow> (None, f) | a # as \<Rightarrow> (Some a, f\<lparr>frag_pool := as\<rparr>))"

definition ip_frag_free_pbuf_custom_ref :: "nat \<Rightarrow> frag_state \<Rightarrow> frag_state" where
  "ip_frag_free_pbuf_custom_ref a f = f\<lparr>frag_pool := a # frag_pool f\<rparr>"

definition ipfrag_free_pbuf_custom :: "nat \<Rightarrow> 'w net \<Rightarrow> 'w net option" where
  "ipfrag_free_pbuf_custom a s =
     do { s \<leftarrow> (case frag_original (frag s) a of None \<Rightarrow> Some s | Some q \<Rightarrow> free_pbuf q s);
       Some (s\<lparr>frag := ip_frag_free_pbuf_custom_ref a (frag s)\<rparr>) }"

fun run_custom :: "nat list \<Rightarrow> 'w net \<Rightarrow> 'w net option" where
  "run_custom [] s = Some s"
| "run_custom (a # as) s = do { s \<leftarrow> ipfrag_free_pbuf_custom a s; run_custom as s }"

text \<open>\<open>pbuf_free\<close> of a fragment, with the calls of the free functions.\<close>

definition free_fragment :: "nat \<Rightarrow> 'w net \<Rightarrow> 'w net option" where
  "free_fragment p s =
     do { t \<leftarrow> free_pbuf p (s\<lparr>pbufs := (pbufs s)\<lparr>custom_freed := []\<rparr>\<rparr>);
       run_custom (rev (custom_freed (pbufs t))) (t\<lparr>pbufs := (pbufs t)\<lparr>custom_freed := custom_freed (pbufs s)\<rparr>\<rparr>) }"

section \<open>Fragmentation\<close>

text \<open>
  Mirroring \<open>left_to_copy\<close> bytes from offset \<open>poff\<close> of \<open>p\<close> on behind \<open>rambuf\<close>. \<open>None\<close> in the result is
  \<open>memerr\<close>; otherwise the new \<open>p\<close>, \<open>poff\<close> and \<open>newpbuflen\<close>.
\<close>

partial_function (option) mirror_loop ::
  "nat \<Rightarrow> pptr \<Rightarrow> nat \<Rightarrow> nat \<Rightarrow> nat \<Rightarrow> 'w net \<Rightarrow> ((pptr \<times> nat \<times> nat) option \<times> 'w net) option" where
  "mirror_loop rambuf p poff left_to_copy newpbuflen s =
     (if left_to_copy = 0 then Some (Some (p, poff, newpbuflen), s)
      else do { a \<leftarrow> p;
        c \<leftarrow> cells (pbufs s) a;
        assert (len c \<ge> poff);
        let newpbuflen = min left_to_copy (sub16 (len c) poff) in
        if newpbuflen = 0 then mirror_loop rambuf (nxt c) 0 left_to_copy newpbuflen s
        else case ip_frag_alloc_pbuf_custom_ref (frag s) of
          (None, f) \<Rightarrow> do { s \<leftarrow> free_fragment rambuf (s\<lparr>frag := f\<rparr>); Some (None, s) }
        | (Some pcr, f) \<Rightarrow>
            do { mem \<leftarrow> rd c poff newpbuflen;
              case pbuf_alloced_custom PBUF_RAW newpbuflen PBUF_REF pcr mem newpbuflen (pbufs s) of
                (None, h) \<Rightarrow> do { s \<leftarrow> free_fragment rambuf (s\<lparr>pbufs := h, frag := ip_frag_free_pbuf_custom_ref pcr f\<rparr>); Some (None, s) }
              | (Some newpbuf, h) \<Rightarrow>
                  do { h \<leftarrow> pbuf_ref (Some a) h;
                    h \<leftarrow> pbuf_cat (Some rambuf) (Some newpbuf) h;
                    let s = s\<lparr>pbufs := h, frag := f\<lparr>frag_original := (frag_original f)(pcr := Some a)\<rparr>\<rparr>;
                        left_to_copy = sub16 left_to_copy newpbuflen in
                    if left_to_copy \<noteq> 0 then mirror_loop rambuf (nxt c) 0 left_to_copy newpbuflen s
                    else Some (Some (Some a, poff, newpbuflen), s) } } })"

text \<open>The number of eight-byte blocks of a fragment, \<open>(u16_t)((netif->mtu - IP_HLEN) / 8)\<close>.\<close>

definition frag_blocks :: "nat \<Rightarrow> nat" where
  "frag_blocks l = (if IP_HLEN \<le> l then (l - IP_HLEN) div 8 else u16 (65536 - (IP_HLEN - l) div 8))"

text \<open>The header of a fragment: \<open>left\<close> bytes were to be sent before it.\<close>

definition frag_fill :: "'w ip_env \<Rightarrow> nat \<Rightarrow> nat \<Rightarrow> u16 \<Rightarrow> u16 \<Rightarrow> nat \<Rightarrow> nat \<Rightarrow> pbuf \<Rightarrow> pbuf option" where
  "frag_fill env l rambuf ofo mf_set left fragsize c =
     (let is_last = (int left \<le> int l - int IP_HLEN); tmp = IP_OFFMASK AND ofo;
          tmp = (if \<not> is_last \<or> mf_set \<noteq> 0 then tmp OR IP_MF else tmp)
      in do { c \<leftarrow> wr_all [(6, store16 (lwip_htons tmp)), (2, store16 (lwip_htons (of_nat (fragsize + IP_HLEN)))), (10, store16 0)] c;
        hdr \<leftarrow> rd c 0 IP_HLEN;
        wr c 10 (store16 (inet_chksum (at_odd env rambuf (payload c)) hdr)) })"

text \<open>The loop over the fragments; \<open>orig\<close> is the pointer to the header of the datagram.\<close>

partial_function (option) frag_loop ::
  "'w ip_env \<Rightarrow> nat \<Rightarrow> u32 \<Rightarrow> nat \<times> int \<Rightarrow> nat \<Rightarrow> u16 \<Rightarrow> pptr \<Rightarrow> nat \<Rightarrow> nat \<Rightarrow> u16 \<Rightarrow> nat \<Rightarrow> 'w net \<Rightarrow> (err \<times> 'w net) option" where
  "frag_loop env nif dest orig nfb mf_set p poff left ofo newpbuflen s =
     (if left = 0 then Some (ERR_OK, s)
      else do { n \<leftarrow> netifs s nif;
        let fragsize = min left (u16 (nfb * 8)) in
        do { (r, h) \<leftarrow> pbuf_alloc PBUF_LINK IP_HLEN PBUF_RAM (pbufs s);
          case r of
            None \<Rightarrow> Some (ERR_MEM, s\<lparr>pbufs := h\<rparr>)
          | Some rambuf \<Rightarrow>
              do { c \<leftarrow> cells h rambuf;
                assert (len c \<ge> IP_HLEN);
                hdr \<leftarrow> read_at orig IP_HLEN h;
                c \<leftarrow> wr c 0 hdr;
                (m, s) \<leftarrow> mirror_loop rambuf p poff fragsize newpbuflen (s\<lparr>pbufs := put rambuf c h\<rparr>);
                case m of
                  None \<Rightarrow> Some (ERR_MEM, s)
                | Some (p, poff, newpbuflen) \<Rightarrow>
                    do { c \<leftarrow> cells (pbufs s) rambuf;
                      c \<leftarrow> frag_fill env (n_mtu n) rambuf ofo mf_set left fragsize c;
                      (_, s) \<leftarrow> netif_output env nif rambuf dest (s\<lparr>pbufs := put rambuf c (pbufs s)\<rparr>);
                      s \<leftarrow> free_fragment rambuf s;
                      frag_loop env nif dest orig nfb mf_set p (u16 (poff + newpbuflen)) (sub16 left fragsize) (ofo + of_nat nfb) newpbuflen s } } } })"

definition ip4_frag :: "'w ip_env \<Rightarrow> nat \<Rightarrow> nat \<Rightarrow> u32 \<Rightarrow> 'w net \<Rightarrow> (err \<times> 'w net) option" where
  "ip4_frag env p nif dest s =
     do { c \<leftarrow> cells (pbufs s) p;
       n \<leftarrow> netifs s nif;
       b \<leftarrow> rd c 0 1;
       if IPH_HL_BYTES (b ! 0) \<noteq> IP_HLEN then Some (ERR_VAL, s)
       else do { assert (len c \<ge> IP_HLEN);
         bs \<leftarrow> rd c 6 2;
         let tmp = lwip_htons (le16 (bs ! 0) (bs ! 1)) in
         frag_loop env nif dest (p, payload c) (frag_blocks (n_mtu n)) (tmp AND IP_MF) (Some p) IP_HLEN (sub16 (tot_len c) IP_HLEN)
           (tmp AND IP_OFFMASK) 0 s } }"

end
