(* ===== verification/Frag_Queue.thy ===== *)
theory Frag_Queue
  imports Ip4_Reass Udp
begin

text \<open>
  The fragments that wait for reassembly. A \<open>fragment\<close> is a queued packet with its offset and
  data; \<open>linked h fs nx\<close> says that the helper structures in the buffers link the fragments \<open>fs\<close>.
  \<open>chain_spec\<close> shows that queueing is insertion into the sorted list of fragments, unless the new one
  overlaps, and that the validation finds out whether the list has no holes.
\<close>

section \<open>Fragments and their links\<close>

record fragment =
  f_cells :: "nat list"
  f_start :: nat
  f_data :: bytes
  f_hdr :: bytes    \<comment> \<open>the IP header it came with\<close>
  f_head :: pbuf    \<comment> \<open>the first cell, up to its contents\<close>

definition f_addr :: "fragment \<Rightarrow> nat" where "f_addr f = hd (f_cells f)"
definition f_end :: "fragment \<Rightarrow> nat" where "f_end f = f_start f + length (f_data f)"

definition ptr_ok :: "nat \<Rightarrow> bool" where "ptr_ok a \<longleftrightarrow> 0 < a \<and> a < 2 ^ 64"

definition helper :: "pptr \<Rightarrow> nat \<Rightarrow> nat \<Rightarrow> bytes" where
  "helper nx start e = store_ptr nx @ store16 (of_nat start) @ store16 (of_nat e)"

definition frag_at :: "pheap \<Rightarrow> fragment \<Rightarrow> pptr \<Rightarrow> bool" where
  "frag_at h f nx \<longleftrightarrow> f_cells f \<noteq> [] \<and> ptr_ok (f_addr f) \<and> (\<forall>b. nx = Some b \<longrightarrow> ptr_ok b) \<and> packet h (Some (f_addr f)) (f_cells f)
     \<and> (\<forall>a \<in> set (f_cells f). sole h a) \<and> take 12 (contents h (f_cells f)) = helper nx (f_start f) (f_end f)
     \<and> drop IP_HLEN (contents h (f_cells f)) = f_data f \<and> f_end f < 65536
     \<and> (\<exists>c. cells h (f_addr f) = Some c \<and> cell_kept (f_head f) c \<and> len c = len (f_head f) \<and> IP_HLEN \<le> len c)"

definition first :: "fragment list \<Rightarrow> pptr \<Rightarrow> pptr" where
  "first fs nx = (case fs of [] \<Rightarrow> nx | f # _ \<Rightarrow> Some (f_addr f))"

fun linked :: "pheap \<Rightarrow> fragment list \<Rightarrow> pptr \<Rightarrow> bool" where
  "linked h [] nx \<longleftrightarrow> True"
| "linked h (f # fs) nx \<longleftrightarrow> frag_at h f (first fs nx) \<and> linked h fs nx"

definition all_cells :: "fragment list \<Rightarrow> nat list" where
  "all_cells fs = concat (map f_cells fs)"

lemma first_simps [simp]: "first [] nx = nx" "first (f # fs) nx = Some (f_addr f)"
  "first (xs @ ys) nx = first xs (first ys nx)"
  by (simp_all add: first_def split: list.splits)

lemma all_cells_simps [simp]: "all_cells [] = []" "all_cells (f # fs) = f_cells f @ all_cells fs"
  "all_cells (xs @ ys) = all_cells xs @ all_cells ys"
  by (simp_all add: all_cells_def)

lemma linked_append [simp]: "linked h (xs @ ys) nx \<longleftrightarrow> linked h xs (first ys nx) \<and> linked h ys nx"
  by (induction xs) auto

lemma f_cells_subset: "f \<in> set fs \<Longrightarrow> set (f_cells f) \<subseteq> set (all_cells fs)"
  by (auto simp: all_cells_def)

lemma linked_frag: "linked h fs nx \<Longrightarrow> f \<in> set fs \<Longrightarrow> \<exists>n. frag_at h f n"
  by (induction fs) auto

lemma f_addr_in: "f_cells f \<noteq> [] \<Longrightarrow> f_addr f \<in> set (f_cells f)"
  by (simp add: f_addr_def)

lemma sole_frame: "same_on as h h' \<Longrightarrow> a \<in> set as \<Longrightarrow> sole h a \<Longrightarrow> sole h' a"
  by (simp add: sole_def same_on_def)

lemma frag_at_frame: "same_on (f_cells f) h h' \<Longrightarrow> frag_at h f nx \<Longrightarrow> frag_at h' f nx"
proof -
  assume s: "same_on (f_cells f) h h'" and f: "frag_at h f nx"
  then have "cells h' (f_addr f) = cells h (f_addr f)" by (simp add: same_on_def frag_at_def f_addr_in)
  moreover have "\<forall>a \<in> set (f_cells f). sole h' a" using f sole_frame [OF s] by (simp add: frag_at_def)
  ultimately show "frag_at h' f nx" using f packet_frame [OF s] contents_frame [OF s] by (simp add: frag_at_def)
qed

lemma linked_frame: "same_on (all_cells fs) h h' \<Longrightarrow> linked h fs nx \<Longrightarrow> linked h' fs nx"
proof (induction fs)
  case (Cons f fs)
  then have "same_on (f_cells f) h h'" "same_on (all_cells fs) h h'" by (auto simp: same_on_def)
  with Cons show ?case using frag_at_frame by auto
qed simp

subsection \<open>Stored pointers\<close>

lemma store_ptr_eq: "store_ptr q = (let w = (case q of None \<Rightarrow> 0 | Some a \<Rightarrow> of_nat a) :: 64 word
    in [ucast w, ucast (drop_bit 8 w), ucast (drop_bit 16 w), ucast (drop_bit 24 w), ucast (drop_bit 32 w),
        ucast (drop_bit 40 w), ucast (drop_bit 48 w), ucast (drop_bit 56 w)])"
  by (simp add: store_ptr_def Let_def upt_rec)

lemma length_store_ptr [simp]: "length (store_ptr q) = 8"
  by (simp add: store_ptr_def Let_def)

lemma length_helper [simp]: "length (helper nx start e) = 12"
  by (simp add: helper_def store16_def)

lemma byte_step: "ucast (ucast v :: u8) OR push_bit 8 (drop_bit 8 v) = (v :: 64 word)"
proof (rule bit_word_eqI)
  fix n assume "n < LENGTH(64)"
  then show "bit (ucast (ucast v :: u8) OR push_bit 8 (drop_bit 8 v) :: 64 word) n = bit v n"
    by (cases "n < 8") (auto simp: bit_simps)
qed

lemma byte_last: "ucast (ucast (drop_bit 56 w) :: u8) = drop_bit 56 (w :: 64 word)"
  by (rule bit_word_eqI) (auto simp: bit_simps dest: bit_imp_le_length)

lemma load_bytes: "foldr (\<lambda>b w. ucast b OR push_bit 8 w) (map (\<lambda>i. ucast (drop_bit (8 * i) w) :: u8) [0..<8]) (0 :: 64 word) = w"
proof -
  have k: "ucast (ucast (drop_bit k w) :: u8) OR push_bit 8 (drop_bit (8 + k) w) = drop_bit k w" for k
    using byte_step [of "drop_bit k w"] by simp
  show ?thesis
    using k [of 48] k [of 40] k [of 32] k [of 24] k [of 16] k [of 8] byte_step [of w] by (simp add: upt_rec byte_last)
qed

lemma load_store_ptr [simp]: "(\<forall>a. q = Some a \<longrightarrow> ptr_ok a) \<Longrightarrow> load_ptr (store_ptr q) = q"
proof (cases q)
  case (Some a)
  assume "\<forall>a. q = Some a \<longrightarrow> ptr_ok a"
  then have a: "0 < a" "a < 2 ^ 64" using Some by (simp_all add: ptr_ok_def)
  have u: "unat (of_nat a :: 64 word) = a" using a(2) by (simp add: unat_of_nat)
  then have "(of_nat a :: 64 word) \<noteq> 0" using a(1) by (metis less_irrefl unat_0)
  then show ?thesis using u Some unfolding load_ptr_def store_ptr_def Let_def load_bytes by simp
qed (simp add: load_ptr_def store_ptr_def Let_def load_bytes [where w = 0, simplified] upt_rec)

subsection \<open>Reading and writing the helper\<close>

lemma frag_at_cell:
  assumes "frag_at h f nx"
  obtains c as where "f_cells f = f_addr f # as" and "cells h (f_addr f) = Some c" and "cell_ok c" and "IP_HLEN \<le> len c"
    and "take 12 (data_of c) = helper nx (f_start f) (f_end f)"
proof -
  from assms obtain as c where *: "f_cells f = f_addr f # as" "cells h (f_addr f) = Some c" "IP_HLEN \<le> len c"
    by (cases "f_cells f") (auto simp: frag_at_def f_addr_def)
  have "packet h (Some (f_addr f)) (f_cells f)" using assms by (simp add: frag_at_def)
  then have ok: "cell_ok c" using *(1,2) by auto
  then have "12 \<le> length (data_of c)" using *(3) by (simp add: IP_HLEN_def)
  then have "take 12 (contents h (f_cells f)) = take 12 (data_of c)" unfolding *(1) using *(2) by simp
  then have "take 12 (data_of c) = helper nx (f_start f) (f_end f)" using assms by (simp add: frag_at_def)
  with that * ok show ?thesis by blast
qed

lemma rd_part: "cell_ok c \<Longrightarrow> n \<le> len c \<Longrightarrow> take n (data_of c) = bs \<Longrightarrow> off + k \<le> n \<Longrightarrow> rd c off k = Some (take k (drop off bs))"
  using rd_ok [of c off k] by (auto simp: drop_take min_absorb1)

lemma frag_reads:
  assumes "frag_at h f nx"
  shows "iprh_next (f_addr f) h = Some nx" and "iprh_start (f_addr f) h = Some (of_nat (f_start f))"
    and "iprh_end (f_addr f) h = Some (of_nat (f_end f))"
proof -
  from assms obtain c where c: "cells h (f_addr f) = Some c" "cell_ok c" "12 \<le> len c" "take 12 (data_of c) = helper nx (f_start f) (f_end f)"
    by (rule frag_at_cell) (simp add: IP_HLEN_def)
  note r = rd_part [OF c(2-4)]
  have "\<forall>b. nx = Some b \<longrightarrow> ptr_ok b" using assms by (simp add: frag_at_def)
  then show "iprh_next (f_addr f) h = Some nx" using c(1) r [of 0 8] by (simp add: iprh_next_def helper_def)
  show "iprh_start (f_addr f) h = Some (of_nat (f_start f))"
    using c(1) r [of 8 2] le16_store16 [of "of_nat (f_start f)"] by (simp add: iprh_start_def helper_def)
  show "iprh_end (f_addr f) h = Some (of_nat (f_end f))"
    using c(1) r [of 10 2] le16_store16 [of "of_nat (f_end f)"] by (simp add: iprh_end_def helper_def)
qed

lemma foldl_blit_append:
  "\<forall>(off, bs) \<in> set ws. off + length bs \<le> length a \<Longrightarrow>
    foldl (\<lambda>d (off, bs). blit d off bs) (a @ r) ws = foldl (\<lambda>d (off, bs). blit d off bs) a ws @ r"
proof (induction ws arbitrary: a)
  case (Cons w ws)
  obtain off bs where w: "w = (off, bs)" by fastforce
  have "blit (a @ r) off bs = blit a off bs @ r" using Cons.prems w by (simp add: blit_def)
  then show ?case using Cons w by simp
qed simp

text \<open>Stores into the first cell of a packet.\<close>

lemma write_first:
  assumes "packet h (Some p) (p # as)" and "\<forall>a \<in> set (p # as). sole h a" and "cells h p = Some c"
    and "\<forall>(off, bs) \<in> set ws. off + length bs \<le> len c"
  shows "\<exists>c'. wr_all ws c = Some c' \<and> packet (put p c' h) (Some p) (p # as) \<and> (\<forall>a \<in> set (p # as). sole (put p c' h) a)
    \<and> contents (put p c' h) (p # as) = foldl (\<lambda>d (off, bs). blit d off bs) (contents h (p # as)) ws
    \<and> cell_kept c c' \<and> len c' = len c \<and> tot_len c' = tot_len c \<and> cell_ok c' \<and> nxt c' = nxt c"
proof -
  from assms(1,3) have c: "cell_ok c" "tot_len c = len c + plen h as" "tot_len c < 65536" "packet h (nxt c) as" "p \<notin> set as"
    using packet_distinct by fastforce+
  from wr_all_ok [OF c(1) assms(4)] obtain c' where
    c': "wr_all ws c = Some c'" "cell_ok c'" "c' = c\<lparr>area := area c'\<rparr>" "data_of c' = foldl (\<lambda>d (off, bs). blit d off bs) (data_of c) ws" by blast
  have f: "len c' = len c" "tot_len c' = tot_len c" "nxt c' = nxt c" "ref c' = ref c" "type_internal c' = type_internal c"
    "flags c' = flags c" "payload c' = payload c"
    using arg_cong [OF c'(3), of len] arg_cong [OF c'(3), of tot_len] arg_cong [OF c'(3), of nxt] arg_cong [OF c'(3), of ref]
      arg_cong [OF c'(3), of type_internal] arg_cong [OF c'(3), of flags] arg_cong [OF c'(3), of payload] by simp_all
  have same: "same_on as h (put p c' h)" using c(5) by simp
  have "packet (put p c' h) (Some p) (p # as)"
    using c c'(2) f packet_frame [OF same c(4)] plen_frame [OF same] by simp
  moreover have "\<forall>a \<in> set (p # as). sole (put p c' h) a"
    using assms(2,3) c(5) f by (auto simp: sole_def releasable_def)
  moreover have "contents (put p c' h) (p # as) = foldl (\<lambda>d (off, bs). blit d off bs) (contents h (p # as)) ws"
    using c'(4) assms(3,4) c(1) contents_frame [OF same] by (simp add: foldl_blit_append)
  ultimately show ?thesis using c' f by (auto simp: cell_kept_def)
qed

lemma only_cells_put1: "only_cells [a] h (put a c h)"
  by (simp add: only_cells_def put_def)

lemma only_cells_mono: "only_cells as h h' \<Longrightarrow> set as \<subseteq> set bs \<Longrightarrow> only_cells bs h h'"
  by (auto simp: only_cells_def)

lemma only_cells_trans: "only_cells as h h1 \<Longrightarrow> only_cells as h1 h2 \<Longrightarrow> only_cells as h h2"
proof -
  assume a: "only_cells as h h1" "only_cells as h1 h2"
  then have "h2 = h1\<lparr>cells := cells h2\<rparr>" "h1 = h\<lparr>cells := cells h1\<rparr>" by (simp_all add: only_cells_def)
  then have "h2 = h\<lparr>cells := cells h2\<rparr>" by (metis pheap.surjective pheap.update_convs(1))
  then show ?thesis using a by (simp add: only_cells_def)
qed

lemma set_next_ok:
  assumes "frag_at h f nx" and "\<forall>b. nx' = Some b \<longrightarrow> ptr_ok b"
  shows "\<exists>h'. set_next (f_addr f) nx' h = Some h' \<and> frag_at h' f nx' \<and> only_cells (f_cells f) h h'"
proof -
  from assms(1) obtain c as where c: "f_cells f = f_addr f # as" "cells h (f_addr f) = Some c" "IP_HLEN \<le> len c"
    by (rule frag_at_cell)
  let ?ws = "[(0, store_ptr nx')]"
  have f: "packet h (Some (f_addr f)) (f_addr f # as)" "\<forall>a \<in> set (f_addr f # as). sole h a"
    using assms(1) c(1) by (simp_all add: frag_at_def del: packet.simps contents_simps)
  obtain c' where c': "wr_all ?ws c = Some c'" "packet (put (f_addr f) c' h) (Some (f_addr f)) (f_addr f # as)"
    "\<forall>a \<in> set (f_addr f # as). sole (put (f_addr f) c' h) a"
    "contents (put (f_addr f) c' h) (f_addr f # as) = blit (contents h (f_addr f # as)) 0 (store_ptr nx')"
    "cell_kept c c'" "len c' = len c"
    using write_first [OF f c(2), of ?ws] c(3) by (auto simp: IP_HLEN_def simp del: contents_simps)
  let ?d = "contents h (f_cells f)"
  have d: "take 12 ?d = helper nx (f_start f) (f_end f)" "drop IP_HLEN ?d = f_data f" using assms(1) by (simp_all add: frag_at_def)
  then have l: "12 \<le> length ?d" by (metis length_helper length_take min.cobounded1)
  have "take 12 (blit ?d 0 (store_ptr nx')) = helper nx' (f_start f) (f_end f)"
  proof -
    have "take 12 (blit ?d 0 (store_ptr nx')) = store_ptr nx' @ drop 8 (take 12 ?d)" by (simp add: blit_def drop_take)
    then show ?thesis unfolding d by (simp add: helper_def)
  qed
  moreover have "drop IP_HLEN (blit ?d 0 (store_ptr nx')) = f_data f"
    using d(2) l by (simp add: blit_def IP_HLEN_def)
  ultimately have "frag_at (put (f_addr f) c' h) f nx'"
    using assms c c' by (auto simp: frag_at_def cell_kept_def simp del: contents_simps packet.simps)
  moreover have "set_next (f_addr f) nx' h = Some (put (f_addr f) c' h)"
    using c(2) c'(1) by (cases "wr c 0 (store_ptr nx')") (simp_all add: set_next_def)
  moreover have "only_cells (f_cells f) h (put (f_addr f) c' h)"
    using only_cells_mono [OF only_cells_put1] c(1) by simp
  ultimately show ?thesis by blast
qed

section \<open>Queueing\<close>

text \<open>Two fragments in order; the list of queued fragments is sorted by this relation.\<close>

definition before :: "fragment \<Rightarrow> fragment \<Rightarrow> bool" where
  "before f g \<longleftrightarrow> f_start f < f_start g \<and> f_end f \<le> f_start g"

definition queued :: "fragment list \<Rightarrow> bool" where
  "queued fs \<longleftrightarrow> sorted_wrt before fs"

definition fits :: "fragment \<Rightarrow> fragment list \<Rightarrow> bool" where
  "fits f fs \<longleftrightarrow> (\<forall>g \<in> set fs. before g f \<or> before f g)"

fun enqueue :: "fragment \<Rightarrow> fragment list \<Rightarrow> fragment list" where
  "enqueue f [] = [f]"
| "enqueue f (g # gs) = (if f_start f < f_start g then f # g # gs else g # enqueue f gs)"

fun no_holes :: "fragment list \<Rightarrow> bool" where
  "no_holes (f # g # fs) \<longleftrightarrow> f_end f = f_start g \<and> no_holes (g # fs)"
| "no_holes _ \<longleftrightarrow> True"

lemma no_holes_snoc: "no_holes (fs @ [f]) \<longleftrightarrow> no_holes fs \<and> (fs \<noteq> [] \<longrightarrow> f_end (last fs) = f_start f)"
  by (induction fs rule: no_holes.induct) auto

lemma no_holes_split: "no_holes (xs @ [f]) \<and> no_holes (f # ys) \<longleftrightarrow> no_holes (xs @ f # ys)"
  by (induction xs rule: no_holes.induct) auto

lemma of_nat_less_16: "m < 65536 \<Longrightarrow> n < 65536 \<Longrightarrow> (of_nat m :: u16) < of_nat n \<longleftrightarrow> m < n"
  by (simp add: word_less_nat_alt unat_of_nat_16)

lemma of_nat_eq_16: "m < 65536 \<Longrightarrow> n < 65536 \<Longrightarrow> (of_nat m :: u16) = of_nat n \<longleftrightarrow> m = n"
  by (metis unat_of_nat_16)

lemma of_nat_le_16: "m < 65536 \<Longrightarrow> n < 65536 \<Longrightarrow> (of_nat m :: u16) \<le> of_nat n \<longleftrightarrow> m \<le> n"
  by (simp add: word_le_nat_alt unat_of_nat_16)

lemma frag_at_small: "frag_at h f nx \<Longrightarrow> f_end f < 65536 \<and> f_start f < 65536"
  by (auto simp: frag_at_def f_end_def)

text \<open>The search together with what follows it at the end of the list.\<close>

definition place :: "nat \<Rightarrow> pptr \<Rightarrow> pptr \<Rightarrow> bool \<Rightarrow> pptr \<Rightarrow> pheap \<Rightarrow> ((bool \<times> pptr) option \<times> pheap) option" where
  "place new_p q prev valid rp h =
     do { (r, h) \<leftarrow> chain_loop new_p q prev valid rp h;
       case r of None \<Rightarrow> Some (None, h)
       | Some (q, prev, valid, rp) \<Rightarrow>
           do { (valid, rp, h) \<leftarrow> (if q = None then chain_append new_p prev valid rp h else Some (valid, rp, h));
             Some (Some (valid, rp), h) } }"

definition last_addr :: "fragment list \<Rightarrow> pptr" where
  "last_addr xs = (if xs = [] then None else Some (f_addr (last xs)))"

lemma last_addr_snoc [simp]: "last_addr (xs @ [f]) = Some (f_addr f)" "last_addr [] = None"
  by (simp_all add: last_addr_def)

text \<open>Linking the last of \<open>xs\<close> to the new fragment.\<close>

lemma link_last:
  assumes "linked h (xs @ [g]) nx" and "distinct (all_cells (xs @ [g]))" and "ptr_ok b"
  shows "\<exists>h'. set_next (f_addr g) (Some b) h = Some h' \<and> linked h' (xs @ [g]) (Some b) \<and> only_cells (f_cells g) h h'"
proof -
  from assms(1) have g: "frag_at h g nx" and xs: "linked h xs (Some (f_addr g))" by simp_all
  from set_next_ok [OF g, of "Some b"] assms(3) obtain h' where
    h': "set_next (f_addr g) (Some b) h = Some h'" "frag_at h' g (Some b)" "only_cells (f_cells g) h h'" by auto
  have "same_on (all_cells xs) h h'" using only_cells_same_on [OF h'(3)] assms(2) by auto
  then have "linked h' xs (Some (f_addr g))" using linked_frame xs by blast
  then show ?thesis using h' by auto
qed

text \<open>The situation of the search: \<open>xs\<close> are passed, \<open>ys\<close> are to come.\<close>

definition searching :: "fragment \<Rightarrow> fragment list \<Rightarrow> fragment list \<Rightarrow> pptr \<Rightarrow> pheap \<Rightarrow> bool" where
  "searching f xs ys nx h \<longleftrightarrow> frag_at h f nx \<and> linked h (xs @ ys) None \<and> queued (xs @ ys) \<and> distinct (all_cells (f # xs @ ys))
     \<and> (\<forall>x \<in> set xs. before x f)"

definition placed :: "fragment \<Rightarrow> fragment list \<Rightarrow> pheap \<Rightarrow> (bool \<times> pptr) option \<times> pheap \<Rightarrow> bool" where
  "placed f fs h r \<longleftrightarrow> only_cells (all_cells (f # fs)) h (snd r) \<and>
     (if fits f fs
      then (\<exists>us vs. fs = us @ vs \<and> enqueue f fs = us @ f # vs \<and> fst r = Some (no_holes (us @ [f]), first (us @ [f]) None)
              \<and> linked (snd r) (us @ f # vs) None)
      else fst r = None \<and> linked (snd r) fs None \<and> (\<exists>nx. frag_at (snd r) f nx))"

lemma place_append:
  assumes "searching f xs [] None h"
  shows "\<exists>r. place (f_addr f) None (last_addr xs) (no_holes xs) (first xs None) h = Some r \<and> placed f xs h r"
proof (cases xs rule: rev_cases)
  case Nil
  then show ?thesis using assms
    by (auto simp: searching_def place_def chain_loop.simps chain_append_def placed_def fits_def)
next
  case (snoc ys g)
  have f: "frag_at h f None" "linked h (ys @ [g]) None" "distinct (all_cells (ys @ [g]))" "before g f" "\<forall>x \<in> set xs. before x f" "ptr_ok (f_addr f)"
    "set (f_cells f) \<inter> set (f_cells g) = {}"
    using assms snoc by (auto simp: searching_def frag_at_def)
  from link_last [OF f(2,3,6)] obtain h' where
    h': "set_next (f_addr g) (Some (f_addr f)) h = Some h'" "linked h' xs (Some (f_addr f))" "only_cells (f_cells g) h h'" using snoc by auto
  have g: "frag_at h g None" using f(2) by simp
  have nh: "no_holes (xs @ [f]) \<longleftrightarrow> no_holes xs \<and> f_end g = f_start f" using no_holes_snoc [of xs f] snoc by simp
  have la: "last_addr xs = Some (f_addr g)" and fi: "first (xs @ [f]) None = first xs None" using snoc by simp_all
  have small: "f_end g < 65536" "f_start f < 65536" using frag_at_small [OF g] frag_at_small [OF f(1)] by simp_all
  have "place (f_addr f) None (last_addr xs) (no_holes xs) (first xs None) h
      = Some (Some (no_holes (xs @ [f]), first (xs @ [f]) None), h')"
    using h'(1) frag_reads [OF g] frag_reads [OF f(1)] f(4) small la nh fi
    by (simp add: place_def chain_loop.simps chain_append_def before_def of_nat_le_16 of_nat_eq_16)
  moreover have "enqueue f xs = xs @ [f]"
    using f(5) by (induction xs) (auto simp: before_def)
  moreover have "frag_at h' f None" using frag_at_frame [OF only_cells_same_on [OF h'(3)] f(1)] f(7) by auto
  moreover have "only_cells (all_cells (f # xs)) h h'" by (rule only_cells_mono [OF h'(3)]) (auto simp: snoc)
  moreover have "fits f xs" using f(5) by (simp add: fits_def)
  ultimately show ?thesis using h'(2) by (auto simp: placed_def intro: exI [of _ xs] exI [of _ "[]"])
qed

lemma enqueue_split:
  assumes "\<forall>x \<in> set xs. before x f" and "case ys of [] \<Rightarrow> True | g # _ \<Rightarrow> f_start f < f_start g"
  shows "enqueue f (xs @ ys) = xs @ f # ys"
  using assms by (induction xs) (auto simp: before_def split: list.splits)

text \<open>The fragment goes in front of \<open>g\<close>.\<close>

lemma place_insert:
  assumes "searching f xs (g # ys) None h" and "f_start f < f_start g"
  shows "\<exists>r. place (f_addr f) (Some (f_addr g)) (last_addr xs) (no_holes xs) (first (xs @ g # ys) None) h = Some r
    \<and> placed f (xs @ g # ys) h r"
proof -
  have f: "frag_at h f None" and l: "linked h (xs @ g # ys) None" and q: "queued (xs @ g # ys)"
    and d: "distinct (all_cells (f # xs @ g # ys))" and bf: "\<forall>x \<in> set xs. before x f"
    using assms(1) by (auto simp: searching_def)
  have g: "frag_at h g (first ys None)" using l by simp
  have small: "f_end f < 65536" "f_start f < 65536" "f_start g < 65536" "f_end g < 65536"
    using frag_at_small [OF f] frag_at_small [OF g] by simp_all
  have ptr: "ptr_ok (f_addr f)" "ptr_ok (f_addr g)" using f g by (simp_all add: frag_at_def)
  from set_next_ok [OF f, of "Some (f_addr g)"] ptr obtain h1 where
    h1: "set_next (f_addr f) (Some (f_addr g)) h = Some h1" "frag_at h1 f (Some (f_addr g))" "only_cells (f_cells f) h h1" by auto
  have l1: "linked h1 (xs @ g # ys) None" using linked_frame [OF only_cells_same_on [OF h1(3)] l] d by auto
  have o1: "only_cells (all_cells (f # xs @ g # ys)) h h1" by (rule only_cells_mono [OF h1(3)]) simp
  have irrefl: "\<not> before g f" using assms(2) by (simp add: before_def)
  note step = place_def chain_loop.simps [of "f_addr f" "Some (f_addr g)"] frag_reads [OF f] frag_reads [OF g] h1(1)
    of_nat_less_16 small assms(2)
  show ?thesis
  proof (cases "f_end f > f_start g")
    case True
    then have "\<not> before f g" by (simp add: before_def)
    then have "\<not> fits f (xs @ g # ys)" using irrefl by (auto simp: fits_def)
    moreover have "place (f_addr f) (Some (f_addr g)) (last_addr xs) (no_holes xs) (first (xs @ g # ys) None) h = Some (None, h1)"
    proof (cases xs rule: rev_cases)
      case (snoc zs b)
      have "frag_at h1 b (Some (f_addr g))" using l1 snoc by simp
      from frag_reads(3) [OF this] show ?thesis using snoc True by (auto simp: step)
    qed (use True in \<open>simp add: step\<close>)
    ultimately show ?thesis using l1 h1(2) o1 by (auto simp: placed_def)
  next
    case False
    have "before f y" if "y \<in> set ys" for y
      using q that False assms(2) by (auto simp: queued_def sorted_wrt_append before_def)
    then have fits: "fits f (xs @ g # ys)" using bf False assms(2) by (auto simp: fits_def before_def)
    have e: "enqueue f (xs @ g # ys) = xs @ f # g # ys" using enqueue_split [OF bf, of "g # ys"] assms(2) by simp
    have "\<exists>h2. place (f_addr f) (Some (f_addr g)) (last_addr xs) (no_holes xs) (first (xs @ g # ys) None) h
        = Some (Some (no_holes (xs @ [f]), first (xs @ [f]) None), h2)
      \<and> linked h2 (xs @ f # g # ys) None \<and> only_cells (all_cells (f # xs @ g # ys)) h h2"
    proof (cases xs rule: rev_cases)
      case Nil
      then show ?thesis using False l1 h1(2) o1 by (simp add: step)
    next
      case (snoc zs b)
      have b: "frag_at h1 b (Some (f_addr g))" and lb: "linked h1 (zs @ [b]) (Some (f_addr g))" using l1 snoc by simp_all
      have bs: "f_end b < 65536" "f_end b \<le> f_start f" using frag_at_small [OF b] bf snoc by (auto simp: before_def)
      have "distinct (all_cells (zs @ [b]))" using d snoc by auto
      from link_last [OF lb this ptr(1)] obtain h2 where
        h2: "set_next (f_addr b) (Some (f_addr f)) h1 = Some h2" "linked h2 (zs @ [b]) (Some (f_addr f))" "only_cells (f_cells b) h1 h2" by blast
      have "same_on (all_cells (f # g # ys)) h1 h2" by (rule only_cells_same_on [OF h2(3)]) (use d snoc in auto)
      then have "linked h2 (f # g # ys) None" using linked_frame [of "f # g # ys" h1 h2 None] h1(2) l1 by simp
      then have "linked h2 (xs @ f # g # ys) None" using h2(2) snoc by simp
      moreover have "only_cells (all_cells (f # xs @ g # ys)) h h2"
        by (rule only_cells_trans [OF o1], rule only_cells_mono [OF h2(3)]) (auto simp: snoc)
      moreover have "no_holes (xs @ [f]) \<longleftrightarrow> no_holes xs \<and> f_end b = f_start f" "first (xs @ [f]) None = first (xs @ g # ys) None"
        "last_addr xs = Some (f_addr b)"
        using no_holes_snoc [of xs f] snoc by simp_all
      ultimately show ?thesis using False frag_reads(3) [OF b] bs h2(1) by (auto simp: step of_nat_eq_16)
    qed
    then show ?thesis using fits e by (fastforce simp: placed_def)
  qed
qed

lemma place_spec:
  assumes "searching f xs ys None h"
  shows "\<exists>r. place (f_addr f) (first ys None) (last_addr xs) (no_holes xs) (first (xs @ ys) None) h = Some r \<and> placed f (xs @ ys) h r"
  using assms
proof (induction ys arbitrary: xs)
  case Nil
  then show ?case using place_append by simp
next
  case (Cons g ys)
  have f: "frag_at h f None" and l: "linked h (xs @ g # ys) None" and bf: "\<forall>x \<in> set xs. before x f"
    using Cons.prems by (auto simp: searching_def)
  have g: "frag_at h g (first ys None)" using l by simp
  have small: "f_start f < 65536" "f_start g < 65536" "f_end g < 65536" using frag_at_small [OF f] frag_at_small [OF g] by simp_all
  note step = place_def chain_loop.simps [of "f_addr f" "Some (f_addr g)"] frag_reads [OF f] frag_reads [OF g]
    of_nat_less_16 of_nat_eq_16 small
  consider "f_start f < f_start g" | "f_start g \<le> f_start f" "\<not> before g f" | "before g f" by (cases "f_start f < f_start g") (auto simp: not_less)
  then show ?case
  proof cases
    case 1
    then show ?thesis using place_insert [OF Cons.prems] by simp
  next
    case 2
    then have "place (f_addr f) (Some (f_addr g)) (last_addr xs) (no_holes xs) (first (xs @ g # ys) None) h = Some (None, h)"
      by (auto simp: step before_def)
    moreover have "\<not> fits f (xs @ g # ys)" using 2 by (auto simp: fits_def before_def)
    ultimately show ?thesis using l f by (auto simp: placed_def)
  next
    case 3
    have "place (f_addr f) (Some (f_addr g)) (last_addr xs) (no_holes xs) (first (xs @ g # ys) None) h
        = place (f_addr f) (first ys None) (last_addr (xs @ [g])) (no_holes (xs @ [g])) (first ((xs @ [g]) @ ys) None) h"
    proof (cases xs rule: rev_cases)
      case Nil
      then show ?thesis using 3 by (simp add: step before_def last_addr_def)
    next
      case (snoc zs b)
      have b: "frag_at h b (Some (f_addr g))" using l snoc by simp
      have "no_holes (xs @ [g]) \<longleftrightarrow> no_holes xs \<and> f_end b = f_start g" "last_addr xs = Some (f_addr b)"
        using no_holes_snoc [of xs g] snoc by simp_all
      moreover have "first ((xs @ [g]) @ ys) None = first (xs @ g # ys) None" by simp
      ultimately show ?thesis using 3 frag_reads(3) [OF b] frag_at_small [OF b]
        by (simp only: last_addr_snoc) (simp add: step before_def)
    qed
    moreover have "searching f (xs @ [g]) ys None h" using Cons.prems 3 by (auto simp: searching_def)
    ultimately show ?thesis using Cons.IH [of "xs @ [g]"] by simp
  qed
qed

subsection \<open>The validation\<close>

lemma validate_loop_spec:
  assumes "linked h (f # fs) None"
  shows "\<exists>g \<in> set (f # fs). validate_loop (f_addr f) h = Some (no_holes (f # fs), f_addr g)
    \<and> (no_holes (f # fs) \<longrightarrow> g = last (f # fs))"
  using assms
proof (induction fs arbitrary: f)
  case Nil
  then show ?case using frag_reads(1) [of h f None] by (simp add: validate_loop.simps)
next
  case (Cons g fs)
  then have f: "frag_at h f (Some (f_addr g))" and g: "frag_at h g (first fs None)" by simp_all
  have *: "validate_loop (f_addr f) h = (if f_end f \<noteq> f_start g then Some (False, f_addr g) else validate_loop (f_addr g) h)"
    using frag_reads [OF f] frag_reads(2) [OF g] frag_at_small [OF f] frag_at_small [OF g]
    by (simp add: validate_loop.simps [of "f_addr f"] of_nat_eq_16)
  from Cons obtain l where "l \<in> set (g # fs)" "validate_loop (f_addr g) h = Some (no_holes (g # fs), f_addr l)"
    "no_holes (g # fs) \<longrightarrow> l = last (g # fs)" by fastforce
  then show ?case using * by auto
qed

lemma last_addr_unique:
  assumes "distinct (all_cells (f # g # fs))" and "\<forall>x \<in> set (f # g # fs). f_cells x \<noteq> []"
  shows "f_addr f \<noteq> f_addr (last (g # fs))"
proof
  assume e: "f_addr f = f_addr (last (g # fs))"
  have "last (g # fs) \<in> set (g # fs)" by (rule last_in_set) simp
  then have "f_addr (last (g # fs)) \<in> set (all_cells (g # fs))"
    using assms(2) f_addr_in [of "last (g # fs)"] f_cells_subset [of "last (g # fs)" "g # fs"] by (meson list.set_intros(2) subsetD)
  then show False using assms e f_addr_in [of f] by auto
qed

lemma validate_datagram_spec:
  assumes "linked h (xs @ f # ys) None" and "distinct (all_cells (xs @ f # ys))" and "xs @ ys \<noteq> []" and "no_holes (xs @ [f])"
  shows "validate_datagram (f_addr f) (first (xs @ [f]) None) h
    = Some (f_start (hd (xs @ f # ys)) = 0 \<and> no_holes (xs @ f # ys))"
proof -
  from assms(1) have l: "linked h (f # ys) None" by simp
  from validate_loop_spec [OF l] obtain g where
    g: "g \<in> set (f # ys)" "validate_loop (f_addr f) h = Some (no_holes (f # ys), f_addr g)" "no_holes (f # ys) \<longrightarrow> g = last (f # ys)" by blast
  define a where "a = hd (xs @ f # ys)"
  have first: "first (xs @ [f]) None = Some (f_addr a)" by (cases xs) (simp_all add: a_def)
  obtain na where na: "frag_at h a na" using assms(1) by (cases xs) (auto simp: a_def)
  obtain ng where ng: "frag_at h g ng" "g = last (f # ys) \<longrightarrow> ng = None"
  proof -
    obtain us vs where "f # ys = us @ g # vs" using split_list [OF g(1)] by blast
    then have "frag_at h g (first vs None)" using l by (simp only: linked_append linked.simps)
    moreover have "frag_at h (last (f # ys)) None"
      using l by (metis append_butlast_last_id first_simps(1) linked.simps(2) linked_append list.distinct(1))
    ultimately show ?thesis using that by (cases "g = last (f # ys)") auto
  qed
  have z: "f_start a < 65536" using frag_at_small [OF na] by simp
  have split: "no_holes (xs @ f # ys) \<longleftrightarrow> no_holes (f # ys)" using no_holes_split [of xs f ys] assms(4) by blast
  have ne: "no_holes (f # ys) \<longrightarrow> f_addr a \<noteq> f_addr g"
  proof
    assume "no_holes (f # ys)"
    then have e: "g = last (xs @ f # ys)" using g(3) by simp
    obtain b bs where b: "xs @ f # ys = a # b # bs" using assms(3) unfolding a_def by (cases xs; cases ys; cases "tl xs") auto
    have "\<forall>x \<in> set (a # b # bs). f_cells x \<noteq> []"
      using linked_frag [OF assms(1)] unfolding b by (auto simp: frag_at_def)
    then show "f_addr a \<noteq> f_addr g" using last_addr_unique [of a b bs] assms(2) unfolding b e by simp
  qed
  show ?thesis unfolding split
    using g(2,3) first frag_reads(2) [OF na] frag_reads(1) [OF ng(1)] ng(2) ne z of_nat_eq_16 [of "f_start a" 0]
    by (auto simp: validate_datagram_def a_def [symmetric])
qed

section \<open>A fragment is queued or dropped\<close>

text \<open>A packet with the IP header \<open>hdr\<close> that is the fragment \<open>f\<close>.\<close>

definition arrives :: "pheap \<Rightarrow> fragment \<Rightarrow> bytes \<Rightarrow> bool" where
  "arrives h f hdr \<longleftrightarrow> f_cells f \<noteq> [] \<and> ptr_ok (f_addr f) \<and> packet h (Some (f_addr f)) (f_cells f) \<and> (\<forall>a \<in> set (f_cells f). sole h a)
     \<and> length hdr = IP_HLEN \<and> contents h (f_cells f) = hdr @ f_data f \<and> IPH_HL_BYTES (hdr ! 0) = IP_HLEN
     \<and> iph_len hdr = of_nat (IP_HLEN + length (f_data f)) \<and> unat (IPH_OFFSET_BYTES hdr) = f_start f
     \<and> (\<exists>c. cells h (f_addr f) = Some c \<and> cell_kept (f_head f) c \<and> len c = len (f_head f) \<and> IP_HLEN \<le> len c)"

lemma arrives_length: "arrives h f hdr \<Longrightarrow> IP_HLEN + length (f_data f) < 65536"
  using packet_plen_less length_contents by (fastforce simp: arrives_def)

lemma arrives_cell:
  assumes "arrives h f hdr"
  obtains c as where "f_cells f = f_addr f # as" and "cells h (f_addr f) = Some c" and "cell_ok c" and "IP_HLEN \<le> len c"
    and "rd c 0 IP_HLEN = Some hdr" and "cell_kept (f_head f) c" and "len c = len (f_head f)"
proof -
  from assms obtain as c where *: "f_cells f = f_addr f # as" "cells h (f_addr f) = Some c" "IP_HLEN \<le> len c"
    "cell_kept (f_head f) c" "len c = len (f_head f)"
    by (cases "f_cells f") (auto simp: arrives_def f_addr_def)
  have "packet h (Some (f_addr f)) (f_cells f)" using assms by (simp add: arrives_def)
  then have ok: "cell_ok c" using *(1,2) by auto
  have "take IP_HLEN (data_of c) = take IP_HLEN (contents h (f_cells f))" unfolding *(1) using *(2,3) ok by simp
  also have "\<dots> = hdr" using assms by (simp add: arrives_def)
  finally show ?thesis using that * ok rd_ok [OF ok, of 0 IP_HLEN] by simp
qed

lemma arrives_frame:
  assumes "same_on (f_cells f) h h'" and "arrives h f hdr"
  shows "arrives h' f hdr"
proof -
  have "cells h' (f_addr f) = cells h (f_addr f)" using assms by (simp add: same_on_def arrives_def f_addr_in)
  moreover have "\<forall>a \<in> set (f_cells f). sole h' a" using assms(2) sole_frame [OF assms(1)] by (simp add: arrives_def)
  ultimately show ?thesis using assms(2) packet_frame [OF assms(1)] contents_frame [OF assms(1)] by (simp add: arrives_def)
qed

text \<open>The helper is written over the header.\<close>

lemma helper_written:
  assumes "arrives h f hdr" and "cells h (f_addr f) = Some c"
  defines "ws \<equiv> [(0, store_ptr None), (8, store16 (IPH_OFFSET_BYTES hdr)), (10, store16 (IPH_OFFSET_BYTES hdr + (iph_len hdr - of_nat IP_HLEN)))]"
  shows "\<exists>c'. wr_all ws c = Some c' \<and> packet (put (f_addr f) c' h) (Some (f_addr f)) (f_cells f)
    \<and> (\<forall>a \<in> set (f_cells f). sole (put (f_addr f) c' h) a) \<and> (f_end f < 65536 \<longrightarrow> frag_at (put (f_addr f) c' h) f None)"
proof -
  from assms(1) obtain as where as: "f_cells f = f_addr f # as" and len: "IP_HLEN \<le> len c" and k: "cell_kept (f_head f) c" "len c = len (f_head f)"
    using assms(2) by (elim arrives_cell) auto
  have f: "packet h (Some (f_addr f)) (f_addr f # as)" "\<forall>a \<in> set (f_addr f # as). sole h a"
    using assms(1) as by (simp_all add: arrives_def del: packet.simps contents_simps)
  have "\<forall>(off, bs) \<in> set ws. off + length bs \<le> len c" using len by (simp add: ws_def IP_HLEN_def store16_def)
  from write_first [OF f assms(2) this] obtain c' where
    c': "wr_all ws c = Some c'" "packet (put (f_addr f) c' h) (Some (f_addr f)) (f_cells f)" "\<forall>a \<in> set (f_cells f). sole (put (f_addr f) c' h) a"
      "contents (put (f_addr f) c' h) (f_cells f) = foldl (\<lambda>d (off, bs). blit d off bs) (hdr @ f_data f) ws"
      "cell_kept c c'" "len c' = len c"
    using assms(1) unfolding as [symmetric] arrives_def by auto
  have "f_start f = unat (IPH_OFFSET_BYTES hdr)" using assms(1) by (simp add: arrives_def)
  then have o: "IPH_OFFSET_BYTES hdr = of_nat (f_start f)" by simp
  have e: "IPH_OFFSET_BYTES hdr + (iph_len hdr - of_nat IP_HLEN) = of_nat (f_end f)"
    unfolding o using assms(1) by (simp add: arrives_def f_end_def)
  have ws: "ws = [(0, store_ptr None), (8, store16 (of_nat (f_start f))), (10, store16 (of_nat (f_end f)))]"
    unfolding ws_def e by (simp only: o)
  have h: "length hdr = 20" using assms(1) by (simp add: arrives_def IP_HLEN_def)
  have "take 12 (foldl (\<lambda>d (off, bs). blit d off bs) (hdr @ f_data f) ws) = helper None (f_start f) (f_end f)"
    "drop IP_HLEN (foldl (\<lambda>d (off, bs). blit d off bs) (hdr @ f_data f) ws) = f_data f"
    unfolding ws using h by (simp_all add: helper_def blit_def store16_def IP_HLEN_def)
  then have "frag_at (put (f_addr f) c' h) f None" if "f_end f < 65536"
    using c'(2-6) that assms(1) k len by (auto simp: frag_at_def arrives_def cell_kept_def simp del: packet.simps contents_simps)
  then show ?thesis using c' by blast
qed

definition complete :: "bool \<Rightarrow> fragment list \<Rightarrow> bool" where
  "complete last_seen fs \<longleftrightarrow> last_seen \<and> f_start (hd fs) = 0 \<and> no_holes fs"

definition chained :: "ip_reassdata \<Rightarrow> fragment \<Rightarrow> fragment list \<Rightarrow> bool \<Rightarrow> pheap \<Rightarrow> int \<times> ip_reassdata \<times> pheap \<Rightarrow> bool" where
  "chained ipr f fs is_last h r \<longleftrightarrow> (case r of (code, ipr', h') \<Rightarrow> only_cells (all_cells (f # fs)) h h' \<and>
     (if f_end f < 65536 \<and> fits f fs
      then linked h' (enqueue f fs) None \<and> ipr' = ipr\<lparr>r_p := first (enqueue f fs) None\<rparr>
        \<and> code = (if complete (is_last \<or> r_flags ipr AND IP_REASS_FLAG_LASTFRAG \<noteq> 0) (enqueue f fs)
                  then IP_REASS_VALIDATE_TELEGRAM_FINISHED else IP_REASS_VALIDATE_PBUF_QUEUED)
      else linked h' fs None \<and> ipr' = ipr \<and> code = IP_REASS_VALIDATE_PBUF_DROPPED
        \<and> packet h' (Some (f_addr f)) (f_cells f) \<and> (\<forall>a \<in> set (f_cells f). sole h' a)))"

lemma chain_by_place:
  "do { (r, h) \<leftarrow> chain_loop new_p q prev valid rp h;
        case r of None \<Rightarrow> Some (x h)
        | Some (q, prev, valid, rp) \<Rightarrow> do { (valid, rp, h) \<leftarrow> (if q = None then chain_append new_p prev valid rp h else Some (valid, rp, h)); g valid rp h } }
   = do { (r, h) \<leftarrow> place new_p q prev valid rp h; case r of None \<Rightarrow> Some (x h) | Some (valid, rp) \<Rightarrow> g valid rp h }"
  unfolding place_def by (cases "chain_loop new_p q prev valid rp h") (auto split: option.splits Option.bind_splits)

text \<open>The whole function.\<close>

lemma chain_spec:
  assumes new: "arrives h f hdr" and old: "linked h fs None" "queued fs" and sep: "distinct (all_cells (f # fs))"
    and p: "r_p ipr = first fs None" and two: "fs = [] \<longrightarrow> (is_last \<or> r_flags ipr AND IP_REASS_FLAG_LASTFRAG \<noteq> 0) \<longrightarrow> f_start f \<noteq> 0"
  shows "\<exists>r. ip_reass_chain_frag_into_datagram_and_validate ipr (f_addr f) is_last h = Some r \<and> chained ipr f fs is_last h r"
proof -
  let ?off = "IPH_OFFSET_BYTES hdr" and ?len = "iph_len hdr - of_nat IP_HLEN"
  let ?last = "is_last \<or> r_flags ipr AND IP_REASS_FLAG_LASTFRAG \<noteq> 0"
  from arrives_cell [OF new] obtain c as where c: "f_cells f = f_addr f # as" "cells h (f_addr f) = Some c" "rd c 0 IP_HLEN = Some hdr" by metis
  from helper_written [OF new c(2)] obtain c' where
    c': "wr_all [(0, store_ptr None), (8, store16 ?off), (10, store16 (?off + ?len))] c = Some c'"
      "packet (put (f_addr f) c' h) (Some (f_addr f)) (f_cells f)" "\<forall>a \<in> set (f_cells f). sole (put (f_addr f) c' h) a"
      "f_end f < 65536 \<longrightarrow> frag_at (put (f_addr f) c' h) f None" by blast
  let ?h = "put (f_addr f) c' h"
  have hl: "IPH_HL_BYTES (hdr ! 0) = IP_HLEN" "unat (iph_len hdr) = IP_HLEN + length (f_data f)" "unat ?off = f_start f"
    using new unat_of_nat_16 [OF arrives_length [OF new]] by (simp_all add: arrives_def)
  then have nl: "\<not> (of_nat IP_HLEN :: u16) > iph_len hdr" by (simp add: word_less_nat_alt unat_of_nat_16 IP_HLEN_def)
  then have ul: "unat ?len = length (f_data f)" using hl(2) by (subst unat_sub) (auto simp: unat_of_nat_16 IP_HLEN_def not_less)
  have ov: "?off + ?len < ?off \<longleftrightarrow> \<not> f_end f < 65536"
    using hl(3) ul unat_u16_less [of ?len] unat_u16_less [of ?off]
    by (auto simp: word_less_nat_alt unat_word_ariths f_end_def mod_if)
  have o: "only_cells (all_cells (f # fs)) h ?h" using only_cells_mono [OF only_cells_put1] c(1) by simp
  have l: "linked ?h fs None" using linked_frame [OF _ old(1), of ?h] sep c(1) by auto
  show ?thesis
  proof (cases "f_end f < 65536")
    case False
    then show ?thesis using c(2,3) c'(1-3) hl(1) nl ov o l
      by (auto simp: ip_reass_chain_frag_into_datagram_and_validate_def chained_def Let_def simp del: wr_all.simps)
  next
    case True
    then have f: "frag_at ?h f None" using c'(4) by blast
    then have s: "searching f [] fs None ?h" using l old(2) sep by (simp add: searching_def)
    from place_spec [OF s] obtain r h' where
      r: "place (f_addr f) (first fs None) None True (first fs None) ?h = Some (r, h')" "placed f fs ?h (r, h')"
      by (auto simp: last_addr_def)
    define g where "g = (\<lambda>valid rp h. let ipr = ipr\<lparr>r_p := rp\<rparr> in
        if ?last then do { valid \<leftarrow> (if valid then validate_datagram (f_addr f) rp h else Some False);
             Some (if valid then IP_REASS_VALIDATE_TELEGRAM_FINISHED else IP_REASS_VALIDATE_PBUF_QUEUED, ipr, h) }
        else Some (IP_REASS_VALIDATE_PBUF_QUEUED, ipr, h))"
    have run: "ip_reass_chain_frag_into_datagram_and_validate ipr (f_addr f) is_last h
        = (case r of None \<Rightarrow> Some (IP_REASS_VALIDATE_PBUF_DROPPED, ipr, h') | Some (valid, rp) \<Rightarrow> g valid rp h')"
      using c(2,3) c'(1) hl(1) nl ov True r(1)
        chain_by_place [of "f_addr f" "first fs None" None True "first fs None" ?h "\<lambda>h. (IP_REASS_VALIDATE_PBUF_DROPPED, ipr, h)" g]
      by (simp add: ip_reass_chain_frag_into_datagram_and_validate_def Let_def p g_def del: wr_all.simps cong del: option.case_cong_weak)
    have o': "only_cells (all_cells (f # fs)) h h'" using only_cells_trans [OF o] r(2) by (simp add: placed_def)
    show ?thesis
    proof (cases "fits f fs")
      case False
      with r(2) have "r = None" "linked h' fs None" "\<exists>nx. frag_at h' f nx" by (simp_all add: placed_def)
      then show ?thesis using run False o' by (auto simp: chained_def frag_at_def)
    next
      case fit: True
      with r(2) obtain us vs where uv: "fs = us @ vs" "enqueue f fs = us @ f # vs" "r = Some (no_holes (us @ [f]), first (us @ [f]) None)"
        "linked h' (us @ f # vs) None" by (auto simp: placed_def)
      have d: "distinct (all_cells (us @ f # vs))" using sep uv(1) by auto
      have v: "validate_datagram (f_addr f) (first (us @ [f]) None) h' = Some (f_start (hd (us @ f # vs)) = 0 \<and> no_holes (us @ f # vs))"
        if "fs \<noteq> []" "no_holes (us @ [f])" using validate_datagram_spec [OF uv(4) d] that uv(1) by simp
      have n: "no_holes (us @ f # vs) \<longrightarrow> no_holes (us @ [f])" using no_holes_split [of us f vs] by blast
      have "g (no_holes (us @ [f])) (first (us @ [f]) None) h' = Some (if complete ?last (us @ f # vs)
          then IP_REASS_VALIDATE_TELEGRAM_FINISHED else IP_REASS_VALIDATE_PBUF_QUEUED, ipr\<lparr>r_p := first (us @ [f]) None\<rparr>, h')"
      proof (cases "?last \<and> no_holes (us @ [f])")
        case lst: True
        show ?thesis
        proof (cases "fs = []")
          case True
          then have e: "us = []" "vs = []" using uv(1) by simp_all
          have "f_start f \<noteq> 0" "frag_at h' f None" "f_start f < 65536" using two True lst uv(4) e frag_at_small [of h' f None] by auto
          then show ?thesis using lst e frag_reads(2) [of h' f None] of_nat_eq_16 [of "f_start f" 0]
            by (auto simp: g_def complete_def validate_datagram_def)
        qed (use lst v in \<open>auto simp: g_def complete_def Let_def\<close>)
      qed (use n in \<open>auto simp: g_def complete_def Let_def\<close>)
      then show ?thesis using run uv o' fit True by (simp add: chained_def)
    qed
  qed
qed

end
