(* ===== verification/Reassembly.thy ===== *)
theory Reassembly
  imports Frag_Queue
begin

text \<open>
  What \<open>ip4_reass\<close> does to the datagrams in reassembly: the fragments of a datagram in whatever order
  become one packet, and a fragment that overlaps is dropped.
\<close>

section \<open>The datagram is put together\<close>

lemma pbuf_clen_spec:
  assumes "chain h p as" and "length as < 65536"
  shows "pbuf_clen p h = Some (length as)"
proof -
  have "n + length as < 65536 \<Longrightarrow> pbuf_clen_loop p n h = Some (n + length as)" for n
    using assms(1)
  proof (induction as arbitrary: p n)
    case Nil
    then show ?case by (simp add: pbuf_clen_loop.simps)
  next
    case (Cons a as)
    then obtain c where "p = Some a" "cells h a = Some c" "chain h (nxt c) as" by auto
    then show ?case using Cons.IH [of "n + 1" "nxt c"] Cons.prems(1) by (simp add: pbuf_clen_loop.simps [of "Some a"])
  qed
  from this [of 0] assms(2) show ?thesis by (simp add: pbuf_clen_def)
qed

text \<open>Concatenation changes only the links and the total lengths.\<close>

definition relinked :: "pheap \<Rightarrow> pheap \<Rightarrow> bool" where
  "relinked h h' \<longleftrightarrow> (\<forall>a. map_option (\<lambda>c. c\<lparr>nxt := None, tot_len := 0\<rparr>) (cells h' a)
     = map_option (\<lambda>c. c\<lparr>nxt := None, tot_len := 0\<rparr>) (cells h a))"

lemma relinked_refl: "relinked h h" and relinked_trans: "relinked h h1 \<Longrightarrow> relinked h1 h2 \<Longrightarrow> relinked h h2"
  by (simp_all add: relinked_def)

lemma relinked_cell:
  assumes "relinked h h'" and "cells h a = Some c"
  shows "\<exists>c'. cells h' a = Some c' \<and> area c' = area c \<and> payload c' = payload c \<and> len c' = len c \<and> ref c' = ref c \<and> flags c' = flags c
    \<and> type_internal c' = type_internal c"
proof -
  have "map_option (\<lambda>c. c\<lparr>nxt := None, tot_len := 0\<rparr>) (cells h' a) = Some (c\<lparr>nxt := None, tot_len := 0\<rparr>)"
    using assms by (simp add: relinked_def)
  then obtain c' where c': "cells h' a = Some c'" and e: "c'\<lparr>nxt := None, tot_len := 0\<rparr> = c\<lparr>nxt := None, tot_len := 0\<rparr>" by auto
  show ?thesis using c' arg_cong [OF e, of area] arg_cong [OF e, of payload] arg_cong [OF e, of len] arg_cong [OF e, of ref]
    arg_cong [OF e, of flags] arg_cong [OF e, of type_internal] by simp
qed

lemma relinked_sole: "relinked h h' \<Longrightarrow> sole h a \<Longrightarrow> sole h' a"
  unfolding sole_def releasable_def using relinked_cell by metis

lemma relinked_put: "cells h a = Some c \<Longrightarrow> relinked h (put a (c\<lparr>tot_len := t\<rparr>) h)"
  "cells h a = Some c \<Longrightarrow> relinked h (put a (c\<lparr>tot_len := t, nxt := q\<rparr>) h)"
  by (simp_all add: relinked_def)

lemma cat_loop_relinked:
  "chain h (Some p) (p # as) \<Longrightarrow> t \<notin> set (p # as) \<Longrightarrow> cat_loop p t h = Some h' \<Longrightarrow> relinked h h'"
proof (induction as arbitrary: p h)
  case Nil
  then obtain c d where c: "cells h p = Some c" "nxt c = None" "cells h t = Some d"
    by (auto simp: cat_loop.simps [of p] split: Option.bind_splits)
  then have "h' = put p (c\<lparr>tot_len := u16 (tot_len c + tot_len d), nxt := Some t\<rparr>) h"
    using Nil.prems(3) by (auto simp: cat_loop.simps [of p] split: Option.bind_splits)
  then show ?case using relinked_put c(1) by simp
next
  case (Cons a as)
  then obtain c d where c: "cells h p = Some c" "nxt c = Some a" "cells h t = Some d" "chain h (Some a) (a # as)"
    by (auto simp: cat_loop.simps [of p] split: Option.bind_splits)
  let ?h = "put p (c\<lparr>tot_len := u16 (tot_len c + tot_len d)\<rparr>) h"
  have "p \<notin> set (a # as)" using chain_distinct [OF Cons.prems(1)] by simp
  then have "chain ?h (Some a) (a # as)" using chain_frame [OF _ c(4)] by (metis same_on_put)
  moreover have "cat_loop a t ?h = Some h'" using Cons.prems(3) c by (simp add: cat_loop.simps [of p])
  ultimately have "relinked ?h h'" using Cons.IH Cons.prems(2) by simp
  then show ?case using relinked_trans relinked_put(1) [OF c(1)] by blast
qed

text \<open>The first cell of the packet stays as it is, but for its link and total length.\<close>

definition head_kept :: "nat \<Rightarrow> pheap \<Rightarrow> pheap \<Rightarrow> bool" where
  "head_kept p h h' \<longleftrightarrow> (\<exists>c c'. cells h p = Some c \<and> cells h' p = Some c' \<and> cell_kept c c' \<and> len c' = len c \<and> area c' = area c)"

lemma head_kept_trans: "head_kept p h h1 \<Longrightarrow> head_kept p h1 h2 \<Longrightarrow> head_kept p h h2"
  by (auto simp: head_kept_def cell_kept_def)

lemma cat_step:
  assumes acc: "packet h (Some p) (p # as)" "\<forall>b \<in> set (p # as). sole h b" and f: "frag_at h f nx"
    and sep: "set (p # as) \<inter> set (f_cells f) = {}" and l: "plen h (p # as) + length (f_data f) < 65536"
  shows "\<exists>h'. cat_fragments p (Some (f_addr f)) h = cat_fragments p nx h' \<and> packet h' (Some p) (p # as @ f_cells f)
    \<and> contents h' (p # as @ f_cells f) = contents h (p # as) @ f_data f \<and> (\<forall>b \<in> set (p # as @ f_cells f). sole h' b)
    \<and> only_cells (p # as @ f_cells f) h h' \<and> head_kept p h h'"
proof -
  from f obtain c bs where c: "f_cells f = f_addr f # bs" "cells h (f_addr f) = Some c" "cell_ok c" "IP_HLEN \<le> len c"
    "take 12 (data_of c) = helper nx (f_start f) (f_end f)" by (rule frag_at_cell)
  have pk: "packet h (Some (f_addr f)) (f_addr f # bs)" "\<forall>b \<in> set (f_addr f # bs). sole h b"
    using f c(1) by (simp_all add: frag_at_def del: packet.simps)
  have z: "0 < IP_HLEN" by (simp add: IP_HLEN_def)
  from header_removed [OF pk c(2,4) z packet_plen_less [OF pk(1)]] obtain d where
    d: "pbuf_remove_header (f_addr f) IP_HLEN h = Some (0, put (f_addr f) d h)" "packet (put (f_addr f) d h) (Some (f_addr f)) (f_cells f)"
      "contents (put (f_addr f) d h) (f_cells f) = drop IP_HLEN (contents h (f_cells f))" "\<forall>b \<in> set (f_cells f). sole (put (f_addr f) d h) b" "area d = area c"
    unfolding c(1) by blast
  let ?h = "put (f_addr f) d h"
  have data: "contents ?h (f_cells f) = f_data f" using d(3) f by (simp add: frag_at_def)
  have na: "f_addr f \<notin> set (p # as)" using sep c(1) by auto
  then have same: "same_on (p # as) h ?h" by simp
  have pa: "packet ?h (Some p) (p # as)" "plen ?h (p # as) = plen h (p # as)" "contents ?h (p # as) = contents h (p # as)"
    using packet_frame [OF same acc(1)] plen_frame [OF same] contents_frame [OF same] by blast+
  have l': "plen ?h (p # as) + plen ?h (f_cells f) < 65536" using l pa(2) length_contents [OF d(2)] data by simp
  from cat_loop_spec [OF pa(1) d(2) sep l'] obtain h' where
    h': "cat_loop p (f_addr f) ?h = Some h'" "packet h' (Some p) (p # as @ f_cells f)" "only_cells (p # as) ?h h'"
      "contents h' (p # as) = contents ?h (p # as)" by blast
  have rel: "relinked ?h h'" by (rule cat_loop_relinked [OF packet_chain [OF pa(1)] na h'(1)])
  have ff: "same_on (f_cells f) ?h h'" by (rule only_cells_same_on [OF h'(3) sep])
  then have "cells h' (f_addr f) = Some d" using c(1) by (simp add: same_on_def)
  moreover have "nat (payload c) + 8 \<le> length (area c)" "0 \<le> payload c" using c(3,4) by (simp_all add: cell_ok_def IP_HLEN_def)
  moreover have "take 8 (drop (nat (payload c)) (area c)) = store_ptr nx"
  proof -
    have "take 8 (drop (nat (payload c)) (area c)) = take 8 (take 12 (data_of c))" using c(4) by (simp add: data_of_def IP_HLEN_def min_def)
    then show ?thesis unfolding c(5) by (simp add: helper_def)
  qed
  ultimately have rd: "read_at (f_addr f, payload c) 8 h' = Some (store_ptr nx)" using d(5) by (simp add: read_at_def)
  have "cat_fragments p (Some (f_addr f)) h = cat_fragments p nx h'"
    using c(2) d(1) h'(1) rd f by (simp add: cat_fragments.simps [of p "Some (f_addr f)"] pbuf_cat_def frag_at_def)
  moreover have "contents h' (p # as @ f_cells f) = contents h (p # as) @ f_data f"
    using contents_frame [OF ff] h'(4) pa(3) data contents_simps(3) [of h' "p # as" "f_cells f"] by simp
  moreover have "\<forall>b \<in> set (p # as @ f_cells f). sole h' b"
  proof
    fix b assume "b \<in> set (p # as @ f_cells f)"
    then have "sole ?h b" using acc(2) sole_frame [OF same] d(4) by auto
    then show "sole h' b" by (rule relinked_sole [OF rel])
  qed
  moreover have "only_cells (p # as @ f_cells f) h h'"
    by (rule only_cells_trans [of _ _ ?h]; rule only_cells_mono, rule only_cells_put1 h'(3)) (auto simp: c(1))
  moreover obtain e where e: "cells h p = Some e" using acc(1) by auto
  then have "cells ?h p = Some e" using na by simp
  then have "head_kept p h h'" using relinked_cell [OF rel, of p e] e by (auto simp: head_kept_def cell_kept_def)
  ultimately show ?thesis using h'(2) by blast
qed

lemma cat_fragments_spec:
  assumes "packet h (Some p) (p # as)" and "\<forall>b \<in> set (p # as). sole h b" and "linked h fs None"
    and "distinct (p # as @ all_cells fs)" and "plen h (p # as) + length (concat (map f_data fs)) < 65536"
  shows "\<exists>h'. cat_fragments p (first fs None) h = Some h' \<and> packet h' (Some p) (p # as @ all_cells fs)
    \<and> contents h' (p # as @ all_cells fs) = contents h (p # as) @ concat (map f_data fs)
    \<and> (\<forall>b \<in> set (p # as @ all_cells fs). sole h' b) \<and> only_cells (p # as @ all_cells fs) h h' \<and> head_kept p h h'"
  using assms
proof (induction fs arbitrary: as h)
  case Nil
  then show ?case by (auto simp: cat_fragments.simps [of p None] head_kept_def)
next
  case (Cons f fs)
  have f: "frag_at h f (first fs None)" and sep: "set (p # as) \<inter> set (f_cells f) = {}" and l: "plen h (p # as) + length (f_data f) < 65536"
    using Cons.prems by auto
  from cat_step [OF Cons.prems(1,2) f sep l] obtain h1 where
    h1: "cat_fragments p (Some (f_addr f)) h = cat_fragments p (first fs None) h1" "packet h1 (Some p) (p # as @ f_cells f)"
      "contents h1 (p # as @ f_cells f) = contents h (p # as) @ f_data f" "\<forall>b \<in> set (p # as @ f_cells f). sole h1 b"
      "only_cells (p # as @ f_cells f) h h1" "head_kept p h h1" by blast
  have "same_on (all_cells fs) h h1" by (rule only_cells_same_on [OF h1(5)]) (use Cons.prems(4) in auto)
  then have "linked h1 fs None" using linked_frame Cons.prems(3) by auto
  moreover have "plen h1 (p # as @ f_cells f) + length (concat (map f_data fs)) < 65536"
    using Cons.prems(5) length_contents [OF h1(2)] length_contents [OF Cons.prems(1)] arg_cong [OF h1(3), of length]
    by (simp del: plen_simps contents_simps)
  moreover have "distinct (p # (as @ f_cells f) @ all_cells fs)" using Cons.prems(4) by simp
  ultimately obtain h' where
    h': "cat_fragments p (first fs None) h1 = Some h'" "packet h' (Some p) (p # (as @ f_cells f) @ all_cells fs)"
      "contents h' (p # (as @ f_cells f) @ all_cells fs) = contents h1 (p # as @ f_cells f) @ concat (map f_data fs)"
      "\<forall>b \<in> set (p # (as @ f_cells f) @ all_cells fs). sole h' b" "only_cells (p # (as @ f_cells f) @ all_cells fs) h1 h'" "head_kept p h1 h'"
    using Cons.IH [of h1 "as @ f_cells f"] h1(2,4) by auto
  have "only_cells (p # as @ all_cells (f # fs)) h h'"
    by (rule only_cells_trans [of _ _ h1]; rule only_cells_mono, rule h1(5) h'(5)) auto
  then show ?case using h1(1,3) h' head_kept_trans [OF h1(6) h'(6)] by simp
qed

text \<open>The header of the datagram: that of the first fragment with a new length and checksum, no offset and no flags.\<close>

definition whole_header :: "bytes \<Rightarrow> nat \<Rightarrow> bytes" where
  "whole_header hdr n =
     (let pre = take 2 hdr @ store16 (lwip_htons (of_nat n)) @ take 2 (drop 4 hdr) @ [0, 0] @ take 2 (drop 8 hdr); post = drop 12 hdr
      in pre @ store16 (inet_chksum False (pre @ [0, 0] @ post)) @ post)"

lemma length_whole_header [simp]: "length hdr = 20 \<Longrightarrow> length (whole_header hdr n) = 20"
  by (simp add: whole_header_def Let_def store16_def)

lemma whole_header_verifies: "length hdr = 20 \<Longrightarrow> inet_chksum a (whole_header hdr n) = 0"
  using stored_chksum [of "take 2 hdr @ store16 (lwip_htons (of_nat n)) @ take 2 (drop 4 hdr) @ [0, 0] @ take 2 (drop 8 hdr)" "drop 12 hdr" _ False a, OF _ _ refl]
  by (simp add: whole_header_def Let_def store16_def)

text \<open>Stores into an IP header that leave its checksum field zero, and then the checksum.\<close>

lemma header_stored:
  assumes pk: "packet h (Some p) (p # as)" "\<forall>b \<in> set (p # as). sole h b" and c: "cells h p = Some c" "IP_HLEN \<le> len c"
    and ws: "\<forall>(off, bs) \<in> set ws. off + length bs \<le> IP_HLEN"
    and z: "foldl (\<lambda>d (off, bs). blit d off bs) (contents h (p # as)) ws = (pre @ [0, 0] @ post) @ rest" "length pre = 10" "length post = 8"
  shows "\<exists>e c'. wr_all ws c = Some e \<and> rd e 0 IP_HLEN = Some (pre @ [0, 0] @ post)
    \<and> wr e 10 (store16 (inet_chksum (at_odd env p (payload e)) (pre @ [0, 0] @ post))) = Some c'
    \<and> packet (put p c' h) (Some p) (p # as) \<and> (\<forall>b \<in> set (p # as). sole (put p c' h) b)
    \<and> contents (put p c' h) (p # as) = (pre @ store16 (inet_chksum False (pre @ [0, 0] @ post)) @ post) @ rest \<and> cell_kept c c' \<and> len c' = len c"
proof -
  let ?z = "pre @ [0, 0] @ post"
  have "\<forall>(off, bs) \<in> set ws. off + length bs \<le> len c" using ws c(2) by fastforce
  from write_first [OF pk c(1) this] obtain e where
    e: "wr_all ws c = Some e" "packet (put p e h) (Some p) (p # as)" "\<forall>b \<in> set (p # as). sole (put p e h) b"
      "contents (put p e h) (p # as) = ?z @ rest" "cell_kept c e" "len e = len c" "cell_ok e" unfolding z(1) by blast
  have ce: "cells (put p e h) p = Some e" by simp
  have rd: "rd e 0 IP_HLEN = Some ?z"
  proof -
    have "take IP_HLEN (data_of e) = take IP_HLEN (contents (put p e h) (p # as))" using e(6,7) c(2) by simp
    also have "\<dots> = ?z" unfolding e(4) using z(2,3) by (simp add: IP_HLEN_def)
    finally show ?thesis using rd_ok [OF e(7), of 0 IP_HLEN] e(6) c(2) by simp
  qed
  let ?k = "store16 (inet_chksum (at_odd env p (payload e)) ?z)"
  have "\<forall>(off, bs) \<in> set [(10, ?k)]. off + length bs \<le> len e" using c(2) e(6) by (simp add: IP_HLEN_def store16_def)
  from write_first [OF e(2,3) ce this] obtain c' where
    c': "wr_all [(10, ?k)] e = Some c'" "packet (put p c' (put p e h)) (Some p) (p # as)" "\<forall>b \<in> set (p # as). sole (put p c' (put p e h)) b"
      "contents (put p c' (put p e h)) (p # as) = blit (contents (put p e h) (p # as)) 10 ?k" "cell_kept e c'" "len c' = len e"
    by (auto simp del: contents_simps packet.simps)
  have pp: "put p c' (put p e h) = put p c' h" by (simp add: put_def)
  have "blit (?z @ rest) 10 ?k = (pre @ store16 (inet_chksum False ?z) @ post) @ rest"
  proof -
    have "?k = store16 (inet_chksum False ?z)"
      by (rule arg_cong [where f = store16], rule inet_chksum_odd) (use z(2,3) in simp)
    then show ?thesis using z(2,3) by (simp add: blit_def store16_def)
  qed
  moreover have "wr e 10 ?k = Some c'" using c'(1) by (cases "wr e 10 ?k") simp_all
  moreover have "cell_kept c c'" using e(5) c'(5) by (simp add: cell_kept_def)
  ultimately show ?thesis using e(1,4,6) rd c'(2-4,6) unfolding pp by metis
qed

lemma reass_header_ok:
  assumes pk: "packet h (Some p) (p # as)" "\<forall>b \<in> set (p # as). sole h b" and c: "cells h p = Some c" "IP_HLEN \<le> len c"
    and hdr: "length (r_iphdr d) = IP_HLEN"
  shows "\<exists>c'. reass_header env p d c = Some c' \<and> packet (put p c' h) (Some p) (p # as) \<and> (\<forall>b \<in> set (p # as). sole (put p c' h) b)
    \<and> contents (put p c' h) (p # as) = whole_header (r_iphdr d) (r_datagram_len d + IP_HLEN) @ drop IP_HLEN (contents h (p # as))
    \<and> cell_kept c c' \<and> len c' = len c"
proof -
  let ?l = "store16 (lwip_htons (of_nat (r_datagram_len d + IP_HLEN)))" and ?m = "contents h (p # as)" and ?i = "r_iphdr d"
  let ?ws = "[(0, ?i), (2, ?l), (6, store16 0), (10, store16 0)]"
  let ?pre = "take 2 ?i @ ?l @ take 2 (drop 4 ?i) @ [0, 0] @ take 2 (drop 8 ?i)"
  have ws: "\<forall>(off, bs) \<in> set ?ws. off + length bs \<le> IP_HLEN" using hdr by (simp add: IP_HLEN_def store16_def)
  have i: "length ?i = 20" using hdr by (simp add: IP_HLEN_def)
  have m: "20 \<le> length ?m"
    using length_contents [OF pk(1)] c by (simp add: IP_HLEN_def del: contents_simps)
  have z: "foldl (\<lambda>d (off, bs). blit d off bs) ?m ?ws = (?pre @ [0, 0] @ drop 12 ?i) @ drop IP_HLEN ?m"
    using i m by (simp add: blit_def store16_def IP_HLEN_def min_def del: contents_simps) (simp add: eval_nat_numeral)
  have "length ?pre = 10" "length (drop 12 ?i) = 8" using i by (simp_all add: store16_def)
  from header_stored [OF pk c ws z this, of env] show ?thesis
    by (auto simp: reass_header_def whole_header_def Let_def simp del: wr_all.simps packet.simps contents_simps)
qed

lemma prev_of_middle: "distinct (us @ r # vs) \<Longrightarrow> prev_of r (us @ r # vs) = (if us = [] then None else Some (last us))"
proof (induction us rule: induct_list012)
  case 1
  have "r \<notin> set ws \<Longrightarrow> prev_of r ws = None" for ws by (induction r ws rule: prev_of.induct) auto
  moreover have "r \<noteq> v \<Longrightarrow> prev_of r (r # v # ws) = prev_of r (v # ws)" for v ws by simp
  ultimately show ?case using 1 by (cases vs) auto
qed auto

lemma dequeue_spec:
  assumes "reassdatagrams f = us @ r # vs" and "distinct (us @ r # vs)"
  shows "ip_reass_dequeue_datagram r (prev_of r (us @ r # vs)) f
    = Some (f\<lparr>reassdatagrams := us @ vs, reass_store := (reass_store f)(r := None), reass_pool := r # reass_pool f\<rparr>)"
proof (cases us rule: rev_cases)
  case Nil
  then show ?thesis using assms by (simp add: ip_reass_dequeue_datagram_def)
next
  case (snoc ws b)
  have "takeWhile (\<lambda>x. x \<noteq> b) (us @ r # vs) = ws" "dropWhile (\<lambda>x. x \<noteq> r) (us @ r # vs) = r # vs"
    using assms(2) snoc by (auto simp: takeWhile_append dropWhile_append)
  then show ?thesis using assms snoc prev_of_middle [OF assms(2)]
    by (cases ws) (auto simp: ip_reass_dequeue_datagram_def list_upto_def list_behind_def)
qed

text \<open>A datagram whose fragments are all there.\<close>

definition delivered :: "pheap \<Rightarrow> fragment list \<Rightarrow> bytes \<Rightarrow> pheap \<Rightarrow> bool" where
  "delivered h gs hdr h' \<longleftrightarrow> packet h' (Some (f_addr (hd gs))) (all_cells gs) \<and> contents h' (all_cells gs) = hdr @ concat (map f_data gs)
     \<and> (\<forall>b \<in> set (all_cells gs). sole h' b) \<and> only_cells (all_cells gs) h h'
     \<and> (\<exists>c. cells h' (f_addr (hd gs)) = Some c \<and> cell_kept (f_head (hd gs)) c \<and> len c = len (f_head (hd gs)))"

lemma reass_finish_spec:
  assumes d: "reass_store (frag s) r = Some d" "r_p d = first gs None" "length (r_iphdr d) = IP_HLEN" and gs: "gs \<noteq> []"
    and l: "linked (pbufs s) gs None" "distinct (all_cells gs)" and rs: "reassdatagrams (frag s) = us @ r # vs" "distinct (us @ r # vs)"
    and k: "length (all_cells gs) \<le> ip_reass_pbufcount (frag s)" "ip_reass_pbufcount (frag s) < 65536"
    and n: "IP_HLEN + length (concat (map f_data gs)) < 65536"
  shows "\<exists>h. reass_finish env r s = Some (Some (f_addr (hd gs)), s\<lparr>pbufs := h, frag := (frag s)\<lparr>reassdatagrams := us @ vs,
        reass_store := (reass_store (frag s))(r := None), reass_pool := r # reass_pool (frag s),
        ip_reass_pbufcount := ip_reass_pbufcount (frag s) - length (all_cells gs)\<rparr>\<rparr>)
    \<and> delivered (pbufs s) gs (whole_header (r_iphdr d) (r_datagram_len d + IP_HLEN)) h"
proof -
  obtain g fs where g: "gs = g # fs" using gs by (cases gs) auto
  let ?h = "pbufs s"
  have fg: "frag_at ?h g (first fs None)" and lf: "linked ?h fs None" using l(1) g by simp_all
  from fg obtain c as where c: "f_cells g = f_addr g # as" "cells ?h (f_addr g) = Some c" "IP_HLEN \<le> len c" by (rule frag_at_cell)
  have pk: "packet ?h (Some (f_addr g)) (f_addr g # as)" "\<forall>b \<in> set (f_addr g # as). sole ?h b"
    "drop IP_HLEN (contents ?h (f_addr g # as)) = f_data g" "cell_kept (f_head g) c" "len c = len (f_head g)"
    using fg c(1,2) by (auto simp: frag_at_def simp del: packet.simps contents_simps)
  from reass_header_ok [OF pk(1,2) c(2,3) d(3), of env] obtain c' where
    c': "reass_header env (f_addr g) d c = Some c'" "packet (put (f_addr g) c' ?h) (Some (f_addr g)) (f_addr g # as)"
      "\<forall>b \<in> set (f_addr g # as). sole (put (f_addr g) c' ?h) b"
      "contents (put (f_addr g) c' ?h) (f_addr g # as) = whole_header (r_iphdr d) (r_datagram_len d + IP_HLEN) @ f_data g"
      "cell_kept c c'" "len c' = len c" unfolding pk(3) by blast
  let ?h1 = "put (f_addr g) c' ?h"
  have "same_on (all_cells fs) ?h ?h1" using l(2) g c(1) by (intro same_on_put) auto
  then have l1: "linked ?h1 fs None" using linked_frame lf by blast
  have dist: "distinct (f_addr g # as @ all_cells fs)" using l(2) g c(1) by simp
  have i: "length (r_iphdr d) = 20" using d(3) by (simp add: IP_HLEN_def)
  have "plen ?h1 (f_addr g # as) = IP_HLEN + length (f_data g)"
    using length_contents [OF c'(2)] length_whole_header [OF i] unfolding c'(4) by (simp add: IP_HLEN_def)
  then have "plen ?h1 (f_addr g # as) + length (concat (map f_data fs)) < 65536" using n g by simp
  from cat_fragments_spec [OF c'(2,3) l1 dist this] obtain h where
    h: "cat_fragments (f_addr g) (first fs None) ?h1 = Some h" "packet h (Some (f_addr g)) (all_cells gs)"
      "contents h (all_cells gs) = contents ?h1 (f_addr g # as) @ concat (map f_data fs)" "\<forall>b \<in> set (all_cells gs). sole h b"
      "only_cells (all_cells gs) ?h1 h" "head_kept (f_addr g) ?h1 h" using g c(1) by auto
  have ds: "ip_reass_dequeue_datagram r (prev_of r (reassdatagrams (frag s))) (frag s) = Some ((frag s)\<lparr>reassdatagrams := us @ vs,
        reass_store := (reass_store (frag s))(r := None), reass_pool := r # reass_pool (frag s)\<rparr>)"
    unfolding rs(1) by (rule dequeue_spec [OF rs])
  have clen: "pbuf_clen (Some (f_addr g)) h = Some (length (all_cells gs))"
    by (rule pbuf_clen_spec [OF packet_chain [OF h(2)]]) (use k in linarith)
  have rp: "r_p d = Some (f_addr g)" "iprh_next (f_addr g) ?h = Some (first fs None)" using d(2) g frag_reads(1) [OF fg] by simp_all
  have "reass_finish env r s = Some (Some (f_addr (hd gs)), s\<lparr>pbufs := h, frag := (frag s)\<lparr>reassdatagrams := us @ vs,
        reass_store := (reass_store (frag s))(r := None), reass_pool := r # reass_pool (frag s),
        ip_reass_pbufcount := ip_reass_pbufcount (frag s) - length (all_cells gs)\<rparr>\<rparr>)"
    using d(1) rp c(2) c'(1) h(1) ds clen k g by (simp add: reass_finish_def)
  moreover have "only_cells (all_cells gs) ?h h"
    by (rule only_cells_trans [OF _ h(5)], rule only_cells_mono [OF only_cells_put1]) (use g c(1) in auto)
  moreover have "contents h (all_cells gs) = whole_header (r_iphdr d) (r_datagram_len d + IP_HLEN) @ concat (map f_data gs)"
    using h(3) c'(4) g by simp
  moreover have "\<exists>c. cells h (f_addr g) = Some c \<and> cell_kept (f_head g) c \<and> len c = len (f_head g)"
    using h(6) c'(5,6) pk(4,5) by (auto simp: head_kept_def cell_kept_def)
  ultimately show ?thesis using h(2,4) g by (auto simp: delivered_def)
qed

section \<open>One call\<close>

text \<open>Source, destination and identification, which the fragments of a datagram share; the last fragment has no MF flag.\<close>

definition key :: "bytes \<Rightarrow> bytes \<times> bytes \<times> bytes" where
  "key hdr = (take 4 (drop 12 hdr), take 4 (drop 16 hdr), take 2 (drop 4 hdr))"

definition last_fragment :: "bytes \<Rightarrow> bool" where
  "last_fragment hdr \<longleftrightarrow> le16 (hdr ! 6) (hdr ! 7) AND lwip_htons IP_MF = 0"

lemma match_key: "IP_ADDRESSES_AND_ID_MATCH a b \<longleftrightarrow> key a = key b"
  by (simp add: IP_ADDRESSES_AND_ID_MATCH_def key_def)

lemma offset_0: "unat (IPH_OFFSET_BYTES hdr) = 0 \<longleftrightarrow> iph_offset hdr AND IP_OFFMASK = 0"
proof -
  have "unat (iph_offset hdr AND IP_OFFMASK) \<le> unat IP_OFFMASK" by (rule word_le_nat_alt [THEN iffD1], rule word_and_le1)
  then have "unat (iph_offset hdr AND IP_OFFMASK) * 8 < 65536" by (simp add: IP_OFFMASK_def)
  then have "unat (IPH_OFFSET_BYTES hdr) = unat (iph_offset hdr AND IP_OFFMASK) * 8"
    by (simp add: IPH_OFFSET_BYTES_def unat_word_ariths)
  then show ?thesis by (simp add: unat_eq_0)
qed

lemma find_reass_none:
  "\<forall>r \<in> set rs. \<exists>d. reass_store f r = Some d \<and> key (r_iphdr d) \<noteq> key hdr \<Longrightarrow> find_reass hdr rs f = Some None"
  by (induction rs) (auto simp: match_key)

lemma upd_reass_simps [simp]:
  "upd_reass r d (upd_reass r e f) = upd_reass r d f" "reassdatagrams (upd_reass r d f) = reassdatagrams f"
  "reass_store (upd_reass r d f) = (reass_store f)(r \<mapsto> d)" "reass_pool (upd_reass r d f) = reass_pool f"
  "ip_reass_pbufcount (upd_reass r d f) = ip_reass_pbufcount f"
  by (simp_all add: upd_reass_def)

text \<open>With room for the fragment, \<open>ip4_reass\<close> looks for the entry and queues the fragment there.\<close>

lemma ip4_reass_room:
  assumes f: "arrives (pbufs s) f hdr" and room: "ip_reass_pbufcount (frag s) + length (f_cells f) \<le> IP_REASS_MAX_PBUFS"
    
  shows "ip4_reass env (f_addr f) s = do { (ipr, s) \<leftarrow> reass_entry env hdr (length (f_cells f)) s;
    case ipr of None \<Rightarrow> reass_nullreturn (f_addr f) s
    | Some r \<Rightarrow> if last_fragment hdr \<and> f_end f > 0xFFFF - IP_HLEN then reass_nullreturn_ipr (f_addr f) r s
        else reass_fragment env (f_addr f) r (last_fragment hdr) (of_nat (f_end f)) (length (f_cells f)) s }"
proof -
  from arrives_cell [OF f] obtain c where c: "cells (pbufs s) (f_addr f) = Some c" "rd c 0 IP_HLEN = Some hdr" by metis
  have hl: "IPH_HL_BYTES (hdr ! 0) = IP_HLEN" "unat (iph_len hdr) = IP_HLEN + length (f_data f)" "unat (IPH_OFFSET_BYTES hdr) = f_start f"
    using f unat_of_nat_16 [OF arrives_length [OF f]] by (simp_all add: arrives_def)
  then have nl: "\<not> (of_nat IP_HLEN :: u16) > iph_len hdr" by (simp add: word_less_nat_alt unat_of_nat_16 IP_HLEN_def)
  then have ul: "unat (iph_len hdr - of_nat IP_HLEN) = length (f_data f)"
    using hl(2) by (subst unat_sub) (auto simp: unat_of_nat_16 IP_HLEN_def not_less)
  let ?e = "IPH_OFFSET_BYTES hdr + (iph_len hdr - of_nat IP_HLEN)"
  have ue: "unat ?e = f_end f mod 65536" using hl(3) ul by (simp add: unat_word_ariths f_end_def)
  have eq: "?e = of_nat (f_end f)" unfolding word_unat_eq_iff ue by (simp add: unat_of_nat take_bit_eq_mod)
  have "?e < IPH_OFFSET_BYTES hdr \<or> unat ?e > 0xFFFF - IP_HLEN \<longleftrightarrow> f_end f > 0xFFFF - IP_HLEN"
    using ue hl(3) ul unat_u16_less [of "IPH_OFFSET_BYTES hdr"] unat_u16_less [of "iph_len hdr - of_nat IP_HLEN"]
    by (auto simp: word_less_nat_alt f_end_def IP_HLEN_def mod_if)
  moreover have "pbuf_clen (Some (f_addr f)) (pbufs s) = Some (length (f_cells f))"
    using f room by (intro pbuf_clen_spec packet_chain) (auto simp: arrives_def IP_REASS_MAX_PBUFS_def)
  ultimately show ?thesis
    using c hl(1) nl room
    by (simp add: ip4_reass_def Let_def last_fragment_def [symmetric] eq cong: if_cong cong del: option.case_cong_weak)
qed

text \<open>A fragment that fits.\<close>

lemma reass_fragment_fits:
  assumes d: "reass_store (frag s) r = Some d" "r_p d = first gs None" and l: "linked (pbufs s) gs None" "queued gs"
    and sep: "distinct (all_cells (f # gs))" and f: "arrives (pbufs s) f hdr" "f_end f < 65536" "fits f gs"
    and two: "gs = [] \<longrightarrow> (is_last \<or> r_flags d AND IP_REASS_FLAG_LASTFRAG \<noteq> 0) \<longrightarrow> f_start f \<noteq> 0"
    and k: "ip_reass_pbufcount (frag s) + n < 65536"
  shows "\<exists>h e. reass_fragment env (f_addr f) r is_last (of_nat (f_end f)) n s =
      (let t = s\<lparr>pbufs := h, frag := (upd_reass r e (frag s))\<lparr>ip_reass_pbufcount := ip_reass_pbufcount (frag s) + n\<rparr>\<rparr>
       in if complete (is_last \<or> r_flags d AND IP_REASS_FLAG_LASTFRAG \<noteq> 0) (enqueue f gs) then reass_finish env r t else Some (None, t))
    \<and> e = d\<lparr>r_p := first (enqueue f gs) None, r_datagram_len := if is_last then f_end f else r_datagram_len d,
            r_flags := if is_last then r_flags d OR IP_REASS_FLAG_LASTFRAG else r_flags d\<rparr>
    \<and> linked h (enqueue f gs) None \<and> only_cells (all_cells (f # gs)) (pbufs s) h"
proof -
  let ?last = "is_last \<or> r_flags d AND IP_REASS_FLAG_LASTFRAG \<noteq> 0"
  from chain_spec [OF f(1) l sep d(2) two] obtain code d' h where
    r: "ip_reass_chain_frag_into_datagram_and_validate d (f_addr f) is_last (pbufs s) = Some (code, d', h)"
      "chained d f gs is_last (pbufs s) (code, d', h)" by auto
  from r(2) f(2,3) have c: "linked h (enqueue f gs) None" "only_cells (all_cells (f # gs)) (pbufs s) h" "d' = d\<lparr>r_p := first (enqueue f gs) None\<rparr>"
    "code = (if complete ?last (enqueue f gs) then IP_REASS_VALIDATE_TELEGRAM_FINISHED else IP_REASS_VALIDATE_PBUF_QUEUED)"
    by (auto simp: chained_def)
  then show ?thesis using d(1) r(1) f(2) k
    by (auto simp: reass_fragment_def Let_def unat_of_nat_16 IP_REASS_VALIDATE_TELEGRAM_FINISHED_def IP_REASS_VALIDATE_PBUF_QUEUED_def
      IP_REASS_VALIDATE_PBUF_DROPPED_def intro!: exI [of _ h])
qed

section \<open>The fragments of one datagram\<close>

text \<open>\<open>xs\<close> are all fragments of a datagram, in order.\<close>

definition whole :: "fragment list \<Rightarrow> bool" where
  "whole xs \<longleftrightarrow> 2 \<le> length xs \<and> f_start (hd xs) = 0 \<and> no_holes xs \<and> f_end (last xs) \<le> 0xFFFF - IP_HLEN
     \<and> (\<forall>f \<in> set xs. f_data f \<noteq> [] \<and> key (f_hdr f) = key (f_hdr (hd xs)) \<and> (last_fragment (f_hdr f) \<longleftrightarrow> f = last xs))"

lemma no_holes_queued:
  assumes "no_holes xs" and "\<forall>f \<in> set xs. f_data f \<noteq> []"
  shows "queued xs"
  using assms
proof (induction xs rule: no_holes.induct)
  case (1 f g fs)
  then have q: "queued (g # fs)" by simp
  have fg: "before f g" using 1(2,3) by (auto simp: before_def f_end_def simp flip: length_greater_0_conv)
  have "before f x" if "x \<in> set fs" for x using q fg that by (fastforce simp: queued_def before_def f_end_def)
  then show ?case using q fg by (auto simp: queued_def)
qed (auto simp: queued_def)

lemma queued_filter: "queued xs \<Longrightarrow> queued (filter P xs)"
  by (simp add: queued_def sorted_wrt_filter)

lemma before_irrefl: "\<not> before f f"
  by (simp add: before_def)

lemma enqueue_first: "\<forall>g \<in> set gs. before f g \<Longrightarrow> enqueue f gs = f # gs"
  by (cases gs) (auto simp: before_def)

lemma enqueue_filter:
  assumes "queued xs" and "f \<in> set xs" and "\<not> P f"
  shows "enqueue f (filter P xs) = filter (\<lambda>g. P g \<or> g = f) xs"
  using assms
proof (induction xs)
  case (Cons x xs)
  then have q: "queued xs" "\<forall>g \<in> set xs. before x g" by (simp_all add: queued_def)
  show ?case
  proof (cases "x = f")
    case True
    then have "f \<notin> set xs" using q(2) before_irrefl by blast
    then have "filter (\<lambda>g. P g \<or> g = f) xs = filter P xs" by (intro filter_cong) auto
    then show ?thesis using True Cons.prems(3) q(2) by (simp add: enqueue_first)
  next
    case False
    then have "f \<in> set xs" using Cons.prems(2) by simp
    then have "\<not> f_start f < f_start x" using q(2) by (auto simp: before_def)
    then show ?thesis using Cons.IH [OF q(1) \<open>f \<in> set xs\<close> Cons.prems(3)] False by auto
  qed
qed simp

lemma fits_filter: "queued xs \<Longrightarrow> f \<in> set xs \<Longrightarrow> \<not> P f \<Longrightarrow> fits f (filter P xs)"
proof (induction xs)
  case (Cons x xs)
  then show ?case by (auto simp: queued_def fits_def)
qed simp

text \<open>Some of the fragments have no hole between the first and the last only if they are all.\<close>

lemma no_holes_all:
  assumes "no_holes xs" and "\<forall>f \<in> set xs. f_data f \<noteq> []" and "xs \<noteq> []" and "P (hd xs)" and "P (last xs)" and "no_holes (filter P xs)"
  shows "\<forall>f \<in> set xs. P f"
  using assms
proof (induction xs rule: no_holes.induct)
  case (1 x y ys)
  let ?gs = "filter P (y # ys)"
  have nz: "\<forall>f \<in> set (y # ys). f_data f \<noteq> []" and ny: "no_holes (y # ys)" and xy: "f_end x = f_start y" using 1(2,3) by simp_all
  have "last (y # ys) \<in> set (y # ys)" by (rule last_in_set) simp
  moreover have "P (last (y # ys))" using 1(6) by simp
  ultimately have "last (y # ys) \<in> set ?gs" by (simp only: set_filter mem_Collect_eq)
  then obtain g gs where g: "?gs = g # gs" by (cases ?gs) auto
  then have "f_end x = f_start g" "no_holes ?gs" using 1(5,7) by simp_all
  then have gy: "f_start g = f_start y" using xy by simp
  have "P y"
  proof (rule ccontr)
    assume "\<not> P y"
    then have "filter P ys = g # gs" using g by simp
    then have "g \<in> set ys" by (metis filter_is_subset list.set_intros(1) subsetD)
    moreover have "queued (y # ys)" using no_holes_queued [OF ny nz] .
    ultimately show False using gy by (auto simp: queued_def before_def)
  qed
  then show ?case using 1(1) [OF ny nz] 1(5,6) \<open>no_holes ?gs\<close> by simp
qed auto

lemma complete_iff:
  assumes "whole xs" and "filter P xs \<noteq> []"
  shows "complete (P (last xs)) (filter P xs) \<longleftrightarrow> (\<forall>f \<in> set xs. P f)"
proof
  assume c: "complete (P (last xs)) (filter P xs)"
  have ne: "xs \<noteq> []" "no_holes xs" "\<forall>f \<in> set xs. f_data f \<noteq> []" "f_start (hd xs) = 0" using assms(1) by (auto simp: whole_def)
  have "P (hd xs)"
  proof (rule ccontr)
    assume n: "\<not> P (hd xs)"
    obtain y ys where xs: "xs = y # ys" using ne(1) by (cases xs) auto
    have "hd (filter P xs) \<in> set (filter P xs)" by (rule hd_in_set [OF assms(2)])
    then have "hd (filter P xs) \<in> set ys" using n xs by auto
    then have "f_start (hd (filter P xs)) > 0" using no_holes_queued [OF ne(2,3)] xs ne(4) by (auto simp: queued_def before_def)
    then show False using c by (simp add: complete_def)
  qed
  then show "\<forall>f \<in> set xs. P f" using no_holes_all [OF ne(2,3,1)] c unfolding complete_def by blast
next
  assume "\<forall>f \<in> set xs. P f"
  moreover from this have "filter P xs = xs" by simp
  moreover have "xs \<noteq> []" using assms(2) by auto
  ultimately show "complete (P (last xs)) (filter P xs)" using assms(1) by (simp add: complete_def whole_def)
qed

lemma all_cells_filter: "set (all_cells (filter P xs)) \<subseteq> set (all_cells xs)" "distinct (all_cells xs) \<Longrightarrow> distinct (all_cells (filter P xs))"
  by (induction xs) auto

lemma all_cells_add:
  assumes "distinct xs" and "f \<in> set xs" and "\<not> P f"
  shows "length (all_cells (filter (\<lambda>g. P g \<or> g = f) xs)) = length (all_cells (filter P xs)) + length (f_cells f)"
  using assms
proof (induction xs)
  case (Cons x xs)
  show ?case
  proof (cases "x = f")
    case True
    then have "filter (\<lambda>g. P g \<or> g = f) xs = filter P xs" using Cons.prems(1) by (intro filter_cong) auto
    then show ?thesis using True Cons.prems(3) by simp
  qed (use Cons in auto)
qed simp

lemma fragment_apart:
  assumes "distinct (all_cells xs)" and "f \<in> set xs" and "\<not> P f"
  shows "set (f_cells f) \<inter> set (all_cells (filter P xs)) = {}"
  using assms
proof (induction xs)
  case (Cons x xs)
  show ?case
  proof (cases "x = f")
    case True
    then show ?thesis using Cons.prems all_cells_filter(1) [of P xs] by auto
  next
    case False
    then have "set (f_cells f) \<subseteq> set (all_cells xs)" using Cons.prems(2) f_cells_subset by auto
    then show ?thesis using Cons False by auto
  qed
qed simp

lemma queued_distinct: "queued xs \<Longrightarrow> distinct xs"
  by (induction xs) (auto simp: queued_def before_irrefl)

section \<open>From the first fragment to the last\<close>

text \<open>The state while the fragments \<open>P\<close> among \<open>xs\<close> wait in the entry \<open>r\<close>; \<open>Q\<close> are those whose header has been seen.\<close>

definition entry_state :: "'w net \<Rightarrow> nat \<Rightarrow> nat list \<Rightarrow> ip_reassdata \<Rightarrow> pheap \<Rightarrow> nat \<Rightarrow> 'w net" where
  "entry_state s r free d h n = s\<lparr>pbufs := h, frag := (frag s)\<lparr>reassdatagrams := r # reassdatagrams (frag s),
     reass_store := (reass_store (frag s))(r \<mapsto> d), reass_pool := free, ip_reass_pbufcount := ip_reass_pbufcount (frag s) + n\<rparr>\<rparr>"

definition entry_ok :: "fragment list \<Rightarrow> (fragment \<Rightarrow> bool) \<Rightarrow> (fragment \<Rightarrow> bool) \<Rightarrow> ip_reassdata \<Rightarrow> bool" where
  "entry_ok xs P Q d \<longleftrightarrow> r_p d = first (filter P xs) None \<and> length (r_iphdr d) = IP_HLEN \<and> key (r_iphdr d) = key (f_hdr (hd xs))
     \<and> (if Q (hd xs) then r_iphdr d = f_hdr (hd xs) else iph_offset (r_iphdr d) AND IP_OFFMASK \<noteq> 0)
     \<and> (r_flags d AND IP_REASS_FLAG_LASTFRAG \<noteq> 0 \<longleftrightarrow> P (last xs)) \<and> (P (last xs) \<longrightarrow> r_datagram_len d = f_end (last xs))"

definition cells_ok :: "pheap \<Rightarrow> fragment list \<Rightarrow> (fragment \<Rightarrow> bool) \<Rightarrow> pheap \<Rightarrow> bool" where
  "cells_ok h xs P h' \<longleftrightarrow> linked h' (filter P xs) None \<and> (\<forall>f \<in> set xs. \<not> P f \<longrightarrow> arrives h' f (f_hdr f)) \<and> only_cells (all_cells xs) h h'"

text \<open>No entry for the datagram yet, a free entry \<open>r\<close>, and room for all fragments.\<close>

definition ready_for :: "'w net \<Rightarrow> fragment list \<Rightarrow> nat \<Rightarrow> nat list \<Rightarrow> bool" where
  "ready_for s xs r free \<longleftrightarrow> whole xs \<and> distinct (all_cells xs) \<and> distinct (r # reassdatagrams (frag s)) \<and> reass_pool (frag s) = r # free
     \<and> (\<forall>b \<in> set (reassdatagrams (frag s)). \<exists>d. reass_store (frag s) b = Some d \<and> key (r_iphdr d) \<noteq> key (f_hdr (hd xs)))
     \<and> ip_reass_pbufcount (frag s) + length (all_cells xs) \<le> IP_REASS_MAX_PBUFS"

definition final_state :: "'w net \<Rightarrow> nat \<Rightarrow> pheap \<Rightarrow> 'w net" where
  "final_state s r h = s\<lparr>pbufs := h, frag := (frag s)\<lparr>reass_store := (reass_store (frag s))(r := None)\<rparr>\<rparr>"

lemma whole_facts:
  assumes "whole xs"
  shows "xs \<noteq> []" and "queued xs" and "hd xs \<noteq> last xs" and "f \<in> set xs \<Longrightarrow> f_start f = 0 \<longleftrightarrow> f = hd xs"
    and "f \<in> set xs \<Longrightarrow> f_end f \<le> 0xFFFF - IP_HLEN" and "length (concat (map f_data xs)) = f_end (last xs)"
proof -
  show ne: "xs \<noteq> []" and q: "queued xs" using assms no_holes_queued by (auto simp: whole_def)
  obtain x y ys where xs: "xs = x # y # ys" using assms by (cases xs; cases "tl xs") (auto simp: whole_def)
  have z: "f_start x = 0" using assms xs by (simp add: whole_def)
  have late: "f_start g > 0" if "g \<in> set (y # ys)" for g using q that xs by (auto simp: queued_def before_def)
  have "f_start (last (y # ys)) > 0" by (rule late, rule last_in_set) simp
  moreover have "hd xs = x" "last xs = last (y # ys)" using xs by simp_all
  ultimately show "hd xs \<noteq> last xs" using z by auto
  show "f_start f = 0 \<longleftrightarrow> f = hd xs" if "f \<in> set xs" using late [of f] z xs that by (cases "f = x") auto
  show "f_end f \<le> 0xFFFF - IP_HLEN" if "f \<in> set xs"
  proof -
    from split_list [OF that] obtain us vs where u: "xs = us @ f # vs" by blast
    have "f_end f \<le> f_end (last xs)"
    proof (cases vs rule: rev_cases)
      case (snoc ws l)
      then have "before f l" using q u by (auto simp: queued_def sorted_wrt_append)
      then show ?thesis using u snoc by (simp add: before_def f_end_def)
    qed (use u in simp)
    then show ?thesis using assms by (simp add: whole_def)
  qed
  have "no_holes zs \<Longrightarrow> zs \<noteq> [] \<Longrightarrow> f_start (hd zs) + length (concat (map f_data zs)) = f_end (last zs)" for zs
    by (induction zs rule: no_holes.induct) (auto simp: f_end_def)
  from this [of xs] show "length (concat (map f_data xs)) = f_end (last xs)" using assms ne by (simp add: whole_def)
qed

lemma offset_of: "arrives h f (f_hdr f) \<Longrightarrow> f_start f = 0 \<longleftrightarrow> iph_offset (f_hdr f) AND IP_OFFMASK = 0"
  using offset_0 [of "f_hdr f"] by (simp add: arrives_def)

lemma first_entry:
  assumes r: "ready_for s xs r free" and f: "f \<in> set xs" "arrives (pbufs s) f (f_hdr f)"
  shows "\<exists>d. reass_entry env (f_hdr f) n s = Some (Some r, entry_state s r free d (pbufs s) 0) \<and> entry_ok xs (\<lambda>_. False) (\<lambda>g. g = f) d"
proof -
  let ?d = "\<lparr>r_p = None, r_iphdr = take IP_HLEN (f_hdr f), r_datagram_len = 0, r_flags = 0, r_timer = IP_REASS_MAXAGE\<rparr>"
  have w: "whole xs" and k: "key (f_hdr f) = key (f_hdr (hd xs))" using r f(1) by (auto simp: ready_for_def whole_def)
  have "find_reass (f_hdr f) (reassdatagrams (frag s)) (frag s) = Some None"
    using r k by (intro find_reass_none) (simp add: ready_for_def)
  moreover have "entry_state s r free ?d (pbufs s) 0 = s\<lparr>frag := upd_reass r ?d ((frag s)\<lparr>reass_pool := free\<rparr>)
      \<lparr>reassdatagrams := r # reassdatagrams (frag s)\<rparr>\<rparr>"
    by (auto simp: entry_state_def upd_reass_def intro!: net.equality frag_state.equality)
  ultimately have "reass_entry env (f_hdr f) n s = Some (Some r, entry_state s r free ?d (pbufs s) 0)"
    using r by (simp add: reass_entry_def ip_reass_enqueue_new_datagram_def memp_malloc_reass_def ready_for_def Let_def upd_reass_def)
  moreover have "entry_ok xs (\<lambda>_. False) (\<lambda>g. g = f) ?d"
    using f k offset_of [OF f(2)] whole_facts(4) [OF w f(1)] by (auto simp: entry_ok_def arrives_def)
  ultimately show ?thesis by blast
qed

lemma later_entry:
  assumes r: "ready_for s xs r free" and f: "f \<in> set xs" "\<not> P f" "arrives h f (f_hdr f)" and d: "entry_ok xs P P d"
  shows "\<exists>d'. reass_entry env (f_hdr f) n (entry_state s r free d h m) = Some (Some r, entry_state s r free d' h m)
    \<and> entry_ok xs P (\<lambda>g. P g \<or> g = f) d'"
proof -
  have w: "whole xs" and k: "key (f_hdr f) = key (f_hdr (hd xs))" using r f(1) by (auto simp: ready_for_def whole_def)
  let ?s = "entry_state s r free d h m"
  have find: "find_reass (f_hdr f) (reassdatagrams (frag ?s)) (frag ?s) = Some (Some r)"
    using d k by (simp add: entry_state_def match_key entry_ok_def)
  have "?s\<lparr>frag := upd_reass r e (frag ?s)\<rparr> = entry_state s r free e h m" for e by (simp add: entry_state_def upd_reass_def)
  moreover have "length (f_hdr f) = IP_HLEN" using f(3) by (simp add: arrives_def)
  moreover have o: "iph_offset (f_hdr f) AND IP_OFFMASK = 0 \<longleftrightarrow> f = hd xs" using offset_of [OF f(3)] whole_facts(4) [OF w f(1)] by simp
  ultimately show ?thesis
  proof (cases "f = hd xs")
    case True
    then have "iph_offset (r_iphdr d) AND IP_OFFMASK \<noteq> 0" using d f(2) by (auto simp: entry_ok_def)
    then have "reass_entry env (f_hdr f) n ?s = Some (Some r, entry_state s r free (d\<lparr>r_iphdr := f_hdr f\<rparr>) h m)"
      using find o True \<open>length (f_hdr f) = IP_HLEN\<close> \<open>\<And>e. ?s\<lparr>frag := upd_reass r e (frag ?s)\<rparr> = entry_state s r free e h m\<close>
      by (simp add: reass_entry_def) (simp add: entry_state_def)
    moreover have "entry_ok xs P (\<lambda>g. P g \<or> g = f) (d\<lparr>r_iphdr := f_hdr f\<rparr>)"
      using d True k \<open>length (f_hdr f) = IP_HLEN\<close> by (simp add: entry_ok_def)
    ultimately show ?thesis by blast
  next
    case False
    then have "reass_entry env (f_hdr f) n ?s = Some (Some r, ?s)" using find o by (simp add: reass_entry_def) (simp add: entry_state_def)
    moreover have "entry_ok xs P (\<lambda>g. P g \<or> g = f) d" using d False by (auto simp: entry_ok_def)
    ultimately show ?thesis by blast
  qed
qed

lemma delivered_mono: "only_cells (all_cells gs) h0 h \<Longrightarrow> delivered h gs hdr h' \<Longrightarrow> delivered h0 gs hdr h'"
  unfolding delivered_def using only_cells_trans by blast

lemma lastfrag_or: "(x OR IP_REASS_FLAG_LASTFRAG) AND IP_REASS_FLAG_LASTFRAG \<noteq> 0"
proof -
  have "bit ((x OR IP_REASS_FLAG_LASTFRAG) AND IP_REASS_FLAG_LASTFRAG) 0" by (simp add: IP_REASS_FLAG_LASTFRAG_def bit_simps)
  then show ?thesis by (metis bit_0_eq bot_apply bot_bool_def)
qed

text \<open>The fragment \<open>f\<close> is queued: the datagram is complete, or the entry has one fragment more.\<close>

lemma collect_step:
  assumes r: "ready_for s xs r free" and f: "f \<in> set xs" "\<not> P f" and d: "entry_ok xs P (\<lambda>g. P g \<or> g = f) d" and h: "cells_ok (pbufs s) xs P h"
  defines "P' \<equiv> (\<lambda>g. P g \<or> g = f)" and "t \<equiv> entry_state s r free d h (length (all_cells (filter P xs)))"
  shows "if \<forall>g \<in> set xs. P' g
     then \<exists>h'. reass_fragment env (f_addr f) r (last_fragment (f_hdr f)) (of_nat (f_end f)) (length (f_cells f)) t
             = Some (Some (f_addr (hd xs)), final_state s r h')
           \<and> delivered (pbufs s) xs (whole_header (f_hdr (hd xs)) (f_end (last xs) + IP_HLEN)) h'
     else \<exists>d' h'. reass_fragment env (f_addr f) r (last_fragment (f_hdr f)) (of_nat (f_end f)) (length (f_cells f)) t
             = Some (None, entry_state s r free d' h' (length (all_cells (filter P' xs))))
           \<and> entry_ok xs P' P' d' \<and> cells_ok (pbufs s) xs P' h'"
proof -
  have w: "whole xs" and dc: "distinct (all_cells xs)" using r by (simp_all add: ready_for_def)
  note wf = whole_facts [OF w]
  let ?gs = "filter P xs" and ?gs' = "filter P' xs"
  have en: "enqueue f ?gs = ?gs'" unfolding P'_def by (rule enqueue_filter [of xs f P, OF wf(2) f])
  have lf: "last_fragment (f_hdr f) \<longleftrightarrow> f = last xs" using w f(1) by (simp add: whole_def)
  have fl: "r_flags d AND IP_REASS_FLAG_LASTFRAG \<noteq> 0 \<longleftrightarrow> P (last xs)" using d by (simp add: entry_ok_def)
  then have seen: "f = last xs \<or> r_flags d AND IP_REASS_FLAG_LASTFRAG \<noteq> 0 \<longleftrightarrow> P' (last xs)" by (auto simp: P'_def)
  have count: "length (all_cells ?gs') = length (all_cells ?gs) + length (f_cells f)"
    unfolding P'_def by (rule all_cells_add [of xs f P, OF queued_distinct [OF wf(2)] f])
  have le: "length (all_cells ?gs') \<le> length (all_cells xs)" 
    by (metis all_cells_filter card_mono dc distinct_card List.finite_set)
  have room: "ip_reass_pbufcount (frag s) + length (all_cells ?gs) + length (f_cells f) \<le> IP_REASS_MAX_PBUFS"
    using r count le by (simp add: ready_for_def)
  have linked: "linked (pbufs t) ?gs None" and arr: "arrives (pbufs t) f (f_hdr f)" using h f by (auto simp: t_def entry_state_def cells_ok_def)
  have sep: "distinct (all_cells (f # ?gs))"
    using fragment_apart [of xs f P] all_cells_filter(2) [OF dc, of P] arr packet_distinct dc f by (auto simp: arrives_def)
  have st: "reass_store (frag t) r = Some d" "r_p d = first ?gs None" "ip_reass_pbufcount (frag t) + length (f_cells f) < 65536"
    using d room by (auto simp: t_def entry_state_def entry_ok_def IP_REASS_MAX_PBUFS_def)
  have two: "?gs = [] \<longrightarrow> last_fragment (f_hdr f) \<or> r_flags d AND IP_REASS_FLAG_LASTFRAG \<noteq> 0 \<longrightarrow> f_start f \<noteq> 0"
    using fl lf wf(1,3) wf(4) [OF f(1)] by (auto simp: filter_empty_conv)
  have small: "f_end f < 65536" using wf(5) [OF f(1)] by simp
  from reass_fragment_fits [OF st(1,2) linked queued_filter [OF wf(2), of P] sep arr small fits_filter [of xs f P, OF wf(2) f] two st(3), of env]
  obtain h1 e where
    run: "reass_fragment env (f_addr f) r (last_fragment (f_hdr f)) (of_nat (f_end f)) (length (f_cells f)) t =
      (let t = t\<lparr>pbufs := h1, frag := (upd_reass r e (frag t))\<lparr>ip_reass_pbufcount := ip_reass_pbufcount (frag t) + length (f_cells f)\<rparr>\<rparr>
       in if complete (P' (last xs)) ?gs' then reass_finish env r t else Some (None, t))"
    and e: "e = d\<lparr>r_p := first ?gs' None, r_datagram_len := if f = last xs then f_end f else r_datagram_len d,
            r_flags := if f = last xs then r_flags d OR IP_REASS_FLAG_LASTFRAG else r_flags d\<rparr>"
    and h1: "linked h1 ?gs' None" "only_cells (all_cells (f # ?gs)) (pbufs t) h1"
    unfolding en lf seen by blast
  have t': "t\<lparr>pbufs := h1, frag := (upd_reass r e (frag t))\<lparr>ip_reass_pbufcount := ip_reass_pbufcount (frag t) + length (f_cells f)\<rparr>\<rparr>
      = entry_state s r free e h1 (length (all_cells ?gs'))"
    by (simp add: t_def entry_state_def upd_reass_def count add.assoc)
  have ok: "entry_ok xs P' P' e"
    using d e lastfrag_or by (auto simp: entry_ok_def P'_def)
  have "set (all_cells (f # ?gs)) \<subseteq> set (all_cells xs)" using all_cells_filter(1) [of P xs] f_cells_subset [OF f(1)] by simp
  then have o1: "only_cells (all_cells xs) (pbufs t) h1" by (rule only_cells_mono [OF h1(2)])
  then have o: "only_cells (all_cells xs) (pbufs s) h1" using h only_cells_trans by (auto simp: cells_ok_def t_def entry_state_def)
  have rest: "arrives h1 g (f_hdr g)" if "g \<in> set xs" "\<not> P' g" for g
  proof -
    have "set (f_cells g) \<inter> set (all_cells ?gs') = {}" by (rule fragment_apart [of xs g P', OF dc that])
    moreover have "set (all_cells (f # ?gs)) = set (all_cells ?gs')" using f by (auto simp: all_cells_def P'_def)
    ultimately have "same_on (f_cells g) (pbufs t) h1" by (intro only_cells_same_on [OF h1(2)]) auto
    moreover have "arrives (pbufs t) g (f_hdr g)" using h that by (auto simp: cells_ok_def t_def entry_state_def P'_def)
    ultimately show ?thesis by (rule arrives_frame)
  qed
  have ne: "?gs' \<noteq> []" using f(1) by (auto simp: filter_empty_conv P'_def)
  show ?thesis
  proof (cases "\<forall>g \<in> set xs. P' g")
    case False
    then have "\<not> complete (P' (last xs)) ?gs'" using complete_iff [OF w ne] by simp
    then show ?thesis using False run ok h1(1) o rest by (auto simp: t' cells_ok_def Let_def)
  next
    case True
    then have all: "?gs' = xs" by simp
    let ?t = "entry_state s r free e h1 (length (all_cells xs))"
    have P: "P' (hd xs)" "P' (last xs)" using True wf(1) by simp_all
    have ds: "reass_store (frag ?t) r = Some e" "r_p e = first xs None" "length (r_iphdr e) = IP_HLEN" "linked (pbufs ?t) xs None"
      "reassdatagrams (frag ?t) = [] @ r # reassdatagrams (frag s)" "distinct ([] @ r # reassdatagrams (frag s))"
      "length (all_cells xs) \<le> ip_reass_pbufcount (frag ?t)" "ip_reass_pbufcount (frag ?t) < 65536"
      using ok h1(1) r by (auto simp: entry_ok_def entry_state_def all ready_for_def IP_REASS_MAX_PBUFS_def)
    have n: "IP_HLEN + length (concat (map f_data xs)) < 65536" unfolding wf(6) using w by (simp add: whole_def IP_HLEN_def)
    from reass_finish_spec [OF ds(1-3) wf(1) ds(4) dc ds(5-8) n, of env] obtain h2 where
      h2: "reass_finish env r ?t = Some (Some (f_addr (hd xs)), ?t\<lparr>pbufs := h2, frag := (frag ?t)\<lparr>reassdatagrams := [] @ reassdatagrams (frag s),
        reass_store := (reass_store (frag ?t))(r := None), reass_pool := r # reass_pool (frag ?t),
        ip_reass_pbufcount := ip_reass_pbufcount (frag ?t) - length (all_cells xs)\<rparr>\<rparr>)"
        "delivered (pbufs ?t) xs (whole_header (r_iphdr e) (r_datagram_len e + IP_HLEN)) h2" by blast
    have fin: "?t\<lparr>pbufs := h2, frag := (frag ?t)\<lparr>reassdatagrams := [] @ reassdatagrams (frag s),
        reass_store := (reass_store (frag ?t))(r := None), reass_pool := r # reass_pool (frag ?t),
        ip_reass_pbufcount := ip_reass_pbufcount (frag ?t) - length (all_cells xs)\<rparr>\<rparr> = final_state s r h2"
      using r by (auto simp: final_state_def entry_state_def ready_for_def intro!: net.equality frag_state.equality)
    have "r_iphdr e = f_hdr (hd xs)" "r_datagram_len e = f_end (last xs)" using ok P by (simp_all add: entry_ok_def)
    moreover have "pbufs ?t = h1" by (simp add: entry_state_def)
    moreover have "complete (P' (last xs)) xs" using complete_iff [OF w ne] True all by simp
    ultimately show ?thesis using True run h2 delivered_mono [OF o] fin by (auto simp: t' all Let_def)
  qed
qed

text \<open>The results of \<open>ip4_reass\<close> for a sequence of packets.\<close>

fun reass_all :: "'w ip_env \<Rightarrow> nat list \<Rightarrow> 'w net \<Rightarrow> (pptr list \<times> 'w net) option" where
  "reass_all env [] s = Some ([], s)"
| "reass_all env (p # ps) s = do { (q, s) \<leftarrow> ip4_reass env p s; (qs, s) \<leftarrow> reass_all env ps s; Some (q # qs, s) }"

lemma room_left:
  assumes "ready_for s xs r free" and "f \<in> set xs" and "\<not> P f" and "distinct xs"
  shows "ip_reass_pbufcount (frag s) + length (all_cells (filter P xs)) + length (f_cells f) \<le> IP_REASS_MAX_PBUFS"
proof -
  have "distinct (all_cells xs)" using assms(1) by (simp add: ready_for_def)
  then have "length (all_cells (filter (\<lambda>g. P g \<or> g = f) xs)) \<le> length (all_cells xs)"
    by (metis all_cells_filter card_mono distinct_card List.finite_set)
  then show ?thesis using all_cells_add [of xs f P] assms by (simp add: ready_for_def)
qed

lemma collect_run:
  assumes r: "ready_for s xs r free" and d: "entry_ok xs P P d" and h: "cells_ok (pbufs s) xs P h"
    and ps: "distinct ps" "set ps = {f \<in> set xs. \<not> P f}" "ps \<noteq> []"
  shows "\<exists>h'. reass_all env (map f_addr ps) (entry_state s r free d h (length (all_cells (filter P xs))))
      = Some (replicate (length ps - 1) None @ [Some (f_addr (hd xs))], final_state s r h')
    \<and> delivered (pbufs s) xs (whole_header (f_hdr (hd xs)) (f_end (last xs) + IP_HLEN)) h'"
  using d h ps
proof (induction ps arbitrary: P d h)
  case (Cons f ps)
  let ?s = "entry_state s r free d h (length (all_cells (filter P xs)))"
  define P' where "P' = (\<lambda>g. P g \<or> g = f)"
  have w: "whole xs" using r by (simp add: ready_for_def)
  have f: "f \<in> set xs" "\<not> P f" using Cons.prems(4) by auto
  have a: "arrives h f (f_hdr f)" using Cons.prems(2) f by (simp add: cells_ok_def)
  from later_entry [OF r f a Cons.prems(1)] obtain d1 where
    d1: "reass_entry env (f_hdr f) (length (f_cells f)) ?s = Some (Some r, entry_state s r free d1 h (length (all_cells (filter P xs))))"
      "entry_ok xs P (\<lambda>g. P g \<or> g = f) d1" by blast
  have "arrives (pbufs ?s) f (f_hdr f)" "ip_reass_pbufcount (frag ?s) + length (f_cells f) \<le> IP_REASS_MAX_PBUFS"
    using a room_left [of s xs r free f P, OF r f queued_distinct [OF whole_facts(2) [OF w]]] by (simp_all add: entry_state_def)
  from ip4_reass_room [OF this, of env] d1(1) whole_facts(5) [OF w f(1)]
  have step: "ip4_reass env (f_addr f) ?s = reass_fragment env (f_addr f) r (last_fragment (f_hdr f)) (of_nat (f_end f)) (length (f_cells f))
      (entry_state s r free d1 h (length (all_cells (filter P xs))))" by simp
  note c = collect_step [OF r f d1(2) Cons.prems(2), of env, folded P'_def]
  show ?case
  proof (cases ps)
    case Nil
    then have "\<forall>g \<in> set xs. P' g" using Cons.prems(4) by (auto simp: P'_def)
    with c step Nil show ?thesis by auto
  next
    case (Cons g qs)
    have rest: "distinct ps" "set ps = {f \<in> set xs. \<not> P' f}" using Cons.prems(3,4) by (auto simp: P'_def)
    then have "\<not> (\<forall>g \<in> set xs. P' g)" using Cons by auto
    with c step obtain d' h' where
      n: "ip4_reass env (f_addr f) ?s = Some (None, entry_state s r free d' h' (length (all_cells (filter P' xs))))"
        "entry_ok xs P' P' d'" "cells_ok (pbufs s) xs P' h'" by auto
    from Cons.IH [OF n(2,3) rest] Cons obtain h2 where
      i: "reass_all env (map f_addr ps) (entry_state s r free d' h' (length (all_cells (filter P' xs))))
          = Some (replicate (length ps - 1) None @ [Some (f_addr (hd xs))], final_state s r h2)"
        "delivered (pbufs s) xs (whole_header (f_hdr (hd xs)) (f_end (last xs) + IP_HLEN)) h2" by blast
    have "replicate (length (f # ps) - 1) None = (None :: pptr) # replicate (length ps - 1) None" using Cons by simp
    then have "reass_all env (map f_addr (f # ps)) ?s = Some (replicate (length (f # ps) - 1) None @ [Some (f_addr (hd xs))], final_state s r h2)"
      using n(1) i(1) by (simp del: length_Cons)
    with i(2) show ?thesis by blast
  qed
qed simp

lemma fragments_collected:
  assumes "ready_for s xs r free" and "\<forall>f \<in> set xs. arrives (pbufs s) f (f_hdr f)" and "mset ps = mset xs"
  shows "\<exists>h. reass_all env (map f_addr ps) s = Some (replicate (length ps - 1) None @ [Some (f_addr (hd xs))], final_state s r h)
    \<and> delivered (pbufs s) xs (whole_header (f_hdr (hd xs)) (f_end (last xs) + IP_HLEN)) h"
proof -
  have w: "whole xs" using assms(1) by (simp add: ready_for_def)
  note wf = whole_facts [OF w]
  have "ps \<noteq> []" using assms(3) wf(1) by auto
  then obtain f qs where ps: "ps = f # qs" by (cases ps) auto
  have set: "set ps = set xs" "distinct ps"
    using assms(3) queued_distinct [OF wf(2)] by (metis mset_eq_setD, metis mset_eq_imp_distinct_iff)
  then have f: "f \<in> set xs" "\<not> False" using ps by auto
  have a: "arrives (pbufs s) f (f_hdr f)" using assms(2) f by simp
  have filter: "filter (\<lambda>g. False \<or> g = f) xs = filter (\<lambda>g. g = f) xs" by simp
  from first_entry [OF assms(1) f(1) a] obtain d where
    d: "reass_entry env (f_hdr f) (length (f_cells f)) s = Some (Some r, entry_state s r free d (pbufs s) 0)"
      "entry_ok xs (\<lambda>_. False) (\<lambda>g. False \<or> g = f) d" by auto
  have room: "ip_reass_pbufcount (frag s) + length (f_cells f) \<le> IP_REASS_MAX_PBUFS"
    using room_left [OF assms(1) f queued_distinct [OF wf(2)]] by simp
  have step: "ip4_reass env (f_addr f) s = reass_fragment env (f_addr f) r (last_fragment (f_hdr f)) (of_nat (f_end f)) (length (f_cells f))
      (entry_state s r free d (pbufs s) 0)"
    using ip4_reass_room [OF a room, of env] d(1) wf(5) [OF f(1)] by simp
  have c0: "cells_ok (pbufs s) xs (\<lambda>_. False) (pbufs s)" using assms(2) by (simp add: cells_ok_def)
  have more: "qs \<noteq> []" using assms(3) w ps by (cases qs) (auto simp: whole_def dest: mset_eq_length)
  then have "\<not> (\<forall>g \<in> set xs. g = f)" using set ps by (cases qs) auto
  with collect_step [OF assms(1) f d(2) c0, of env] step obtain d' h' where
    n: "ip4_reass env (f_addr f) s = Some (None, entry_state s r free d' h' (length (all_cells (filter (\<lambda>g. g = f) xs))))"
      "entry_ok xs (\<lambda>g. g = f) (\<lambda>g. g = f) d'" "cells_ok (pbufs s) xs (\<lambda>g. g = f) h'" by auto
  have "distinct qs" "set qs = {g \<in> set xs. \<not> g = f}" using set ps by auto
  from collect_run [OF assms(1) n(2,3) this more, of env] obtain h where
    run: "reass_all env (map f_addr ps) s = Some (None # replicate (length qs - 1) None @ [Some (f_addr (hd xs))], final_state s r h)"
    and del: "delivered (pbufs s) xs (whole_header (f_hdr (hd xs)) (f_end (last xs) + IP_HLEN)) h"
    using n(1) ps by auto
  have "replicate (length ps - 1) None @ [Some (f_addr (hd xs))] = None # replicate (length qs - 1) None @ [Some (f_addr (hd xs))]"
    using ps more by (cases qs) simp_all
  then show ?thesis using run del by metis
qed

text \<open>
  C4. Fragments of a datagram, in however many buffers each, are put together whatever the order in which
  they arrive, if there is a free entry and room for them. Every call but the last returns no
  packet; the last one returns a packet that belongs to the caller alone, with the header of the
  first fragment, of the right length and with a valid checksum, and behind it exactly the data.
  Other datagrams in reassembly and all other buffers are left alone, and the entry is free again.
\<close>

theorem reassembly_any_order:
  assumes "ready_for s xs r free" and "\<forall>f \<in> set xs. arrives (pbufs s) f (f_hdr f)" and "mset ps = mset xs"
  shows "\<exists>h. reass_all env (map f_addr ps) s = Some (replicate (length ps - 1) None @ [Some (f_addr (hd xs))], final_state s r h)
    \<and> packet h (Some (f_addr (hd xs))) (all_cells xs) \<and> (\<forall>a \<in> set (all_cells xs). sole h a)
    \<and> (\<forall>a. a \<notin> set (all_cells xs) \<longrightarrow> cells h a = cells (pbufs s) a)
    \<and> contents h (all_cells xs) = whole_header (f_hdr (hd xs)) (IP_HLEN + length (concat (map f_data xs))) @ concat (map f_data xs)
    \<and> inet_chksum False (whole_header (f_hdr (hd xs)) (IP_HLEN + length (concat (map f_data xs)))) = 0"
proof -
  have w: "whole xs" using assms(1) by (simp add: ready_for_def)
  have eq: "IP_HLEN + length (concat (map f_data xs)) = f_end (last xs) + IP_HLEN" using whole_facts(6) [OF w] by simp
  have "arrives (pbufs s) (hd xs) (f_hdr (hd xs))" using assms(2) whole_facts(1) [OF w] by simp
  then have "length (f_hdr (hd xs)) = 20" by (simp add: arrives_def IP_HLEN_def)
  then have "inet_chksum False (whole_header (f_hdr (hd xs)) (f_end (last xs) + IP_HLEN)) = 0" by (rule whole_header_verifies)
  then show ?thesis using fragments_collected [OF assms, of env] unfolding eq delivered_def only_cells_def by blast
qed

section \<open>Dropped fragments\<close>

lemma nullreturn_spec:
  assumes "packet (pbufs s) (Some p) as" and "\<forall>a \<in> set as. sole (pbufs s) a"
  shows "\<exists>h. reass_nullreturn p s = Some (None, s\<lparr>pbufs := h\<rparr>) \<and> cells h = (\<lambda>a. if a \<in> set as then None else cells (pbufs s) a)
    \<and> free_cells h = mset as + free_cells (pbufs s)"
  using pbuf_free_spec [of "pbufs s" p as "[]"] packet_chain [OF assms(1)] assms(2)
  by (auto simp: reass_nullreturn_def free_pbuf_def shared_def)

lemma free_cells_only: "free_cells (h\<lparr>cells := m\<rparr>) = free_cells h"
  by (simp add: free_cells_def)

text \<open>The entry after a look at the header of a fragment: the header of a first fragment is kept.\<close>

definition seen_header :: "bytes \<Rightarrow> ip_reassdata \<Rightarrow> ip_reassdata" where
  "seen_header hdr d = (if iph_offset hdr AND IP_OFFMASK = 0 \<and> iph_offset (r_iphdr d) AND IP_OFFMASK \<noteq> 0
     then d\<lparr>r_iphdr := take IP_HLEN hdr\<rparr> else d)"

definition unacceptable :: "fragment \<Rightarrow> bytes \<Rightarrow> fragment list \<Rightarrow> bool" where
  "unacceptable f hdr gs \<longleftrightarrow> \<not> fits f gs \<or> f_end f > 0xFFFF \<or> last_fragment hdr \<and> f_end f > 0xFFFF - IP_HLEN"

lemma upd_reass_same: "reass_store f r = Some d \<Longrightarrow> upd_reass r d f = f"
  by (simp add: upd_reass_def fun_upd_idem)

lemma reass_entry_found:
  assumes "find_reass hdr (reassdatagrams (frag s)) (frag s) = Some (Some r)" and "reass_store (frag s) r = Some d"
  shows "reass_entry env hdr n s = Some (Some r, s\<lparr>frag := upd_reass r (seen_header hdr d) (frag s)\<rparr>)"
  using assms upd_reass_same [of "frag s" r d] by (simp add: reass_entry_def seen_header_def)

text \<open>
  C22. A fragment that overlaps one that waits, or whose end is out of range, is dropped: its buffers are released,
  once, and the fragments that wait stay linked as they are with their data. One trace remains: if it
  starts at offset 0 and no first fragment has come yet, its header becomes the header of the datagram.
\<close>

theorem overlapping_fragment_dropped:
  assumes r: "find_reass hdr (reassdatagrams (frag s)) (frag s) = Some (Some r)" "reass_store (frag s) r = Some d"
    and gs: "r_p d = first gs None" "gs \<noteq> []" "linked (pbufs s) gs None" "queued gs" "distinct (all_cells (f # gs))"
    and f: "arrives (pbufs s) f hdr" "unacceptable f hdr gs"
    and room: "ip_reass_pbufcount (frag s) + length (f_cells f) \<le> IP_REASS_MAX_PBUFS"
  shows "\<exists>h. ip4_reass env (f_addr f) s = Some (None, s\<lparr>pbufs := h, frag := upd_reass r (seen_header hdr d) (frag s)\<rparr>)
    \<and> linked h gs None \<and> (\<forall>a \<in> set (f_cells f). cells h a = None)
    \<and> (\<forall>a. a \<notin> set (all_cells (f # gs)) \<longrightarrow> cells h a = cells (pbufs s) a) \<and> free_cells h = mset (f_cells f) + free_cells (pbufs s)"
proof -
  let ?d = "seen_header hdr d" and ?s = "s\<lparr>frag := upd_reass r (seen_header hdr d) (frag s)\<rparr>"
  have comm: "?s\<lparr>pbufs := h\<rparr> = s\<lparr>pbufs := h, frag := upd_reass r ?d (frag s)\<rparr>" for h by (cases s) simp
  have d: "reass_store (frag ?s) r = Some ?d" "r_p ?d = first gs None" "r_p ?d \<noteq> None"
    using gs(1,2) by (auto simp: seen_header_def first_def split: list.splits)
  have ipr: "reass_nullreturn_ipr (f_addr f) r (?s\<lparr>pbufs := h\<rparr>) = reass_nullreturn (f_addr f) (?s\<lparr>pbufs := h\<rparr>)" for h
    using d unfolding comm by (auto simp: reass_nullreturn_ipr_def)
  have pk: "packet (pbufs s) (Some (f_addr f)) (f_cells f)" "\<forall>a \<in> set (f_cells f). sole (pbufs s) a" using f(1) by (simp_all add: arrives_def)
  note run = ip4_reass_room [OF f(1) room, of env] reass_entry_found [OF r]
  have "\<exists>h. ip4_reass env (f_addr f) s = reass_nullreturn (f_addr f) (?s\<lparr>pbufs := h\<rparr>) \<and> linked h gs None \<and> only_cells (all_cells (f # gs)) (pbufs s) h
    \<and> packet h (Some (f_addr f)) (f_cells f) \<and> (\<forall>a \<in> set (f_cells f). sole h a)"
  proof (cases "last_fragment hdr \<and> f_end f > 0xFFFF - IP_HLEN")
    case True
    have "?s\<lparr>pbufs := pbufs s\<rparr> = ?s" by simp
    then show ?thesis using True run ipr [of "pbufs s"] gs(3) pk by (intro exI [of _ "pbufs s"]) simp
  next
    case False
    have "\<exists>x. ip_reass_chain_frag_into_datagram_and_validate ?d (f_addr f) (last_fragment hdr) (pbufs s) = Some x
        \<and> chained ?d f gs (last_fragment hdr) (pbufs s) x"
      by (rule chain_spec [OF f(1) gs(3-5) d(2)]) (use gs(2) in simp)
    then obtain code d' h where c: "ip_reass_chain_frag_into_datagram_and_validate ?d (f_addr f) (last_fragment hdr) (pbufs s) = Some (code, d', h)"
      "chained ?d f gs (last_fragment hdr) (pbufs s) (code, d', h)" by auto
    have "\<not> (f_end f < 65536 \<and> fits f gs)" using f(2) False by (auto simp: unacceptable_def)
    then have "code = IP_REASS_VALIDATE_PBUF_DROPPED" "d' = ?d" "linked h gs None" "only_cells (all_cells (f # gs)) (pbufs s) h"
      "packet h (Some (f_addr f)) (f_cells f)" "\<forall>a \<in> set (f_cells f). sole h a"
      using c(2) by (auto simp: chained_def)
    moreover from this c(1) d(1) have "reass_fragment env (f_addr f) r (last_fragment hdr) (of_nat (f_end f)) (length (f_cells f)) ?s
        = reass_nullreturn (f_addr f) (?s\<lparr>pbufs := h\<rparr>)"
      using ipr [of h] unfolding comm by (simp add: reass_fragment_def Let_def)
    ultimately show ?thesis using False run by auto
  qed
  then obtain h where h: "ip4_reass env (f_addr f) s = reass_nullreturn (f_addr f) (?s\<lparr>pbufs := h\<rparr>)" "linked h gs None"
    "only_cells (all_cells (f # gs)) (pbufs s) h" "packet (pbufs (?s\<lparr>pbufs := h\<rparr>)) (Some (f_addr f)) (f_cells f)" "\<forall>a \<in> set (f_cells f). sole (pbufs (?s\<lparr>pbufs := h\<rparr>)) a" by auto
  from nullreturn_spec [OF h(4,5)] obtain h' where
    h': "reass_nullreturn (f_addr f) (?s\<lparr>pbufs := h\<rparr>) = Some (None, ?s\<lparr>pbufs := h'\<rparr>)"
      "cells h' = (\<lambda>a. if a \<in> set (f_cells f) then None else cells h a)" "free_cells h' = mset (f_cells f) + free_cells h" by (auto cong: if_cong)
  have "same_on (all_cells gs) h h'" using h'(2) gs(5) by (auto simp: same_on_def)
  then have "linked h' gs None" using linked_frame h(2) by blast
  moreover have "free_cells h = free_cells (pbufs s)"
    using h(3) by (metis (no_types) only_cells_def free_cells_only)
  moreover have "\<forall>a. a \<notin> set (all_cells (f # gs)) \<longrightarrow> cells h' a = cells (pbufs s) a" using h(3) h'(2) by (auto simp: only_cells_def)
  ultimately show ?thesis using h(1) h' unfolding comm by (intro exI [of _ h']) simp
qed

section \<open>Examples\<close>

definition frag_header :: "nat \<Rightarrow> u8 \<Rightarrow> u8 \<Rightarrow> bytes" where
  "frag_header n mf off = [0x45, 0, 0, of_nat n, 0, 7, mf, off, 64, 17, 0, 0, 192, 168, 0, 2, 192, 168, 0, 1]"

definition demo_first :: fragment where
  "demo_first = \<lparr>f_cells = [11], f_start = 0, f_data = [1, 2, 3, 4, 5, 6, 7, 8], f_hdr = frag_header 28 0x20 0,
     f_head = pbuf_init_alloced_pbuf (replicate 14 0 @ frag_header 28 0x20 0 @ [1, 2, 3, 4, 5, 6, 7, 8]) 14 28 28 PBUF_POOL 0\<rparr>"

definition demo_second :: fragment where
  "demo_second = \<lparr>f_cells = [12, 13], f_start = 8, f_data = [9, 10], f_hdr = frag_header 22 0 1,
     f_head = (pbuf_init_alloced_pbuf (replicate 14 0 @ frag_header 22 0 1 @ [9]) 14 22 21 PBUF_POOL 0)\<lparr>nxt := Some 13\<rparr>\<rparr>"

definition demo_fragments :: "(bytes \<times> uart) net" where
  "demo_fragments = demo_ping\<lparr>pbufs := sample_heap\<lparr>cells :=
     [11 \<mapsto> f_head demo_first, 12 \<mapsto> f_head demo_second, 13 \<mapsto> pbuf_init_alloced_pbuf [10] 0 1 1 PBUF_POOL 0]\<rparr>\<rparr>"

lemma demo_arrives:
  "arrives (pbufs demo_fragments) demo_first (f_hdr demo_first)" "arrives (pbufs demo_fragments) demo_second (f_hdr demo_second)"
  by (simp_all add: arrives_def demo_fragments_def demo_first_def demo_second_def frag_header_def f_addr_def ptr_ok_def sole_def releasable_def
    cell_ok_def data_of_def pbuf_init_alloced_pbuf_def cell_kept_def IPH_HL_BYTES_def IP_HLEN_def iph_len_def IPH_OFFSET_BYTES_def iph_offset_def
    IP_OFFMASK_def le16_def lwip_htons_def)

lemma demo_ready: "ready_for demo_fragments [demo_first, demo_second] 1 [2, 3, 4, 5]"
  by (simp add: ready_for_def whole_def demo_fragments_def demo_first_def demo_second_def f_end_def key_def frag_header_def last_fragment_def
    le16_def lwip_htons_def IP_MF_def IP_HLEN_def IP_REASS_MAX_PBUFS_def frag_start_def demo_ping_def demo_sender_def demo_host_def)

text \<open>The second fragment arrives first.\<close>

theorem reassembly_any_order_witness:
  "\<exists>h. reass_all demo_env [12, 11] demo_fragments = Some ([None, Some 11], final_state demo_fragments 1 h)
    \<and> contents h [11, 12, 13] = whole_header (frag_header 28 0x20 0) 30 @ [1, 2, 3, 4, 5, 6, 7, 8, 9, 10]"
proof -
  have f: "f_addr demo_first = 11" "f_addr demo_second = 12" "all_cells [demo_first, demo_second] = [11, 12, 13]"
    "concat (map f_data [demo_first, demo_second]) = [1, 2, 3, 4, 5, 6, 7, 8, 9, 10]" "f_hdr demo_first = frag_header 28 0x20 0"
    by (simp_all add: demo_first_def demo_second_def f_addr_def)
  have a: "\<forall>f \<in> set [demo_first, demo_second]. arrives (pbufs demo_fragments) f (f_hdr f)" using demo_arrives by simp
  have m: "mset [demo_second, demo_first] = mset [demo_first, demo_second]" by simp
  from reassembly_any_order [OF demo_ready a m, of demo_env, unfolded f list.sel(1)] show ?thesis
    using f(1,2) by (auto simp: IP_HLEN_def simp del: contents_simps)
qed

text \<open>A fragment at offset 8 waits; one of sixteen bytes at offset 0 overlaps it.\<close>

definition demo_waits :: fragment where
  "demo_waits = \<lparr>f_cells = [11], f_start = 8, f_data = [1, 2, 3, 4, 5, 6, 7, 8], f_hdr = frag_header 28 0x20 1,
     f_head = pbuf_init_alloced_pbuf (replicate 14 0 @ helper None 8 16 @ replicate 8 0 @ [1, 2, 3, 4, 5, 6, 7, 8]) 14 28 28 PBUF_POOL 0\<rparr>"

definition demo_overlaps :: fragment where
  "demo_overlaps = \<lparr>f_cells = [12], f_start = 0, f_data = replicate 16 7, f_hdr = frag_header 36 0x20 0,
     f_head = pbuf_init_alloced_pbuf (replicate 14 0 @ frag_header 36 0x20 0 @ replicate 16 7) 14 36 36 PBUF_POOL 0\<rparr>"

definition demo_entry :: ip_reassdata where
  "demo_entry = \<lparr>r_p = Some 11, r_iphdr = frag_header 28 0x20 1, r_datagram_len = 0, r_flags = 0, r_timer = IP_REASS_MAXAGE\<rparr>"

definition demo_waiting :: "(bytes \<times> uart) net" where
  "demo_waiting = demo_ping\<lparr>pbufs := sample_heap\<lparr>cells := [11 \<mapsto> f_head demo_waits, 12 \<mapsto> f_head demo_overlaps]\<rparr>,
     frag := (frag_start [2, 3, 4, 5] [])\<lparr>reassdatagrams := [1], reass_store := [1 \<mapsto> demo_entry], ip_reass_pbufcount := 1\<rparr>\<rparr>"

lemma demo_overlap_facts:
  "find_reass (frag_header 36 0x20 0) (reassdatagrams (frag demo_waiting)) (frag demo_waiting) = Some (Some 1)"
  "reass_store (frag demo_waiting) 1 = Some demo_entry" "r_p demo_entry = first [demo_waits] None"
  "linked (pbufs demo_waiting) [demo_waits] None" "queued [demo_waits]" "distinct (all_cells [demo_overlaps, demo_waits])"
  "arrives (pbufs demo_waiting) demo_overlaps (frag_header 36 0x20 0)" "unacceptable demo_overlaps (frag_header 36 0x20 0) [demo_waits]"
  "ip_reass_pbufcount (frag demo_waiting) + length (f_cells demo_overlaps) \<le> IP_REASS_MAX_PBUFS"
  by (simp_all add: demo_waiting_def demo_entry_def demo_waits_def demo_overlaps_def frag_header_def match_key key_def f_addr_def frag_at_def
    ptr_ok_def sole_def releasable_def cell_ok_def data_of_def pbuf_init_alloced_pbuf_def cell_kept_def f_end_def IP_HLEN_def queued_def
    arrives_def IPH_HL_BYTES_def iph_len_def IPH_OFFSET_BYTES_def iph_offset_def IP_OFFMASK_def le16_def lwip_htons_def unacceptable_def fits_def
    before_def IP_REASS_MAX_PBUFS_def)

theorem overlapping_fragment_dropped_witness:
  "\<exists>h. ip4_reass demo_env 12 demo_waiting = Some (None, demo_waiting\<lparr>pbufs := h, frag := upd_reass 1 (demo_entry\<lparr>r_iphdr := frag_header 36 0x20 0\<rparr>) (frag demo_waiting)\<rparr>)
    \<and> linked h [demo_waits] None \<and> cells h 12 = None"
proof -
  have "seen_header (frag_header 36 0x20 0) demo_entry = demo_entry\<lparr>r_iphdr := frag_header 36 0x20 0\<rparr>"
    by (simp add: seen_header_def demo_entry_def frag_header_def iph_offset_def IP_OFFMASK_def le16_def lwip_htons_def IP_HLEN_def)
  moreover have "f_addr demo_overlaps = 12" "f_cells demo_overlaps = [12]" by (simp_all add: demo_overlaps_def f_addr_def)
  ultimately show ?thesis
    using overlapping_fragment_dropped [OF demo_overlap_facts(1-3) _ demo_overlap_facts(4-9), of demo_env] by auto
qed

end
