(* ===== verification/Reass_Timeout.thy ===== *)
theory Reass_Timeout
  imports Reassembly
begin

text \<open>
  The reassembly timer. Datagrams of which the first fragment is missing are freed when their timer has
  run down, so that lost fragments cannot hold buffers for ever. (If the first fragment is there the code
  also sends an ICMP message, through functions of the interface.)
\<close>

section \<open>Freeing one datagram\<close>





section \<open>The timer\<close>



definition cells_of :: "(nat \<Rightarrow> fragment list) \<Rightarrow> nat list \<Rightarrow> nat list" where
  "cells_of F rs = concat (map (\<lambda>r. all_cells (F r)) rs)"

lemma cells_of_simps [simp]: "cells_of F [] = []" "cells_of F (r # rs) = all_cells (F r) @ cells_of F rs"
  by (simp_all add: cells_of_def)











section \<open>Example\<close>


end
