(* ===== verification/Frag_Send.thy ===== *)
theory Frag_Send
  imports Ip4_Frag Reass_Timeout
begin

text \<open>
  What \<open>ip4_frag\<close> sends: the fragments of the reference \<open>fragments_of\<close>, one frame each, after which
  the datagram, the pools and the heap are as they were.
\<close>

section \<open>Freeing a fragment\<close>

definition custom_cell :: "pheap \<Rightarrow> nat \<Rightarrow> bool" where
  "custom_cell h a \<longleftrightarrow> (\<exists>c. cells h a = Some c \<and> ref c = 1 \<and> flags c AND PBUF_FLAG_IS_CUSTOM \<noteq> 0)"

lemma custom_frame: "same_on as h h' \<Longrightarrow> \<forall>a \<in> set as. custom_cell h a \<Longrightarrow> \<forall>a \<in> set as. custom_cell h' a"
  by (auto simp: custom_cell_def same_on_def)

definition unlisted :: "nat list \<Rightarrow> (nat \<Rightarrow> pbuf option) \<Rightarrow> nat \<Rightarrow> pbuf option" where
  "unlisted as m a = (if a \<in> set as then None else m a)"

lemma free_customs:
  assumes "chain h p ms" and "\<forall>a \<in> set ms. custom_cell h a"
  shows "\<exists>k. free_loop p n h = Some (k, h\<lparr>cells := unlisted ms (cells h), custom_freed := rev ms @ custom_freed h\<rparr>)"
  using assms
proof (induction ms arbitrary: p n h)
  case Nil
  then show ?case by (simp add: free_loop.simps unlisted_def)
next
  case (Cons a ms)
  then obtain c where c: "p = Some a" "cells h a = Some c" "chain h (nxt c) ms" "ref c = 1" "flags c AND PBUF_FLAG_IS_CUSTOM \<noteq> 0"
    by (auto simp: custom_cell_def)
  let ?h = "(drop_cell a h)\<lparr>custom_freed := a # custom_freed h\<rparr>"
  have a: "a \<notin> set ms" using chain_distinct [OF Cons.prems(1)] by simp
  then have same: "same_on ms h ?h" by (auto simp: same_on_def drop_cell_def)
  have "\<forall>b \<in> set ms. custom_cell h b" using Cons.prems(2) by simp
  from Cons.IH [OF chain_frame [OF same c(3)] custom_frame [OF same this], of "(n + 1) mod 256"] show ?case
    using c by (auto simp: free_loop.simps [of "Some a"] release_def drop_cell_def unlisted_def fun_eq_iff)
qed

text \<open>A fragment: a cell of its own in front of custom cells.\<close>

lemma free_fragment_cells:
  assumes "chain h (Some r) (r # ms)" and "\<forall>a \<in> set ms. custom_cell h a"
    and "cells h r = Some c" and "ref c = 1" and "flags c AND PBUF_FLAG_IS_CUSTOM = 0" and "type_internal c AND 0x0F = 0"
  shows "\<exists>k. pbuf_free (Some r) h
    = Some (k, h\<lparr>cells := unlisted (r # ms) (cells h), ram := r # ram h, custom_freed := rev ms @ custom_freed h\<rparr>)"
proof -
  let ?h = "(drop_cell r h)\<lparr>ram := r # ram h\<rparr>"
  have r: "r \<notin> set ms" using chain_distinct [OF assms(1)] by simp
  then have same: "same_on ms h ?h" by (auto simp: same_on_def drop_cell_def)
  have "chain h (nxt c) ms" using assms(1,3) by simp
  from free_customs [OF chain_frame [OF same this] custom_frame [OF same assms(2)], of 1] show ?thesis
    using assms(3-6) by (auto simp: pbuf_free_def free_loop.simps [of "Some r"] release_def drop_cell_def unlisted_def fun_eq_iff)
qed

definition unref :: "nat list \<Rightarrow> (nat \<Rightarrow> pbuf option) \<Rightarrow> nat \<Rightarrow> pbuf option" where
  "unref us m a = (if a \<in> set us then map_option (\<lambda>c. c\<lparr>ref := ref c - 1\<rparr>) (m a) else m a)"

lemma run_custom_spec:
  assumes "map (frag_original (frag s)) ms = map Some us" and "distinct us"
    and "\<forall>u \<in> set us. \<exists>c. cells (pbufs s) u = Some c \<and> ref c > 1"
  shows "run_custom ms s = Some (s\<lparr>pbufs := (pbufs s)\<lparr>cells := unref us (cells (pbufs s))\<rparr>,
    frag := (frag s)\<lparr>frag_pool := rev ms @ frag_pool (frag s)\<rparr>\<rparr>)"
  using assms
proof (induction ms arbitrary: us s)
  case Nil
  then show ?case by (simp add: unref_def)
next
  case (Cons m ms)
  then obtain u us' where u: "us = u # us'" "frag_original (frag s) m = Some u" "map (frag_original (frag s)) ms = map Some us'" by auto
  from Cons.prems(3) u(1) obtain c where c: "cells (pbufs s) u = Some c" "ref c > 1" by auto
  let ?s = "s\<lparr>pbufs := put u (c\<lparr>ref := ref c - 1\<rparr>) (pbufs s), frag := (frag s)\<lparr>frag_pool := m # frag_pool (frag s)\<rparr>\<rparr>"
  have "ipfrag_free_pbuf_custom m s = Some ?s"
    using u(2) c by (simp add: ipfrag_free_pbuf_custom_def free_pbuf_def pbuf_free_def free_loop.simps [of "Some u"] ip_frag_free_pbuf_custom_ref_def)
  moreover have "\<forall>v \<in> set us'. \<exists>d. cells (pbufs ?s) v = Some d \<and> ref d > 1" using Cons.prems(2,3) u(1) by auto
  ultimately show ?case
    using Cons.IH [of ?s us'] Cons.prems(2) u c(1) by (auto simp: unref_def put_def fun_eq_iff)
qed

lemma free_fragment_spec:
  assumes "chain (pbufs s) (Some r) (r # ms)" and "\<forall>a \<in> set ms. custom_cell (pbufs s) a"
    and "cells (pbufs s) r = Some c" and "ref c = 1" and "flags c AND PBUF_FLAG_IS_CUSTOM = 0" and "type_internal c AND 0x0F = 0"
    and "map (frag_original (frag s)) ms = map Some us" and "distinct us" and "set us \<inter> set (r # ms) = {}"
    and "\<forall>u \<in> set us. \<exists>c. cells (pbufs s) u = Some c \<and> ref c > 1"
  shows "free_fragment r s = Some (s\<lparr>pbufs := (pbufs s)\<lparr>cells := unref us (unlisted (r # ms) (cells (pbufs s))), ram := r # ram (pbufs s)\<rparr>,
    frag := (frag s)\<lparr>frag_pool := rev ms @ frag_pool (frag s)\<rparr>\<rparr>)"
proof -
  let ?h = "(pbufs s)\<lparr>custom_freed := []\<rparr>"
  have same: "same_on (r # ms) (pbufs s) ?h" by (simp add: same_on_def)
  have cm: "\<forall>a \<in> set ms. custom_cell ?h a" using assms(2) by (simp add: custom_cell_def)
  have cr: "cells ?h r = Some c" using assms(3) by simp
  from free_fragment_cells [OF chain_frame [OF same assms(1)] cm cr assms(4-6)] obtain k where
    k: "pbuf_free (Some r) ?h = Some (k, ?h\<lparr>cells := unlisted (r # ms) (cells (pbufs s)), ram := r # ram (pbufs s), custom_freed := rev ms\<rparr>)" by auto
  let ?t = "s\<lparr>pbufs := (pbufs s)\<lparr>cells := unlisted (r # ms) (cells (pbufs s)), ram := r # ram (pbufs s)\<rparr>\<rparr>"
  have "run_custom ms ?t = Some (?t\<lparr>pbufs := (pbufs ?t)\<lparr>cells := unref us (cells (pbufs ?t))\<rparr>, frag := (frag ?t)\<lparr>frag_pool := rev ms @ frag_pool (frag ?t)\<rparr>\<rparr>)"
  proof (rule run_custom_spec)
    have "u \<notin> set (r # ms)" if "u \<in> set us" for u using that assms(9) by blast
    then show "\<forall>u \<in> set us. \<exists>c. cells (pbufs ?t) u = Some c \<and> ref c > 1" using assms(10) by (simp add: unlisted_def)
  qed (use assms(7,8) in simp_all)
  then show ?thesis using k by (simp add: free_fragment_def free_pbuf_def)
qed

section \<open>Mirroring a part of the datagram\<close>

definition addref :: "nat list \<Rightarrow> (nat \<Rightarrow> pbuf option) \<Rightarrow> nat \<Rightarrow> pbuf option" where
  "addref us m a = (if a \<in> set us then map_option (\<lambda>c. c\<lparr>ref := ref c + 1\<rparr>) (m a) else m a)"

text \<open>
  Since the state \<open>s0\<close> the custom cells \<open>ms\<close>, which refer to the cells \<open>us\<close>, have been put behind \<open>r\<close>.
\<close>

definition mirrored :: "'w net \<Rightarrow> nat \<Rightarrow> nat list \<Rightarrow> nat list \<Rightarrow> 'w net \<Rightarrow> bool" where
  "mirrored s0 r ms us s \<longleftrightarrow> packet (pbufs s) (Some r) (r # ms) \<and> (\<forall>m \<in> set ms. custom_cell (pbufs s) m)
     \<and> distinct us \<and> frag_pool (frag s0) = ms @ frag_pool (frag s) \<and> map (frag_original (frag s)) ms = map Some us
     \<and> (\<exists>cs fo. s = s0\<lparr>pbufs := (pbufs s0)\<lparr>cells := cs\<rparr>, frag := (frag s0)\<lparr>frag_pool := frag_pool (frag s), frag_original := fo\<rparr>\<rparr>)
     \<and> (\<forall>a. a \<notin> set (r # ms) \<longrightarrow> cells (pbufs s) a = addref us (cells (pbufs s0)) a) \<and> head_kept r (pbufs s0) (pbufs s)"

lemma relinked_custom: "relinked h h' \<Longrightarrow> custom_cell h a \<Longrightarrow> custom_cell h' a"
  unfolding custom_cell_def using relinked_cell by metis

lemma mirror_step:
  assumes m: "mirrored s0 r ms us s" and a: "cells (pbufs s0) a = Some c" "a \<notin> set us" "a \<notin> set (r # ms)" "0 < ref c" "ref c < 255"
    and k: "cell_ok c" "poff + k \<le> len c" "plen (pbufs s) (r # ms) + k < 65536"
    and fs: "frag_pool (frag s) = x # fs" "cells (pbufs s0) x = None" "x \<notin> set (r # ms)"
  defines "mem \<equiv> take k (drop poff (data_of c))"
  shows "\<exists>h1 h. pbuf_ref (Some a) (put x (pbuf_init_alloced_pbuf mem 0 k k PBUF_REF PBUF_FLAG_IS_CUSTOM) (pbufs s)) = Some h1
    \<and> pbuf_cat (Some r) (Some x) h1 = Some h \<and> contents h (r # ms @ [x]) = contents (pbufs s) (r # ms) @ mem
    \<and> plen h (r # ms @ [x]) = plen (pbufs s) (r # ms) + k
    \<and> mirrored s0 r (ms @ [x]) (us @ [a]) (s\<lparr>pbufs := h, frag := (frag s)\<lparr>frag_pool := fs, frag_original := (frag_original (frag s))(x := Some a)\<rparr>\<rparr>)"
proof -
  let ?x = "pbuf_init_alloced_pbuf mem 0 k k PBUF_REF PBUF_FLAG_IS_CUSTOM"
  let ?h1 = "put a (c\<lparr>ref := ref c + 1\<rparr>) (put x ?x (pbufs s))"
  have lm: "length mem = k" using k(1,2) by (simp add: mem_def)
  have ax: "a \<noteq> x" using a(1) fs(2) by auto
  have ca: "cells (pbufs s) a = Some c" using m a(1-3) by (simp add: mirrored_def addref_def)
  have ref: "pbuf_ref (Some a) (put x ?x (pbufs s)) = Some ?h1" using ca ax a(4,5) by (simp add: pbuf_ref_def)
  have same: "same_on (r # ms) (pbufs s) ?h1" using a(3) fs(3) by (auto simp: same_on_def)
  have pk: "packet ?h1 (Some r) (r # ms)" using packet_frame [OF same] m by (simp add: mirrored_def del: packet.simps)
  have px: "packet ?h1 (Some x) [x]" "plen ?h1 [x] = k" "contents ?h1 [x] = mem"
    using ax lm k(3) by (simp_all add: pbuf_init_alloced_pbuf_def cell_ok_def data_of_def)
  have pl: "plen ?h1 (r # ms) + plen ?h1 [x] < 65536" using k(3) px(2) plen_frame [OF same] by simp
  have sep: "set (r # ms) \<inter> set [x] = {}" using fs(3) by auto
  from cat_loop_spec [OF pk px(1) sep pl] obtain h where
    h: "cat_loop r x ?h1 = Some h" "packet h (Some r) (r # ms @ [x])" "only_cells (r # ms) ?h1 h" "contents h (r # ms) = contents ?h1 (r # ms)"
      "plen h (r # ms) = plen ?h1 (r # ms)"
    by blast
  have rel: "relinked ?h1 h" by (rule cat_loop_relinked [OF packet_chain [OF pk] fs(3) h(1)])
  have at: "cells h b = cells ?h1 b" if "b \<notin> set (r # ms)" for b using h(3) that by (simp add: only_cells_def)
  then have hx: "cells h x = Some ?x" using fs(3) ax by auto
  then have cx: "contents h (r # ms @ [x]) = contents (pbufs s) (r # ms) @ mem" "plen h (r # ms @ [x]) = plen (pbufs s) (r # ms) + k"
    using h(4,5) contents_frame [OF same] plen_frame [OF same] px(2,3) ax contents_simps(3) [of h "r # ms" "[x]"] plen_simps(3) [of h "r # ms" "[x]"]
    by simp_all
  have "\<forall>b \<in> set (ms @ [x]). custom_cell h b"
  proof
    fix b assume "b \<in> set (ms @ [x])"
    moreover have "custom_cell h x" using hx by (simp add: custom_cell_def pbuf_init_alloced_pbuf_def PBUF_FLAG_IS_CUSTOM_def)
    moreover have "custom_cell h b" if "b \<in> set ms"
    proof (rule relinked_custom [OF rel])
      show "custom_cell ?h1 b" using that m same by (simp add: mirrored_def custom_cell_def same_on_def)
    qed
    ultimately show "custom_cell h b" by auto
  qed
  moreover have "head_kept r (pbufs s0) h"
  proof (rule head_kept_trans)
    show "head_kept r (pbufs s0) (pbufs s)" using m by (simp add: mirrored_def)
    obtain e where e: "cells (pbufs s) r = Some e" using m by (auto simp: mirrored_def)
    then have "cells ?h1 r = Some e" using same by (auto simp: same_on_def)
    then show "head_kept r (pbufs s) h" using e relinked_cell [OF rel, of r e] by (auto simp: head_kept_def cell_kept_def)
  qed
  moreover have "cells h b = addref (us @ [a]) (cells (pbufs s0)) b" if "b \<notin> set (r # ms @ [x])" for b
    using that at [of b] m a(1-3) ca by (auto simp: mirrored_def addref_def)
  moreover have "map ((frag_original (frag s))(x := Some a)) (ms @ [x]) = map Some (us @ [a])"
    using m fs(3) by (auto simp: mirrored_def)
  moreover have "\<exists>cs fo. s\<lparr>pbufs := h, frag := (frag s)\<lparr>frag_pool := fs, frag_original := (frag_original (frag s))(x := Some a)\<rparr>\<rparr>
      = s0\<lparr>pbufs := (pbufs s0)\<lparr>cells := cs\<rparr>, frag := (frag s0)\<lparr>frag_pool := fs, frag_original := fo\<rparr>\<rparr>"
  proof -
    obtain cs fo where s: "s = s0\<lparr>pbufs := (pbufs s0)\<lparr>cells := cs\<rparr>, frag := (frag s0)\<lparr>frag_pool := frag_pool (frag s), frag_original := fo\<rparr>\<rparr>"
      using m by (auto simp: mirrored_def)
    have "h = (pbufs s)\<lparr>cells := cells h\<rparr>" using h(3) by (simp add: only_cells_def put_def)
    then have "h = (pbufs s0)\<lparr>cells := cells h\<rparr>" by (subst (asm) s) simp
    then show ?thesis by (intro exI [of _ "cells h"] exI [of _ "(frag_original (frag s))(x := Some a)"], subst (1 2 3) s) simp
  qed
  ultimately have "mirrored s0 r (ms @ [x]) (us @ [a]) (s\<lparr>pbufs := h, frag := (frag s)\<lparr>frag_pool := fs, frag_original := (frag_original (frag s))(x := Some a)\<rparr>\<rparr>)"
    using h(2) m a(2) fs(1) by (simp add: mirrored_def del: packet.simps)
  then show ?thesis using ref h(1) cx by (auto simp: pbuf_cat_def)
qed

text \<open>Where the loop stops: \<open>n\<close> bytes further in the packet with the cells \<open>as\<close>.\<close>

definition stops_at :: "pheap \<Rightarrow> nat list \<Rightarrow> nat \<Rightarrow> nat \<Rightarrow> pptr \<times> nat \<times> nat \<Rightarrow> bool" where
  "stops_at h as poff n r \<longleftrightarrow> (case r of (p, poff', k) \<Rightarrow> \<exists>vs w ws. as = vs @ w # ws \<and> p = Some w \<and> poff' + k \<le> len (the (cells h w))
     \<and> drop (poff' + k) (contents h (w # ws)) = drop n (drop poff (contents h as)))"

lemma stops_at_next: "packet h q (a # as) \<Longrightarrow> cells h a = Some c \<Longrightarrow> poff \<le> len c \<Longrightarrow> len c - poff \<le> n \<Longrightarrow> stops_at h as 0 (n - (len c - poff)) r
  \<Longrightarrow> stops_at h (a # as) poff n r"
  by (auto simp: stops_at_def split: prod.splits) (metis append_Cons)

lemma stops_at_frame:
  assumes "same_on as h h'" and "stops_at h as poff n r"
  shows "stops_at h' as poff n r"
proof -
  obtain p poff' k where r: "r = (p, poff', k)" by (cases r) auto
  from assms(2) obtain vs w ws where v: "as = vs @ w # ws" "p = Some w" "poff' + k \<le> len (the (cells h w))"
    "drop (poff' + k) (contents h (w # ws)) = drop n (drop poff (contents h as))" unfolding r stops_at_def by blast
  have "same_on (w # ws) h h'" "cells h' w = cells h w" using assms(1) v(1) by (simp_all add: same_on_def)
  then show ?thesis using v contents_frame [OF assms(1)] contents_frame [of "w # ws" h h'] unfolding r stops_at_def prod.case by metis
qed

lemma mirror_loop_spec:
  assumes "mirrored s0 r ms us s" and "packet (pbufs s0) q as" and "set as \<inter> set (r # ms) = {}" and "set as \<inter> set us = {}"
    and "\<forall>a \<in> set as. 0 < ref (the (cells (pbufs s0) a)) \<and> ref (the (cells (pbufs s0) a)) < 255"
    and "length as \<le> length (frag_pool (frag s))" and "distinct (r # frag_pool (frag s0))" and "\<forall>x \<in> set (frag_pool (frag s0)). cells (pbufs s0) x = None"
    and "0 < n" and "n \<le> plen (pbufs s0) as - poff" and "as \<noteq> [] \<longrightarrow> poff \<le> len (the (cells (pbufs s0) (hd as)))"
    and "plen (pbufs s) (r # ms) + n < 65536"
  shows "\<exists>ms' us' m t. mirror_loop r q poff n k0 s = Some (Some m, t) \<and> mirrored s0 r (ms @ ms') (us @ us') t \<and> set us' \<subseteq> set as
    \<and> stops_at (pbufs s0) as poff n m \<and> contents (pbufs t) (r # ms @ ms') = contents (pbufs s) (r # ms) @ take n (drop poff (contents (pbufs s0) as))"
  using assms
proof (induction as arbitrary: q poff n k0 ms us s)
  case Nil
  then show ?case by simp
next
  case (Cons a as)
  from Cons.prems(2) obtain c where c: "q = Some a" "cells (pbufs s0) a = Some c" "cell_ok c" "packet (pbufs s0) (nxt c) as" "len c + plen (pbufs s0) as < 65536"
    by auto
  have ca: "cells (pbufs s) a = Some c" using Cons.prems(1,3,4) c(2) by (auto simp: mirrored_def addref_def)
  let ?k = "min n (len c - poff)"
  have poff: "poff \<le> len c" using Cons.prems(11) c(2) by simp
  have n: "n < 65536" using Cons.prems(12) by simp
  have sub: "sub16 (len c) poff = len c - poff" using poff c(5) by simp
  have as: "as \<noteq> [] \<longrightarrow> 0 \<le> len (the (cells (pbufs s0) (hd as)))" by simp
  have drop: "len c - poff \<le> n \<Longrightarrow> take n (drop poff (contents (pbufs s0) (a # as)))
      = drop poff (data_of c) @ take (n - (len c - poff)) (contents (pbufs s0) as)" using c(2,3) poff by simp
  show ?case
  proof (cases "?k = 0")
    case True
    then have l: "poff = len c" using Cons.prems(9) poff by simp
    then have "mirror_loop r q poff n k0 s = mirror_loop r (nxt c) 0 n 0 s"
      using c ca Cons.prems(9) by (simp add: mirror_loop.simps [of r "Some a"])
    moreover have "\<exists>ms' us' m t. mirror_loop r (nxt c) 0 n 0 s = Some (Some m, t) \<and> mirrored s0 r (ms @ ms') (us @ us') t \<and> set us' \<subseteq> set as
      \<and> stops_at (pbufs s0) as 0 n m \<and> contents (pbufs t) (r # ms @ ms') = contents (pbufs s) (r # ms) @ take n (drop 0 (contents (pbufs s0) as))"
      by (rule Cons.IH) (use Cons.prems c(2,4) l in simp_all)
    then obtain ms' us' m t where t: "mirror_loop r (nxt c) 0 n 0 s = Some (Some m, t)" "mirrored s0 r (ms @ ms') (us @ us') t" "set us' \<subseteq> set as"
      "stops_at (pbufs s0) as 0 n m" "contents (pbufs t) (r # ms @ ms') = contents (pbufs s) (r # ms) @ take n (contents (pbufs s0) as)" by auto
    moreover have "stops_at (pbufs s0) (a # as) poff n m" using stops_at_next [OF Cons.prems(2) c(2) poff] t(4) l by simp
    ultimately show ?thesis using drop l c(3)
      by (intro exI [of _ ms'] exI [of _ us'] exI [of _ m] exI [of _ t]) (auto simp del: contents_simps)
  next
    case False
    define k where "k = min n (len c - poff)"
    have k0: "0 < k" "k \<le> n" "min n (sub16 (len c) poff) = k" "sub16 n k = n - k" using False sub n by (simp_all add: k_def)
    have k: "poff + k \<le> len c" "plen (pbufs s) (r # ms) + k < 65536" using poff Cons.prems(12) unfolding k_def by linarith+
    obtain x fs where x: "frag_pool (frag s) = x # fs" using Cons.prems(6) by (cases "frag_pool (frag s)") auto
    then have fp: "frag_pool (frag s0) = ms @ x # fs" using Cons.prems(1) by (simp add: mirrored_def)
    then have xs: "cells (pbufs s0) x = None" "x \<notin> set (r # ms)" using Cons.prems(7,8) by auto
    have rc: "0 < ref c" "ref c < 255" using Cons.prems(5) c(2) by simp_all
    have sep: "a \<notin> set us" "a \<notin> set (r # ms)" "a \<notin> set as" using Cons.prems(3,4) packet_distinct [OF Cons.prems(2)] by auto
    let ?mem = "take k (drop poff (data_of c))"
    from mirror_step [OF Cons.prems(1) c(2) sep(1,2) rc c(3) k x xs] obtain h1 h where
      h: "pbuf_ref (Some a) (put x (pbuf_init_alloced_pbuf ?mem 0 k k PBUF_REF PBUF_FLAG_IS_CUSTOM) (pbufs s)) = Some h1"
        "pbuf_cat (Some r) (Some x) h1 = Some h" "contents h (r # ms @ [x]) = contents (pbufs s) (r # ms) @ ?mem"
        "plen h (r # ms @ [x]) = plen (pbufs s) (r # ms) + k"
        "mirrored s0 r (ms @ [x]) (us @ [a]) (s\<lparr>pbufs := h, frag := (frag s)\<lparr>frag_pool := fs, frag_original := (frag_original (frag s))(x := Some a)\<rparr>\<rparr>)"
      by blast
    let ?s = "s\<lparr>pbufs := h, frag := (frag s)\<lparr>frag_pool := fs, frag_original := (frag_original (frag s))(x := Some a)\<rparr>\<rparr>"
    have comm: "s\<lparr>pbufs := h, frag := (frag s)\<lparr>frag_pool := fs\<rparr>\<lparr>frag_original := (frag_original ((frag s)\<lparr>frag_pool := fs\<rparr>))(x := Some a)\<rparr>\<rparr> = ?s" by simp
    have step: "mirror_loop r q poff n k0 s = (if n - k \<noteq> 0 then mirror_loop r (nxt c) 0 (n - k) k ?s else Some (Some (Some a, poff, k), ?s))"
      using c(1) ca poff Cons.prems(9) k0 x h(1,2) rd_ok [OF c(3) k(1)]
      by (simp add: mirror_loop.simps [of r "Some a"] Let_def ip_frag_alloc_pbuf_custom_ref_def pbuf_alloced_custom_def)
    show ?thesis
    proof (cases "n - k = 0")
      case True
      then have nk: "n \<le> len c - poff" "k = n" unfolding k_def by simp_all
      have "stops_at (pbufs s0) (a # as) poff n (Some a, poff, n)"
        unfolding stops_at_def prod.case by (rule exI [of _ "[]"], rule exI [of _ a], rule exI [of _ as]) (use k(1) nk c(2,3) in \<open>simp add: add.commute\<close>)
      moreover have "take n (drop poff (contents (pbufs s0) (a # as))) = take n (drop poff (data_of c))" using c(2,3) nk(1) poff by simp
      ultimately show ?thesis using step True nk(2) h(3,5)
        by (intro exI [of _ "[x]"] exI [of _ "[a]"] exI [of _ "(Some a, poff, n)"] exI [of _ ?s]) (simp del: contents_simps)
    next
      case n': False
      then have nk: "k = len c - poff" "len c - poff \<le> n" unfolding k_def by auto
      have "\<exists>ms' us' m t. mirror_loop r (nxt c) 0 (n - k) k ?s = Some (Some m, t) \<and> mirrored s0 r ((ms @ [x]) @ ms') ((us @ [a]) @ us') t \<and> set us' \<subseteq> set as
        \<and> stops_at (pbufs s0) as 0 (n - k) m \<and> contents (pbufs t) (r # (ms @ [x]) @ ms') = contents (pbufs ?s) (r # ms @ [x]) @ take (n - k) (drop 0 (contents (pbufs s0) as))"
      proof (rule Cons.IH [OF h(5) c(4)])
        show "set as \<inter> set (r # ms @ [x]) = {}" using Cons.prems(2,3) xs(1) packet_cell [OF c(4)] by fastforce
        show "set as \<inter> set (us @ [a]) = {}" using Cons.prems(4) sep(3) by auto
        show "n - k \<le> plen (pbufs s0) as - 0" using Cons.prems(10) c(2) nk by simp
        show "plen (pbufs ?s) (r # ms @ [x]) + (n - k) < 65536" using h(4) Cons.prems(12) nk by simp
      qed (use Cons.prems(5-8) x n' in simp_all)
      then obtain ms' us' m t where t: "mirror_loop r (nxt c) 0 (n - k) k ?s = Some (Some m, t)"
        "mirrored s0 r ((ms @ [x]) @ ms') ((us @ [a]) @ us') t" "set us' \<subseteq> set as" "stops_at (pbufs s0) as 0 (n - k) m"
        "contents (pbufs t) (r # (ms @ [x]) @ ms') = contents (pbufs ?s) (r # ms @ [x]) @ take (n - k) (contents (pbufs s0) as)" by auto
      have "stops_at (pbufs s0) (a # as) poff n m" using stops_at_next [OF Cons.prems(2) c(2) poff nk(2)] t(4) nk(1) by simp
      moreover have "?mem = drop poff (data_of c)" using nk(1) c(3) by simp
      ultimately show ?thesis using step n' t h(3) drop [OF nk(2)] nk(1)
        by (intro exI [of _ "x # ms'"] exI [of _ "a # us'"] exI [of _ m] exI [of _ t]) (auto simp del: contents_simps)
    qed
  qed
qed

section \<open>The header of a fragment\<close>

definition frag_field :: "nat \<Rightarrow> u16 \<Rightarrow> u16 \<Rightarrow> nat \<Rightarrow> u16" where
  "frag_field l ofo mf_set left =
     (let tmp = IP_OFFMASK AND ofo in if int l - int IP_HLEN < int left \<or> mf_set \<noteq> 0 then tmp OR IP_MF else tmp)"

text \<open>\<open>hdr\<close> with the offset field \<open>tmp\<close> and the length \<open>n\<close>.\<close>

definition fragment_header :: "bytes \<Rightarrow> u16 \<Rightarrow> nat \<Rightarrow> bytes" where
  "fragment_header hdr tmp n =
     (let pre = take 2 hdr @ store16 (lwip_htons (of_nat n)) @ take 2 (drop 4 hdr) @ store16 (lwip_htons tmp) @ take 2 (drop 8 hdr); post = drop 12 hdr
      in pre @ store16 (inet_chksum False (pre @ [0, 0] @ post)) @ post)"

lemma length_fragment_header [simp]: "length hdr = 20 \<Longrightarrow> length (fragment_header hdr tmp n) = 20"
  by (simp add: fragment_header_def Let_def store16_def)

lemma frag_fill_ok:
  assumes pk: "packet h (Some r) (r # ms)" "\<forall>b \<in> set (r # ms). sole h b" and c: "cells h r = Some c" "IP_HLEN \<le> len c"
    and hdr: "contents h (r # ms) = hdr @ bs" "length hdr = IP_HLEN"
  shows "\<exists>c'. frag_fill env l r ofo mf_set left k c = Some c' \<and> packet (put r c' h) (Some r) (r # ms) \<and> (\<forall>b \<in> set (r # ms). sole (put r c' h) b)
    \<and> contents (put r c' h) (r # ms) = fragment_header hdr (frag_field l ofo mf_set left) (k + IP_HLEN) @ bs \<and> cell_kept c c' \<and> len c' = len c"
proof -
  let ?t = "store16 (lwip_htons (frag_field l ofo mf_set left))" and ?l = "store16 (lwip_htons (of_nat (k + IP_HLEN)))"
  let ?ws = "[(6, ?t), (2, ?l), (10, store16 0)]"
  let ?pre = "take 2 hdr @ ?l @ take 2 (drop 4 hdr) @ ?t @ take 2 (drop 8 hdr)"
  have ws: "\<forall>(off, bs) \<in> set ?ws. off + length bs \<le> IP_HLEN" by (simp add: IP_HLEN_def store16_def)
  have h: "length hdr = 20" using hdr(2) by (simp add: IP_HLEN_def)
  have z: "foldl (\<lambda>d (off, bs). blit d off bs) (contents h (r # ms)) ?ws = (?pre @ [0, 0] @ drop 12 hdr) @ bs"
    using h unfolding hdr(1) by (simp add: blit_def store16_def min_def drop_take) (simp add: numeral_eq_Suc)
  have "length ?pre = 10" "length (drop 12 hdr) = 8" using h by (simp_all add: store16_def)
  from header_stored [OF pk c ws z this, of env] show ?thesis
    by (auto simp: frag_fill_def frag_field_def fragment_header_def Let_def not_le simp del: wr_all.simps packet.simps contents_simps)
qed

section \<open>One fragment\<close>

definition frag_ready :: "'w net \<Rightarrow> nat \<Rightarrow> nat list \<Rightarrow> bool" where
  "frag_ready s p ps \<longleftrightarrow> packet (pbufs s) (Some p) (p # ps) \<and> (\<forall>a \<in> set (p # ps). 0 < ref (the (cells (pbufs s) a)) \<and> ref (the (cells (pbufs s) a)) < 255)
     \<and> ram_fits (pbufs s) 58 \<and> length (p # ps) \<le> length (frag_pool (frag s))
     \<and> (\<exists>r rs. ram (pbufs s) = r # rs \<and> distinct (r # frag_pool (frag s)) \<and> (\<forall>x \<in> set (r # frag_pool (frag s)). cells (pbufs s) x = None))"

lemma frag_alloc:
  assumes "ram h = r # rs" and "ram_fits h 58" and "length hdr = IP_HLEN"
  shows "\<exists>c c'. pbuf_alloc PBUF_LINK IP_HLEN PBUF_RAM h = Some (Some r, put r c (h\<lparr>ram := rs\<rparr>)) \<and> len c = IP_HLEN \<and> wr c 0 hdr = Some c'
    \<and> cell_ok c' \<and> data_of c' = hdr \<and> len c' = IP_HLEN \<and> tot_len c' = IP_HLEN \<and> nxt c' = None \<and> ref c' = 1 \<and> flags c' = 0 \<and> type_internal c' = 0x80
    \<and> payload c' = 14"
proof -
  let ?c = "pbuf_init_alloced_pbuf (map (junk h) [0..<34]) 14 20 20 PBUF_RAM 0"
  have "pbuf_alloc PBUF_LINK IP_HLEN PBUF_RAM h = Some (Some r, put r ?c (h\<lparr>ram := rs\<rparr>))"
    using assms(1,2) by (simp add: pbuf_alloc_def IP_HLEN_def SIZEOF_STRUCT_PBUF_def mem_malloc_def put_def)
  moreover have "wr ?c 0 hdr = Some (?c\<lparr>area := blit (area ?c) 14 hdr\<rparr>)" using assms(3) by (simp add: wr_def pbuf_init_alloced_pbuf_def IP_HLEN_def)
  moreover have "length (blit (area ?c) 14 hdr) = 34" using assms(3) by (simp add: blit_def pbuf_init_alloced_pbuf_def IP_HLEN_def)
  moreover have "take 20 (drop 14 (blit (area ?c) 14 hdr)) = hdr" using assms(3) by (simp add: blit_def pbuf_init_alloced_pbuf_def IP_HLEN_def)
  moreover have "length hdr \<le> 20" using assms(3) by (simp add: IP_HLEN_def)
  ultimately show ?thesis by - (rule exI [of _ ?c], rule exI [of _ "?c\<lparr>area := blit (area ?c) 14 hdr\<rparr>"],
    simp add: pbuf_init_alloced_pbuf_def IP_HLEN_def cell_ok_def data_of_def)
qed

lemma restored:
  assumes "\<forall>a. a \<notin> set ms \<longrightarrow> m a = addref us m0 a" and "\<forall>a \<in> set ms. m0 a = None"
  shows "unref us (unlisted ms m) = m0"
proof
  fix a show "unref us (unlisted ms m) a = m0 a"
    using assms by (cases "m0 a") (auto simp: unref_def unlisted_def addref_def)
qed

lemma custom_sole: "custom_cell h a \<Longrightarrow> sole h a"
  by (auto simp: custom_cell_def sole_def releasable_def)

text \<open>A finished fragment: the header at \<open>r\<close>, behind it the mirrored data.\<close>

lemma fragment_built:
  assumes ready: "frag_ready s p ps" and r: "ram (pbufs s) = r # rs" and hdr: "length hdr = IP_HLEN"
    and as: "packet (pbufs s) q as" "set as \<subseteq> set (p # ps)" "as \<noteq> [] \<longrightarrow> poff \<le> len (the (cells (pbufs s) (hd as)))"
    and n: "0 < n" "n \<le> plen (pbufs s) as - poff" "n + 34 < 65536"
  shows "\<exists>c0 c1 c2 c3 ms us m t. pbuf_alloc PBUF_LINK IP_HLEN PBUF_RAM (pbufs s) = Some (Some r, put r c0 ((pbufs s)\<lparr>ram := rs\<rparr>)) \<and> len c0 = IP_HLEN
    \<and> wr c0 0 hdr = Some c1 \<and> mirror_loop r q poff n k0 (s\<lparr>pbufs := put r c1 ((pbufs s)\<lparr>ram := rs\<rparr>)\<rparr>) = Some (Some m, t)
    \<and> stops_at (pbufs s) as poff n m \<and> cells (pbufs t) r = Some c2 \<and> frag_fill env l r ofo mf_set left n c2 = Some c3
    \<and> room_for 14 r ms (put r c3 (pbufs t)) \<and> flags c3 = 0 \<and> type_internal c3 = 0x80 \<and> 20 \<le> len c3
    \<and> mirrored (s\<lparr>pbufs := put r c1 ((pbufs s)\<lparr>ram := rs\<rparr>)\<rparr>) r ms us t \<and> set us \<subseteq> set (p # ps)
    \<and> contents (put r c3 (pbufs t)) (r # ms) = fragment_header hdr (frag_field l ofo mf_set left) (n + IP_HLEN) @ take n (drop poff (contents (pbufs s) as))"
proof -
  have fit: "ram_fits (pbufs s) 58" and pool: "distinct (r # frag_pool (frag s))" "\<forall>x \<in> set (r # frag_pool (frag s)). cells (pbufs s) x = None"
    and pk: "packet (pbufs s) (Some p) (p # ps)" and refs: "\<forall>a \<in> set (p # ps). 0 < ref (the (cells (pbufs s) a)) \<and> ref (the (cells (pbufs s) a)) < 255"
    and room: "length (p # ps) \<le> length (frag_pool (frag s))" using ready r by (auto simp: frag_ready_def)
  from frag_alloc [OF r fit hdr] obtain c0 c1 where
    c0: "pbuf_alloc PBUF_LINK IP_HLEN PBUF_RAM (pbufs s) = Some (Some r, put r c0 ((pbufs s)\<lparr>ram := rs\<rparr>))" "len c0 = IP_HLEN" "wr c0 0 hdr = Some c1"
    and c1: "cell_ok c1" "data_of c1 = hdr" "len c1 = IP_HLEN" "tot_len c1 = IP_HLEN" "nxt c1 = None" "ref c1 = 1" "flags c1 = 0" "type_internal c1 = 0x80" "payload c1 = 14"
    by blast
  let ?s = "s\<lparr>pbufs := put r c1 ((pbufs s)\<lparr>ram := rs\<rparr>)\<rparr>"
  have nr: "r \<notin> set (p # ps)" using pool(2) packet_cell [OF pk] by fastforce
  then have same: "same_on (p # ps) (pbufs s) (pbufs ?s)" "same_on as (pbufs s) (pbufs ?s)" using as(2) by (auto simp: same_on_def)
  have hd: "as \<noteq> [] \<Longrightarrow> hd as \<in> set as" by simp
  have m0: "mirrored ?s r [] [] ?s"
    using c1 by (auto simp: mirrored_def addref_def head_kept_def IP_HLEN_def intro!: exI [of _ "(cells (pbufs s))(r \<mapsto> c1)"] exI [of _ "frag_original (frag s)"])
  have "length as \<le> length (p # ps)"
    using as(2) packet_distinct [OF as(1)] packet_distinct [OF pk] by (metis distinct_card card_mono List.finite_set)
  then have "\<exists>ms' us' m t. mirror_loop r q poff n k0 ?s = Some (Some m, t) \<and> mirrored ?s r ([] @ ms') ([] @ us') t \<and> set us' \<subseteq> set as
    \<and> stops_at (pbufs ?s) as poff n m \<and> contents (pbufs t) (r # [] @ ms') = contents (pbufs ?s) [r] @ take n (drop poff (contents (pbufs ?s) as))"
    using packet_frame [OF same(2) as(1)] plen_frame [OF same(2)] m0 nr as(2,3) refs room pool n c1(3) hd same(2)
    by (intro mirror_loop_spec) (auto simp: same_on_def IP_HLEN_def)
  then obtain ms us m t where
    t: "mirror_loop r q poff n k0 ?s = Some (Some m, t)" "mirrored ?s r ms us t" "set us \<subseteq> set as" "stops_at (pbufs ?s) as poff n m"
      "contents (pbufs t) (r # ms) = hdr @ take n (drop poff (contents (pbufs s) as))"
    using c1(2) contents_frame [OF same(2)] by auto
  from t(2) obtain c2 where c2: "cells (pbufs t) r = Some c2" "cell_kept c1 c2" "len c2 = len c1" by (auto simp: mirrored_def head_kept_def)
  have "sole (pbufs t) r" using c1 c2 by (simp add: sole_def releasable_def cell_kept_def)
  then have "\<forall>b \<in> set (r # ms). sole (pbufs t) b" using t(2) custom_sole by (auto simp: mirrored_def)
  moreover have pt: "packet (pbufs t) (Some r) (r # ms)" using t(2) by (simp add: mirrored_def)
  moreover have l2: "IP_HLEN \<le> len c2" using c2(3) c1(3) by simp
  ultimately obtain c3 where
    c3: "frag_fill env l r ofo mf_set left n c2 = Some c3" "packet (put r c3 (pbufs t)) (Some r) (r # ms)"
      "contents (put r c3 (pbufs t)) (r # ms) = fragment_header hdr (frag_field l ofo mf_set left) (n + IP_HLEN) @ take n (drop poff (contents (pbufs s) as))"
      "cell_kept c2 c3" "len c3 = len c2"
    using frag_fill_ok [of "pbufs t" r ms c2, OF _ _ c2(1) _ t(5) hdr] by blast
  have "same_on as (pbufs ?s) (pbufs s)" using same(2) by (simp add: same_on_def)
  then have st: "stops_at (pbufs s) as poff n m" using stops_at_frame t(4) by blast
  have "length (contents (put r c3 (pbufs t)) (r # ms)) \<le> 20 + n" unfolding c3(3) using hdr by (simp add: IP_HLEN_def)
  then have "plen (put r c3 (pbufs t)) (r # ms) + 14 < 65536" using length_contents [OF c3(2)] n(3) by simp
  then have "room_for 14 r ms (put r c3 (pbufs t))"
    using c3(2,4) c2(2) c1 by (simp add: room_for_def cell_kept_def FLAG_CONTIGUOUS_def del: plen_simps)
  moreover have "flags c3 = 0" "type_internal c3 = 0x80" "20 \<le> len c3" using c3(4,5) c2(2,3) c1 by (simp_all add: cell_kept_def IP_HLEN_def)
  moreover have "set us \<subseteq> set (p # ps)" using t(3) as(2) by blast
  ultimately show ?thesis using c0 t(1,2) st c2(1) c3(1,3) by blast
qed

lemma unlisted_put: "r \<in> set as \<Longrightarrow> unlisted as (m(r \<mapsto> c)) = unlisted as m"
  by (auto simp: unlisted_def fun_eq_iff)

text \<open>When the fragment has been sent and freed, only the order of the free references has changed.\<close>

lemma fragment_freed:
  assumes ready: "frag_ready s p ps" and r: "ram (pbufs s) = r # rs" and us: "set us \<subseteq> set (p # ps)"
    and m: "mirrored (s\<lparr>pbufs := put r c1 ((pbufs s)\<lparr>ram := rs\<rparr>)\<rparr>) r ms us t"
    and c3: "packet (put r c3 (pbufs t)) (Some r) (r # ms)" "ref c3 = 1" "flags c3 = 0" "type_internal c3 = 0x80" and c4: "same_cell c3 c4"
  shows "\<exists>fp fo. mset fp = mset (frag_pool (frag s)) \<and> free_fragment r (t\<lparr>etharp_cached_entry := i, pbufs := put r c4 (pbufs t), driver := w\<rparr>)
    = Some (s\<lparr>frag := (frag s)\<lparr>frag_pool := fp, frag_original := fo\<rparr>, etharp_cached_entry := i, driver := w\<rparr>)"
proof -
  let ?u = "t\<lparr>etharp_cached_entry := i, pbufs := put r c4 (pbufs t), driver := w\<rparr>"
  have pk: "packet (pbufs s) (Some p) (p # ps)" and refs: "\<forall>a \<in> set (p # ps). 0 < ref (the (cells (pbufs s) a))"
    and none: "\<forall>x \<in> set (r # frag_pool (frag s)). cells (pbufs s) x = None" and dist: "distinct (r # frag_pool (frag s))"
    using ready r by (auto simp: frag_ready_def)
  have fp: "frag_pool (frag s) = ms @ frag_pool (frag t)" using m by (simp add: mirrored_def)
  obtain cs fo where t: "t = s\<lparr>pbufs := (pbufs s)\<lparr>ram := rs, cells := cs\<rparr>, frag := (frag s)\<lparr>frag_pool := frag_pool (frag t), frag_original := fo\<rparr>\<rparr>"
    using m by (auto simp: mirrored_def put_def)
  have ca: "\<forall>a. a \<notin> set (r # ms) \<longrightarrow> cells (pbufs t) a = addref us (cells (pbufs s)) a"
    using m by (auto simp: mirrored_def addref_def)
  have cells: "\<exists>c. cells (pbufs s) a = Some c" if "a \<in> set (p # ps)" for a using packet_cell [OF pk that] .
  have sep: "set us \<inter> set (r # ms) = {}" using us none fp cells by fastforce
  have ch: "chain (pbufs ?u) (Some r) (r # ms)"
  proof -
    have "r \<notin> set ms" using dist fp by auto
    then have "same_on ms (put r c3 (pbufs t)) (pbufs ?u)" by (auto simp: same_on_def)
    from chain_frame [OF this] show ?thesis using packet_chain [OF c3(1)] c4 by (simp add: same_cell_def)
  qed
  have cust: "\<forall>a \<in> set ms. custom_cell (pbufs ?u) a" using m dist fp by (auto simp: mirrored_def custom_cell_def)
  have orig: "map (frag_original (frag ?u)) ms = map Some us" "distinct us" using m by (simp_all add: mirrored_def)
  have live: "\<forall>u \<in> set us. \<exists>c. cells (pbufs ?u) u = Some c \<and> ref c > 1"
  proof
    fix u assume u: "u \<in> set us"
    then have "u \<in> set (p # ps)" "u \<notin> set (r # ms)" using us sep by blast+
    moreover from this(1) cells obtain c where "cells (pbufs s) u = Some c" by blast
    ultimately show "\<exists>c. cells (pbufs ?u) u = Some c \<and> ref c > 1" using ca u refs by (auto simp: addref_def)
  qed
  have "cells (pbufs ?u) r = Some c4" "ref c4 = 1" "flags c4 AND PBUF_FLAG_IS_CUSTOM = 0" "type_internal c4 AND 0x0F = 0"
    using c3(2-4) c4 by (simp_all add: same_cell_def)
  from free_fragment_spec [OF ch cust this orig sep live] have
    free: "free_fragment r ?u = Some (?u\<lparr>pbufs := (pbufs ?u)\<lparr>cells := unref us (unlisted (r # ms) (cells (pbufs ?u))), ram := r # ram (pbufs ?u)\<rparr>,
      frag := (frag ?u)\<lparr>frag_pool := rev ms @ frag_pool (frag ?u)\<rparr>\<rparr>)" .
  have "unref us (unlisted (r # ms) (cells (pbufs ?u))) = cells (pbufs s)"
    using restored [OF ca] none fp by (simp add: unlisted_put)
  moreover have "(pbufs ?u)\<lparr>cells := cells (pbufs s), ram := r # ram (pbufs ?u)\<rparr> = pbufs s"
  proof -
    have u: "pbufs ?u = (pbufs s)\<lparr>ram := rs, cells := cs(r \<mapsto> c4)\<rparr>" using arg_cong [OF t, of pbufs] by (simp add: put_def)
    show ?thesis unfolding u using r by (intro pheap.equality) simp_all
  qed
  ultimately have "free_fragment r ?u = Some (?u\<lparr>pbufs := pbufs s, frag := (frag ?u)\<lparr>frag_pool := rev ms @ frag_pool (frag ?u)\<rparr>\<rparr>)" using free by simp
  moreover have "?u\<lparr>pbufs := pbufs s, frag := (frag ?u)\<lparr>frag_pool := rev ms @ frag_pool (frag ?u)\<rparr>\<rparr>
      = s\<lparr>frag := (frag s)\<lparr>frag_pool := rev ms @ frag_pool (frag t), frag_original := fo\<rparr>, etharp_cached_entry := i, driver := w\<rparr>"
  proof -
    have "\<exists>x. t = s\<lparr>pbufs := (pbufs s)\<lparr>ram := rs, cells := cs\<rparr>, frag := (frag s)\<lparr>frag_pool := x, frag_original := fo\<rparr>\<rparr>" using t by blast
    then show ?thesis by (auto intro!: net.equality frag_state.equality)
  qed
  ultimately show ?thesis using fp by (intro exI [of _ "rev ms @ frag_pool (frag t)"] exI [of _ fo]) simp
qed

section \<open>All fragments\<close>

text \<open>
  The fragments that a datagram with the header \<open>hdr\<close> leaves in, over an interface with the MTU \<open>l\<close>:
  \<open>mf\<close> is the more-fragments bit of the datagram itself and \<open>ofo\<close> its offset in blocks.
\<close>

function fragments_of :: "bytes \<Rightarrow> nat \<Rightarrow> u16 \<Rightarrow> u16 \<Rightarrow> bytes \<Rightarrow> bytes list" where
  "fragments_of hdr l mf ofo bs =
     (if bs = [] \<or> l < IP_HLEN + 8 then []
      else let n = min (length bs) (8 * frag_blocks l)
        in (fragment_header hdr (frag_field l ofo mf (length bs)) (n + IP_HLEN) @ take n bs) # fragments_of hdr l mf (ofo + of_nat (frag_blocks l)) (drop n bs))"
  by pat_completeness auto
termination
  by (relation "measure (\<lambda>(_, _, _, _, bs). length bs)") (auto simp: frag_blocks_def)

declare fragments_of.simps [simp del]

lemma frag_blocks_bounds:
  assumes "IP_HLEN + 8 \<le> l" and "l < 65536"
  shows "0 < frag_blocks l" and "8 * frag_blocks l + IP_HLEN \<le> l" and "u16 (frag_blocks l * 8) = 8 * frag_blocks l"
  using assms by (auto simp: frag_blocks_def)

lemma read_at_header:
  assumes "packet h (Some p) (p # ps)" and "cells h p = Some c" and "IP_HLEN \<le> len c" and "contents h (p # ps) = hdr @ bs" and "length hdr = IP_HLEN"
  shows "read_at (p, payload c) IP_HLEN h = Some hdr"
proof -
  have "cell_ok c" using assms(1,2) by auto
  moreover from this have "take IP_HLEN (contents h (p # ps)) = take IP_HLEN (data_of c)" using assms(2,3) by simp
  then have "take IP_HLEN (data_of c) = hdr" unfolding assms(4) using assms(5) by simp
  ultimately show ?thesis using assms(2,3) by (auto simp: read_at_def cell_ok_def data_of_def min_def)
qed

lemma frag_ready_after:
  assumes "frag_ready s p ps" and m: "mset fp = mset (frag_pool (frag s))"
  shows "frag_ready (s\<lparr>frag := (frag s)\<lparr>frag_pool := fp, frag_original := fo\<rparr>, etharp_cached_entry := i, driver := w\<rparr>) p ps"
proof -
  have "set fp = set (frag_pool (frag s))" "distinct fp = distinct (frag_pool (frag s))" "length fp = length (frag_pool (frag s))"
    using mset_eq_setD [OF m] mset_eq_imp_distinct_iff [OF m] mset_eq_length [OF m] by simp_all
  then show ?thesis using assms(1) by (simp add: frag_ready_def)
qed

lemma packet_tail: "packet h q (vs @ w # ws) \<Longrightarrow> packet h (Some w) (w # ws)"
  by (induction vs arbitrary: q) auto

lemma mirrored_fields:
  assumes "mirrored (s\<lparr>pbufs := h0\<rparr>) r ms us t"
  shows "netifs t = netifs s" and "arp_table t = arp_table s" and "etharp_cached_entry t = etharp_cached_entry s" and "driver t = driver s"
proof -
  obtain h f where t: "t = s\<lparr>pbufs := h, frag := f\<rparr>" using assms by (auto simp: mirrored_def)
  show "netifs t = netifs s" "arp_table t = arp_table s" "etharp_cached_entry t = etharp_cached_entry s" "driver t = driver s"
    unfolding t by simp_all
qed

text \<open>What the loop needs of the network: an Ethernet interface and a resolved next hop.\<close>

definition hop_ready :: "'w net \<Rightarrow> nat \<Rightarrow> netif \<Rightarrow> u32 \<Rightarrow> u32 \<Rightarrow> bytes \<Rightarrow> bool" where
  "hop_ready s nif n src dest mac \<longleftrightarrow> netifs s nif = Some n \<and> ether_netif n \<and> host_addr n dest
     \<and> (\<exists>hop. hop_of n src dest = Some hop \<and> resolved nif hop mac s)"

lemma hop_ready_after:
  assumes "hop_ready s nif n src dest mac" and "i < ARP_TABLE_SIZE" and "netifs t = netifs s" and "arp_table t = arp_table s" and "etharp_cached_entry t = i"
  shows "hop_ready t nif n src dest mac"
  using assms by (auto simp: hop_ready_def resolved_def arp_ok_def)

context ether_driver
begin

lemma fragment_sent:
  assumes m: "mirrored (s\<lparr>pbufs := h0\<rparr>) r ms us t" and c3: "room_for 14 r ms (put r c3 (pbufs t))" "20 \<le> len c3"
    and cont: "contents (put r c3 (pbufs t)) (r # ms) = fragment_header hdr tmp k @ bs" "length hdr = 20" "take 4 (drop 12 hdr) = octets src"
    and n: "hop_ready s nif n src dest mac" and d: "ready (driver s)" "34 + length bs \<le> max_frame"
  shows "\<exists>c4 i w. same_cell c3 c4 \<and> i < ARP_TABLE_SIZE \<and> ready w
    \<and> etharp_output lo nif r dest (t\<lparr>pbufs := put r c3 (pbufs t)\<rparr>) = Some (ERR_OK, t\<lparr>etharp_cached_entry := i, pbufs := put r c4 (pbufs t), driver := w\<rparr>)
    \<and> line w = line (driver s) @ encode (eth_frame mac (n_hwaddr n) ETHTYPE_IP (fragment_header hdr tmp k @ bs))"
proof -
  let ?t = "t\<lparr>pbufs := put r c3 (pbufs t)\<rparr>"
  note same = mirrored_fields [OF m]
  have pk: "packet (pbufs ?t) (Some r) (r # ms)" "cells (pbufs ?t) r = Some c3" using c3(1) by (simp_all add: room_for_def)
  have f20: "length (fragment_header hdr tmp k) = 20" using cont(2) by simp
  have "take 4 (drop 12 (fragment_header hdr tmp k)) = octets src" using cont(2,3) by (simp add: fragment_header_def Let_def store16_def)
  moreover have "take 20 (contents (pbufs ?t) (r # ms)) = fragment_header hdr tmp k" using f20 by (simp add: cont(1) del: contents_simps)
  ultimately have src: "iphdr_src r ?t = Some src" using iphdr_src_read [OF pk(1) _ _ pk(2) c3(2)] by blast
  obtain hop where hop: "netifs ?t nif = Some n" "ether_netif n" "host_addr n dest" "hop_of n src dest = Some hop" "resolved nif hop mac ?t"
    using n same by (auto simp: hop_ready_def resolved_def arp_ok_def)
  have room: "room_for 14 r ms (pbufs ?t)" and rd: "ready (driver ?t)" using c3(1) d(1) same by simp_all
  have "plen (pbufs ?t) (r # ms) + 14 \<le> max_frame" using length_contents [OF pk(1)] f20 d(2) by (simp add: cont(1) del: contents_simps plen_simps)
  from datagram_sends [OF room src hop rd this] show ?thesis
    using pk(2) same cont(1) by (auto simp: put_put simp del: contents_simps)
qed

lemma frag_loop_sends:
  assumes ready: "frag_ready s p ps" and hdr: "contents (pbufs s) (p # ps) = hdr @ all" "length hdr = IP_HLEN" "take 4 (drop 12 hdr) = octets src"
    and c: "cells (pbufs s) p = Some c" and l20: "IP_HLEN \<le> len c"
    and pos: "packet (pbufs s) q as" "set as \<subseteq> set (p # ps)" "as \<noteq> [] \<longrightarrow> poff \<le> len (the (cells (pbufs s) (hd as)))" "drop poff (contents (pbufs s) as) = bs"
    and n: "hop_ready s nif n src dest mac" "IP_HLEN + 8 \<le> n_mtu n" "n_mtu n + 14 < 65536" "n_mtu n + 14 \<le> max_frame"
    and d: "ready (driver s)" and env: "netif_output env = etharp_output lo"
  shows "\<exists>fp fo i w. frag_loop env nif dest (p, payload c) (frag_blocks (n_mtu n)) mf q poff (length bs) ofo k0 s
      = Some (ERR_OK, s\<lparr>frag := (frag s)\<lparr>frag_pool := fp, frag_original := fo\<rparr>, etharp_cached_entry := i, driver := w\<rparr>)
    \<and> mset fp = mset (frag_pool (frag s)) \<and> ready w
    \<and> line w = line (driver s) @ concat (map (\<lambda>f. encode (eth_frame mac (n_hwaddr n) ETHTYPE_IP f)) (fragments_of hdr (n_mtu n) mf ofo bs))"
  using assms(1,2,5,7-10) n(1) d
proof (induction "length bs" arbitrary: s q as poff bs ofo k0 rule: less_induct)
  case less
  let ?l = "n_mtu n" and ?nfb = "frag_blocks (n_mtu n)"
  have b: "0 < ?nfb" "8 * ?nfb + IP_HLEN \<le> ?l" "u16 (?nfb * 8) = 8 * ?nfb" using frag_blocks_bounds [OF n(2)] n(3) by simp_all
  have pl: "length bs = plen (pbufs s) as - poff" using length_contents [OF less.prems(4)] less.prems(7) by auto
  show ?case
  proof (cases "bs = []")
    case True
    then show ?thesis using less.prems(9)
      by (intro exI [of _ "frag_pool (frag s)"] exI [of _ "frag_original (frag s)"] exI [of _ "etharp_cached_entry s"] exI [of _ "driver s"])
        (simp add: frag_loop.simps fragments_of.simps)
  next
    case False
    define k where "k = min (length bs) (8 * ?nfb)"
    have k: "0 < k" "k \<le> length bs" "k + IP_HLEN \<le> ?l" using False b by (auto simp: k_def)
    have k34: "k \<le> plen (pbufs s) as - poff" "k + 34 < 65536" using k pl n(3) by (simp_all add: IP_HLEN_def)
    have lb: "length bs < 65536" using pl packet_plen_less [OF less.prems(4)] by simp
    have pk: "packet (pbufs s) (Some p) (p # ps)" using less.prems(1) by (simp add: frag_ready_def)
    obtain r rs where r: "ram (pbufs s) = r # rs" "cells (pbufs s) r = None" using less.prems(1) by (auto simp: frag_ready_def)
    from fragment_built [OF less.prems(1) r(1) hdr(2) less.prems(4-6) k(1) k34, of k0 env ?l ofo mf "length bs"] obtain c0 c1 c2 c3 ms us m t where
      al: "pbuf_alloc PBUF_LINK IP_HLEN PBUF_RAM (pbufs s) = Some (Some r, put r c0 ((pbufs s)\<lparr>ram := rs\<rparr>))" "len c0 = IP_HLEN" "wr c0 0 hdr = Some c1"
      and mir: "mirror_loop r q poff k k0 (s\<lparr>pbufs := put r c1 ((pbufs s)\<lparr>ram := rs\<rparr>)\<rparr>) = Some (Some m, t)" "stops_at (pbufs s) as poff k m"
        "mirrored (s\<lparr>pbufs := put r c1 ((pbufs s)\<lparr>ram := rs\<rparr>)\<rparr>) r ms us t" "set us \<subseteq> set (p # ps)"
      and c3: "cells (pbufs t) r = Some c2" "frag_fill env ?l r ofo mf (length bs) k c2 = Some c3" "room_for 14 r ms (put r c3 (pbufs t))"
        "flags c3 = 0" "type_internal c3 = 0x80" "20 \<le> len c3"
        "contents (put r c3 (pbufs t)) (r # ms) = fragment_header hdr (frag_field ?l ofo mf (length bs)) (k + IP_HLEN) @ take k bs"
      unfolding less.prems(7) by blast
    let ?f = "fragment_header hdr (frag_field ?l ofo mf (length bs)) (k + IP_HLEN) @ take k bs"
    have "34 + length (take k bs) \<le> max_frame" using k n(4) by (simp add: IP_HLEN_def)
    from fragment_sent [OF mir(3) c3(3,6,7) hdr(2) [unfolded IP_HLEN_def] hdr(3) less.prems(8,9) this] obtain c4 i w where
      o: "same_cell c3 c4" "i < ARP_TABLE_SIZE" "ready w"
        "netif_output env nif r dest (t\<lparr>pbufs := put r c3 (pbufs t)\<rparr>) = Some (ERR_OK, t\<lparr>etharp_cached_entry := i, pbufs := put r c4 (pbufs t), driver := w\<rparr>)"
        "line w = line (driver s) @ encode (eth_frame mac (n_hwaddr n) ETHTYPE_IP ?f)" unfolding env by blast
    have ref: "packet (put r c3 (pbufs t)) (Some r) (r # ms)" "ref c3 = 1" using c3(3) by (simp_all add: room_for_def)
    from fragment_freed [OF less.prems(1) r(1) mir(4,3) ref c3(4,5) o(1), where i = i and w = w] obtain fp fo where
      fr: "mset fp = mset (frag_pool (frag s))" "free_fragment r (t\<lparr>etharp_cached_entry := i, pbufs := put r c4 (pbufs t), driver := w\<rparr>)
        = Some (s\<lparr>frag := (frag s)\<lparr>frag_pool := fp, frag_original := fo\<rparr>, etharp_cached_entry := i, driver := w\<rparr>)" by blast
    let ?s = "s\<lparr>frag := (frag s)\<lparr>frag_pool := fp, frag_original := fo\<rparr>, etharp_cached_entry := i, driver := w\<rparr>"
    obtain p' poff' nl where mm: "m = (p', poff', nl)" by (cases m) auto
    then obtain vs v ws where v: "as = vs @ v # ws" "p' = Some v" "poff' + nl \<le> len (the (cells (pbufs s) v))"
      "drop (poff' + nl) (contents (pbufs s) (v # ws)) = drop k bs" using mir(2) less.prems(7) by (auto simp: stops_at_def)
    have pv: "packet (pbufs s) (Some v) (v # ws)" using packet_tail less.prems(4) v(1) by blast
    then have "poff' + nl < 65536" using v(3) by auto
    moreover have pr: "p \<noteq> r" using c less.prems(3) r(2) by auto
    moreover have "read_at (p, payload c) IP_HLEN (put r c0 ((pbufs s)\<lparr>ram := rs\<rparr>)) = Some hdr"
      using read_at_header [OF pk less.prems(3) l20 less.prems(2) hdr(2)] pr by (simp add: read_at_def)
    moreover have "netifs s nif = Some n" using less.prems(8) by (simp add: hop_ready_def)
    ultimately have step: "frag_loop env nif dest (p, payload c) ?nfb mf q poff (length bs) ofo k0 s
        = frag_loop env nif dest (p, payload c) ?nfb mf (Some v) (poff' + nl) (length (drop k bs)) (ofo + of_nat ?nfb) nl ?s"
      using al mir(1) c3(1,2) o(4) fr(2) False b(3) k(2) lb
      by (subst frag_loop.simps) (simp add: mm v(2) put_put k_def [symmetric])
    have "\<exists>fp' fo i w. frag_loop env nif dest (p, payload c) ?nfb mf (Some v) (poff' + nl) (length (drop k bs)) (ofo + of_nat ?nfb) nl ?s
        = Some (ERR_OK, ?s\<lparr>frag := (frag ?s)\<lparr>frag_pool := fp', frag_original := fo\<rparr>, etharp_cached_entry := i, driver := w\<rparr>)
      \<and> mset fp' = mset (frag_pool (frag ?s)) \<and> ready w
      \<and> line w = line (driver ?s) @ concat (map (\<lambda>f. encode (eth_frame mac (n_hwaddr n) ETHTYPE_IP f)) (fragments_of hdr ?l mf (ofo + of_nat ?nfb) (drop k bs)))"
    proof (rule less.hyps)
      show "length (drop k bs) < length bs" using k by simp
      show "frag_ready ?s p ps" by (rule frag_ready_after [OF less.prems(1) fr(1)])
      show "hop_ready ?s nif n src dest mac" by (rule hop_ready_after [OF less.prems(8) o(2)]) simp_all
      show "set (v # ws) \<subseteq> set (p # ps)" using less.prems(5) v(1) by auto
    qed (use less.prems(2,3) pv v(3,4) o(3) in simp_all)
    then obtain fp' fo' i' w' where
      rest: "frag_loop env nif dest (p, payload c) ?nfb mf (Some v) (poff' + nl) (length (drop k bs)) (ofo + of_nat ?nfb) nl ?s
          = Some (ERR_OK, s\<lparr>frag := (frag s)\<lparr>frag_pool := fp', frag_original := fo'\<rparr>, etharp_cached_entry := i', driver := w'\<rparr>)"
        "mset fp' = mset fp" "ready w'"
        "line w' = line w @ concat (map (\<lambda>f. encode (eth_frame mac (n_hwaddr n) ETHTYPE_IP f)) (fragments_of hdr ?l mf (ofo + of_nat ?nfb) (drop k bs)))" by auto
    have "fragments_of hdr ?l mf ofo bs = ?f # fragments_of hdr ?l mf (ofo + of_nat ?nfb) (drop k bs)"
      using False n(2) by (subst fragments_of.simps) (simp add: Let_def k_def)
    then show ?thesis using step rest o(5) fr(1) by auto
  qed
qed

text \<open>The whole function.\<close>

lemma frag_sends:
  assumes ready: "frag_ready s p ps" and hdr: "contents (pbufs s) (p # ps) = hdr @ bs" "length hdr = IP_HLEN" "take 4 (drop 12 hdr) = octets src"
    and ihl: "IPH_HL_BYTES (hdr ! 0) = IP_HLEN" and c: "cells (pbufs s) p = Some c" "IP_HLEN \<le> len c"
    and n: "hop_ready s nif n src dest mac" "IP_HLEN + 8 \<le> n_mtu n" "n_mtu n + 14 < 65536" "n_mtu n + 14 \<le> max_frame"
    and d: "ready (driver s)" and env: "netif_output env = etharp_output lo"
  shows "\<exists>fp fo i w. ip4_frag env p nif dest s = Some (ERR_OK, s\<lparr>frag := (frag s)\<lparr>frag_pool := fp, frag_original := fo\<rparr>, etharp_cached_entry := i, driver := w\<rparr>)
    \<and> mset fp = mset (frag_pool (frag s)) \<and> ready w
    \<and> line w = line (driver s) @ concat (map (\<lambda>f. encode (eth_frame mac (n_hwaddr n) ETHTYPE_IP f))
        (fragments_of hdr (n_mtu n) (iph_offset hdr AND IP_MF) (iph_offset hdr AND IP_OFFMASK) bs))"
proof -
  have pk: "packet (pbufs s) (Some p) (p # ps)" using ready by (simp add: frag_ready_def)
  then have ok: "cell_ok c" and tl: "tot_len c = plen (pbufs s) (p # ps)" "tot_len c < 65536" using c(1) by auto
  have lb: "sub16 (tot_len c) IP_HLEN = length bs"
    using tl length_contents [OF pk] hdr(2) unfolding hdr(1) by (simp del: plen_simps)
  have "take IP_HLEN (contents (pbufs s) (p # ps)) = take IP_HLEN (data_of c)" using c ok by simp
  then have h: "take IP_HLEN (data_of c) = hdr" unfolding hdr(1) using hdr(2) by simp
  have "take 1 hdr = take 1 (data_of c)" "take 2 (drop 6 hdr) = take 2 (drop 6 (data_of c))"
    unfolding h [symmetric] by (simp_all add: IP_HLEN_def drop_take)
  moreover have "rd c 0 1 = Some (take 1 (data_of c))" "rd c 6 2 = Some (take 2 (drop 6 (data_of c)))"
    using rd_ok [OF ok, of 0 1] rd_ok [OF ok, of 6 2] c(2) by (simp_all add: IP_HLEN_def)
  ultimately have rd: "rd c 0 1 = Some (take 1 hdr)" "rd c 6 2 = Some (take 2 (drop 6 hdr))" by simp_all
  have "take 1 hdr ! 0 = hdr ! 0" "take 2 (drop 6 hdr) ! 0 = hdr ! 6" "take 2 (drop 6 hdr) ! 1 = hdr ! 7"
    using hdr(2) by (simp_all add: IP_HLEN_def)
  then have "ip4_frag env p nif dest s = frag_loop env nif dest (p, payload c) (frag_blocks (n_mtu n)) (iph_offset hdr AND IP_MF) (Some p) IP_HLEN (length bs)
      (iph_offset hdr AND IP_OFFMASK) 0 s"
    using c rd ihl n(1) by (simp add: ip4_frag_def hop_ready_def iph_offset_def lb Let_def)
  moreover have "drop IP_HLEN (contents (pbufs s) (p # ps)) = bs" using hdr(1,2) by (simp del: contents_simps)
  moreover have "p # ps \<noteq> [] \<longrightarrow> IP_HLEN \<le> len (the (cells (pbufs s) (hd (p # ps))))" using c by simp
  ultimately show ?thesis using frag_loop_sends [OF ready hdr c pk order_refl _ _ n d env] by metis
qed

end

end
