(* ===== verification/Frag_Roundtrip.thy ===== *)
theory Frag_Roundtrip
  imports Frag_Send
begin

text \<open>
  Both sides of \<^verbatim>\<open>core/ipv4/ip4_frag.c\<close> together: what \<open>ip4_output_if_src\<close> sends of a datagram that is
  longer than the MTU, and that \<open>ip4_reass\<close> makes exactly that datagram of it, whatever the order of
  arrival. \<open>splits_cleanly\<close> is the condition under which the flags of the fragments are right.
\<close>

section \<open>The shape of the fragments\<close>

definition splits_cleanly :: "nat \<Rightarrow> nat \<Rightarrow> bool" where
  "splits_cleanly l n \<longleftrightarrow> n mod (8 * frag_blocks l) = 0 \<or> (l - IP_HLEN) mod 8 < n mod (8 * frag_blocks l)"

lemma splits_cleanly_drop: "8 * frag_blocks l \<le> n \<Longrightarrow> splits_cleanly l (n - 8 * frag_blocks l) = splits_cleanly l n"
  by (simp add: splits_cleanly_def le_mod_geq)

text \<open>A fragment is cut where the datagram goes on only if it is cut at the end of its room.\<close>

lemma cut_iff:
  assumes "IP_HLEN + 8 \<le> l" and "l < 65536" and "splits_cleanly l n"
  shows "8 * frag_blocks l < n \<longleftrightarrow> l - IP_HLEN < n"
proof -
  have b: "0 < frag_blocks l" "l - IP_HLEN = 8 * frag_blocks l + (l - IP_HLEN) mod 8" "(l - IP_HLEN) mod 8 < 8"
    using assms(1) frag_blocks_bounds(1) [OF assms(1,2)] by (simp_all add: frag_blocks_def)
  have "\<not> (8 * frag_blocks l < n \<and> n \<le> l - IP_HLEN)"
  proof
    assume n: "8 * frag_blocks l < n \<and> n \<le> l - IP_HLEN"
    then have "n - 8 * frag_blocks l < 8 * frag_blocks l" using b by linarith
    then have "n mod (8 * frag_blocks l) = n - 8 * frag_blocks l" using n by (simp add: le_mod_geq)
    then have "n - 8 * frag_blocks l = 0 \<or> (l - IP_HLEN) mod 8 < n - 8 * frag_blocks l" using assms(3) by (simp add: splits_cleanly_def)
    then show False using n b by linarith
  qed
  then show ?thesis using b by linarith
qed

lemma mf_bit: "(IP_OFFMASK AND w) AND IP_MF = 0" "(IP_OFFMASK AND w OR IP_MF) AND IP_MF \<noteq> 0"
proof -
  have "IP_OFFMASK AND IP_MF = 0" "IP_MF \<noteq> 0" by (simp_all add: IP_OFFMASK_def IP_MF_def)
  moreover have "(IP_OFFMASK AND w) AND IP_MF = (IP_OFFMASK AND IP_MF) AND w" by (simp only: ac_simps)
  moreover have "(IP_OFFMASK AND w OR IP_MF) AND IP_MF = IP_MF" by (simp add: bit_eq_iff bit_simps)
  ultimately show "(IP_OFFMASK AND w) AND IP_MF = 0" "(IP_OFFMASK AND w OR IP_MF) AND IP_MF \<noteq> 0" by simp_all
qed

lemma htons_and: "lwip_htons a AND lwip_htons b = lwip_htons (a AND b)"
  by (rule bit_word_eqI) (auto simp: bit_lwip_htons bit_simps)

lemma htons_0: "lwip_htons w = 0 \<longleftrightarrow> w = 0"
proof
  assume "lwip_htons w = 0"
  then have "lwip_htons (lwip_htons w) = lwip_htons 0" by simp
  then show "w = 0" by (simp add: lwip_htons_involution) (simp add: lwip_htons_def)
qed (simp add: lwip_htons_def)

text \<open>The fields of a fragment's header.\<close>

lemma fragment_header_fields:
  assumes "length hdr = 20"
  shows "key (fragment_header hdr tmp n) = key hdr" and "last_fragment (fragment_header hdr tmp n @ bs) \<longleftrightarrow> tmp AND IP_MF = 0"
    and "IPH_OFFSET_BYTES (fragment_header hdr tmp n) = (tmp AND IP_OFFMASK) * 8"
    and "whole_header (fragment_header hdr tmp n) m = fragment_header hdr 0 m"
    and "iph_len (fragment_header hdr tmp n) = of_nat n" and "fragment_header hdr tmp n ! 0 = hdr ! 0"
proof -
  from list_20 [OF assms] obtain b0 b1 b2 b3 b4 b5 b6 b7 b8 b9 b10 b11 zs where
    h: "hdr = [b0, b1, b2, b3, b4, b5, b6, b7, b8, b9, b10, b11] @ zs" and z: "length zs = 8" .
  have o: "le16 (store16 w ! 0) (store16 w ! 1) = w" for w by (rule le16_store16)
  show "key (fragment_header hdr tmp n) = key hdr" by (simp add: h key_def fragment_header_def Let_def store16_def)
  show "last_fragment (fragment_header hdr tmp n @ bs) \<longleftrightarrow> tmp AND IP_MF = 0"
    using o [of "lwip_htons tmp"] htons_and [of tmp IP_MF] htons_0 [of "tmp AND IP_MF"]
    by (simp add: h last_fragment_def fragment_header_def Let_def store16_def)
  show "IPH_OFFSET_BYTES (fragment_header hdr tmp n) = (tmp AND IP_OFFMASK) * 8"
    using o [of "lwip_htons tmp"] by (simp add: h IPH_OFFSET_BYTES_def iph_offset_def fragment_header_def Let_def store16_def lwip_htons_involution)
  show "whole_header (fragment_header hdr tmp n) m = fragment_header hdr 0 m"
    by (simp add: h whole_header_def fragment_header_def Let_def store16_def lwip_htons_def)
  show "iph_len (fragment_header hdr tmp n) = of_nat n"
    using o [of "lwip_htons (of_nat n)"] by (simp add: h iph_len_def fragment_header_def Let_def store16_def lwip_htons_involution)
  show "fragment_header hdr tmp n ! 0 = hdr ! 0" by (simp add: h fragment_header_def Let_def)
qed

lemma offset_field: "k < 8192 \<Longrightarrow> unat ((frag_field l (of_nat k) mf n AND IP_OFFMASK) * 8) = 8 * k"
proof -
  assume k: "k < 8192"
  have m: "IP_OFFMASK = mask 13" "IP_MF AND IP_OFFMASK = 0" by (simp_all add: IP_OFFMASK_def IP_MF_def mask_eq_exp_minus_1)
  have "frag_field l (of_nat k) mf n AND IP_OFFMASK = IP_OFFMASK AND of_nat k"
    using m(2) by (auto simp: frag_field_def Let_def bit_eq_iff bit_simps)
  also have "\<dots> = (of_nat k :: u16)"
  proof -
    have "IP_OFFMASK AND of_nat k = take_bit 13 (of_nat k :: u16)" unfolding m(1) by (simp add: take_bit_eq_mask and.commute)
    also have "\<dots> = of_nat (take_bit 13 k)" by (simp add: of_nat_take_bit)
    also have "take_bit 13 k = k" using k by (simp add: take_bit_nat_eq_self)
    finally show ?thesis .
  qed
  finally show ?thesis using k unat_of_nat_16 [of "k * 8"] by simp
qed

text \<open>
  Packets that are the fragments of \<open>bs\<close> from block \<open>k\<close> on, when the offsets of the records are those in the headers.
\<close>

definition shaped :: "bytes \<Rightarrow> nat \<Rightarrow> bytes \<Rightarrow> fragment list \<Rightarrow> bool" where
  "shaped hdr k bs xs \<longleftrightarrow> xs \<noteq> [] \<and> f_start (hd xs) = 8 * k \<and> no_holes xs \<and> concat (map f_data xs) = bs \<and> f_end (last xs) = 8 * k + length bs
     \<and> (\<forall>f \<in> set xs. f_data f \<noteq> [] \<and> key (f_hdr f) = key hdr \<and> (last_fragment (f_hdr f) \<longleftrightarrow> f_end f = 8 * k + length bs))
     \<and> (\<exists>t n. f_hdr (hd xs) = fragment_header hdr t n)"

lemma fragments_shaped:
  assumes "IP_HLEN + 8 \<le> l" and "l < 65536" and "length hdr = 20"
    and "map (\<lambda>f. f_hdr f @ f_data f) xs = fragments_of hdr l 0 (of_nat k) bs"
    and "\<forall>f \<in> set xs. length (f_hdr f) = 20 \<and> unat (IPH_OFFSET_BYTES (f_hdr f)) = f_start f"
    and "bs \<noteq> []" and "splits_cleanly l (length bs)" and "8 * k + length bs < 65536"
  shows "shaped hdr k bs xs"
  using assms(4-)
proof (induction "length bs" arbitrary: xs k bs rule: less_induct)
  case less
  define n where "n = min (length bs) (8 * frag_blocks l)"
  define t where "t = frag_field l (of_nat k) 0 (length bs)"
  note b = frag_blocks_bounds [OF assms(1,2)]
  have "fragments_of hdr l 0 (of_nat k) bs
      = (fragment_header hdr t (n + IP_HLEN) @ take n bs) # fragments_of hdr l 0 (of_nat (k + frag_blocks l)) (drop n bs)"
    using less.prems(3) assms(1) by (subst fragments_of.simps) (simp add: n_def t_def Let_def)
  then obtain f ys where f: "xs = f # ys" "f_hdr f @ f_data f = fragment_header hdr t (n + IP_HLEN) @ take n bs"
    and ys: "map (\<lambda>f. f_hdr f @ f_data f) ys = fragments_of hdr l 0 (of_nat (k + frag_blocks l)) (drop n bs)"
    using less.prems(1) by (cases xs) auto
  have "length (f_hdr f) = length (fragment_header hdr t (n + IP_HLEN))" using less.prems(2) f(1) assms(3) by simp
  then have h: "f_hdr f = fragment_header hdr t (n + IP_HLEN)" "f_data f = take n bs" using f(2) append_eq_append_conv by blast+
  have k: "k < 8192" using less.prems(3,5) by (cases bs) auto
  have st: "f_start f = 8 * k"
    using less.prems(2) f(1) offset_field [OF k, of l 0 "length bs"] by (simp add: h(1) fragment_header_fields(3) [OF assms(3)] t_def)
  have n: "0 < n" "n \<le> length bs" using less.prems(3) b(1) by (auto simp: n_def)
  have en: "f_end f = 8 * k + n" using st n(2) by (simp add: f_end_def h(2))
  have lst: "last_fragment (f_hdr f) \<longleftrightarrow> length bs \<le> 8 * frag_blocks l"
  proof -
    have "last_fragment (f_hdr f) \<longleftrightarrow> t AND IP_MF = 0" using fragment_header_fields(2) [OF assms(3), of t "n + IP_HLEN" "[]"] by (simp add: h(1))
    also have "\<dots> \<longleftrightarrow> \<not> l - IP_HLEN < length bs"
      using mf_bit assms(1) by (auto simp: t_def frag_field_def Let_def)
    finally show ?thesis using cut_iff [OF assms(1,2) less.prems(4)] by auto
  qed
  have f_ok: "f_data f \<noteq> []" "key (f_hdr f) = key hdr" using n by (auto simp: h fragment_header_fields(1) [OF assms(3)])
  show ?case
  proof (cases "length bs \<le> 8 * frag_blocks l")
    case True
    then have "n = length bs" by (simp add: n_def)
    moreover from this have "ys = []" using ys by (simp add: fragments_of.simps)
    ultimately show ?thesis using f(1) st en lst True f_ok h by (auto simp: shaped_def)
  next
    case False
    then have nb: "n = 8 * frag_blocks l" "n < length bs" by (simp_all add: n_def)
    have "shaped hdr (k + frag_blocks l) (drop n bs) ys"
    proof (rule less.hyps [OF _ ys])
      show "splits_cleanly l (length (drop n bs))" using less.prems(4) splits_cleanly_drop [of l "length bs"] nb by simp
    qed (use less.prems(2,5) f(1) n nb in auto)
    then have y: "ys \<noteq> []" "f_start (hd ys) = 8 * k + n" "no_holes ys" "concat (map f_data ys) = drop n bs" "f_end (last ys) = 8 * k + length bs"
      "\<forall>f \<in> set ys. f_data f \<noteq> [] \<and> key (f_hdr f) = key hdr \<and> (last_fragment (f_hdr f) \<longleftrightarrow> f_end f = 8 * k + length bs)"
      using nb by (simp_all add: shaped_def)
    have "no_holes (f # ys)" using y(1-3) en by (cases ys) auto
    then show ?thesis using f(1) st en lst False f_ok h y nb by (auto simp: shaped_def)
  qed
qed

lemma last_end_iff:
  assumes "queued xs" and "f \<in> set xs" and "f_data (last xs) \<noteq> []"
  shows "f_end f = f_end (last xs) \<longleftrightarrow> f = last xs"
proof (cases "f = last xs")
  case False
  obtain ys l where xs: "xs = ys @ [l]" using assms(2) by (cases xs rule: rev_cases) auto
  then have "before f l" using assms(1,2) False by (auto simp: queued_def sorted_wrt_append)
  then show ?thesis using xs False assms(3) by (auto simp: before_def f_end_def)
qed simp

lemma two_fragments:
  assumes "IP_HLEN + 8 \<le> l" and "l < 65536" and "8 * frag_blocks l < length bs"
  shows "2 \<le> length (fragments_of hdr l mf ofo bs)"
proof -
  have "bs \<noteq> []" "drop (8 * frag_blocks l) bs \<noteq> []" using assms(3) by auto
  then show ?thesis
    using assms(1,3) by (simp add: fragments_of.simps [of hdr l mf ofo bs] fragments_of.simps [of hdr l mf _ "drop (8 * frag_blocks l) bs"] Let_def)
qed

lemma fragments_whole:
  assumes "IP_HLEN + 8 \<le> l" and "l < 65536" and "length hdr = 20"
    and "map (\<lambda>f. f_hdr f @ f_data f) xs = fragments_of hdr l 0 0 bs"
    and "\<forall>f \<in> set xs. length (f_hdr f) = 20 \<and> unat (IPH_OFFSET_BYTES (f_hdr f)) = f_start f"
    and "splits_cleanly l (length bs)" and "l - IP_HLEN < length bs" and "IP_HLEN + length bs < 65536"
  shows "whole xs" and "concat (map f_data xs) = bs" and "key (f_hdr (hd xs)) = key hdr"
    and "whole_header (f_hdr (hd xs)) (f_end (last xs) + IP_HLEN) = fragment_header hdr 0 (IP_HLEN + length bs)"
proof -
  have big: "8 * frag_blocks l < length bs" using assms(7) cut_iff [OF assms(1,2,6)] by simp
  then have "bs \<noteq> []" by auto
  with fragments_shaped [OF assms(1-3), of xs 0 bs] assms(4-6,8) have sh: "shaped hdr 0 bs xs" by simp
  then have q: "queued xs" using no_holes_queued by (simp add: shaped_def)
  have two: "2 \<le> length xs" using two_fragments [OF assms(1,2) big, of hdr 0 0] arg_cong [OF assms(4), of length] by simp
  have "last xs \<in> set xs" "hd xs \<in> set xs" using sh by (simp_all add: shaped_def)
  then show k: "key (f_hdr (hd xs)) = key hdr" using sh by (simp add: shaped_def)
  have "last_fragment (f_hdr f) \<longleftrightarrow> f = last xs" if "f \<in> set xs" for f
    using sh that last_end_iff [OF q that] \<open>last xs \<in> set xs\<close> by (auto simp: shaped_def)
  then show "whole xs" using sh two k assms(8) by (auto simp: whole_def shaped_def)
  show "concat (map f_data xs) = bs" using sh by (simp add: shaped_def)
  show "whole_header (f_hdr (hd xs)) (f_end (last xs) + IP_HLEN) = fragment_header hdr 0 (IP_HLEN + length bs)"
    using sh fragment_header_fields(4) [OF assms(3)] by (auto simp: shaped_def add.commute)
qed

section \<open>A datagram that is too long for the MTU\<close>

text \<open>The header of a datagram as \<open>ip4_output_if_src\<close> makes it.\<close>

definition datagram_header :: "u32 \<Rightarrow> u32 \<Rightarrow> u8 \<Rightarrow> u8 \<Rightarrow> u8 \<Rightarrow> u16 \<Rightarrow> nat \<Rightarrow> bytes" where
  "datagram_header src dest ttl tos proto ident n =
     (let tlen = of_nat (IP_HLEN + n) in ip4_header (inet_chksum False (ip4_header 0 src dest ttl tos proto tlen ident)) src dest ttl tos proto tlen ident)"

lemma datagram_split: "ip4_datagram src dest ttl tos proto ident bs = datagram_header src dest ttl tos proto ident (length bs) @ bs"
  by (simp add: ip4_datagram_def datagram_header_def Let_def)

lemma datagram_header_fields:
  "length (datagram_header src dest ttl tos proto ident n) = 20"
  "take 4 (drop 12 (datagram_header src dest ttl tos proto ident n)) = octets src"
  "fragment_header (datagram_header src dest ttl tos proto ident n) 0 (IP_HLEN + n) = datagram_header src dest ttl tos proto ident n"
  "iph_offset (datagram_header src dest ttl tos proto ident n) = 0"
  "datagram_header src dest ttl tos proto ident n ! 0 = 0x45"
  by (simp_all add: datagram_header_def Let_def ip4_header_def store16_def octets_def fragment_header_def iph_offset_def le16_def lwip_htons_def)

text \<open>The datagram is still what it was, and so is the memory for fragments.\<close>

lemma frag_ready_header:
  assumes "frag_ready s p ps" and "room_for 0 p ps (put p c (pbufs s))"
  shows "frag_ready (s\<lparr>pbufs := put p c (pbufs s), ip_id := k\<rparr>) p ps"
proof -
  have pk: "packet (pbufs s) (Some p) (p # ps)" using assms(1) by (simp add: frag_ready_def)
  have c: "ref c = 1" "packet (put p c (pbufs s)) (Some p) (p # ps)" using assms(2) by (simp_all add: room_for_def)
  obtain r rs where r: "ram (pbufs s) = r # rs" "distinct (r # frag_pool (frag s))" "\<forall>x \<in> set (r # frag_pool (frag s)). cells (pbufs s) x = None"
    using assms(1) by (auto simp: frag_ready_def)
  have "cells (pbufs s) p \<noteq> None" using pk by auto
  then have "\<forall>x \<in> set (r # frag_pool (frag s)). cells (put p c (pbufs s)) x = None" using r(3) by auto
  moreover have "\<forall>a \<in> set (p # ps). 0 < ref (the (cells (put p c (pbufs s)) a)) \<and> ref (the (cells (put p c (pbufs s)) a)) < 255"
    using assms(1) c(1) by (auto simp: frag_ready_def)
  ultimately show ?thesis using assms(1) c(2) r(1,2) unfolding frag_ready_def by (auto simp del: packet.simps)
qed

context ether_driver
begin

lemma output_fragmented:
  fixes ttl tos proto :: u8
  assumes room: "room_for IP_HLEN p ps (pbufs s)" and fr: "frag_ready s p ps" and c: "cells (pbufs s) p = Some c" "flags c AND PBUF_FLAG_MCASTLOOP = 0"
    and n: "hop_ready s nif n src dest mac" "dest \<noteq> n_ip n" "IP_HLEN + 8 \<le> n_mtu n" "n_mtu n + 14 < 65536" "n_mtu n + 14 \<le> max_frame"
    and long: "n_mtu n < IP_HLEN + plen (pbufs s) (p # ps)" and d: "ready (driver s)"
    and env: "ip_env.ip4_frag env = ip4_frag lower" "netif_output lower = etharp_output lo"
  defines "bs \<equiv> contents (pbufs s) (p # ps)"
  defines "hdr \<equiv> datagram_header src dest ttl tos proto (ip_id s) (length bs)"
  shows "\<exists>t. ip4_output_if_src env p (Some src) (Some dest) ttl tos proto nif s = Some (ERR_OK, t) \<and> ready (driver t)
    \<and> line (driver t) = line (driver s) @ concat (map (\<lambda>f. encode (eth_frame mac (n_hwaddr n) ETHTYPE_IP f)) (fragments_of hdr (n_mtu n) 0 0 bs))
    \<and> packet (pbufs t) (Some p) (p # ps) \<and> contents (pbufs t) (p # ps) = hdr @ bs \<and> (\<forall>a. a \<noteq> p \<longrightarrow> cells (pbufs t) a = cells (pbufs s) a)
    \<and> free_cells (pbufs t) = free_cells (pbufs s) \<and> mset (frag_pool (frag t)) = mset (frag_pool (frag s))"
proof -
  have nn: "netifs s nif = Some n" using n(1) by (simp add: hop_ready_def)
  have "room_for (IP_HLEN + 0) p ps (pbufs s)" using room by simp
  from output_if_src_header [OF this nn n(2) c, of env src ttl tos proto] obtain c2 where
    c2: "ip4_output_if_src env p (Some src) (Some dest) ttl tos proto nif s = ip4_frag lower p nif dest (s\<lparr>pbufs := put p c2 (pbufs s), ip_id := ip_id s + 1\<rparr>)"
      "room_for 0 p ps (put p c2 (pbufs s))" "IP_HLEN \<le> len c2" "contents (put p c2 (pbufs s)) (p # ps) = hdr @ bs"
    using long n(3) env(1) unfolding bs_def hdr_def datagram_split by (auto simp: Let_def simp del: plen_simps contents_simps)
  let ?t = "s\<lparr>pbufs := put p c2 (pbufs s), ip_id := ip_id s + 1\<rparr>"
  note hf = datagram_header_fields [of src dest ttl tos proto "ip_id s" "length bs", folded hdr_def]
  have 1: "frag_ready ?t p ps" by (rule frag_ready_header [OF fr c2(2)])
  have 2: "contents (pbufs ?t) (p # ps) = hdr @ bs" "length hdr = IP_HLEN" "cells (pbufs ?t) p = Some c2" "ready (driver ?t)"
    using c2(4) hf(1) d by (simp_all add: IP_HLEN_def del: contents_simps)
  have 3: "hop_ready ?t nif n src dest mac" using n(1) by (simp add: hop_ready_def resolved_def arp_ok_def)
  have 4: "IPH_HL_BYTES (hdr ! 0) = IP_HLEN" unfolding hf(5) by (simp add: IPH_HL_BYTES_def IP_HLEN_def)
  from frag_sends [OF 1 2(1,2) hf(2) 4 2(3) c2(3) 3 n(3-5) 2(4) env(2)] obtain fp fo i w where
    w: "ip4_frag lower p nif dest ?t = Some (ERR_OK, ?t\<lparr>frag := (frag ?t)\<lparr>frag_pool := fp, frag_original := fo\<rparr>, etharp_cached_entry := i, driver := w\<rparr>)"
      "mset fp = mset (frag_pool (frag s))" "ready w"
      "line w = line (driver s) @ concat (map (\<lambda>f. encode (eth_frame mac (n_hwaddr n) ETHTYPE_IP f)) (fragments_of hdr (n_mtu n) 0 0 bs))"
    unfolding hf(4) by auto
  moreover have "packet (put p c2 (pbufs s)) (Some p) (p # ps)" using c2(2) by (simp add: room_for_def)
  moreover have "free_cells (put p c2 (pbufs s)) = free_cells (pbufs s)" by (simp add: free_cells_def)
  ultimately show ?thesis using c2(1,4)
    by (intro exI [of _ "?t\<lparr>frag := (frag ?t)\<lparr>frag_pool := fp, frag_original := fo\<rparr>, etharp_cached_entry := i, driver := w\<rparr>"])
      (simp del: packet.simps contents_simps)
qed

end

text \<open>
  C5. A datagram that is longer than the MTU leaves in fragments: \<open>ip4_output_if_src\<close> puts exactly the frames of
  \<open>fragments_of\<close> on the serial line, in their order, for every length and segmentation of the data.
  Afterwards the packet still holds the datagram, no other buffer has changed, and all buffers and custom references that were
  used for the fragments are free again.
\<close>

theorem long_datagram_fragmented:
  assumes "room_for IP_HLEN p ps (pbufs s)" and "frag_ready s p ps" and "cells (pbufs s) p = Some c" and "flags c AND PBUF_FLAG_MCASTLOOP = 0"
    and "hop_ready s nif n src dest mac" and "dest \<noteq> n_ip n" and "IP_HLEN + 8 \<le> n_mtu n" and "n_mtu n + 14 \<le> BUF_SIZE - 2"
    and "n_mtu n < IP_HLEN + plen (pbufs s) (p # ps)" and "host_ready (driver s)"
    and "ip_env.ip4_frag env = ip4_frag lower" and "netif_output lower = etharp_output (host_linkoutput tty_write)"
  shows "let bs = contents (pbufs s) (p # ps); hdr = datagram_header src dest ttl tos proto (ip_id s) (length bs) in
    \<exists>t. ip4_output_if_src env p (Some src) (Some dest) ttl tos proto nif s = Some (ERR_OK, t) \<and> host_ready (driver t)
    \<and> host_line (driver t) = host_line (driver s)
        @ concat (map (\<lambda>f. host_encode tty_write (eth_frame mac (n_hwaddr n) ETHTYPE_IP f)) (fragments_of hdr (n_mtu n) 0 0 bs))
    \<and> packet (pbufs t) (Some p) (p # ps) \<and> contents (pbufs t) (p # ps) = hdr @ bs \<and> (\<forall>a. a \<noteq> p \<longrightarrow> cells (pbufs t) a = cells (pbufs s) a)
    \<and> free_cells (pbufs t) = free_cells (pbufs s) \<and> mset (frag_pool (frag t)) = mset (frag_pool (frag s))"
  using host_driver.output_fragmented [OF assms(1-7) _ assms(8-12), where ttl = ttl and tos = tos and proto = proto] assms(8) by (simp only: Let_def BUF_SIZE_def)

text \<open>
  C6. The round trip. If the MTU divides the data so that no fragment but the last claims to be the last
  (\<open>splits_cleanly\<close>), then packets that are the fragments sent for a datagram, arriving in any order and in any number of buffers each,
  become one packet: byte for byte the datagram that was sent, header and checksum included.
\<close>

theorem fragmentation_roundtrip:
  assumes "IP_HLEN + 8 \<le> l" and "l < 65536" and "l - IP_HLEN < length bs" and "IP_HLEN + length bs < 65536" and "splits_cleanly l (length bs)"
    and "map (\<lambda>f. f_hdr f @ f_data f) xs = fragments_of (datagram_header src dest ttl tos proto ident (length bs)) l 0 0 bs"
    and "\<forall>f \<in> set xs. arrives (pbufs s) f (f_hdr f)" and "distinct (all_cells xs)" and "mset ps = mset xs"
    and "reass_pool (frag s) = r # free" and "distinct (r # reassdatagrams (frag s))"
    and "\<forall>b \<in> set (reassdatagrams (frag s)). \<exists>d. reass_store (frag s) b = Some d
      \<and> key (r_iphdr d) \<noteq> key (datagram_header src dest ttl tos proto ident (length bs))"
    and "ip_reass_pbufcount (frag s) + length (all_cells xs) \<le> IP_REASS_MAX_PBUFS"
  shows "\<exists>h. reass_all env (map f_addr ps) s = Some (replicate (length ps - 1) None @ [Some (f_addr (hd xs))], final_state s r h)
    \<and> packet h (Some (f_addr (hd xs))) (all_cells xs) \<and> contents h (all_cells xs) = ip4_datagram src dest ttl tos proto ident bs
    \<and> (\<forall>a. a \<notin> set (all_cells xs) \<longrightarrow> cells h a = cells (pbufs s) a)"
proof -
  have f: "\<forall>f \<in> set xs. length (f_hdr f) = 20 \<and> unat (IPH_OFFSET_BYTES (f_hdr f)) = f_start f" using assms(7) by (simp add: arrives_def IP_HLEN_def)
  note w = fragments_whole [OF assms(1,2) datagram_header_fields(1) assms(6) f assms(5,3,4)]
  have "ready_for s xs r free" using assms(8,10-13) w(1,3) by (simp add: ready_for_def)
  from fragments_collected [OF this assms(7,9), of env] show ?thesis
    unfolding w(2,4) datagram_header_fields(3) delivered_def only_cells_def datagram_split by blast
qed

section \<open>The flags\<close>

lemma not_cleanly:
  assumes "IP_HLEN + 8 \<le> l" and "l < 65536" and "8 * frag_blocks l < n" and "n \<le> 16 * frag_blocks l"
  shows "splits_cleanly l n \<longleftrightarrow> l - IP_HLEN < n"
proof -
  have b: "0 < frag_blocks l" "l - IP_HLEN = 8 * frag_blocks l + (l - IP_HLEN) mod 8" "(l - IP_HLEN) mod 8 < 8"
    using assms(1) frag_blocks_bounds(1) [OF assms(1,2)] by (simp_all add: frag_blocks_def)
  show ?thesis
  proof (cases "n = 16 * frag_blocks l")
    case True
    moreover have "16 * frag_blocks l mod (8 * frag_blocks l) = 0"
      using mod_mult_self1_is_0 [of "8 * frag_blocks l" 2] by (simp add: mult.assoc mult.left_commute)
    ultimately show ?thesis using b by (simp add: splits_cleanly_def)
  next
    case False
    then have "n - 8 * frag_blocks l < 8 * frag_blocks l" using assms(4) by linarith
    then have "n mod (8 * frag_blocks l) = n - 8 * frag_blocks l" using assms(3) by (simp add: le_mod_geq)
    then show ?thesis using assms(3) b by (auto simp: splits_cleanly_def)
  qed
qed

lemma flags_by_length:
  assumes "IP_HLEN + 8 \<le> l" and "l < 65536" and "length hdr = 20" and "8 * frag_blocks l < length bs"
  shows "(\<forall>f \<in> set (butlast (fragments_of hdr l 0 ofo bs)). \<not> last_fragment f) \<longleftrightarrow> splits_cleanly l (length bs)"
  using assms(4)
proof (induction "length bs" arbitrary: ofo bs rule: less_induct)
  case less
  let ?n = "8 * frag_blocks l" and ?t = "frag_field l ofo 0 (length bs)"
  let ?rest = "fragments_of hdr l 0 (ofo + of_nat (frag_blocks l)) (drop ?n bs)"
  have b: "0 < frag_blocks l" "l - IP_HLEN < ?n + 8" using assms(1) frag_blocks_bounds(1) [OF assms(1,2)] by (simp_all add: frag_blocks_def)
  have bs: "bs \<noteq> []" "drop ?n bs \<noteq> []" using less.prems by auto
  have fr: "fragments_of hdr l 0 ofo bs = (fragment_header hdr ?t (?n + IP_HLEN) @ take ?n bs) # ?rest"
    using bs(1) assms(1) less.prems by (subst fragments_of.simps) (simp add: Let_def)
  have ne: "?rest \<noteq> []" using bs(2) assms(1) by (subst fragments_of.simps) (simp add: Let_def)
  have first: "last_fragment (fragment_header hdr ?t (?n + IP_HLEN) @ take ?n bs) \<longleftrightarrow> \<not> l - IP_HLEN < length bs"
    using fragment_header_fields(2) [OF assms(3)] mf_bit assms(1) by (auto simp: frag_field_def Let_def)
  show ?case
  proof (cases "length bs \<le> 16 * frag_blocks l")
    case True
    then have "length (drop ?n bs) \<le> ?n" by simp
    then have "length ?rest = 1" using bs(2) assms(1) by (subst fragments_of.simps, simp add: Let_def) (simp add: fragments_of.simps)
    then have "butlast ?rest = []" by (cases ?rest) auto
    then show ?thesis using fr ne first not_cleanly [OF assms(1,2) less.prems True] by simp
  next
    case False
    then have "l - IP_HLEN < length bs" using b by linarith
    moreover have "(\<forall>f \<in> set (butlast ?rest). \<not> last_fragment f) \<longleftrightarrow> splits_cleanly l (length (drop ?n bs))"
      by (rule less.hyps) (use False less.prems b in simp_all)
    moreover have "splits_cleanly l (length (drop ?n bs)) = splits_cleanly l (length bs)" using splits_cleanly_drop [of l "length bs"] less.prems by simp
    ultimately show ?thesis using fr ne first by simp
  qed
qed

lemma fragments_data:
  assumes "IP_HLEN + 8 \<le> l" and "l < 65536" and "length hdr = 20"
  shows "concat (map (drop IP_HLEN) (fragments_of hdr l mf ofo bs)) = bs"
proof (induction "length bs" arbitrary: ofo bs rule: less_induct)
  case less
  then show ?case using frag_blocks_bounds(1) [OF assms(1,2)] assms
    by (subst fragments_of.simps) (simp add: Let_def IP_HLEN_def min_def)
qed

text \<open>
  C23. When the flags are wrong. The fragments of a datagram that is longer than the MTU carry its data, in order,
  and all but the last have the more-fragments flag if and only if the data splits cleanly. Otherwise (the MTU less twenty is
  not a multiple of eight, and what remains behind the last but one fragment is at most that excess) a
  fragment that is not the last is sent as the last, and the receiver takes the datagram for complete without its end.
\<close>

theorem more_fragments_flag_iff:
  assumes "room_for IP_HLEN p ps (pbufs s)" and "frag_ready s p ps" and "cells (pbufs s) p = Some c" and "flags c AND PBUF_FLAG_MCASTLOOP = 0"
    and "hop_ready s nif n src dest mac" and "dest \<noteq> n_ip n" and "IP_HLEN + 8 \<le> n_mtu n" and "n_mtu n + 14 \<le> BUF_SIZE - 2"
    and "n_mtu n < IP_HLEN + plen (pbufs s) (p # ps)" and "host_ready (driver s)"
    and "ip_env.ip4_frag env = ip4_frag lower" and "netif_output lower = etharp_output (host_linkoutput tty_write)"
  shows "\<exists>t fs. ip4_output_if_src env p (Some src) (Some dest) ttl tos proto nif s = Some (ERR_OK, t)
    \<and> host_line (driver t) = host_line (driver s) @ concat (map (\<lambda>f. host_encode tty_write (eth_frame mac (n_hwaddr n) ETHTYPE_IP f)) fs)
    \<and> concat (map (drop IP_HLEN) fs) = contents (pbufs s) (p # ps)
    \<and> ((\<forall>f \<in> set (butlast fs). \<not> last_fragment f) \<longleftrightarrow> splits_cleanly (n_mtu n) (plen (pbufs s) (p # ps)))"
proof -
  let ?bs = "contents (pbufs s) (p # ps)"
  let ?fs = "fragments_of (datagram_header src dest ttl tos proto (ip_id s) (length ?bs)) (n_mtu n) 0 0 ?bs"
  have l: "n_mtu n + 14 < 65536" "n_mtu n < 65536" using assms(8) by (simp_all add: BUF_SIZE_def)
  have lb: "length ?bs = plen (pbufs s) (p # ps)" by (rule length_contents [of _ "Some p"]) (use assms(1) in \<open>simp add: room_for_def\<close>)
  then have "8 * frag_blocks (n_mtu n) < length ?bs" using frag_blocks_bounds(2) [OF assms(7) l(2)] assms(9) by linarith
  note fl = flags_by_length [OF assms(7) l(2) datagram_header_fields(1) this, of src dest ttl tos proto "ip_id s" "length ?bs" 0]
    fragments_data [OF assms(7) l(2) datagram_header_fields(1), of src dest ttl tos proto "ip_id s" "length ?bs" 0 0 ?bs]
  from host_driver.output_fragmented [OF assms(1-7) l(1) assms(8-12), where ttl = ttl and tos = tos and proto = proto] show ?thesis
    using fl unfolding lb [symmetric] by blast
qed

section \<open>Examples\<close>

text \<open>Data over an interface with a small MTU.\<close>

definition demo_narrow :: "nat \<Rightarrow> bytes \<Rightarrow> (bytes \<times> uart) net" where
  "demo_narrow l bs = demo_sender\<lparr>netifs := (netifs demo_sender)(0 \<mapsto> demo_netif\<lparr>n_mtu := l\<rparr>),
     pbufs := sample_heap\<lparr>cells := [4 \<mapsto> pbuf_init_alloced_pbuf (replicate 54 0 @ bs) 54 (length bs) (length bs) PBUF_RAM 0],
       ram := [20], ram_fits := (\<lambda>_. True)\<rparr>\<rparr>"

lemma demo_narrow_facts:
  assumes "length bs < 1000"
  shows "room_for IP_HLEN 4 [] (pbufs (demo_narrow l bs))" "frag_ready (demo_narrow l bs) 4 []"
    "\<exists>c. cells (pbufs (demo_narrow l bs)) 4 = Some c \<and> flags c AND PBUF_FLAG_MCASTLOOP = 0"
    "hop_ready (demo_narrow l bs) 0 (demo_netif\<lparr>n_mtu := l\<rparr>) 0x0100a8c0 0x0200a8c0 [2, 0, 0, 0, 0, 2]" "host_ready (driver (demo_narrow l bs))"
    "host_line (driver (demo_narrow l bs)) = []" "contents (pbufs (demo_narrow l bs)) [4] = bs" "plen (pbufs (demo_narrow l bs)) [4] = length bs"
    "ip_id (demo_narrow l bs) = 0"
proof -
  show room: "room_for IP_HLEN 4 [] (pbufs (demo_narrow l bs))" "contents (pbufs (demo_narrow l bs)) [4] = bs" "plen (pbufs (demo_narrow l bs)) [4] = length bs"
    "\<exists>c. cells (pbufs (demo_narrow l bs)) 4 = Some c \<and> flags c AND PBUF_FLAG_MCASTLOOP = 0"
    using assms by (simp_all add: demo_narrow_def room_for_def pbuf_init_alloced_pbuf_def cell_ok_def data_of_def IP_HLEN_def FLAG_CONTIGUOUS_def)
  have fp: "frag_pool (frag (demo_narrow l bs)) = [51, 52, 53]" by (simp add: demo_narrow_def demo_sender_def demo_host_def frag_start_def demo_net_def)
  show "frag_ready (demo_narrow l bs) 4 []"
    using fp room(1) by (simp add: frag_ready_def room_for_def) (simp add: demo_narrow_def pbuf_init_alloced_pbuf_def)
  have r: "resolved 0 0x0200a8c0 [2, 0, 0, 0, 0, 2] (demo_narrow l bs)" by (rule demo_resolved) (simp_all add: demo_narrow_def)
  have a: "host_addr (demo_netif\<lparr>n_mtu := l\<rparr>) 0x0200a8c0" "hop_of (demo_netif\<lparr>n_mtu := l\<rparr>) 0x0100a8c0 0x0200a8c0 = Some 0x0200a8c0"
  proof -
    have "host_addr (demo_netif\<lparr>n_mtu := l\<rparr>) a = host_addr demo_netif a" for a by (simp add: host_addr_def if_of_def)
    then show "host_addr (demo_netif\<lparr>n_mtu := l\<rparr>) 0x0200a8c0" using demo_addresses by simp
    have "hop_of (demo_netif\<lparr>n_mtu := l\<rparr>) a b = hop_of demo_netif a b" for a b by (simp add: hop_of_def)
    then show "hop_of (demo_netif\<lparr>n_mtu := l\<rparr>) 0x0100a8c0 0x0200a8c0 = Some 0x0200a8c0" using demo_addresses by simp
  qed
  show "hop_ready (demo_narrow l bs) 0 (demo_netif\<lparr>n_mtu := l\<rparr>) 0x0100a8c0 0x0200a8c0 [2, 0, 0, 0, 0, 2]"
    using r a by (simp add: hop_ready_def ether_netif_def ETH_HWADDR_LEN_def NETIF_FLAG_ETHARP_def) (simp add: demo_narrow_def)
  show "host_ready (driver (demo_narrow l bs))" "host_line (driver (demo_narrow l bs)) = []" "ip_id (demo_narrow l bs) = 0"
    by (simp_all add: demo_narrow_def demo_sender_ok) (simp add: demo_sender_def demo_host_def demo_net_def)
qed

lemma demo_frag_env:
  "ip_env.ip4_frag (demo_env\<lparr>ip_env.ip4_frag := ip4_frag demo_env\<rparr>) = ip4_frag demo_env" "netif_output demo_env = etharp_output (host_linkoutput (\<lambda>xs. xs))"
  by (simp_all add: demo_env_def)

text \<open>Ten bytes with an MTU of 28 leave in two fragments.\<close>

definition demo_sent :: "bytes list" where
  "demo_sent = fragments_of (datagram_header 0x0100a8c0 0x0200a8c0 64 0 17 0 10) 28 0 0 [1, 2, 3, 4, 5, 6, 7, 8, 9, 10]"

theorem long_datagram_fragmented_witness:
  "\<exists>t. ip4_output_if_src (demo_env\<lparr>ip_env.ip4_frag := ip4_frag demo_env\<rparr>) 4 (Some 0x0100a8c0) (Some 0x0200a8c0) 64 0 17 0
      (demo_narrow 28 [1, 2, 3, 4, 5, 6, 7, 8, 9, 10]) = Some (ERR_OK, t)
    \<and> host_line (driver t) = concat (map (\<lambda>f. host_encode (\<lambda>xs. xs) (eth_frame [2, 0, 0, 0, 0, 2] [2, 0, 0, 0, 0, 1] ETHTYPE_IP f)) demo_sent)
    \<and> length demo_sent = 2"
proof -
  let ?bs = "[1, 2, 3, 4, 5, 6, 7, 8, 9, 10] :: bytes" and ?n = "demo_netif\<lparr>n_mtu := 28\<rparr>"
  have l: "length ?bs = 10" "length ?bs < 1000" by simp_all
  note f = demo_narrow_facts [OF l(2), of 28]
  obtain c where c: "cells (pbufs (demo_narrow 28 ?bs)) 4 = Some c" "flags c AND PBUF_FLAG_MCASTLOOP = 0" using f(3) by blast
  have m: "0x0200a8c0 \<noteq> n_ip ?n" "IP_HLEN + 8 \<le> n_mtu ?n" "n_mtu ?n + 14 \<le> BUF_SIZE - 2" "n_mtu ?n < IP_HLEN + plen (pbufs (demo_narrow 28 ?bs)) [4]"
    using f(8) by (simp_all add: IP_HLEN_def BUF_SIZE_def)
  have "length demo_sent = 2" by (simp add: demo_sent_def fragments_of.simps IP_HLEN_def frag_blocks_def Let_def)
  then show ?thesis
    using long_datagram_fragmented [OF f(1,2) c f(4) m f(5) demo_frag_env, of 64 0 17] unfolding f(6,7,9) Let_def demo_sent_def l(1) by auto
qed

text \<open>Eighteen bytes with an MTU of 30: the second of three fragments claims to be the last.\<close>

theorem more_fragments_flag_iff_witness:
  "\<exists>t fs. ip4_output_if_src (demo_env\<lparr>ip_env.ip4_frag := ip4_frag demo_env\<rparr>) 4 (Some 0x0100a8c0) (Some 0x0200a8c0) 64 0 17 0
      (demo_narrow 30 (replicate 18 7)) = Some (ERR_OK, t)
    \<and> host_line (driver t) = concat (map (\<lambda>f. host_encode (\<lambda>xs. xs) (eth_frame [2, 0, 0, 0, 0, 2] [2, 0, 0, 0, 0, 1] ETHTYPE_IP f)) fs)
    \<and> (\<exists>f \<in> set (butlast fs). last_fragment f)"
proof -
  let ?bs = "replicate 18 7 :: bytes" and ?n = "demo_netif\<lparr>n_mtu := 30\<rparr>"
  have l: "length ?bs = 18" "length ?bs < 1000" by simp_all
  note f = demo_narrow_facts [OF l(2), of 30]
  obtain c where c: "cells (pbufs (demo_narrow 30 ?bs)) 4 = Some c" "flags c AND PBUF_FLAG_MCASTLOOP = 0" using f(3) by blast
  have m: "0x0200a8c0 \<noteq> n_ip ?n" "IP_HLEN + 8 \<le> n_mtu ?n" "n_mtu ?n + 14 \<le> BUF_SIZE - 2" "n_mtu ?n < IP_HLEN + plen (pbufs (demo_narrow 30 ?bs)) [4]"
    using f(8) by (simp_all add: IP_HLEN_def BUF_SIZE_def)
  have nc: "\<not> splits_cleanly 30 18" by (simp add: splits_cleanly_def frag_blocks_def IP_HLEN_def)
  have "n_mtu ?n = 30" "n_hwaddr ?n = [2, 0, 0, 0, 0, 1]" by simp_all
  then show ?thesis
    using more_fragments_flag_iff [OF f(1,2) c f(4) m f(5) demo_frag_env, of 64 0 17] nc unfolding f(6,8) l(1) by auto
qed

text \<open>These two fragments arrive in the wrong order.\<close>

definition demo_hdr :: bytes where
  "demo_hdr = datagram_header 0x0100a8c0 0x0200a8c0 64 0 17 0 10"

definition demo_piece :: "nat \<Rightarrow> nat \<Rightarrow> u16 \<Rightarrow> bytes \<Rightarrow> fragment" where
  "demo_piece a start tmp bs = (let n = 20 + length bs; hdr = fragment_header demo_hdr tmp n in
     \<lparr>f_cells = [a], f_start = start, f_data = bs, f_hdr = hdr, f_head = pbuf_init_alloced_pbuf (replicate 14 0 @ hdr @ bs) 14 n n PBUF_POOL 0\<rparr>)"

definition demo_pieces :: "fragment list" where
  "demo_pieces = [demo_piece 11 0 0x2000 [1, 2, 3, 4, 5, 6, 7, 8], demo_piece 12 8 1 [9, 10]]"

definition demo_receiver :: "(bytes \<times> uart) net" where
  "demo_receiver = demo_ping\<lparr>pbufs := sample_heap\<lparr>cells := [11 \<mapsto> f_head (demo_pieces ! 0), 12 \<mapsto> f_head (demo_pieces ! 1)]\<rparr>\<rparr>"

lemma demo_piece_arrives:
  assumes "cells h a = Some (f_head (demo_piece a start tmp bs))" and "0 < a" and "a < 100" and "length bs < 100" and "unat ((tmp AND IP_OFFMASK) * 8) = start"
  shows "arrives h (demo_piece a start tmp bs) (f_hdr (demo_piece a start tmp bs))"
proof -
  have l: "length demo_hdr = 20" "demo_hdr ! 0 = 0x45" by (simp_all add: demo_hdr_def datagram_header_fields)
  then have "length (fragment_header demo_hdr tmp (20 + length bs)) = 20" by simp
  then show ?thesis using assms l(2)
    by (simp add: arrives_def demo_piece_def Let_def f_addr_def ptr_ok_def sole_def releasable_def cell_ok_def data_of_def pbuf_init_alloced_pbuf_def cell_kept_def
      fragment_header_fields [OF l(1)] IPH_HL_BYTES_def IP_HLEN_def)
qed

theorem fragmentation_roundtrip_witness:
  "\<exists>h. reass_all demo_env [12, 11] demo_receiver = Some ([None, Some 11], final_state demo_receiver 1 h)
    \<and> contents h [11, 12] = ip4_datagram 0x0100a8c0 0x0200a8c0 64 0 17 0 [1, 2, 3, 4, 5, 6, 7, 8, 9, 10]"
proof -
  let ?bs = "[1, 2, 3, 4, 5, 6, 7, 8, 9, 10] :: bytes"
  have b: "IP_HLEN + 8 \<le> 28" "(28 :: nat) < 65536" "28 - IP_HLEN < length ?bs" "IP_HLEN + length ?bs < 65536" "splits_cleanly 28 (length ?bs)"
    by (simp_all add: IP_HLEN_def splits_cleanly_def frag_blocks_def)
  have l: "length ?bs = 10" by simp
  have m: "map (\<lambda>f. f_hdr f @ f_data f) demo_pieces = fragments_of (datagram_header 0x0100a8c0 0x0200a8c0 64 0 17 0 (length ?bs)) 28 0 0 ?bs"
    unfolding l by (simp add: demo_pieces_def demo_piece_def demo_hdr_def fragments_of.simps frag_blocks_def frag_field_def IP_HLEN_def IP_OFFMASK_def IP_MF_def Let_def)
  have a: "\<forall>f \<in> set demo_pieces. arrives (pbufs demo_receiver) f (f_hdr f)"
    using demo_piece_arrives [where h = "pbufs demo_receiver" and a = 11 and start = 0 and tmp = "0x2000" and bs = "[1, 2, 3, 4, 5, 6, 7, 8]"] 
      demo_piece_arrives [where h = "pbufs demo_receiver" and a = 12 and start = 8 and tmp = 1 and bs = "[9, 10]"]
    by (simp add: demo_pieces_def demo_receiver_def IP_OFFMASK_def)
  have p: "mset (rev demo_pieces) = mset demo_pieces" "distinct (all_cells demo_pieces)" "all_cells demo_pieces = [11, 12]" "map f_addr (rev demo_pieces) = [12, 11]"
    "f_addr (hd demo_pieces) = 11" "length (rev demo_pieces) = 2"
    by (simp_all add: demo_pieces_def demo_piece_def Let_def f_addr_def)
  have f: "reass_pool (frag demo_receiver) = 1 # [2, 3, 4, 5]" "reassdatagrams (frag demo_receiver) = []" "ip_reass_pbufcount (frag demo_receiver) = 0"
    by (simp_all add: demo_receiver_def demo_ping_def demo_sender_def demo_host_def demo_net_def frag_start_def)
  show ?thesis
    using fragmentation_roundtrip [OF b m a p(2,1) f(1), of demo_env] f(2,3) p(3-6) by (simp add: IP_REASS_MAX_PBUFS_def del: contents_simps) blast
qed

end
