(* ===== verification/Spec2Isabelle.thy ===== *)
theory Spec2Isabelle
  imports Host_Main Firmware Lwip_Timeouts Udp Frag_Roundtrip
begin

text \<open>
  \<^bold>\<open>The program.\<close> \<open>ethoslip\<close> carries Ethernet frames over a serial line. A wireless module runs the
  firmware (\<^verbatim>\<open>src/src\<close>, \<^verbatim>\<open>src/inc\<close>): it receives SLIP packets from the line, checks them, answers
  control frames and hands all others to the radio (or to a UDP tunnel), and sends frames of the
  radio back over the line. On the host there are two programs: a bridge to a TAP device
  (\<^verbatim>\<open>src/tools/ethoslip_tun\<close>) and a user-space TCP/IP host (\<^verbatim>\<open>src/tools/ethoslip_lwip\<close>) that runs the
  lwIP stack on top of the same line protocol. The parts meet in a few interfaces: a character
  device below SLIP, packet buffers between the driver and the stack, a queue between the receiving
  thread and the main loop, and the driver's \<open>linkoutput\<close> below the Ethernet layer.

  \<^bold>\<open>Conventions.\<close> Machine integers are words (\<open>u8\<close>, \<open>u16\<close>, \<open>u32\<close>) or naturals with the wrap-around
  written out (\<open>u16\<close> and \<open>sub16\<close> for the \<open>u16_t\<close> fields of packet buffers); the host is little-endian.
  C state is a record passed along; global variables of a file are the fields of its record. A
  run-time error is a value: \<open>Fault\<close> of type \<open>outcome\<close> where memory is accessed out of range, and
  \<open>None\<close> in the lwIP parts, where it also stands for a failed \<open>LWIP_ASSERT\<close> or \<open>LWIP_ERROR\<close> (both abort in
  this build). Loops are structural recursion where possible; loops that may not end are
  \<open>partial_function (option)\<close>, and what is claimed of their results includes that they return.
  Code outside the repository (the SDK of the module, the tty) and function pointers are arguments
  of the definitions that use them.

  \<^bold>\<open>Theories.\<close>
  \<^item> \<open>Prelude\<close>: words, byte lists, \<open>blit\<close> (memcpy into a buffer), \<open>outcome\<close>.
  \<^item> \<open>Slip\<close> (\<^verbatim>\<open>slip.c\<close>): \<open>send_packet\<close> and \<open>recv_packet\<close> over an abstract device. The locales \<open>char_sink\<close> and
    \<open>char_source\<close> state what a device promises; framing, escaping and resynchronisation are proved in
    them once.
  \<^item> \<open>Host_Uart\<close> (\<^verbatim>\<open>uart2.c\<close> of the tools): buffered output, chunked input with read errors, baud rates;
    interprets both locales. Round trip over the line, truncation of long packets, replay after an error.
  \<^item> \<open>Frame_Checksum\<close> (\<open>if_api_calculate_checksum\<close>, \<open>if_api_check\<close>): the two check bytes, what they
    detect and what they miss.
  \<^item> \<open>Ring_Queue\<close> (\<^verbatim>\<open>queue.c\<close>): the ring buffer, refinement of a bounded list (locale \<open>bounded_fifo\<close>),
    and the pointer casts of its users.
  \<^item> \<open>Soft_Timer\<close> (\<^verbatim>\<open>soft_timer.c\<close>), \<open>Wlan_Api\<close> (\<^verbatim>\<open>wlan_api.c\<close> of the firmware and of the host).
  \<^item> \<open>Pbuf\<close>, \<open>Pbuf_Chain\<close>, \<open>Pbuf_Alloc\<close>, \<open>Pbuf_Packets\<close> (\<^verbatim>\<open>core/pbuf.c\<close>): cells in an explicit store with
    reference counts; \<open>packet h p as\<close> is a well-formed chain, \<open>contents h as\<close> its bytes. The heap allocator
    behind \<open>PBUF_RAM\<close> is a list of blocks it will hand out.
  \<^item> \<open>Ethoslipif\<close> (\<^verbatim>\<open>arch/ethoslipif.c\<close> and \<^verbatim>\<open>ethoslip_tun/main.c\<close>), \<open>Tunnel\<close> (\<^verbatim>\<open>tun.c\<close>), \<open>Firmware\<close>
    (\<^verbatim>\<open>slip2ip_task.c\<close>, \<^verbatim>\<open>uart2.c\<close>, \<^verbatim>\<open>main.c\<close> of the module), \<open>User_Main\<close> (\<^verbatim>\<open>user_main.c\<close>, the start-up as a
    step relation), \<open>Host_Main\<close> (\<^verbatim>\<open>ethoslip_main.c\<close>, both threads as rounds).
  \<^item> \<open>Lwip_Def\<close> (\<^verbatim>\<open>core/def.c\<close>), \<open>Ip4_Addr\<close> (\<^verbatim>\<open>core/ipv4/ip4_addr.c\<close>), \<open>Inet_Chksum\<close>
    (\<^verbatim>\<open>core/inet_chksum.c\<close>): byte order and text of addresses; the Internet checksum against a reference
    sum modulo 65535, independent of segmentation, alignment and byte swaps.
  \<^item> \<open>Lwip_Timeouts\<close> (\<^verbatim>\<open>core/timeouts.c\<close>): the sorted list of timeouts under a clock that wraps, and that
    every pass over it ends.
  \<^item> \<open>Ethernet\<close>, \<open>Etharp\<close>, \<open>Ethernet_Input\<close> (\<^verbatim>\<open>netif/ethernet.c\<close>, \<^verbatim>\<open>core/ipv4/etharp.c\<close>): frames, the
    ARP table with its timer, resolution and input. The locale \<open>ether_driver\<close> is the contract of a
    driver; the driver of \<open>Ethoslipif\<close> interprets it, so that what ARP sends is known down to the
    bytes on the serial line. \<open>arp_step\<close> is the relation of all calls, with the invariant \<open>arp_ok\<close>.
  \<^item> \<open>Netif_Loop\<close> (\<^verbatim>\<open>core/netif.c\<close>, loopback queue), \<open>Ip4\<close> and \<open>Ip4_Input\<close> (\<^verbatim>\<open>core/ipv4/ip4.c\<close>,
    \<^verbatim>\<open>core/ip.c\<close>), \<open>Icmp\<close> (\<^verbatim>\<open>core/ipv4/icmp.c\<close>): routing, the header with the checksum summed up while
    its fields are set, input with its checks, delivery, echo replies and error messages. The record
    \<open>ip_env\<close> holds what these layers call and this development does not model: the \<open>output\<close> function
    of the interface (instantiated by \<open>etharp_output\<close> in the properties), fragmentation, reassembly
    and the protocols above (\<open>Ip4_Frag\<close>, \<open>Ip4_Reass\<close> and \<open>Udp\<close> instantiate them), and the alignment of buffers. \<open>output_if_src_sends\<close> and
    \<open>ip4_input_delivers\<close> say what one side sends and the other delivers; composed with ARP, Ethernet
    and the driver they give the answer to ping down to the bytes on the line.
  \<^item> \<open>Ip4_Reass\<close> (\<^verbatim>\<open>core/ipv4/ip4_frag.c\<close>): reassembly. The entries, their pool and the counter of
    waiting buffers are the field \<open>frag\<close> of the state \<open>net\<close>; the links between fragments lie in the
    buffer memory, over the IP headers, and are read from and written to the bytes there
    (\<open>iprh_next\<close>, \<open>set_next\<close>; an address takes eight bytes). \<open>Frag_Queue\<close> gives the abstract view: a list
    of \<open>fragment\<close>s sorted by offset (\<open>linked\<close>, \<open>queued\<close>), in which \<open>chain_spec\<close> says that the code
    inserts or drops. \<open>Reassembly\<close>: every order of arrival gives the same packet; dropped
    fragments. \<open>Reass_Timeout\<close>: incomplete datagrams are freed when their timer has run down.
  \<^item> \<open>Ip4_Frag\<close> (the same file): fragmentation of sent datagrams with custom buffers that refer to the datagram.
    \<open>Frag_Send\<close>: it sends the fragments of the reference \<open>fragments_of\<close> and leaves the memory as it was.
    \<open>Frag_Roundtrip\<close>: the fragments reassemble to exactly the datagram, and when their flags are wrong.
  \<^item> \<open>Udp_Pcb\<close>, \<open>Udp\<close> (\<^verbatim>\<open>core/udp.c\<close>): control blocks with their list, pool and port counter (the field
    \<open>udp\<close> of the state \<open>net\<close>), the relation \<open>udp_step\<close> of all calls with the invariant \<open>udp_wf\<close>; input and
    output of datagrams. \<open>udp_env\<close> holds the callbacks (the pointer in a block is a number that
    \<open>recv_fn\<close> interprets) and what is called of IPv6. What is sent and what is delivered is again
    stated down to the frames.
  \<^item> This theory: a frame from the host program reaches the radio and one from the radio reaches
    the host's receive queue, through all layers in between.

  \<^bold>\<open>Bounds.\<close> Nothing is cut off by fuel. Times in \<open>Lwip_Timeouts\<close> are compared inside a window of 2^31
  milliseconds, which is where the comparison of the code is meaningful; handlers are assumed to
  return within 2^30 milliseconds of the base. Checksum theorems are for blocks below 65536 bytes,
  the range of \<open>u16_t\<close> lengths. Addresses of buffers in reassembly are positive and below 2^64, the
  range of the pointers stored in memory. \<open>reassembly_any_order\<close> is for datagrams that fit the limit of
  ten waiting buffers, so that nothing is freed to make room; \<open>waiting_fragments_expire\<close> is for
  datagrams without their first fragment (for the others the code first sends an ICMP message, which
  is part of the definitions).

  \<^bold>\<open>Not modelled.\<close> System calls (termios set-up in \<^verbatim>\<open>serial.c\<close>, signals, thread creation) and printing;
  the SDK of the module; in lwIP: statistics counters and debug output, \<open>pbuf_free_ooseq\<close> (it walks
  TCP connections), IGMP, DHCP, TCP, IPv6, the applications. The modelled
  layers take what they call of these as arguments. Parts of the vendored tree that the host program
  does not compile (sequential API, PPP) are out of scope.
\<close>

section \<open>Both ends of the line together\<close>

text \<open>A frame of at most 1997 bytes fits the transmit buffer whatever its bytes are.\<close>

lemma wire_fits:
  assumes "length bs \<le> 1997"
  shows "length (slip_frame (bs @ trailer bs)) \<le> QUEUE_MAX_NUM"
  using length_slip_encode [of "bs @ trailer bs"] assms by (simp add: slip_frame_def QUEUE_MAX_NUM_def)

lemma from_ap_input_sends:
  assumes "wire_law putc sent" and "sbuf_ok p" and "Tunnel.tot_len p + 2 \<le> Tunnel.BUF_SIZE" and "length buf = Tunnel.BUF_SIZE"
    and "\<not> skb_busy k"
  shows "\<exists>buf' d'. from_ap_input putc False k p (buf, d, freed) = Ok (buf', d', freed + 1)
    \<and> sent d' = sent d @ slip_frame (frame_of p @ trailer (frame_of p))"
proof -
  let ?f = "frame_of p"
  have n: "Tunnel.tot_len p = length ?f" using assms(2) by (simp add: sbuf_ok_def frame_of_def)
  let ?tail = "drop (length ?f + 2) buf"
  have "copy_to buf p = Ok (blit buf 0 ?f)" using assms(3,4) n by (simp add: copy_to_def)
  moreover have "if_api_calculate_checksum (blit buf 0 ?f) (length ?f) = Ok (length ?f + 2, (?f @ trailer ?f) @ ?tail)"
    using assms(3,4) n by (simp add: if_api_calculate_checksum_eq blit_def)
  moreover have "(length ?f + 2) mod 65536 = length (?f @ trailer ?f)"
    using assms(3) n by (simp add: Tunnel.BUF_SIZE_def)
  moreover obtain d' where "send_packet (fw_send_char putc) fw_send_char_do ((?f @ trailer ?f) @ ?tail)
      (int (length (?f @ trailer ?f))) d = Ok d'" "sent d' = sent d @ slip_frame (?f @ trailer ?f)"
    using fw_send_packet [OF assms(1)] by blast
  ultimately show ?thesis using assms(5) n by (simp add: from_ap_input_def)
qed



text \<open>
  C8. From the radio to the host. A frame of at most 1998 bytes that \<open>from_ap_input\<close> receives
  while no reply is being sent and the radio has buffers to spare is put on the line, the packet
  is freed, and the bridge at the other end delivers exactly its bytes, whatever follows.
\<close>

theorem radio_to_host:
  assumes "wire_law putc sent" and "sbuf_ok p" and "Tunnel.tot_len p \<le> 1998" and "length buf = Tunnel.BUF_SIZE" and "\<not> skb_busy k"
    and "rx_good r" and "incoming r = slip_frame (frame_of p @ trailer (frame_of p)) @ rest" and "length rbuf = Ethoslipif.BUF_SIZE"
  shows "\<exists>buf' d' rbuf' r'. from_ap_input putc False k p (buf, d, freed) = Ok (buf', d', freed + 1)
    \<and> sent d' = sent d @ slip_frame (frame_of p @ trailer (frame_of p))
    \<and> tap_slip_round (rbuf, r) = Some (Ok (Some (frame_of p), rbuf', r')) \<and> incoming r' = rest"
proof -
  have "length (frame_of p) = Tunnel.tot_len p" using assms(2) by (simp add: sbuf_ok_def frame_of_def)
  then show ?thesis
    using from_ap_input_sends [OF assms(1,2) _ assms(4,5), of d freed] tap_receives [OF assms(6,7) _ assms(8)] assms(3)
    by (fastforce simp: Tunnel.BUF_SIZE_def Ethoslipif.BUF_SIZE_def)
qed

theorem radio_to_host_witness:
  "\<exists>buf' d' rbuf' r'. from_ap_input demo_putc False
      \<lparr>skbbuf_used_num = 0, max_local_skb_num = 22, max_skb_buf_num = 20, skbdata_used_num = 0\<rparr>
      \<lparr>sbuf.tot_len = 2, segs = [[7], [0xC0]]\<rparr> (replicate 2000 0, (0, [], []), 0) = Ok (buf', d', 1)
    \<and> snd (snd d') = slip_frame ([7, 0xC0] @ trailer [7, 0xC0])
    \<and> tap_slip_round (replicate 4000 0, uart_start [Data (slip_frame ([7, 0xC0] @ trailer [7, 0xC0]))]) =
        Some (Ok (Some [7, 0xC0], rbuf', r'))"
proof -
  let ?w = "slip_frame ([7, 0xC0] @ trailer [7, 0xC0])"
  let ?k = "\<lparr>skbbuf_used_num = 0, max_local_skb_num = 22, max_skb_buf_num = 20, skbdata_used_num = 0\<rparr>"
  let ?p = "\<lparr>sbuf.tot_len = 2, segs = [[7], [0xC0]]\<rparr> :: sbuf"
  have f: "frame_of ?p = [7, 0xC0]" by (simp add: frame_of_def)
  have 1: "sbuf_ok ?p" "Tunnel.tot_len ?p \<le> 1998" "length (replicate 2000 (0 :: u8)) = Tunnel.BUF_SIZE" "\<not> skb_busy ?k"
    "length (replicate 4000 (0 :: u8)) = Ethoslipif.BUF_SIZE"
    by (simp_all add: sbuf_ok_def Tunnel.BUF_SIZE_def skb_busy_def Ethoslipif.BUF_SIZE_def)
  have w: "length ?w \<le> QUEUE_MAX_NUM" "?w \<noteq> []" using wire_fits [of "[7, 0xC0]"] by (simp_all add: slip_frame_def)
  then have r: "rx_good (uart_start [Data ?w])" by (intro rx_good_start) simp
  have i: "incoming (uart_start [Data ?w]) = ?w @ []" by simp
  from radio_to_host [OF demo_laws(2) 1(1-4) r, unfolded f, OF i 1(5), of "(0, [], [])" 0] show ?thesis
    by auto
qed

end
